(* ===== verification/Prelude.thy ===== *)
theory Prelude
  imports Main "HOL-Library.Word" "HOL-Library.Monad_Syntax"
begin

text \<open>
  Shared vocabulary of the development.

  \<^item> An address is a natural number and \<open>NULL\<close> is 0, as in the C program.
  \<^item> A C statement or function that can go wrong is a computation in the option monad:
    \<open>None\<close> is undefined behaviour (a dereference of \<open>NULL\<close>, a release of a block that is
    not allocated, a signed overflow) or a loop that never returns. A theorem that says a
    computation is \<open>Some\<close> therefore says that the code is memory safe and terminates.
  \<^item> Memory is kept per struct field, one map from addresses to values for each field, so that
    two fields never alias and two nodes alias exactly when their addresses are equal.
  \<^item> Machine integers that wrap are words.
\<close>

section \<open>Addresses and computations\<close>

type_synonym addr = nat
type_synonym u8 = "8 word"
type_synonym u32 = "32 word"
type_synonym u64 = "64 word"

abbreviation (input) NULL :: addr where
  "NULL \<equiv> 0"

text \<open>A read or a write through a pointer: undefined when the pointer is \<open>NULL\<close>.\<close>

definition deref :: "addr \<Rightarrow> 'a \<Rightarrow> 'a option" where
  "deref p v = (if p = NULL then None else Some v)"

named_theorems heap_simps \<open>symbolic execution of field reads and writes\<close>

lemma deref_Some [simp, heap_simps]: "p \<noteq> NULL \<Longrightarrow> deref p v = Some v"
  by (simp add: deref_def)

lemma deref_NULL [simp, heap_simps]: "deref NULL v = None"
  by (simp add: deref_def)

lemma deref_eq_Some: "deref p v = Some w \<longleftrightarrow> p \<noteq> NULL \<and> v = w"
  by (simp add: deref_def)

text \<open>The invariant rule for the loops of the program: a body that maps a computation on.\<close>

lemma bind_SomeI: "m = Some x \<Longrightarrow> f x = Some y \<Longrightarrow> Option.bind m f = Some y"
  by simp

section \<open>Lists\<close>

lemma last_notin_butlast: "distinct xs \<Longrightarrow> xs \<noteq> [] \<Longrightarrow> last xs \<notin> set (butlast xs)"
  by (induction xs rule: rev_induct) auto

lemma distinct_split:
  "xs @ x # ys = xs' @ x # ys' \<Longrightarrow> distinct (xs @ x # ys) \<Longrightarrow> xs = xs' \<and> ys = ys'"
proof (induction xs arbitrary: xs')
  case Nil
  then show ?case by (cases xs') auto
next
  case (Cons a xs)
  then show ?case by (cases xs') auto
qed

section \<open>Words\<close>

lemma unat_u64_bound: "unat (w :: u64) < 2 ^ 64"
proof -
  have "unat w < 2 ^ LENGTH(64)" by (rule unsigned_less)
  then show ?thesis by simp
qed

text \<open>The sign of a 64-bit word read as a signed number is its top bit.\<close>

lemma sint_u64_neg: "sint (w :: u64) < 0 \<longleftrightarrow> 2 ^ 63 \<le> unat w"
proof -
  have "sint w < 0 \<longleftrightarrow> bit w 63" using bit_last_iff [of w] by simp
  also have "\<dots> \<longleftrightarrow> bit (unat w) 63" by (simp add: bit_unsigned_iff)
  also have "\<dots> \<longleftrightarrow> odd (unat w div 2 ^ 63)" by (rule bit_iff_odd)
  also have "\<dots> \<longleftrightarrow> 2 ^ 63 \<le> unat w"
  proof -
    have "unat w div 2 ^ 63 < 2" using unat_u64_bound [of w] by (simp add: div_less_iff_less_mult)
    then show ?thesis by (cases "unat w div 2 ^ 63 = 0") (auto simp: div_eq_0_iff)
  qed
  finally show ?thesis .
qed

end
