(* ===== verification/Palloc.thy ===== *)
theory Palloc
  imports Prelude
begin

unbundle bit_operations_syntax

text \<open>
  The memory pools of \<^verbatim>\<open>src/palloc.c\<close> over the wrappers of \<^verbatim>\<open>src/alloc.c\<close>: a chain of equal
  blocks from which small pieces are cut by moving a pointer, and a list of large allocations of
  their own. The C library's allocator is a parameter \<open>libc\<close>: a function of the live blocks, the
  number of calls so far, the alignment and the size. \<open>live\<close> maps the start of every live block
  to its size; releasing an address that is not live, or reading the header of a pool block that
  is not live, is undefined.
\<close>

section \<open>Memory and the C library\<close>

record pmem =
  live :: "addr \<Rightarrow> nat option"
  mcalls :: nat
  bytes :: "addr \<Rightarrow> u8"
  d_last :: "addr \<Rightarrow> addr"
  d_end :: "addr \<Rightarrow> addr"
  d_next :: "addr \<Rightarrow> addr"
  d_failed :: "addr \<Rightarrow> u32"
  p_max :: "addr \<Rightarrow> nat"
  p_current :: "addr \<Rightarrow> addr"
  p_large :: "addr \<Rightarrow> addr"
  l_next :: "addr \<Rightarrow> addr"
  l_alloc :: "addr \<Rightarrow> addr"

type_synonym libc = "(addr \<Rightarrow> nat option) \<Rightarrow> nat \<Rightarrow> nat \<Rightarrow> nat \<Rightarrow> addr"

definition libc_alloc :: "libc \<Rightarrow> 'a pmem_scheme \<Rightarrow> nat \<Rightarrow> nat \<Rightarrow> 'a pmem_scheme \<times> addr" where
  "libc_alloc libc s al n =
    (let r = libc (live s) (mcalls s) al n; s = s\<lparr>mcalls := Suc (mcalls s)\<rparr>
     in if r = NULL then (s, NULL) else (s\<lparr>live := (live s)(r \<mapsto> n)\<rparr>, r))"

definition libc_free :: "'a pmem_scheme \<Rightarrow> addr \<Rightarrow> 'a pmem_scheme option" where
  "libc_free s p = (if p = NULL then Some s
     else if live s p = None then None else Some (s\<lparr>live := (live s)(p := None)\<rparr>))"

definition memset0 :: "'a pmem_scheme \<Rightarrow> addr \<Rightarrow> nat \<Rightarrow> 'a pmem_scheme" where
  "memset0 s p n = s\<lparr>bytes := (\<lambda>a. if p \<le> a \<and> a < p + n then 0 else bytes s a)\<rparr>"

section \<open>alloc.c\<close>

definition alloc :: "libc \<Rightarrow> 'a pmem_scheme \<Rightarrow> nat \<Rightarrow> 'a pmem_scheme \<times> addr" where
  "alloc libc s sz = libc_alloc libc s 16 sz"

definition zalloc :: "libc \<Rightarrow> 'a pmem_scheme \<Rightarrow> nat \<Rightarrow> 'a pmem_scheme \<times> addr" where
  "zalloc libc s sz = (let (s, p) = alloc libc s sz
     in if p \<noteq> NULL then (memset0 s p sz, p) else (s, p))"

definition memalign :: "libc \<Rightarrow> 'a pmem_scheme \<Rightarrow> nat \<Rightarrow> nat \<Rightarrow> 'a pmem_scheme \<times> addr" where
  "memalign libc s alignment sz = libc_alloc libc s alignment sz"

section \<open>palloc.c\<close>

definition MAX_ALLOC_FROM_POOL :: nat where "MAX_ALLOC_FROM_POOL = 4096 - 1"
definition ALIGNMENT :: nat where "ALIGNMENT = 8"
definition POOL_ALIGNMENT :: nat where "POOL_ALIGNMENT = 16"

text \<open>\<open>sizeof\<close> of the structures on LP64.\<close>

definition sizeof_pool :: nat where "sizeof_pool = 56"
definition sizeof_pool_data :: nat where "sizeof_pool_data = 32"
definition sizeof_pool_large :: nat where "sizeof_pool_large = 16"

text \<open>The macros \<open>align_ptr\<close> and \<open>align\<close>, on 64-bit words.\<close>

definition align_ptr :: "addr \<Rightarrow> nat \<Rightarrow> addr" where
  "align_ptr p a = unat ((of_nat p + (of_nat a - 1)) AND NOT (of_nat a - 1) :: u64)"

definition MIN_POOL_SIZE :: nat where
  "MIN_POOL_SIZE = align_ptr (sizeof_pool + 2 * sizeof_pool_large) POOL_ALIGNMENT"

text \<open>\<open>(size_t)(a - b)\<close> of two pointers, and \<open>size_t\<close> subtraction.\<close>

definition usub :: "nat \<Rightarrow> nat \<Rightarrow> nat" where
  "usub a b = unat (of_nat a - of_nat b :: u64)"

text \<open>Access to the header of a pool block: the block must be live.\<close>

definition hdr :: "'a pmem_scheme \<Rightarrow> addr \<Rightarrow> 'b \<Rightarrow> 'b option" where
  "hdr s p v = (if p = NULL \<or> live s p = None then None else Some v)"

definition create_pool :: "libc \<Rightarrow> 'a pmem_scheme \<Rightarrow> nat \<Rightarrow> 'a pmem_scheme \<times> addr" where
  "create_pool libc s sz =
    (let (s, p) = memalign libc s POOL_ALIGNMENT sz
     in if p = NULL then (s, NULL)
     else let s = s\<lparr>d_last := (d_last s)(p := p + sizeof_pool)\<rparr>;
              s = s\<lparr>d_end := (d_end s)(p := p + sz)\<rparr>;
              s = s\<lparr>d_next := (d_next s)(p := NULL)\<rparr>;
              s = s\<lparr>d_failed := (d_failed s)(p := 0)\<rparr>;
              sz = usub sz sizeof_pool;
              s = s\<lparr>p_max := (p_max s)(p := if sz < MAX_ALLOC_FROM_POOL then sz else MAX_ALLOC_FROM_POOL)\<rparr>;
              s = s\<lparr>p_current := (p_current s)(p := p)\<rparr>;
              s = s\<lparr>p_large := (p_large s)(p := NULL)\<rparr>
          in (s, p))"

partial_function (option) free_large :: "'a pmem_scheme \<Rightarrow> addr \<Rightarrow> 'a pmem_scheme option" where
  "free_large s l =
    (if l = NULL then Some s
     else do {
       s \<leftarrow> (if l_alloc s l \<noteq> NULL then libc_free s (l_alloc s l) else Some s);
       free_large s (l_next s l) })"

partial_function (option) free_blocks :: "'a pmem_scheme \<Rightarrow> addr \<Rightarrow> addr \<Rightarrow> 'a pmem_scheme option" where
  "free_blocks s p n = do {
     s \<leftarrow> libc_free s p;
     if n = NULL then Some s
     else do {
       nn \<leftarrow> hdr s n (d_next s n);
       free_blocks s n nn } }"

definition destroy_pool :: "'a pmem_scheme \<Rightarrow> addr \<Rightarrow> 'a pmem_scheme option" where
  "destroy_pool s pool = do {
     l \<leftarrow> hdr s pool (p_large s pool);
     s \<leftarrow> free_large s l;
     n \<leftarrow> hdr s pool (d_next s pool);
     free_blocks s pool n }"

partial_function (option) reset_blocks :: "'a pmem_scheme \<Rightarrow> addr \<Rightarrow> 'a pmem_scheme option" where
  "reset_blocks s p =
    (if p = NULL then Some s
     else do {
       s \<leftarrow> hdr s p (s\<lparr>d_last := (d_last s)(p := p + sizeof_pool)\<rparr>);
       s \<leftarrow> hdr s p (s\<lparr>d_failed := (d_failed s)(p := 0)\<rparr>);
       reset_blocks s (d_next s p) })"

definition reset_pool :: "'a pmem_scheme \<Rightarrow> addr \<Rightarrow> 'a pmem_scheme option" where
  "reset_pool s pool = do {
     l \<leftarrow> hdr s pool (p_large s pool);
     s \<leftarrow> free_large s l;
     s \<leftarrow> reset_blocks s pool;
     s \<leftarrow> hdr s pool (s\<lparr>p_current := (p_current s)(pool := pool)\<rparr>);
     hdr s pool (s\<lparr>p_large := (p_large s)(pool := NULL)\<rparr>) }"

partial_function (option) count_failed :: "'a pmem_scheme \<Rightarrow> addr \<Rightarrow> addr \<Rightarrow> ('a pmem_scheme \<times> addr) option" where
  "count_failed s pool p = do {
     n \<leftarrow> hdr s p (d_next s p);
     if n = NULL then Some (s, p)
     else do {
       let f = d_failed s p;
       let s = s\<lparr>d_failed := (d_failed s)(p := f + 1)\<rparr>;
       s \<leftarrow> (if f > 4 then hdr s pool (s\<lparr>p_current := (p_current s)(pool := d_next s p)\<rparr>) else Some s);
       count_failed s pool (d_next s p) } }"

definition palloc_block :: "libc \<Rightarrow> 'a pmem_scheme \<Rightarrow> addr \<Rightarrow> nat \<Rightarrow> ('a pmem_scheme \<times> addr) option" where
  "palloc_block libc s pool sz = do {
     e \<leftarrow> hdr s pool (d_end s pool);
     let psize = usub e pool;
     let (s, m) = memalign libc s POOL_ALIGNMENT psize;
     if m = NULL then Some (s, NULL)
     else do {
       let new = m;
       let s = s\<lparr>d_end := (d_end s)(new := m + psize)\<rparr>;
       let s = s\<lparr>d_next := (d_next s)(new := NULL)\<rparr>;
       let s = s\<lparr>d_failed := (d_failed s)(new := 0)\<rparr>;
       let m = m + sizeof_pool_data;
       let m = align_ptr m ALIGNMENT;
       let s = s\<lparr>d_last := (d_last s)(new := m + sz)\<rparr>;
       c \<leftarrow> hdr s pool (p_current s pool);
       (s, p) \<leftarrow> count_failed s pool c;
       s \<leftarrow> hdr s p (s\<lparr>d_next := (d_next s)(p := new)\<rparr>);
       Some (s, m) } }"

text \<open>\<open>palloc_small_loop\<close> is the \<open>do .. while\<close>; \<open>None\<close> inside means that no block has room.\<close>

partial_function (option) palloc_small_loop ::
    "'a pmem_scheme \<Rightarrow> addr \<Rightarrow> nat \<Rightarrow> bool \<Rightarrow> ('a pmem_scheme \<times> addr) option option" where
  "palloc_small_loop s p sz al = do {
     m \<leftarrow> hdr s p (d_last s p);
     let m = (if al then align_ptr m ALIGNMENT else m);
     if usub (d_end s p) m \<ge> sz then Some (Some (s\<lparr>d_last := (d_last s)(p := m + sz)\<rparr>, m))
     else if d_next s p \<noteq> NULL then palloc_small_loop s (d_next s p) sz al
     else Some None }"

definition palloc_small :: "libc \<Rightarrow> 'a pmem_scheme \<Rightarrow> addr \<Rightarrow> nat \<Rightarrow> bool \<Rightarrow> ('a pmem_scheme \<times> addr) option" where
  "palloc_small libc s pool sz al = do {
     p \<leftarrow> hdr s pool (p_current s pool);
     r \<leftarrow> palloc_small_loop s p sz al;
     (case r of Some x \<Rightarrow> Some x | None \<Rightarrow> palloc_block libc s pool sz) }"

text \<open>The search for a freed entry of the list of large blocks, five entries deep.\<close>

partial_function (option) find_free_large :: "'a pmem_scheme \<Rightarrow> addr \<Rightarrow> u32 \<Rightarrow> addr option" where
  "find_free_large s large n =
    (if large = NULL then Some NULL
     else if l_alloc s large = NULL then Some large
     else if n > 3 then Some NULL
     else find_free_large s (l_next s large) (n + 1))"

definition add_large :: "'a pmem_scheme \<Rightarrow> addr \<Rightarrow> addr \<Rightarrow> addr \<Rightarrow> 'a pmem_scheme option" where
  "add_large s pool large p = do {
     let s = s\<lparr>l_alloc := (l_alloc s)(large := p)\<rparr>;
     h \<leftarrow> hdr s pool (p_large s pool);
     let s = s\<lparr>l_next := (l_next s)(large := h)\<rparr>;
     hdr s pool (s\<lparr>p_large := (p_large s)(pool := large)\<rparr>) }"

definition palloc_large :: "libc \<Rightarrow> 'a pmem_scheme \<Rightarrow> addr \<Rightarrow> nat \<Rightarrow> ('a pmem_scheme \<times> addr) option" where
  "palloc_large libc s pool sz = do {
     let (s, p) = alloc libc s sz;
     if p = NULL then Some (s, NULL)
     else do {
       h \<leftarrow> hdr s pool (p_large s pool);
       l \<leftarrow> find_free_large s h 0;
       if l \<noteq> NULL then Some (s\<lparr>l_alloc := (l_alloc s)(l := p)\<rparr>, p)
       else do {
         (s, large) \<leftarrow> palloc_small libc s pool sizeof_pool_large True;
         if large = NULL then do { s \<leftarrow> libc_free s p; Some (s, NULL) }
         else do { s \<leftarrow> add_large s pool large p; Some (s, p) } } } }"

definition palloc :: "libc \<Rightarrow> 'a pmem_scheme \<Rightarrow> addr \<Rightarrow> nat \<Rightarrow> ('a pmem_scheme \<times> addr) option" where
  "palloc libc s pool sz = do {
     mx \<leftarrow> hdr s pool (p_max s pool);
     if sz \<le> mx then palloc_small libc s pool sz True else palloc_large libc s pool sz }"

definition pnalloc :: "libc \<Rightarrow> 'a pmem_scheme \<Rightarrow> addr \<Rightarrow> nat \<Rightarrow> ('a pmem_scheme \<times> addr) option" where
  "pnalloc libc s pool sz = do {
     mx \<leftarrow> hdr s pool (p_max s pool);
     if sz \<le> mx then palloc_small libc s pool sz False else palloc_large libc s pool sz }"

definition pmemalign :: "libc \<Rightarrow> 'a pmem_scheme \<Rightarrow> addr \<Rightarrow> nat \<Rightarrow> nat \<Rightarrow> ('a pmem_scheme \<times> addr) option" where
  "pmemalign libc s pool sz alignment = do {
     let (s, p) = memalign libc s alignment sz;
     if p = NULL then Some (s, NULL)
     else do {
       (s, large) \<leftarrow> palloc_small libc s pool sizeof_pool_large True;
       if large = NULL then do { s \<leftarrow> libc_free s p; Some (s, NULL) }
       else do { s \<leftarrow> add_large s pool large p; Some (s, p) } } }"

partial_function (option) pfree_loop :: "'a pmem_scheme \<Rightarrow> addr \<Rightarrow> addr \<Rightarrow> ('a pmem_scheme \<times> int) option" where
  "pfree_loop s l p =
    (if l = NULL then Some (s, - 1)
     else if p = l_alloc s l
     then do { s \<leftarrow> libc_free s (l_alloc s l); Some (s\<lparr>l_alloc := (l_alloc s)(l := NULL)\<rparr>, 0) }
     else pfree_loop s (l_next s l) p)"

definition pfree :: "'a pmem_scheme \<Rightarrow> addr \<Rightarrow> addr \<Rightarrow> ('a pmem_scheme \<times> int) option" where
  "pfree s pool p = do {
     l \<leftarrow> hdr s pool (p_large s pool);
     pfree_loop s l p }"

definition pcalloc :: "libc \<Rightarrow> 'a pmem_scheme \<Rightarrow> addr \<Rightarrow> nat \<Rightarrow> ('a pmem_scheme \<times> addr) option" where
  "pcalloc libc s pool sz = do {
     (s, p) \<leftarrow> palloc libc s pool sz;
     if p \<noteq> NULL then Some (memset0 s p sz, p) else Some (s, p) }"

section \<open>Arithmetic of addresses\<close>

lemma word_round_down:
  fixes w :: u64
  shows "unat (w AND NOT (mask 3)) = unat w div 8 * 8"
proof -
  have "w AND NOT (mask 3) = push_bit 3 (drop_bit 3 w)"
    by (rule bit_word_eqI) (auto simp: bit_simps not_less)
  moreover have "unat (push_bit 3 (drop_bit 3 w)) = unat w div 8 * 8"
  proof -
    have "unat w div 8 * 8 < 2 ^ 64" using unat_u64_bound [of w] by (simp add: less_le_trans [rotated])
    then have b: "push_bit 3 (drop_bit 3 (unat w)) < 2 ^ 64" by (simp add: push_bit_eq_mult drop_bit_eq_div)
    have "take_bit 64 (unat w) = unat w" using unat_u64_bound by (rule take_bit_nat_eq_self)
    then have "unat (push_bit 3 (drop_bit 3 w)) = take_bit 64 (push_bit 3 (drop_bit 3 (unat w)))"
      by (simp add: unsigned_push_bit_eq unsigned_drop_bit_eq)
    also have "\<dots> = push_bit 3 (drop_bit 3 (unat w))" using b by (rule take_bit_nat_eq_self)
    finally show ?thesis by (simp add: push_bit_eq_mult drop_bit_eq_div)
  qed
  ultimately show ?thesis by simp
qed

lemma align_ptr_8:
  assumes "p + 7 < 2 ^ 64"
  shows "align_ptr p 8 = (p + 7) div 8 * 8"
proof -
  have "(of_nat p + 7 :: u64) = of_nat (p + 7)" by simp
  then have "unat (of_nat p + 7 :: u64) = p + 7"
    using assms by (simp only: unat_of_nat) (simp add: take_bit_nat_eq_self)
  moreover have m: "(7 :: u64) = mask 3" by (simp add: mask_eq_exp_minus_1)
  ultimately show ?thesis using word_round_down [of "of_nat p + 7"] by (simp add: align_ptr_def m)
qed

lemma usub_le: "b \<le> a \<Longrightarrow> a < 2 ^ 64 \<Longrightarrow> usub a b = a - b"
proof -
  assume "b \<le> a" "a < 2 ^ 64"
  then have "unat (of_nat a :: u64) = a" "unat (of_nat b :: u64) = b"
    by (simp_all add: unat_of_nat take_bit_nat_eq_self)
  with \<open>b \<le> a\<close> show ?thesis by (simp add: usub_def unat_sub_if')
qed

text \<open>\<open>align_ptr\<close> rounds up to the next multiple of 8.\<close>

lemma align_ptr_up:
  assumes "p < 2 ^ 63"
  shows "p \<le> align_ptr p 8" "align_ptr p 8 < p + 8" "8 dvd align_ptr p 8"
proof -
  have a: "align_ptr p 8 = (p + 7) div 8 * 8" using assms by (intro align_ptr_8) simp
  show "p \<le> align_ptr p 8" "align_ptr p 8 < p + 8" "8 dvd align_ptr p 8" unfolding a by simp_all
qed

lemma align_ptr_le:
  assumes "p < 2 ^ 63" and "p \<le> q" and "8 dvd q"
  shows "align_ptr p 8 \<le> q"
proof -
  have a: "align_ptr p 8 = (p + 7) div 8 * 8" using assms by (intro align_ptr_8) simp
  from assms(3) obtain k where "q = 8 * k" by blast
  with assms(2) show ?thesis unfolding a by simp
qed

section \<open>The allocator's contract and the pool invariant\<close>

text \<open>
  What the C library promises: the result is \<open>NULL\<close> or a fresh block of the wanted size and
  alignment in the lower half of the address space, disjoint from all live blocks.
\<close>

definition libc_ok :: "libc \<Rightarrow> bool" where
  "libc_ok libc \<longleftrightarrow> (\<forall>L k al n. libc L k al n = NULL \<or>
     al dvd libc L k al n \<and> libc L k al n + n < 2 ^ 63 \<and> L (libc L k al n) = None
     \<and> (\<forall>b m. L b = Some m \<longrightarrow> libc L k al n + n \<le> b \<or> b + m \<le> libc L k al n))"

text \<open>
  The C library refuses: requests (alignment and size) made one after the other from the state \<open>s\<close>, all of them granted but the last one. \<open>denied\<close> says which requests a
  function of the pool may make before it gives up: the piece itself, with the alignment \<open>ra\<close>, a block of the pool, or both in this order; \<open>k\<close> is the count of calls afterwards.
\<close>

fun refused :: "libc \<Rightarrow> 'a pmem_scheme \<Rightarrow> (nat \<times> nat) list \<Rightarrow> bool" where
  "refused libc s [] = False"
| "refused libc s (q # qs) = (let (s', p) = libc_alloc libc s (fst q) (snd q) in if qs = [] then p = NULL else p \<noteq> NULL \<and> refused libc s' qs)"

declare refused.simps [simp del]

definition denied :: "libc \<Rightarrow> 'a pmem_scheme \<Rightarrow> nat \<Rightarrow> nat \<Rightarrow> nat \<Rightarrow> nat \<Rightarrow> bool" where
  "denied libc s ra psize n k \<longleftrightarrow> (\<exists>qs \<in> {[(16, psize)], [(ra, n)], [(ra, n), (16, psize)]}. refused libc s qs \<and> k = mcalls s + length qs)"

definition mem_ok :: "'a pmem_scheme \<Rightarrow> bool" where
  "mem_ok s \<longleftrightarrow> live s NULL = None \<and> (\<forall>a n. live s a = Some n \<longrightarrow> a + n < 2 ^ 63)
     \<and> (\<forall>a b n m. live s a = Some n \<longrightarrow> live s b = Some m \<longrightarrow> a \<noteq> b \<longrightarrow> a + n \<le> b \<or> b + m \<le> a)"

fun chain :: "(addr \<Rightarrow> addr) \<Rightarrow> addr \<Rightarrow> addr list \<Rightarrow> bool" where
  "chain nx p [] \<longleftrightarrow> p = NULL"
| "chain nx p (a # as) \<longleftrightarrow> p = a \<and> a \<noteq> NULL \<and> chain nx (nx a) as"

text \<open>The blocks of a pool: \<open>psize\<close> bytes each, the first one is the pool itself.\<close>

definition blocks_ok :: "'a pmem_scheme \<Rightarrow> addr \<Rightarrow> nat \<Rightarrow> addr list \<Rightarrow> bool" where
  "blocks_ok s pool psize bs \<longleftrightarrow> bs \<noteq> [] \<and> hd bs = pool \<and> chain (d_next s) pool bs \<and> distinct bs
     \<and> p_current s pool \<in> set bs
     \<and> (\<forall>b \<in> set bs. live s b = Some psize \<and> 16 dvd b \<and> d_end s b = b + psize
          \<and> b + sizeof_pool_data \<le> d_last s b \<and> d_last s b \<le> b + psize)
     \<and> pool + sizeof_pool \<le> d_last s pool"

text \<open>The list of large blocks: its nodes \<open>ls\<close> lie in handed-out parts of the pool blocks.\<close>

definition larges_ok :: "'a pmem_scheme \<Rightarrow> addr \<Rightarrow> addr list \<Rightarrow> addr list \<Rightarrow> bool" where
  "larges_ok s pool bs ls \<longleftrightarrow> chain (l_next s) (p_large s pool) ls \<and> distinct ls
     \<and> (\<forall>l \<in> set ls. \<forall>k \<in> set ls. l \<noteq> k \<longrightarrow> l + sizeof_pool_large \<le> k \<or> k + sizeof_pool_large \<le> l)
     \<and> (\<forall>l \<in> set ls. \<exists>b \<in> set bs. b + sizeof_pool_data \<le> l \<and> l + sizeof_pool_large \<le> d_last s b)
     \<and> (\<forall>l \<in> set ls. l_alloc s l \<noteq> NULL \<longrightarrow> live s (l_alloc s l) \<noteq> None \<and> l_alloc s l \<notin> set bs)
     \<and> distinct (filter (\<lambda>a. a \<noteq> NULL) (map (l_alloc s) ls))"

definition pool_ok :: "'a pmem_scheme \<Rightarrow> addr \<Rightarrow> nat \<Rightarrow> addr list \<Rightarrow> addr list \<Rightarrow> bool" where
  "pool_ok s pool psize bs ls \<longleftrightarrow> mem_ok s \<and> blocks_ok s pool psize bs \<and> larges_ok s pool bs ls
     \<and> 8 dvd psize \<and> MIN_POOL_SIZE \<le> psize
     \<and> p_max s pool = (if psize - sizeof_pool < MAX_ALLOC_FROM_POOL then psize - sizeof_pool else MAX_ALLOC_FROM_POOL)"

text \<open>
  The bytes that the pool has given away: the used part of each block (its header included) and
  the large blocks.
\<close>

definition used :: "'a pmem_scheme \<Rightarrow> addr list \<Rightarrow> addr set" where
  "used s bs = (\<Union>b \<in> set bs. {b ..< d_last s b})"

definition larges :: "'a pmem_scheme \<Rightarrow> addr list \<Rightarrow> addr set" where
  "larges s ls = l_alloc s ` set ls - {NULL}"

definition large_bytes :: "'a pmem_scheme \<Rightarrow> addr list \<Rightarrow> addr set" where
  "large_bytes s ls = (\<Union>p \<in> larges s ls. {p ..< p + the (live s p)})"

definition given :: "'a pmem_scheme \<Rightarrow> addr list \<Rightarrow> addr list \<Rightarrow> addr set" where
  "given s bs ls = used s bs \<union> large_bytes s ls"

lemma MIN_POOL_SIZE_eq: "MIN_POOL_SIZE = 96"
  by (simp add: MIN_POOL_SIZE_def align_ptr_def sizeof_pool_def sizeof_pool_large_def POOL_ALIGNMENT_def)


lemma chain_suffix: "chain nx p bs \<Longrightarrow> c \<in> set bs \<Longrightarrow> \<exists>as cs. bs = as @ c # cs \<and> chain nx c (c # cs)"
proof (induction bs arbitrary: p)
  case (Cons b bs)
  show ?case
  proof (cases "c = b")
    case True
    with Cons.prems have "b # bs = [] @ c # bs \<and> chain nx c (c # bs)" by simp
    then show ?thesis by blast
  next
    case False
    with Cons.prems Cons.IH [of "nx b"] obtain as cs where "bs = as @ c # cs" "chain nx c (c # cs)" by auto
    then have "b # bs = (b # as) @ c # cs \<and> chain nx c (c # cs)" by simp
    then show ?thesis by blast
  qed
qed simp

lemma chain_upd [simp]: "a \<notin> set bs \<Longrightarrow> chain (nx(a := v)) p bs = chain nx p bs"
  by (induction bs arbitrary: p) auto

lemma chain_nonnull: "chain nx p bs \<Longrightarrow> NULL \<notin> set bs"
  by (induction bs arbitrary: p) auto

lemma chain_snoc:
  "chain nx p bs \<Longrightarrow> bs \<noteq> [] \<Longrightarrow> distinct (bs @ [c]) \<Longrightarrow> c \<noteq> NULL \<Longrightarrow> nx c = NULL \<Longrightarrow>
    chain (nx(last bs := c)) p (bs @ [c])"
proof (induction bs arbitrary: p)
  case (Cons b bs)
  then show ?case by (cases "bs = []") auto
qed simp

section \<open>Small allocations\<close>

lemma libc_okD:
  assumes "libc_ok libc" and "r = libc L k al n" and "r \<noteq> NULL"
  shows "al dvd r" "r + n < 2 ^ 63" "L r = None" "\<forall>b m. L b = Some m \<longrightarrow> r + n \<le> b \<or> b + m \<le> r"
proof -
  have "r = NULL \<or> al dvd r \<and> r + n < 2 ^ 63 \<and> L r = None \<and> (\<forall>b m. L b = Some m \<longrightarrow> r + n \<le> b \<or> b + m \<le> r)"
    using assms(1) unfolding libc_ok_def assms(2) by blast
  with assms(3) show "al dvd r" "r + n < 2 ^ 63" "L r = None" "\<forall>b m. L b = Some m \<longrightarrow> r + n \<le> b \<or> b + m \<le> r"
    by blast+
qed

lemma libc_alloc_ok:
  assumes l: "libc_ok libc" and m: "mem_ok s"
  shows "(\<exists>k. libc_alloc libc s al n = (s\<lparr>mcalls := k\<rparr>, NULL) \<and> k = Suc (mcalls s) \<and> refused libc s [(al, n)])
    \<or> (\<exists>r k. libc_alloc libc s al n = (s\<lparr>mcalls := k, live := (live s)(r \<mapsto> n)\<rparr>, r) \<and> k = Suc (mcalls s)
        \<and> r \<noteq> NULL \<and> live s r = None \<and> al dvd r \<and> mem_ok (s\<lparr>mcalls := k, live := (live s)(r \<mapsto> n)\<rparr>))"
proof -
  define r where "r = libc (live s) (mcalls s) al n"
  show ?thesis
  proof (cases "r = NULL")
    case True
    then show ?thesis by (simp add: libc_alloc_def Let_def r_def refused.simps)
  next
    case False
    note r = libc_okD [OF l r_def False]
    have "mem_ok (s\<lparr>mcalls := Suc (mcalls s), live := (live s)(r \<mapsto> n)\<rparr>)"
      unfolding mem_ok_def
    proof (intro conjI allI impI)
      fix a b k k' assume *: "live (s\<lparr>mcalls := Suc (mcalls s), live := (live s)(r \<mapsto> n)\<rparr>) a = Some k"
        "live (s\<lparr>mcalls := Suc (mcalls s), live := (live s)(r \<mapsto> n)\<rparr>) b = Some k'" "a \<noteq> b"
      have old: "a \<noteq> r \<Longrightarrow> b \<noteq> r \<Longrightarrow> a + k \<le> b \<or> b + k' \<le> a"
        using * m unfolding mem_ok_def by simp
      have new1: "a = r \<Longrightarrow> a + k \<le> b \<or> b + k' \<le> a" using * r(4) by auto
      have new2: "b = r \<Longrightarrow> a + k \<le> b \<or> b + k' \<le> a" using * r(4) by auto
      show "a + k \<le> b \<or> b + k' \<le> a" using old new1 new2 by blast
    qed (use m False r in \<open>auto simp: mem_ok_def split: if_splits\<close>)
    then show ?thesis using False r by (auto simp: libc_alloc_def Let_def r_def [symmetric])
  qed
qed

lemma hdr_live: "live s p = Some n \<Longrightarrow> p \<noteq> NULL \<Longrightarrow> hdr s p v = Some v"
  by (simp add: hdr_def)

lemma blocks_okD:
  assumes "blocks_ok s pool psize bs" and "b \<in> set bs"
  shows "live s b = Some psize" "16 dvd b" "d_end s b = b + psize" "b + sizeof_pool_data \<le> d_last s b"
    "d_last s b \<le> b + psize" "b \<noteq> NULL"
proof -
  have "NULL \<notin> set bs" using assms(1) chain_nonnull unfolding blocks_ok_def by blast
  with assms(2) show "b \<noteq> NULL" by metis
qed (use assms in \<open>auto simp: blocks_ok_def\<close>)

lemma pool_live: "blocks_ok s pool psize bs \<Longrightarrow> pool \<in> set bs"
  by (auto simp: blocks_ok_def)

lemma larges_okI:
  assumes "chain (l_next s) (p_large s pool) ls" "distinct ls"
    "\<And>l k. l \<in> set ls \<Longrightarrow> k \<in> set ls \<Longrightarrow> l \<noteq> k \<Longrightarrow> l + sizeof_pool_large \<le> k \<or> k + sizeof_pool_large \<le> l"
    "\<And>l. l \<in> set ls \<Longrightarrow> \<exists>b \<in> set bs. b + sizeof_pool_data \<le> l \<and> l + sizeof_pool_large \<le> d_last s b"
    "\<And>l. l \<in> set ls \<Longrightarrow> l_alloc s l \<noteq> NULL \<Longrightarrow> live s (l_alloc s l) \<noteq> None \<and> l_alloc s l \<notin> set bs"
    "distinct (filter (\<lambda>a. a \<noteq> NULL) (map (l_alloc s) ls))"
  shows "larges_ok s pool bs ls"
  unfolding larges_ok_def using assms by blast

lemma larges_ok_sep:
  "larges_ok s pool bs ls \<Longrightarrow> l \<in> set ls \<Longrightarrow> k \<in> set ls \<Longrightarrow> l \<noteq> k \<Longrightarrow> l + sizeof_pool_large \<le> k \<or> k + sizeof_pool_large \<le> l"
  by (simp add: larges_ok_def)

lemma larges_ok_place:
  "larges_ok s pool bs ls \<Longrightarrow> l \<in> set ls \<Longrightarrow> \<exists>b \<in> set bs. b + sizeof_pool_data \<le> l \<and> l + sizeof_pool_large \<le> d_last s b"
  by (simp add: larges_ok_def)

lemma larges_ok_alloc:
  "larges_ok s pool bs ls \<Longrightarrow> l \<in> set ls \<Longrightarrow> l_alloc s l \<noteq> NULL \<Longrightarrow> live s (l_alloc s l) \<noteq> None \<and> l_alloc s l \<notin> set bs"
  by (simp add: larges_ok_def)

lemma small_fit:
  assumes ok: "pool_ok s pool psize bs ls" and b: "b \<in> set bs"
  shows "d_last s b \<le> (if al then align_ptr (d_last s b) ALIGNMENT else d_last s b)"
    "usub (d_end s b) (if al then align_ptr (d_last s b) ALIGNMENT else d_last s b)
      = b + psize - (if al then align_ptr (d_last s b) ALIGNMENT else d_last s b)"
    "(if al then align_ptr (d_last s b) ALIGNMENT else d_last s b) \<le> b + psize"
    "al \<longrightarrow> 8 dvd (if al then align_ptr (d_last s b) ALIGNMENT else d_last s b)"
proof -
  from ok have bo: "blocks_ok s pool psize bs" and mo: "mem_ok s" and d8: "8 dvd psize" by (simp_all add: pool_ok_def)
  note bb = blocks_okD [OF bo b]
  have lim: "b + psize < 2 ^ 63" using mo bb(1) by (simp add: mem_ok_def)
  have "8 dvd b" using bb(2) by (rule dvd_trans [rotated]) simp
  then have "8 dvd b + psize" using d8 by simp
  then have le: "align_ptr (d_last s b) 8 \<le> b + psize" using lim bb(5) by (intro align_ptr_le) simp_all
  note up = align_ptr_up [of "d_last s b"]
  show "d_last s b \<le> (if al then align_ptr (d_last s b) ALIGNMENT else d_last s b)"
    using up lim bb(5) by (simp add: ALIGNMENT_def)
  show m: "(if al then align_ptr (d_last s b) ALIGNMENT else d_last s b) \<le> b + psize"
    using le bb(5) by (simp add: ALIGNMENT_def)
  show "usub (d_end s b) (if al then align_ptr (d_last s b) ALIGNMENT else d_last s b)
      = b + psize - (if al then align_ptr (d_last s b) ALIGNMENT else d_last s b)"
    unfolding bb(3) using m lim by (intro usub_le) simp_all
  show "al \<longrightarrow> 8 dvd (if al then align_ptr (d_last s b) ALIGNMENT else d_last s b)"
    using up lim bb(5) by (simp add: ALIGNMENT_def)
qed

lemma small_step:
  assumes ok: "pool_ok s pool psize bs ls" and c: "c \<in> set bs"
  shows "palloc_small_loop s c sz al = (if d_next s c \<noteq> NULL then palloc_small_loop s (d_next s c) sz al else Some None)
    \<or> (\<exists>m. palloc_small_loop s c sz al = Some (Some (s\<lparr>d_last := (d_last s)(c := m + sz)\<rparr>, m))
        \<and> d_last s c \<le> m \<and> m + sz \<le> c + psize \<and> (al \<longrightarrow> 8 dvd m))"
proof -
  have h: "hdr s c v = Some v" for v :: addr
    using blocks_okD [of s pool psize bs c] c ok by (intro hdr_live) (auto simp: pool_ok_def)
  define m where "m = (if al then align_ptr (d_last s c) ALIGNMENT else d_last s c)"
  note f = small_fit [OF ok c, of al, folded m_def]
  show ?thesis
  proof (cases "sz \<le> c + psize - m")
    case True
    then have "palloc_small_loop s c sz al = Some (Some (s\<lparr>d_last := (d_last s)(c := m + sz)\<rparr>, m))"
      by (subst palloc_small_loop.simps) (simp add: Let_def h f(2) m_def [symmetric])
    moreover have "m + sz \<le> c + psize" using True f(3) by simp
    ultimately show ?thesis using f by auto
  next
    case False
    then show ?thesis
      by (subst palloc_small_loop.simps) (simp add: Let_def h f(2) m_def [symmetric])
  qed
qed

lemma palloc_small_loop_ok:
  assumes ok: "pool_ok s pool psize bs ls"
  shows "chain (d_next s) c (c # cs) \<Longrightarrow> set (c # cs) \<subseteq> set bs \<Longrightarrow>
    palloc_small_loop s c sz al = Some None
    \<or> (\<exists>b m. palloc_small_loop s c sz al = Some (Some (s\<lparr>d_last := (d_last s)(b := m + sz)\<rparr>, m))
        \<and> b \<in> set (c # cs) \<and> d_last s b \<le> m \<and> m + sz \<le> b + psize \<and> (al \<longrightarrow> 8 dvd m))"
proof (induction cs arbitrary: c)
  case Nil
  then have c: "c \<in> set bs" "d_next s c = NULL" by auto
  from small_step [OF ok c(1), of sz al] c(2) consider "palloc_small_loop s c sz al = Some None"
    | m where "palloc_small_loop s c sz al = Some (Some (s\<lparr>d_last := (d_last s)(c := m + sz)\<rparr>, m))"
      "d_last s c \<le> m" "m + sz \<le> c + psize" "al \<longrightarrow> 8 dvd m" by auto
  then show ?case
  proof cases
    case 2
    moreover have "c \<in> set (c # xs)" for xs by simp
    ultimately show ?thesis by blast
  qed simp
next
  case (Cons c' cs)
  then have c: "c \<in> set bs" "d_next s c = c'" "c' \<noteq> NULL" "chain (d_next s) c' (c' # cs)" "set (c' # cs) \<subseteq> set bs" by auto
  from small_step [OF ok c(1), of sz al] c(2,3) consider
    "palloc_small_loop s c sz al = palloc_small_loop s c' sz al"
    | m where "palloc_small_loop s c sz al = Some (Some (s\<lparr>d_last := (d_last s)(c := m + sz)\<rparr>, m))"
      "d_last s c \<le> m" "m + sz \<le> c + psize" "al \<longrightarrow> 8 dvd m" by auto
  then show ?case
  proof cases
    case 1
    with Cons.IH [OF c(4,5)] show ?thesis by auto
  next
    case 2
    moreover have "c \<in> set (c # xs)" for xs by simp
    ultimately show ?thesis by blast
  qed
qed

text \<open>Moving \<open>d_last\<close> of one block up.\<close>

lemma bump_ok:
  assumes ok: "pool_ok s pool psize bs ls" and b: "b \<in> set bs" and m: "d_last s b \<le> k" "k \<le> b + psize"
  shows "pool_ok (s\<lparr>d_last := (d_last s)(b := k)\<rparr>) pool psize bs ls"
proof -
  from ok have bo: "blocks_ok s pool psize bs" and lo: "larges_ok s pool bs ls" and mo: "mem_ok s" by (simp_all add: pool_ok_def)
  note bb = blocks_okD [OF bo b]
  have "blocks_ok (s\<lparr>d_last := (d_last s)(b := k)\<rparr>) pool psize bs"
    using bo bb m by (auto simp: blocks_ok_def)
  moreover have "\<exists>c \<in> set bs. c + sizeof_pool_data \<le> l \<and> l + sizeof_pool_large \<le> ((d_last s)(b := k)) c"
    if "l \<in> set ls" for l
  proof -
    from larges_ok_place [OF lo that] obtain c where
      c: "c \<in> set bs" "c + sizeof_pool_data \<le> l" "l + sizeof_pool_large \<le> d_last s c" by blast
    moreover have "d_last s c \<le> ((d_last s)(b := k)) c" using m by simp
    ultimately show ?thesis by (intro bexI [of _ c]) simp_all
  qed
  then have "larges_ok (s\<lparr>d_last := (d_last s)(b := k)\<rparr>) pool bs ls"
    using lo unfolding larges_ok_def by simp
  moreover have "mem_ok (s\<lparr>d_last := (d_last s)(b := k)\<rparr>)" using mo by (simp add: mem_ok_def)
  ultimately show ?thesis using ok by (simp add: pool_ok_def)
qed

text \<open>Blocks do not overlap, so a byte belongs to the used part of one block only.\<close>

lemma block_unique:
  assumes ok: "pool_ok s pool psize bs ls" and b: "b \<in> set bs" "c \<in> set bs" "b \<noteq> c"
  shows "{b ..< b + psize} \<inter> {c ..< c + psize} = {}"
proof -
  from ok have bo: "blocks_ok s pool psize bs" and mo: "mem_ok s" by (simp_all add: pool_ok_def)
  have "live s b = Some psize" "live s c = Some psize" using blocks_okD [OF bo] b by blast+
  with mo b(3) have "b + psize \<le> c \<or> c + psize \<le> b" unfolding mem_ok_def by blast
  then show ?thesis by auto
qed

text \<open>
  What an allocation gives out: the \<open>sz\<close> bytes at \<open>m\<close>, inside a block, none of them given out before.
\<close>

definition fresh_piece :: "'a pmem_scheme \<Rightarrow> addr list \<Rightarrow> 'b pmem_scheme \<Rightarrow> addr list \<Rightarrow> addr \<Rightarrow> nat \<Rightarrow> bool" where
  "fresh_piece s bs s' bs' m sz \<longleftrightarrow> {m ..< m + sz} \<inter> used s bs = {} \<and> {m ..< m + sz} \<subseteq> used s' bs'
     \<and> (\<exists>b \<in> set bs'. b + sizeof_pool_data \<le> m \<and> m + sz \<le> d_last s' b)"

lemma bump_fresh:
  assumes ok: "pool_ok s pool psize bs ls" and b: "b \<in> set bs" and m: "d_last s b \<le> m" "m + sz \<le> b + psize"
  shows "fresh_piece s bs (s\<lparr>d_last := (d_last s)(b := m + sz)\<rparr>) bs m sz"
    and "used s bs \<subseteq> used (s\<lparr>d_last := (d_last s)(b := m + sz)\<rparr>) bs"
proof -
  from ok have bo: "blocks_ok s pool psize bs" by (simp add: pool_ok_def)
  note bb = blocks_okD [OF bo b]
  have "x \<notin> used s bs" if x: "m \<le> x" "x < m + sz" for x
  proof
    assume "x \<in> used s bs"
    then obtain c where c: "c \<in> set bs" "c \<le> x" "x < d_last s c" by (auto simp: used_def)
    have "c \<noteq> b" using c(3) x m(1) by auto
    from block_unique [OF ok b c(1)] this have "{b ..< b + psize} \<inter> {c ..< c + psize} = {}" by auto
    moreover have "x \<in> {b ..< b + psize}" using x m bb by auto
    moreover have "x \<in> {c ..< c + psize}" using c blocks_okD(5) [OF bo c(1)] by auto
    ultimately show False by blast
  qed
  moreover have "{m ..< m + sz} \<subseteq> used (s\<lparr>d_last := (d_last s)(b := m + sz)\<rparr>) bs"
    using b bb(4) m by (auto simp: used_def sizeof_pool_data_def intro!: bexI [of _ b])
  ultimately show "fresh_piece s bs (s\<lparr>d_last := (d_last s)(b := m + sz)\<rparr>) bs m sz"
    using b bb(4) m(1) by (auto simp: fresh_piece_def intro!: bexI [of _ b])
  show "used s bs \<subseteq> used (s\<lparr>d_last := (d_last s)(b := m + sz)\<rparr>) bs"
    using m by (fastforce simp: used_def)
qed

section \<open>A new block\<close>

lemma count_failed_ok:
  assumes "chain (d_next s) c (c # cs)" and "\<forall>b \<in> set (c # cs). live s b \<noteq> None"
    and "pool \<noteq> NULL" and "live s pool \<noteq> None"
  shows "\<exists>df cur. count_failed s pool c = Some (s\<lparr>d_failed := df, p_current := (p_current s)(pool := cur)\<rparr>, last (c # cs))
    \<and> (cur = p_current s pool \<or> cur \<in> set cs)"
  using assms
proof (induction cs arbitrary: s c)
  case Nil
  then have "count_failed s pool c = Some (s, c)" by (subst count_failed.simps) (simp add: hdr_def)
  moreover have "s = s\<lparr>d_failed := d_failed s, p_current := (p_current s)(pool := p_current s pool)\<rparr>" by simp
  ultimately have "count_failed s pool c = Some (s\<lparr>d_failed := d_failed s, p_current := (p_current s)(pool := p_current s pool)\<rparr>, last [c])"
    by simp
  then show ?case by blast
next
  case (Cons c' cs)
  then have c: "d_next s c = c'" "c' \<noteq> NULL" "c \<noteq> NULL" "chain (d_next s) c' (c' # cs)" by auto
  define s1 where "s1 = s\<lparr>d_failed := (d_failed s)(c := d_failed s c + 1),
    p_current := (p_current s)(pool := if d_failed s c > 4 then c' else p_current s pool)\<rparr>"
  have "count_failed s pool c = count_failed s1 pool c'"
    using c Cons.prems by (subst count_failed.simps) (auto simp: hdr_def Let_def s1_def)
  moreover have "\<exists>df cur. count_failed s1 pool c' = Some (s1\<lparr>d_failed := df, p_current := (p_current s1)(pool := cur)\<rparr>, last (c' # cs))
      \<and> (cur = p_current s1 pool \<or> cur \<in> set cs)"
    using c(4) Cons.prems by (intro Cons.IH) (simp_all add: s1_def)
  ultimately obtain df cur where
    "count_failed s pool c = Some (s1\<lparr>d_failed := df, p_current := (p_current s1)(pool := cur)\<rparr>, last (c' # cs))"
    and cur: "cur = p_current s1 pool \<or> cur \<in> set cs" by auto
  then have "count_failed s pool c = Some (s\<lparr>d_failed := df, p_current := (p_current s)(pool := cur)\<rparr>, last (c # c' # cs))"
    by (simp add: s1_def)
  moreover have "cur = p_current s pool \<or> cur \<in> set (c' # cs)" using cur by (auto simp: s1_def split: if_splits)
  ultimately show ?case by blast
qed

text \<open>
  What a small allocation leaves alone: the list of large blocks, the data bytes, the limit, and
  all live blocks; the used part of the pool grows, perhaps by a new block.
\<close>

definition small_frame :: "'a pmem_scheme \<Rightarrow> addr \<Rightarrow> nat \<Rightarrow> addr list \<Rightarrow> 'a pmem_scheme \<Rightarrow> addr list \<Rightarrow> bool" where
  "small_frame s pool psize bs s' bs' \<longleftrightarrow> l_next s' = l_next s \<and> l_alloc s' = l_alloc s \<and> p_large s' = p_large s
     \<and> bytes s' = bytes s \<and> p_max s' = p_max s \<and> pmem.more s' = pmem.more s \<and> used s bs \<subseteq> used s' bs'
     \<and> (bs' = bs \<and> live s' = live s \<or> (\<exists>n. bs' = bs @ [n] \<and> live s n = None \<and> live s' = (live s)(n \<mapsto> psize)))"


lemma align_header: "16 dvd n \<Longrightarrow> n < 2 ^ 63 \<Longrightarrow> align_ptr (n + sizeof_pool_data) ALIGNMENT = n + sizeof_pool_data"
proof -
  assume n: "16 dvd n" "n < 2 ^ 63"
  then obtain k where "n = 16 * k" by blast
  then have e: "n + 32 + 7 = 7 + (2 * k + 4) * 8" "n + 32 = (2 * k + 4) * 8" by simp_all
  have "(n + 32 + 7) div 8 * 8 = n + 32" unfolding e(1) div_mult_self3 [OF zero_neq_numeral [symmetric]] e(2) by simp
  then show ?thesis using n by (simp add: sizeof_pool_data_def ALIGNMENT_def align_ptr_8)
qed

lemma larges_live: "larges_ok s pool bs ls \<Longrightarrow> live s n = None \<Longrightarrow> l \<in> set ls \<Longrightarrow> l_alloc s l \<noteq> NULL \<Longrightarrow> l_alloc s l \<noteq> n"
  using larges_ok_alloc by metis

text \<open>Linking a fresh block at the end of the chain.\<close>

definition link_block :: "'a pmem_scheme \<Rightarrow> addr \<Rightarrow> nat \<Rightarrow> addr list \<Rightarrow> addr \<Rightarrow> nat \<Rightarrow> nat \<Rightarrow> (addr \<Rightarrow> u32) \<Rightarrow> addr \<Rightarrow> 'a pmem_scheme" where
  "link_block s pool psize bs n k sz df cur =
    s\<lparr>mcalls := k, live := (live s)(n \<mapsto> psize), d_last := (d_last s)(n := n + sizeof_pool_data + sz),
      d_end := (d_end s)(n := n + psize), d_next := (d_next s)(n := NULL, last bs := n),
      d_failed := df, p_current := (p_current s)(pool := cur)\<rparr>"

lemma link_block_ok:
  assumes ok: "pool_ok s pool psize bs ls" and n: "live s n = None" "n \<noteq> NULL" "16 dvd n"
    and mem: "mem_ok (s\<lparr>mcalls := k, live := (live s)(n \<mapsto> psize)\<rparr>)"
    and sz: "sz + sizeof_pool_data \<le> psize" and cur: "cur \<in> set bs"
  shows "pool_ok (link_block s pool psize bs n k sz df cur) pool psize (bs @ [n]) ls"
    "small_frame s pool psize bs (link_block s pool psize bs n k sz df cur) (bs @ [n])"
    "fresh_piece s bs (link_block s pool psize bs n k sz df cur) (bs @ [n]) (n + sizeof_pool_data) sz"
proof -
  let ?s = "link_block s pool psize bs n k sz df cur"
  from ok have bo: "blocks_ok s pool psize bs" and lo: "larges_ok s pool bs ls" by (simp_all add: pool_ok_def)
  have new: "n \<notin> set bs" using blocks_okD(1) [OF bo] n(1) by auto
  have ne: "bs \<noteq> []" and hb: "hd bs = pool" and ch: "chain (d_next s) pool bs" and d: "distinct bs"
    using bo by (simp_all add: blocks_ok_def)
  have "chain ((d_next s)(n := NULL)) pool bs" using ch new by simp
  then have ch': "chain (d_next ?s) pool (bs @ [n])"
    using ne d new n(2) unfolding link_block_def by (auto intro: chain_snoc)
  have last: "d_last ?s b = d_last s b" if "b \<in> set bs" for b using that new by (auto simp: link_block_def)
  have per: "\<forall>b \<in> set bs. live ?s b = Some psize \<and> 16 dvd b \<and> d_end ?s b = b + psize
          \<and> b + sizeof_pool_data \<le> d_last ?s b \<and> d_last ?s b \<le> b + psize"
    using blocks_okD [OF bo] new by (auto simp: link_block_def)
  have bo': "blocks_ok ?s pool psize (bs @ [n])"
    unfolding blocks_ok_def
  proof (intro conjI)
    show "hd (bs @ [n]) = pool" using hb ne by simp
    show "distinct (bs @ [n])" using d new by simp
    show "p_current ?s pool \<in> set (bs @ [n])" using cur by (simp add: link_block_def)
    show "pool + sizeof_pool \<le> d_last ?s pool" using bo last pool_live [OF bo] by (simp add: blocks_ok_def)
    show "\<forall>b \<in> set (bs @ [n]). live ?s b = Some psize \<and> 16 dvd b \<and> d_end ?s b = b + psize
          \<and> b + sizeof_pool_data \<le> d_last ?s b \<and> d_last ?s b \<le> b + psize"
      using per n(3) sz by (auto simp: link_block_def)
  qed (use ch' in simp_all)
  have "\<exists>b \<in> set (bs @ [n]). b + sizeof_pool_data \<le> l \<and> l + sizeof_pool_large \<le> d_last ?s b" if "l \<in> set ls" for l
    using larges_ok_place [OF lo that] last by fastforce
  then have lo': "larges_ok ?s pool (bs @ [n]) ls"
    using lo n(1) larges_live [OF lo n(1)] unfolding larges_ok_def by (auto simp: link_block_def)
  have "mem_ok ?s" using mem by (simp add: mem_ok_def link_block_def)
  with bo' lo' show "pool_ok ?s pool psize (bs @ [n]) ls" using ok by (simp add: pool_ok_def link_block_def)
  have us: "used ?s (bs @ [n]) = used s bs \<union> {n ..< n + sizeof_pool_data + sz}"
    using last by (auto simp: used_def link_block_def)
  then show "small_frame s pool psize bs ?s (bs @ [n])" using n(1) by (simp add: small_frame_def link_block_def)
  have "x \<notin> used s bs" if x: "n \<le> x" "x < n + psize" for x
  proof
    assume "x \<in> used s bs"
    then obtain c where c: "c \<in> set bs" "c \<le> x" "x < d_last s c" by (auto simp: used_def)
    have "live s c = Some psize" "d_last s c \<le> c + psize" "c \<noteq> n" using blocks_okD [OF bo c(1)] new c(1) by auto
    moreover from this mem have "n + psize \<le> c \<or> c + psize \<le> n" unfolding mem_ok_def by auto
    ultimately show False using x c by auto
  qed
  then show "fresh_piece s bs ?s (bs @ [n]) (n + sizeof_pool_data) sz"
    using sz us by (auto simp: fresh_piece_def link_block_def)
qed

lemma palloc_block_ok:
  assumes lok: "libc_ok libc" and ok: "pool_ok s pool psize bs ls" and sz: "sz + sizeof_pool_data \<le> psize"
  shows "(\<exists>k. palloc_block libc s pool sz = Some (s\<lparr>mcalls := k\<rparr>, NULL) \<and> k = Suc (mcalls s) \<and> refused libc s [(16, psize)])
    \<or> (\<exists>n s'. palloc_block libc s pool sz = Some (s', n + sizeof_pool_data) \<and> 8 dvd n \<and> n \<noteq> NULL
        \<and> pool_ok s' pool psize (bs @ [n]) ls \<and> small_frame s pool psize bs s' (bs @ [n])
        \<and> fresh_piece s bs s' (bs @ [n]) (n + sizeof_pool_data) sz)"
proof -
  from ok have bo: "blocks_ok s pool psize bs" and mo: "mem_ok s" by (simp_all add: pool_ok_def)
  have pl: "live s pool = Some psize" "d_end s pool = pool + psize" "pool \<noteq> NULL" using blocks_okD [OF bo] pool_live [OF bo] by blast+
  have "pool + psize < 2 ^ 63" using mo pl(1) by (simp add: mem_ok_def)
  then have u: "usub (d_end s pool) pool = psize" using pl(2) by (simp add: usub_le)
  consider k where "libc_alloc libc s 16 psize = (s\<lparr>mcalls := k\<rparr>, NULL)" "k = Suc (mcalls s)" "refused libc s [(16, psize)]"
    | r k where "libc_alloc libc s 16 psize = (s\<lparr>mcalls := k, live := (live s)(r \<mapsto> psize)\<rparr>, r)"
        "r \<noteq> NULL" "live s r = None" "16 dvd r" "mem_ok (s\<lparr>mcalls := k, live := (live s)(r \<mapsto> psize)\<rparr>)"
    using libc_alloc_ok [OF lok mo, of 16 psize] by blast
  then show ?thesis
  proof cases
    case 1
    then have "palloc_block libc s pool sz = Some (s\<lparr>mcalls := k\<rparr>, NULL)"
      using pl u by (simp add: palloc_block_def hdr_def memalign_def POOL_ALIGNMENT_def Let_def)
    then show ?thesis using 1(2,3) by blast
  next
    case 2
    have new: "r \<notin> set bs" using blocks_okD(1) [OF bo] 2(3) by auto
    have "r + psize < 2 ^ 63" using 2(5) unfolding mem_ok_def by simp
    then have al: "align_ptr (r + sizeof_pool_data) ALIGNMENT = r + sizeof_pool_data" using 2(4) by (intro align_header) simp_all
    from bo have "p_current s pool \<in> set bs" and ch: "chain (d_next s) pool bs" and d: "distinct bs" by (simp_all add: blocks_ok_def)
    from chain_suffix [OF ch this(1)] obtain as cs where
      bs: "bs = as @ p_current s pool # cs" and suf: "chain (d_next s) (p_current s pool) (p_current s pool # cs)" by blast
    define s1 where "s1 = s\<lparr>mcalls := k, live := (live s)(r \<mapsto> psize), d_end := (d_end s)(r := r + psize),
      d_next := (d_next s)(r := NULL), d_failed := (d_failed s)(r := 0), d_last := (d_last s)(r := r + sizeof_pool_data + sz)\<rparr>"
    have "\<exists>df cur. count_failed s1 pool (p_current s pool)
        = Some (s1\<lparr>d_failed := df, p_current := (p_current s1)(pool := cur)\<rparr>, last (p_current s pool # cs))
      \<and> (cur = p_current s1 pool \<or> cur \<in> set cs)"
    proof (rule count_failed_ok)
      show "chain (d_next s1) (p_current s pool) (p_current s pool # cs)"
        using suf new bs by (auto simp: s1_def)
      show "\<forall>b \<in> set (p_current s pool # cs). live s1 b \<noteq> None"
        using blocks_okD(1) [OF bo] bs by (auto simp: s1_def)
    qed (use pl in \<open>auto simp: s1_def\<close>)
    then obtain df cur where cf: "count_failed s1 pool (p_current s pool)
        = Some (s1\<lparr>d_failed := df, p_current := (p_current s1)(pool := cur)\<rparr>, last bs)"
      and cur: "cur \<in> set bs" using bs by (auto simp: s1_def)
    have lb: "last bs \<in> set bs" using bs by simp
    then have "live s (last bs) = Some psize" "last bs \<noteq> NULL" using blocks_okD [OF bo] by blast+
    then have "palloc_block libc s pool sz = Some (link_block s pool psize bs r k sz df cur, r + sizeof_pool_data)"
      using 2(1,2) pl u al new cf lb unfolding palloc_block_def memalign_def
      by (simp add: hdr_def POOL_ALIGNMENT_def Let_def s1_def link_block_def)
    moreover have "8 dvd r" using 2(4) by (rule dvd_trans [rotated]) simp
    ultimately show ?thesis using link_block_ok [OF ok 2(3,2,4,5) sz cur] 2(2) by blast
  qed
qed

text \<open>
  The allocator of small pieces: it never faults; it fails, without any change to the pool, only if
  the C library fails; otherwise the piece is aligned on request and made of bytes of a block
  that nobody was given before.
\<close>

lemma palloc_small_ok:
  assumes lok: "libc_ok libc" and ok: "pool_ok s pool psize bs ls" and sz: "sz + sizeof_pool_data \<le> psize"
  shows "(\<exists>k. palloc_small libc s pool sz al = Some (s\<lparr>mcalls := k\<rparr>, NULL) \<and> k = Suc (mcalls s) \<and> refused libc s [(16, psize)])
    \<or> (\<exists>s' bs' m. palloc_small libc s pool sz al = Some (s', m) \<and> m \<noteq> NULL \<and> (al \<longrightarrow> 8 dvd m)
        \<and> pool_ok s' pool psize bs' ls \<and> small_frame s pool psize bs s' bs' \<and> fresh_piece s bs s' bs' m sz)"
proof -
  from ok have bo: "blocks_ok s pool psize bs" by (simp add: pool_ok_def)
  have pl: "live s pool = Some psize" "pool \<noteq> NULL" using blocks_okD [OF bo] pool_live [OF bo] by blast+
  from bo have "p_current s pool \<in> set bs" and ch: "chain (d_next s) pool bs" by (simp_all add: blocks_ok_def)
  from chain_suffix [OF ch this(1)] obtain as cs where
    bs: "bs = as @ p_current s pool # cs" and suf: "chain (d_next s) (p_current s pool) (p_current s pool # cs)" by blast
  have "set (p_current s pool # cs) \<subseteq> set bs" using bs by auto
  from palloc_small_loop_ok [OF ok suf this, of sz al] consider
    "palloc_small_loop s (p_current s pool) sz al = Some None"
    | b m where "palloc_small_loop s (p_current s pool) sz al = Some (Some (s\<lparr>d_last := (d_last s)(b := m + sz)\<rparr>, m))"
      "b \<in> set bs" "d_last s b \<le> m" "m + sz \<le> b + psize" "al \<longrightarrow> 8 dvd m" using bs by auto
  then show ?thesis
  proof cases
    case 1
    then have "palloc_small libc s pool sz al = palloc_block libc s pool sz"
      using pl by (simp add: palloc_small_def hdr_def)
    moreover have "8 dvd n + sizeof_pool_data" if "8 dvd n" for n using that by (simp add: sizeof_pool_data_def)
    moreover have "n + sizeof_pool_data \<noteq> NULL" for n by (simp add: sizeof_pool_data_def)
    ultimately show ?thesis using palloc_block_ok [OF lok ok sz] by metis
  next
    case 2
    let ?s = "s\<lparr>d_last := (d_last s)(b := m + sz)\<rparr>"
    have "palloc_small libc s pool sz al = Some (?s, m)" using 2(1) pl by (simp add: palloc_small_def hdr_def)
    moreover have "m \<noteq> NULL" using blocks_okD(4) [OF bo 2(2)] 2(3) by (simp add: sizeof_pool_data_def)
    moreover have "pool_ok ?s pool psize bs ls" using 2(3,4) by (intro bump_ok [OF ok 2(2)]) simp_all
    moreover have "small_frame s pool psize bs ?s bs" using bump_fresh(2) [OF ok 2(2-4)] by (simp add: small_frame_def)
    moreover note bump_fresh(1) [OF ok 2(2-4)] 2(5)
    ultimately show ?thesis by blast
  qed
qed

section \<open>Large allocations\<close>

text \<open>
  What an allocation promises, small or large: the \<open>sz\<close> bytes at \<open>m\<close> were not given out before and are
  now; all that was given out still is; the data bytes are untouched; no other memory is released.
\<close>

definition gives :: "'a pmem_scheme \<Rightarrow> addr \<Rightarrow> nat \<Rightarrow> addr list \<Rightarrow> addr list \<Rightarrow> 'a pmem_scheme \<Rightarrow> addr list \<Rightarrow> addr list \<Rightarrow> addr \<Rightarrow> nat \<Rightarrow> bool" where
  "gives s pool psize bs ls s' bs' ls' m sz \<longleftrightarrow> m \<noteq> NULL \<and> pool_ok s' pool psize bs' ls'
     \<and> {m ..< m + sz} \<inter> given s bs ls = {} \<and> given s bs ls \<union> {m ..< m + sz} \<subseteq> given s' bs' ls'
     \<and> bytes s' = bytes s \<and> pmem.more s' = pmem.more s \<and> live s \<subseteq>\<^sub>m live s'
     \<and> set bs \<union> larges s ls \<subseteq> set bs' \<union> larges s' ls'
     \<and> dom (live s') - (set bs' \<union> larges s' ls') = dom (live s) - (set bs \<union> larges s ls)"

lemma larges_facts:
  assumes "pool_ok s pool psize bs ls"
  shows "p \<in> larges s ls \<Longrightarrow> live s p \<noteq> None" "p \<in> larges s ls \<Longrightarrow> p \<notin> set bs"
  using assms larges_ok_alloc unfolding pool_ok_def larges_def by blast+

lemma large_apart:
  assumes ok: "pool_ok s pool psize bs ls" and b: "live s b = Some n" "b \<notin> larges s ls"
  shows "{b ..< b + n} \<inter> large_bytes s ls = {}"
proof -
  have "x \<notin> {p ..< p + the (live s p)}" if p: "p \<in> larges s ls" and x: "x \<in> {b ..< b + n}" for p x
  proof -
    from larges_facts(1) [OF ok p] obtain k where k: "live s p = Some k" by blast
    have "p \<noteq> b" using p b(2) by blast
    with ok k b(1) have "b + n \<le> p \<or> p + k \<le> b" unfolding pool_ok_def mem_ok_def by blast
    with k x show ?thesis by auto
  qed
  then show ?thesis unfolding large_bytes_def by blast
qed

lemma used_apart:
  assumes ok: "pool_ok s pool psize bs ls" and p: "live s p = Some n" "p \<notin> set bs"
  shows "{p ..< p + n} \<inter> used s bs = {}"
proof -
  from ok have bo: "blocks_ok s pool psize bs" and mo: "mem_ok s" by (simp_all add: pool_ok_def)
  have "x \<notin> {b ..< d_last s b}" if b: "b \<in> set bs" and x: "x \<in> {p ..< p + n}" for b x
  proof -
    note bb = blocks_okD [OF bo b]
    have "p \<noteq> b" using b p(2) by blast
    with mo p(1) bb(1) have "b + psize \<le> p \<or> p + n \<le> b" unfolding mem_ok_def by blast
    with bb(5) x show ?thesis by auto
  qed
  then show ?thesis unfolding used_def by blast
qed

lemma live_larges_eq:
  "live s \<subseteq>\<^sub>m live s' \<Longrightarrow> (\<And>p. p \<in> larges s ls \<Longrightarrow> live s p \<noteq> None) \<Longrightarrow> p \<in> larges s ls \<Longrightarrow> live s' p = live s p"
  by (metis domIff map_le_def)

lemma small_frame_live: "small_frame s pool psize bs s' bs' \<Longrightarrow> live s \<subseteq>\<^sub>m live s'"
  by (auto simp: small_frame_def map_le_def)

lemma small_frame_larges:
  assumes "small_frame s pool psize bs s' bs'" and ok: "pool_ok s pool psize bs ls"
  shows "larges s' ls = larges s ls" "large_bytes s' ls = large_bytes s ls"
proof -
  show l: "larges s' ls = larges s ls" using assms(1) by (simp add: small_frame_def larges_def)
  have "live s' p = live s p" if "p \<in> larges s ls" for p
    using small_frame_live [OF assms(1)] larges_facts(1) [OF ok] that by (rule live_larges_eq)
  then show "large_bytes s' ls = large_bytes s ls" unfolding large_bytes_def l by simp
qed

lemma small_gives:
  assumes ok: "pool_ok s pool psize bs ls" and m: "m \<noteq> NULL" and ok': "pool_ok s' pool psize bs' ls"
    and f: "small_frame s pool psize bs s' bs'" and p: "fresh_piece s bs s' bs' m sz"
  shows "gives s pool psize bs ls s' bs' ls m sz"
proof -
  note lg = small_frame_larges [OF f ok]
  from p obtain b where b: "b \<in> set bs'" "b + sizeof_pool_data \<le> m" "m + sz \<le> d_last s' b"
    by (auto simp: fresh_piece_def)
  from ok' have bo': "blocks_ok s' pool psize bs'" by (simp add: pool_ok_def)
  note bb = blocks_okD [OF bo' b(1)]
  have "b \<notin> larges s' ls" using larges_facts(2) [OF ok'] b(1) by blast
  moreover have "{m ..< m + sz} \<subseteq> {b ..< b + psize}" using b(2,3) bb(5) by auto
  ultimately have "{m ..< m + sz} \<inter> large_bytes s ls = {}"
    using large_apart [OF ok' bb(1)] unfolding lg by blast
  moreover have "dom (live s') - (set bs' \<union> larges s' ls) = dom (live s) - (set bs \<union> larges s ls)"
    using f unfolding lg small_frame_def by auto
  moreover have "used s bs \<subseteq> used s' bs'" "bytes s' = bytes s" "pmem.more s' = pmem.more s" "set bs \<subseteq> set bs'" using f by (auto simp: small_frame_def)
  ultimately show ?thesis using m ok' p small_frame_live [OF f] unfolding gives_def given_def lg
    by (auto simp: fresh_piece_def)
qed

lemma find_free_large_ok:
  "chain (l_next s) h ls \<Longrightarrow> \<exists>l. find_free_large s h n = Some l \<and> (l = NULL \<or> l \<in> set ls \<and> l_alloc s l = NULL)"
proof (induction ls arbitrary: h n)
  case Nil
  then show ?case by (subst find_free_large.simps) simp
next
  case (Cons l ls)
  then have "h = l" "l \<noteq> NULL" "chain (l_next s) (l_next s l) ls" by auto
  with Cons.IH [of "l_next s l" "n + 1"] show ?case by (subst find_free_large.simps) auto
qed

text \<open>The state right after the C library gave a block \<open>p\<close> that is in no list yet.\<close>

lemma pool_ok_live:
  assumes ok: "pool_ok s pool psize bs ls" and p: "live s p = None"
    and mem: "mem_ok (s\<lparr>mcalls := k, live := (live s)(p \<mapsto> n)\<rparr>)"
  shows "pool_ok (s\<lparr>mcalls := k, live := (live s)(p \<mapsto> n)\<rparr>) pool psize bs ls"
proof -
  from ok have bo: "blocks_ok s pool psize bs" and lo: "larges_ok s pool bs ls" by (simp_all add: pool_ok_def)
  have "p \<notin> set bs" using blocks_okD(1) [OF bo] p by auto
  then have "blocks_ok (s\<lparr>mcalls := k, live := (live s)(p \<mapsto> n)\<rparr>) pool psize bs"
    using bo by (auto simp: blocks_ok_def)
  moreover have "larges_ok (s\<lparr>mcalls := k, live := (live s)(p \<mapsto> n)\<rparr>) pool bs ls"
    using lo unfolding larges_ok_def by simp
  ultimately show ?thesis using ok mem by (simp add: pool_ok_def)
qed

lemma gives_large:
  assumes ok: "pool_ok s pool psize bs ls" and ok': "pool_ok s' pool psize bs' ls'"
    and p: "live s p = None" "live s' p = Some n" and l: "larges s' ls' = insert p (larges s ls)"
    and f: "live s \<subseteq>\<^sub>m live s'" "used s bs \<subseteq> used s' bs'" "bytes s' = bytes s" "pmem.more s' = pmem.more s" "set bs \<subseteq> set bs'"
      "dom (live s') = insert p (dom (live s) \<union> (set bs' - set bs))" "(set bs' - set bs) \<inter> dom (live s) = {}"
  shows "gives s pool psize bs ls s' bs' ls' p n"
proof -
  have nz: "p \<noteq> NULL" using l by (auto simp: larges_def)
  have np: "p \<notin> larges s ls" using larges_facts(1) [OF ok] p(1) by blast
  have nb: "p \<notin> set bs'" using larges_facts(2) [OF ok'] l by blast
  have old: "live s' q = live s q" if "q \<in> larges s ls" for q
    using f(1) larges_facts(1) [OF ok] that by (rule live_larges_eq)
  have "large_bytes s' ls' = {p ..< p + n} \<union> (\<Union>q \<in> larges s ls. {q ..< q + the (live s' q)})"
    using p(2) by (simp add: large_bytes_def l)
  then have lb: "large_bytes s' ls' = {p ..< p + n} \<union> large_bytes s ls"
    using old by (simp add: large_bytes_def)
  have "x \<notin> {q ..< q + the (live s q)}" if q: "q \<in> larges s ls" and x: "x \<in> {p ..< p + n}" for q x
  proof -
    from larges_facts(1) [OF ok q] obtain k where k: "live s q = Some k" by blast
    then have "live s' q = Some k" using old [OF q] by simp
    moreover have "p \<noteq> q" using np q by blast
    ultimately have "p + n \<le> q \<or> q + k \<le> p" using ok' p(2) unfolding pool_ok_def mem_ok_def by blast
    then show ?thesis using k x by auto
  qed
  then have a1: "{p ..< p + n} \<inter> large_bytes s ls = {}" unfolding large_bytes_def by blast
  have a2: "{p ..< p + n} \<inter> used s bs = {}" using used_apart [OF ok' p(2) nb] f(2) by blast
  have "dom (live s') - (set bs' \<union> larges s' ls') = dom (live s) - (set bs \<union> larges s ls)"
    using f(5,6,7) l p(1) by auto
  moreover have "set bs \<union> larges s ls \<subseteq> set bs' \<union> larges s' ls'" using f(5) l by blast
  moreover have "given s bs ls \<union> {p ..< p + n} \<subseteq> given s' bs' ls'" using f(2) unfolding given_def lb by blast
  moreover have "{p ..< p + n} \<inter> given s bs ls = {}" using a1 a2 unfolding given_def by blast
  ultimately show ?thesis using nz ok' f(1,3,4) by (simp add: gives_def)
qed

text \<open>A freed entry of the list is used again.\<close>

lemma reuse_large:
  assumes ok: "pool_ok s pool psize bs ls" and p: "live s p = None" "p \<noteq> NULL"
    and mem: "mem_ok (s\<lparr>mcalls := k, live := (live s)(p \<mapsto> n)\<rparr>)"
    and l: "l \<in> set ls" "l_alloc s l = NULL"
  shows "gives s pool psize bs ls (s\<lparr>mcalls := k, live := (live s)(p \<mapsto> n), l_alloc := (l_alloc s)(l := p)\<rparr>) bs ls p n"
proof -
  let ?s1 = "s\<lparr>mcalls := k, live := (live s)(p \<mapsto> n)\<rparr>"
  let ?s = "s\<lparr>mcalls := k, live := (live s)(p \<mapsto> n), l_alloc := (l_alloc s)(l := p)\<rparr>"
  from ok have bo: "blocks_ok s pool psize bs" and lo: "larges_ok s pool bs ls" by (simp_all add: pool_ok_def)
  have ok1: "pool_ok ?s1 pool psize bs ls" using pool_ok_live [OF ok p(1) mem] .
  have pb: "p \<notin> set bs" using blocks_okD(1) [OF bo] p(1) by auto
  have pl: "p \<notin> larges s ls" using larges_facts(1) [OF ok] p(1) by blast
  from l(1) obtain as cs where ls: "ls = as @ l # cs" by (meson split_list)
  have dl: "distinct ls" using lo by (simp add: larges_ok_def)
  then have nl: "l \<notin> set as" "l \<notin> set cs" using ls by auto
  have dist: "distinct (filter (\<lambda>a. a \<noteq> NULL) (map ((l_alloc s)(l := p)) ls))"
  proof -
    have m: "map ((l_alloc s)(l := p)) ls = map (l_alloc s) as @ p # map (l_alloc s) cs"
      using nl by (simp add: ls)
    have "distinct (filter (\<lambda>a. a \<noteq> NULL) (map (l_alloc s) as @ map (l_alloc s) cs))"
      using lo l(2) by (simp add: larges_ok_def ls)
    moreover have "p \<notin> set (filter (\<lambda>a. a \<noteq> NULL) (map (l_alloc s) as @ map (l_alloc s) cs))"
      using pl by (auto simp: larges_def ls)
    ultimately show ?thesis unfolding m by auto
  qed
  have "larges_ok ?s1 pool bs ls" using ok1 by (simp add: pool_ok_def)
  then have "larges_ok ?s pool bs ls"
    using dist pb unfolding larges_ok_def by simp
  moreover have "blocks_ok ?s pool psize bs" "mem_ok ?s" using ok1 by (simp_all add: pool_ok_def blocks_ok_def mem_ok_def)
  ultimately have ok': "pool_ok ?s pool psize bs ls" using ok by (simp add: pool_ok_def)
  have "larges ?s ls = insert p (larges s ls)"
    using l p(2) by (auto simp: larges_def)
  then show ?thesis
    using p by (intro gives_large [OF ok ok']) (auto simp: used_def map_le_def)
qed

text \<open>A new entry is put in front of the list.\<close>

definition large_put :: "'a pmem_scheme \<Rightarrow> addr \<Rightarrow> addr \<Rightarrow> addr \<Rightarrow> 'a pmem_scheme" where
  "large_put s pool l p = s\<lparr>l_alloc := (l_alloc s)(l := p), l_next := (l_next s)(l := p_large s pool),
     p_large := (p_large s)(pool := l)\<rparr>"

lemma add_large_eq: "pool \<noteq> NULL \<Longrightarrow> live s pool \<noteq> None \<Longrightarrow> add_large s pool l p = Some (large_put s pool l p)"
  by (simp add: add_large_def large_put_def hdr_def Let_def)

lemma large_put_ok:
  assumes ok: "pool_ok s pool psize bs ls" and l: "l \<noteq> NULL" "b \<in> set bs" "b + sizeof_pool_data \<le> l" "l + sizeof_pool_large \<le> d_last s b"
    and fresh: "\<And>k. k \<in> set ls \<Longrightarrow> l + sizeof_pool_large \<le> k \<or> k + sizeof_pool_large \<le> l"
    and p: "live s p \<noteq> None" "p \<notin> set bs" "p \<notin> larges s ls" "p \<noteq> NULL"
  shows "pool_ok (large_put s pool l p) pool psize bs (l # ls)"
    "larges (large_put s pool l p) (l # ls) = insert p (larges s ls)"
proof -
  let ?s = "large_put s pool l p"
  from ok have lo: "larges_ok s pool bs ls" by (simp add: pool_ok_def)
  have nl: "l \<notin> set ls" using fresh by (force simp: sizeof_pool_large_def)
  have m: "map ((l_alloc s)(l := p)) ls = map (l_alloc s) ls" using nl by (auto simp: large_put_def)
  have im: "l_alloc ?s ` set ls = l_alloc s ` set ls" using nl by (auto simp: large_put_def)
  show "larges ?s (l # ls) = insert p (larges s ls)"
    using p(4) im by (auto simp: larges_def large_put_def)
  have c6: "distinct (filter (\<lambda>a. a \<noteq> NULL) (map (l_alloc s) ls))" using lo by (simp add: larges_ok_def)
  have "larges_ok ?s pool bs (l # ls)"
  proof (rule larges_okI)
    show "chain (l_next ?s) (p_large ?s pool) (l # ls)" "distinct (l # ls)"
      using lo nl l(1) by (simp_all add: large_put_def larges_ok_def)
    show "x + sizeof_pool_large \<le> k \<or> k + sizeof_pool_large \<le> x"
      if "x \<in> set (l # ls)" "k \<in> set (l # ls)" "x \<noteq> k" for x k
      using that fresh larges_ok_sep [OF lo, of x k] by auto
    show "\<exists>b \<in> set bs. b + sizeof_pool_data \<le> x \<and> x + sizeof_pool_large \<le> d_last ?s b" if "x \<in> set (l # ls)" for x
      using that l larges_ok_place [OF lo] by (cases "x = l") (auto simp: large_put_def)
    show "live ?s (l_alloc ?s x) \<noteq> None \<and> l_alloc ?s x \<notin> set bs" if "x \<in> set (l # ls)" "l_alloc ?s x \<noteq> NULL" for x
      using that p(1,2) larges_ok_alloc [OF lo, of x] by (cases "x = l") (simp_all add: large_put_def)
    show "distinct (filter (\<lambda>a. a \<noteq> NULL) (map (l_alloc ?s) (l # ls)))"
      using p(3,4) c6 by (auto simp: larges_def large_put_def m)
  qed
  moreover have "blocks_ok ?s pool psize bs" "mem_ok ?s" using ok by (simp_all add: pool_ok_def blocks_ok_def mem_ok_def large_put_def)
  ultimately show "pool_ok ?s pool psize bs (l # ls)" using ok by (simp add: pool_ok_def large_put_def)
qed

text \<open>
  The common end of \<open>palloc_large\<close> and \<open>pmemalign\<close>: an entry for the new block is cut from the pool
  and put in the list; if that fails the block is released again.
\<close>

lemma register_large:
  assumes lok: "libc_ok libc" and ok: "pool_ok s pool psize bs ls" and p: "live s p = None" "p \<noteq> NULL"
    and mem: "mem_ok (s\<lparr>mcalls := k, live := (live s)(p \<mapsto> n)\<rparr>)"
  shows "(\<exists>s2 k'. palloc_small libc (s\<lparr>mcalls := k, live := (live s)(p \<mapsto> n)\<rparr>) pool sizeof_pool_large True = Some (s2, NULL)
        \<and> libc_free s2 p = Some (s\<lparr>mcalls := k'\<rparr>) \<and> k' = Suc k \<and> refused libc (s\<lparr>mcalls := k, live := (live s)(p \<mapsto> n)\<rparr>) [(16, psize)])
    \<or> (\<exists>s2 l s' bs' ls'. palloc_small libc (s\<lparr>mcalls := k, live := (live s)(p \<mapsto> n)\<rparr>) pool sizeof_pool_large True = Some (s2, l)
        \<and> l \<noteq> NULL \<and> add_large s2 pool l p = Some s' \<and> gives s pool psize bs ls s' bs' ls' p n
        \<and> live s' p = Some n \<and> p \<in> larges s' ls')"
proof -
  let ?s1 = "s\<lparr>mcalls := k, live := (live s)(p \<mapsto> n)\<rparr>"
  have ok1: "pool_ok ?s1 pool psize bs ls" using pool_ok_live [OF ok p(1) mem] .
  from ok have bo: "blocks_ok s pool psize bs" and "MIN_POOL_SIZE \<le> psize" by (simp_all add: pool_ok_def)
  then have sz: "sizeof_pool_large + sizeof_pool_data \<le> psize"
    by (simp add: MIN_POOL_SIZE_eq sizeof_pool_large_def sizeof_pool_data_def)
  have pl: "live s pool = Some psize" "pool \<noteq> NULL" using blocks_okD [OF bo] pool_live [OF bo] by blast+
  have plarge: "p \<notin> larges s ls" using larges_facts(1) [OF ok] p(1) by blast
  from palloc_small_ok [OF lok ok1 sz, of True] consider
    (fail) k' where "palloc_small libc ?s1 pool sizeof_pool_large True = Some (?s1\<lparr>mcalls := k'\<rparr>, NULL)" "k' = Suc (mcalls ?s1)" "refused libc ?s1 [(16, psize)]"
    | (piece) s2 bs' l where "palloc_small libc ?s1 pool sizeof_pool_large True = Some (s2, l)" "l \<noteq> NULL"
      "pool_ok s2 pool psize bs' ls" "small_frame ?s1 pool psize bs s2 bs'" "fresh_piece ?s1 bs s2 bs' l sizeof_pool_large"
    by blast
  then show ?thesis
  proof cases
    case fail
    have "(live s)(p := None) = live s" using p(1) by (intro fun_upd_idem)
    then have "libc_free (?s1\<lparr>mcalls := k'\<rparr>) p = Some (s\<lparr>mcalls := k'\<rparr>)" using p(2) by (simp add: libc_free_def)
    with fail show ?thesis by auto
  next
    case piece
    have sf: "l_next s2 = l_next s" "l_alloc s2 = l_alloc s" "bytes s2 = bytes s" "pmem.more s2 = pmem.more s" "used s bs \<subseteq> used s2 bs'"
      and sl: "bs' = bs \<and> live s2 = (live s)(p \<mapsto> n)
        \<or> (\<exists>m. bs' = bs @ [m] \<and> m \<noteq> p \<and> live s m = None \<and> live s2 = (live s)(p \<mapsto> n, m \<mapsto> psize))"
      using piece(4) by (auto simp: small_frame_def used_def split: if_splits)
    from piece(5) obtain b where b: "b \<in> set bs'" "b + sizeof_pool_data \<le> l" "l + sizeof_pool_large \<le> d_last s2 b"
      and fr: "{l ..< l + sizeof_pool_large} \<inter> used s bs = {}" by (auto simp: fresh_piece_def used_def)
    from piece(3) have bo2: "blocks_ok s2 pool psize bs'" by (simp add: pool_ok_def)
    have lp: "live s2 pool \<noteq> None" using blocks_okD(1) [OF bo2 pool_live [OF bo2]] by simp
    have sep: "l + sizeof_pool_large \<le> x \<or> x + sizeof_pool_large \<le> l" if x: "x \<in> set ls" for x
    proof -
      have "larges_ok s pool bs ls" using ok by (simp add: pool_ok_def)
      from larges_ok_place [OF this x] obtain c where "c \<in> set bs" "c + sizeof_pool_data \<le> x" "x + sizeof_pool_large \<le> d_last s c" by blast
      then have "{x ..< x + sizeof_pool_large} \<subseteq> used s bs" by (auto simp: used_def intro!: bexI [of _ c])
      with fr have "{l ..< l + sizeof_pool_large} \<inter> {x ..< x + sizeof_pool_large} = {}" by blast
      then show ?thesis by (simp add: sizeof_pool_large_def disjoint_iff) (metis le_add1 less_add_same_cancel1 linorder_not_le nat_le_linear zero_less_numeral)
    qed
    have pb: "p \<notin> set bs'" using blocks_okD(1) [OF bo] p(1) sl by force
    have p2: "live s2 p = Some n" using sl by auto
    have lg: "larges s2 ls = larges s ls" using sf by (simp add: larges_def)
    note put = large_put_ok [OF piece(3,2) b sep, of p]
    have "pool_ok (large_put s2 pool l p) pool psize bs' (l # ls)"
      "larges (large_put s2 pool l p) (l # ls) = insert p (larges s ls)"
      using put p2 pb plarge p(2) unfolding lg by simp_all
    moreover have "live (large_put s2 pool l p) = live s2" "bytes (large_put s2 pool l p) = bytes s2" "pmem.more (large_put s2 pool l p) = pmem.more s2"
      "used (large_put s2 pool l p) bs' = used s2 bs'" by (simp_all add: large_put_def used_def)
    moreover have "gives s pool psize bs ls (large_put s2 pool l p) bs' (l # ls) p n"
    proof (rule gives_large [OF ok calculation(1) p(1) _ calculation(2)])
      show "dom (live (large_put s2 pool l p)) = insert p (dom (live s) \<union> (set bs' - set bs))"
        "(set bs' - set bs) \<inter> dom (live s) = {}" "live s \<subseteq>\<^sub>m live (large_put s2 pool l p)"
        using sl p(1) unfolding calculation by (auto simp: map_le_def dom_def dest: blocks_okD(1) [OF bo])
    qed (use p2 sf sl calculation in auto)
    ultimately show ?thesis using piece(1,2) add_large_eq [OF pl(2) lp] p2 by (metis insertI1)
  qed
qed

text \<open>
  The contract of every allocating function: it never faults; it returns \<open>NULL\<close> only when the C
  library refused a request it made (for the piece, with alignment \<open>ra\<close>, or for a block), and the pool is then as before; otherwise it gives \<open>sz\<close> new bytes, aligned to \<open>al\<close>.
\<close>

definition alloc_result :: "libc \<Rightarrow> 'a pmem_scheme \<Rightarrow> addr \<Rightarrow> nat \<Rightarrow> addr list \<Rightarrow> addr list \<Rightarrow> nat \<Rightarrow> nat \<Rightarrow> nat \<Rightarrow> ('a pmem_scheme \<times> addr) option \<Rightarrow> bool" where
  "alloc_result libc s pool psize bs ls ra al sz r \<longleftrightarrow>
     (\<exists>k. r = Some (s\<lparr>mcalls := k\<rparr>, NULL) \<and> denied libc s ra psize sz k)
     \<or> (\<exists>s' bs' ls' m. r = Some (s', m) \<and> al dvd m \<and> gives s pool psize bs ls s' bs' ls' m sz)"

lemma alloc_result_fail:
  "r = Some (s\<lparr>mcalls := k\<rparr>, NULL) \<Longrightarrow> denied libc s ra psize sz k \<Longrightarrow> alloc_result libc s pool psize bs ls ra al sz r"
  unfolding alloc_result_def by blast

lemma alloc_result_ok:
  "r = Some (s', m) \<Longrightarrow> al dvd m \<Longrightarrow> gives s pool psize bs ls s' bs' ls' m sz \<Longrightarrow> alloc_result libc s pool psize bs ls ra al sz r"
  unfolding alloc_result_def by blast

lemma alloc_resultE:
  assumes "alloc_result libc s pool psize bs ls ra al sz r"
  obtains (fail) k where "r = Some (s\<lparr>mcalls := k\<rparr>, NULL)" "denied libc s ra psize sz k"
    | (ok) s' bs' ls' m where "r = Some (s', m)" "al dvd m" "gives s pool psize bs ls s' bs' ls' m sz"
  using assms unfolding alloc_result_def by blast

lemma denied_block: "refused libc s [(16, psize)] \<Longrightarrow> denied libc s ra psize n (Suc (mcalls s))"
  unfolding denied_def by (rule bexI [of _ "[(16, psize)]"]) simp_all

lemma denied_piece: "refused libc s [(ra, n)] \<Longrightarrow> denied libc s ra psize n (Suc (mcalls s))"
  unfolding denied_def by (rule bexI [of _ "[(ra, n)]"]) simp_all

lemma denied_both:
  "libc_alloc libc s ra n = (s1, p) \<Longrightarrow> p \<noteq> NULL \<Longrightarrow> refused libc s1 [(16, psize)] \<Longrightarrow> denied libc s ra psize n (Suc (Suc (mcalls s)))"
  unfolding denied_def by (rule bexI [of _ "[(ra, n), (16, psize)]"]) (simp_all add: refused.simps)

lemma palloc_small_result:
  assumes "libc_ok libc" "pool_ok s pool psize bs ls" "sz + sizeof_pool_data \<le> psize"
  shows "alloc_result libc s pool psize bs ls ra (if al then 8 else 1) sz (palloc_small libc s pool sz al)"
  using palloc_small_ok [OF assms, of al]
proof (elim disjE conjE exE)
  fix k assume "palloc_small libc s pool sz al = Some (s\<lparr>mcalls := k\<rparr>, NULL)" "k = Suc (mcalls s)" "refused libc s [(16, psize)]"
  then show ?thesis using alloc_result_fail denied_block by metis
next
  fix s' bs' m
  assume *: "palloc_small libc s pool sz al = Some (s', m)" "m \<noteq> NULL" "al \<longrightarrow> 8 dvd m"
    "pool_ok s' pool psize bs' ls" "small_frame s pool psize bs s' bs'" "fresh_piece s bs s' bs' m sz"
  have "(if al then 8 else 1) dvd m" using *(3) by simp
  from alloc_result_ok [OF *(1) this small_gives [OF assms(2) *(2,4-6)]] show ?thesis .
qed

lemma palloc_large_result:
  assumes lok: "libc_ok libc" and ok: "pool_ok s pool psize bs ls"
  shows "alloc_result libc s pool psize bs ls 16 8 sz (palloc_large libc s pool sz)"
proof -
  from ok have bo: "blocks_ok s pool psize bs" and mo: "mem_ok s" and lo: "larges_ok s pool bs ls" by (simp_all add: pool_ok_def)
  have pl: "live s pool = Some psize" "pool \<noteq> NULL" using blocks_okD [OF bo] pool_live [OF bo] by blast+
  consider (fail) k where "libc_alloc libc s 16 sz = (s\<lparr>mcalls := k\<rparr>, NULL)" "k = Suc (mcalls s)" "refused libc s [(16, sz)]"
    | (got) r k where "libc_alloc libc s 16 sz = (s\<lparr>mcalls := k, live := (live s)(r \<mapsto> sz)\<rparr>, r)"
        "r \<noteq> NULL" "live s r = None" "16 dvd r" "mem_ok (s\<lparr>mcalls := k, live := (live s)(r \<mapsto> sz)\<rparr>)" "k = Suc (mcalls s)"
    using libc_alloc_ok [OF lok mo, of 16 sz] by blast
  then show ?thesis
  proof cases
    case fail
    then have "palloc_large libc s pool sz = Some (s\<lparr>mcalls := k\<rparr>, NULL)"
      by (simp add: palloc_large_def alloc_def)
    then show ?thesis using fail(2,3) alloc_result_fail denied_piece by metis
  next
    case got
    let ?s1 = "s\<lparr>mcalls := k, live := (live s)(r \<mapsto> sz)\<rparr>"
    have d8: "8 dvd r" using got(4) by (rule dvd_trans [rotated]) simp
    have "chain (l_next ?s1) (p_large s pool) ls" using lo by (simp add: larges_ok_def)
    from find_free_large_ok [OF this, of 0] obtain l where
      l: "find_free_large ?s1 (p_large s pool) 0 = Some l" "l = NULL \<or> l \<in> set ls \<and> l_alloc s l = NULL" by auto
    show ?thesis
    proof (cases "l = NULL")
      case False
      then have "palloc_large libc s pool sz = Some (?s1\<lparr>l_alloc := (l_alloc s)(l := r)\<rparr>, r)"
        using got(1,2) l(1) pl by (simp add: palloc_large_def alloc_def hdr_def)
      moreover from l(2) False have "l \<in> set ls" "l_alloc s l = NULL" by blast+
      from alloc_result_ok [OF calculation d8] reuse_large [OF ok got(3,2,5) this] show ?thesis by simp
    next
      case True
      from got have np: "live ?s1 pool \<noteq> None" using pl by simp
      have e: "palloc_large libc s pool sz = do {
         (s, large) \<leftarrow> palloc_small libc ?s1 pool sizeof_pool_large True;
         if large = NULL then do { s \<leftarrow> libc_free s r; Some (s, NULL) }
         else do { s \<leftarrow> add_large s pool large r; Some (s, r) } }"
        using got(1,2) l(1) True pl by (simp add: palloc_large_def alloc_def hdr_def)
      from register_large [OF lok ok got(3,2,5)] show ?thesis
        unfolding e
        by (elim disjE conjE exE)
          (simp add: alloc_result_fail denied_both [OF got(1,2)] got(6), simp add: alloc_result_ok [OF refl d8])
    qed
  qed
qed

lemma p_max_le: "pool_ok s pool psize bs ls \<Longrightarrow> sz \<le> p_max s pool \<Longrightarrow> sz + sizeof_pool_data \<le> psize"
  by (auto simp: pool_ok_def MIN_POOL_SIZE_eq sizeof_pool_def sizeof_pool_data_def split: if_splits)

lemma alloc_result_dvd:
  assumes "alloc_result libc s pool psize bs ls ra al sz r" "al' dvd al"
  shows "alloc_result libc s pool psize bs ls ra al' sz r"
  using assms(1)
proof (cases rule: alloc_resultE)
  case ok
  with dvd_trans [OF assms(2) ok(2)] show ?thesis by (intro alloc_result_ok)
qed (rule alloc_result_fail)

lemma pool_hdr: "pool_ok s pool psize bs ls \<Longrightarrow> hdr s pool v = Some v"
  using blocks_okD pool_live unfolding pool_ok_def hdr_def by fastforce

lemma palloc_result:
  assumes lok: "libc_ok libc" and ok: "pool_ok s pool psize bs ls"
  shows "alloc_result libc s pool psize bs ls 16 8 sz (palloc libc s pool sz)"
  using palloc_small_result [OF lok ok p_max_le [OF ok], of sz 16 True] palloc_large_result [OF lok ok, of sz]
  by (simp add: palloc_def pool_hdr [OF ok])

lemma pnalloc_result:
  assumes lok: "libc_ok libc" and ok: "pool_ok s pool psize bs ls"
  shows "alloc_result libc s pool psize bs ls 16 1 sz (pnalloc libc s pool sz)"
  using palloc_small_result [OF lok ok p_max_le [OF ok], of sz 16 False]
    alloc_result_dvd [OF palloc_large_result [OF lok ok, of sz], of 1]
  by (simp add: pnalloc_def pool_hdr [OF ok])

lemma pmemalign_result:
  assumes lok: "libc_ok libc" and ok: "pool_ok s pool psize bs ls"
  shows "alloc_result libc s pool psize bs ls al al sz (pmemalign libc s pool sz al)"
proof -
  from ok have mo: "mem_ok s" by (simp add: pool_ok_def)
  consider (fail) k where "libc_alloc libc s al sz = (s\<lparr>mcalls := k\<rparr>, NULL)" "k = Suc (mcalls s)" "refused libc s [(al, sz)]"
    | (got) r k where "libc_alloc libc s al sz = (s\<lparr>mcalls := k, live := (live s)(r \<mapsto> sz)\<rparr>, r)"
        "r \<noteq> NULL" "live s r = None" "al dvd r" "mem_ok (s\<lparr>mcalls := k, live := (live s)(r \<mapsto> sz)\<rparr>)" "k = Suc (mcalls s)"
    using libc_alloc_ok [OF lok mo, of al sz] by blast
  then show ?thesis
  proof cases
    case fail
    then have "pmemalign libc s pool sz al = Some (s\<lparr>mcalls := k\<rparr>, NULL)"
      by (simp add: pmemalign_def memalign_def)
    then show ?thesis using fail(2,3) alloc_result_fail denied_piece by metis
  next
    case got
    have e: "pmemalign libc s pool sz al = do {
         (s, large) \<leftarrow> palloc_small libc (s\<lparr>mcalls := k, live := (live s)(r \<mapsto> sz)\<rparr>) pool sizeof_pool_large True;
         if large = NULL then do { s \<leftarrow> libc_free s r; Some (s, NULL) }
         else do { s \<leftarrow> add_large s pool large r; Some (s, r) } }"
      using got(1,2) by (simp add: pmemalign_def memalign_def)
    from register_large [OF lok ok got(3,2,5)] show ?thesis
        unfolding e
        by (elim disjE conjE exE)
          (simp add: alloc_result_fail denied_both [OF got(1,2)] got(6), simp add: alloc_result_ok [OF refl got(4)])
  qed
qed

text \<open>\<open>pcalloc\<close> also clears the bytes it gives.\<close>

lemma pcalloc_result:
  assumes lok: "libc_ok libc" and ok: "pool_ok s pool psize bs ls"
  shows "(\<exists>k. pcalloc libc s pool sz = Some (s\<lparr>mcalls := k\<rparr>, NULL) \<and> denied libc s 16 psize sz k)
    \<or> (\<exists>s' bs' ls' m. pcalloc libc s pool sz = Some (memset0 s' m sz, m) \<and> 8 dvd m
        \<and> gives s pool psize bs ls s' bs' ls' m sz)"
  using palloc_result [OF lok ok, of sz]
proof (cases rule: alloc_resultE)
  case (fail k)
  then have "pcalloc libc s pool sz = Some (s\<lparr>mcalls := k\<rparr>, NULL)" by (simp add: pcalloc_def)
  with fail(2) show ?thesis by blast
next
  case (ok s' bs' ls' m)
  then have "pcalloc libc s pool sz = Some (memset0 s' m sz, m)" by (simp add: pcalloc_def gives_def)
  with ok(2,3) show ?thesis by blast
qed

text \<open>
  A refusal in a function that allocates \<open>n\<close> bytes from the pool and then \<open>n'\<close>: \<open>k\<close> calls of the C library later,
  the first piece was refused, or it was given and the second was refused.
\<close>

definition denied_either :: "libc \<Rightarrow> 'a pmem_scheme \<Rightarrow> addr \<Rightarrow> nat \<Rightarrow> nat \<Rightarrow> nat \<Rightarrow> nat \<Rightarrow> bool" where
  "denied_either libc s pool psize n n' k \<longleftrightarrow> denied libc s 16 psize n k
     \<or> (case palloc libc s pool n of Some (s1, p) \<Rightarrow> p \<noteq> NULL \<and> denied libc s1 16 psize n' k | None \<Rightarrow> False)"

lemma denied_first: "denied libc s 16 psize n k \<Longrightarrow> denied_either libc s pool psize n n' k"
  by (simp add: denied_either_def)

lemma denied_second:
  "palloc libc s pool n = Some (s1, p) \<Longrightarrow> p \<noteq> NULL \<Longrightarrow> denied libc s1 16 psize n' k \<Longrightarrow> denied_either libc s pool psize n n' k"
  by (simp add: denied_either_def)

text \<open>The answers of the C library depend on the live blocks and the number of calls only.\<close>

lemma refused_cong: "live s = live t \<Longrightarrow> mcalls s = mcalls t \<Longrightarrow> refused libc s qs = refused libc t qs"
  by (induction qs arbitrary: s t) (simp_all add: refused.simps libc_alloc_def Let_def)

lemma denied_cong: "live s = live t \<Longrightarrow> mcalls s = mcalls t \<Longrightarrow> denied libc s ra psize n k = denied libc t ra psize n k"
  by (simp add: denied_def refused_cong [of s t])

lemma pool_ok_memset0: "pool_ok (memset0 s m n) pool psize bs ls = pool_ok s pool psize bs ls"
  by (simp add: memset0_def pool_ok_def mem_ok_def blocks_ok_def larges_ok_def)

section \<open>Release\<close>

lemma distinct_nonnull_eq:
  "distinct (filter (\<lambda>a. a \<noteq> NULL) (map f ls)) \<Longrightarrow> f l = f k \<Longrightarrow> f l \<noteq> NULL \<Longrightarrow> l \<in> set ls \<Longrightarrow> k \<in> set ls \<Longrightarrow> distinct ls \<Longrightarrow> l = k"
proof (induction ls)
  case (Cons a ls)
  then have "f a \<in> f ` set ls" if "f l = f a" "l \<in> set ls" for l using that by (metis imageI)
  with Cons show ?case by (auto split: if_splits)
qed simp

lemma pfree_loop_ok:
  "chain (l_next s) h ls \<Longrightarrow>
    pfree_loop s h p = (if p \<in> l_alloc s ` set ls
      then do { s' \<leftarrow> libc_free s p; Some (s'\<lparr>l_alloc := (l_alloc s)(hd (filter (\<lambda>l. l_alloc s l = p) ls) := NULL)\<rparr>, 0) }
      else Some (s, - 1))"
proof (induction ls arbitrary: h)
  case Nil
  then show ?case by (subst pfree_loop.simps) simp
next
  case (Cons l ls)
  then have h: "h = l" "l \<noteq> NULL" "chain (l_next s) (l_next s l) ls" by auto
  have a: "libc_free s p = Some s' \<Longrightarrow> l_alloc s' = l_alloc s" for s'
    by (auto simp: libc_free_def split: if_splits)
  show ?case
  proof (cases "p = l_alloc s l")
    case True
    then show ?thesis using h(1,2) a by (subst pfree_loop.simps) (cases "libc_free s p"; simp)
  next
    case False
    then show ?thesis using h Cons.IH [OF h(3)] by (subst pfree_loop.simps) auto
  qed
qed

lemma free_entry_ok:
  assumes ok: "pool_ok s pool psize bs ls" and l: "l \<in> set ls" "l_alloc s l = p" "p \<noteq> NULL"
  shows "pool_ok (s\<lparr>live := (live s)(p := None), l_alloc := (l_alloc s)(l := NULL)\<rparr>) pool psize bs ls"
    "larges (s\<lparr>live := (live s)(p := None), l_alloc := (l_alloc s)(l := NULL)\<rparr>) ls = larges s ls - {p}"
proof -
  let ?s = "s\<lparr>live := (live s)(p := None), l_alloc := (l_alloc s)(l := NULL)\<rparr>"
  from ok have bo: "blocks_ok s pool psize bs" and lo: "larges_ok s pool bs ls" and mo: "mem_ok s" by (simp_all add: pool_ok_def)
  have pb: "p \<notin> set bs" using larges_ok_alloc [OF lo l(1)] l(2,3) by blast
  have only: "l_alloc s x \<noteq> p" if "x \<in> set ls" "x \<noteq> l" for x
  proof
    have "distinct (filter (\<lambda>a. a \<noteq> NULL) (map (l_alloc s) ls))" "distinct ls" using lo by (simp_all add: larges_ok_def)
    moreover assume "l_alloc s x = p"
    ultimately have "x = l" using l that(1) by (intro distinct_nonnull_eq [of "l_alloc s" ls x l]) simp_all
    with that(2) show False ..
  qed
  then show "larges ?s ls = larges s ls - {p}" using l by (auto simp: larges_def)
  from l(1) obtain as cs where ls: "ls = as @ l # cs" by (meson split_list)
  have dl: "distinct ls" using lo by (simp add: larges_ok_def)
  have "larges_ok ?s pool bs ls"
  proof (rule larges_okI)
    show "chain (l_next ?s) (p_large ?s pool) ls" "distinct ls" using lo by (simp_all add: larges_ok_def)
    show "x + sizeof_pool_large \<le> k \<or> k + sizeof_pool_large \<le> x" if "x \<in> set ls" "k \<in> set ls" "x \<noteq> k" for x k
      using larges_ok_sep [OF lo that] .
    show "\<exists>b \<in> set bs. b + sizeof_pool_data \<le> x \<and> x + sizeof_pool_large \<le> d_last ?s b" if "x \<in> set ls" for x
      using larges_ok_place [OF lo that] by simp
    show "live ?s (l_alloc ?s x) \<noteq> None \<and> l_alloc ?s x \<notin> set bs" if "x \<in> set ls" "l_alloc ?s x \<noteq> NULL" for x
    proof -
      have "x \<noteq> l" using that(2) by auto
      with larges_ok_alloc [OF lo that(1)] that only show ?thesis by simp
    qed
    have "distinct (filter (\<lambda>a. a \<noteq> NULL) (map (l_alloc s) ls))" using lo by (simp add: larges_ok_def)
    then show "distinct (filter (\<lambda>a. a \<noteq> NULL) (map (l_alloc ?s) ls))"
      using dl l(2,3) by (auto simp: ls split: if_splits)
  qed
  moreover have "blocks_ok ?s pool psize bs" using bo pb by (auto simp: blocks_ok_def)
  moreover have "mem_ok ?s" using mo by (auto simp: mem_ok_def)
  ultimately show "pool_ok ?s pool psize bs ls" using ok by (simp add: pool_ok_def)
qed

lemma pfree_null:
  assumes ok: "pool_ok s pool psize bs ls"
  shows "\<exists>r. pfree s pool NULL = Some (s, r)"
proof -
  from ok have "chain (l_next s) (p_large s pool) ls" by (simp add: pool_ok_def larges_ok_def)
  note e = pfree_loop_ok [OF this, of NULL]
  show ?thesis
  proof (cases "NULL \<in> l_alloc s ` set ls")
    case True
    define l where "l = hd (filter (\<lambda>l. l_alloc s l = NULL) ls)"
    have "filter (\<lambda>l. l_alloc s l = NULL) ls \<noteq> []" using True by (force simp: filter_empty_conv)
    then have "l \<in> set (filter (\<lambda>l. l_alloc s l = NULL) ls)" unfolding l_def by (rule hd_in_set)
    then have "(l_alloc s)(l := NULL) = l_alloc s" by (auto simp: fun_eq_iff)
    then have "pfree s pool NULL = Some (s, 0)"
      using e True by (simp add: pfree_def pool_hdr [OF ok] libc_free_def l_def)
    then show ?thesis by blast
  qed (use e in \<open>simp add: pfree_def pool_hdr [OF ok]\<close>)
qed

text \<open>
  \<open>pfree\<close> releases exactly the wanted large block and reports whether it found it; its entry in the
  list is then free to be used again.
\<close>

lemma pfree_ok:
  assumes ok: "pool_ok s pool psize bs ls" and p: "p \<noteq> NULL"
  shows "p \<in> larges s ls \<Longrightarrow> \<exists>s'. pfree s pool p = Some (s', 0) \<and> pool_ok s' pool psize bs ls
      \<and> larges s' ls = larges s ls - {p} \<and> live s' = (live s)(p := None) \<and> used s' bs = used s bs"
    and "p \<notin> larges s ls \<Longrightarrow> pfree s pool p = Some (s, - 1)"
proof -
  from ok have "chain (l_next s) (p_large s pool) ls" by (simp add: pool_ok_def larges_ok_def)
  note e = pfree_loop_ok [OF this, of p]
  show "pfree s pool p = Some (s, - 1)" if "p \<notin> larges s ls"
    using that p e by (simp add: pfree_def pool_hdr [OF ok] larges_def)
  show "\<exists>s'. pfree s pool p = Some (s', 0) \<and> pool_ok s' pool psize bs ls
      \<and> larges s' ls = larges s ls - {p} \<and> live s' = (live s)(p := None) \<and> used s' bs = used s bs"
    if q: "p \<in> larges s ls"
  proof -
    define l where "l = hd (filter (\<lambda>l. l_alloc s l = p) ls)"
    have im: "p \<in> l_alloc s ` set ls" using q by (simp add: larges_def)
    then have "filter (\<lambda>l. l_alloc s l = p) ls \<noteq> []" by (auto simp: filter_empty_conv)
    then have "l \<in> set (filter (\<lambda>l. l_alloc s l = p) ls)" unfolding l_def by (rule hd_in_set)
    then have l: "l \<in> set ls" "l_alloc s l = p" by auto
    obtain n where "live s p = Some n" using larges_facts(1) [OF ok q] by blast
    then have "pfree s pool p = Some (s\<lparr>live := (live s)(p := None), l_alloc := (l_alloc s)(l := NULL)\<rparr>, 0)"
      using e p im by (simp add: pfree_def pool_hdr [OF ok] libc_free_def l_def)
    with free_entry_ok [OF ok l p] show ?thesis by (simp add: used_def)
  qed
qed

lemma free_large_ok:
  assumes "chain (l_next s) h ls" and "distinct (filter (\<lambda>a. a \<noteq> NULL) (map (l_alloc s) ls))"
    and "\<forall>p \<in> larges s ls. live s p \<noteq> None"
  shows "free_large s h = Some (s\<lparr>live := live s |` (- larges s ls)\<rparr>)"
  using assms
proof (induction ls arbitrary: s h)
  case Nil
  then show ?case by (subst free_large.simps) (simp add: larges_def restrict_map_def)
next
  case (Cons l ls)
  then have h: "h = l" "l \<noteq> NULL" "chain (l_next s) (l_next s l) ls" by auto
  show ?case
  proof (cases "l_alloc s l = NULL")
    case True
    then have "larges s (l # ls) = larges s ls" by (auto simp: larges_def)
    moreover have "free_large s (l_next s l) = Some (s\<lparr>live := live s |` (- larges s ls)\<rparr>)"
      using Cons.prems h True by (intro Cons.IH) (auto simp: larges_def)
    ultimately show ?thesis using True h by (subst free_large.simps) simp
  next
    case False
    define p where "p = l_alloc s l"
    let ?s = "s\<lparr>live := (live s)(p := None)\<rparr>"
    have "p \<in> larges s (l # ls)" using False by (simp add: larges_def p_def)
    then have lv: "live s p \<noteq> None" using Cons.prems(3) by blast
    have np: "p \<notin> larges s ls" using Cons.prems(2) False by (auto simp: larges_def p_def)
    have eq: "larges s (l # ls) = insert p (larges s ls)" "larges ?s ls = larges s ls"
      using False by (auto simp: larges_def p_def)
    have "free_large ?s (l_next s l) = Some (?s\<lparr>live := live ?s |` (- larges ?s ls)\<rparr>)"
    proof (rule Cons.IH)
      show "distinct (filter (\<lambda>a. a \<noteq> NULL) (map (l_alloc ?s) ls))" using Cons.prems(2) by (simp split: if_splits)
      show "\<forall>q \<in> larges ?s ls. live ?s q \<noteq> None" using Cons.prems(3) np unfolding eq by auto
    qed (use h in simp)
    moreover have "(live s)(p := None) |` (- larges s ls) = live s |` (- insert p (larges s ls))"
      by (auto simp: restrict_map_def fun_eq_iff)
    moreover have "libc_free s p = Some ?s" using lv False by (simp add: libc_free_def p_def)
    ultimately show ?thesis using h False unfolding eq by (subst free_large.simps) (simp add: p_def)
  qed
qed

lemma free_blocks_ok:
  assumes "chain (d_next s) n ns" and "distinct (p # ns)" and "p \<noteq> NULL" and "\<forall>b \<in> set (p # ns). live s b \<noteq> None"
  shows "free_blocks s p n = Some (s\<lparr>live := live s |` (- set (p # ns))\<rparr>)"
  using assms
proof (induction ns arbitrary: s p n)
  case Nil
  have "(live s)(p := None) = live s |` (- {p})" by (auto simp: restrict_map_def fun_eq_iff)
  with Nil show ?case by (subst free_blocks.simps) (simp add: libc_free_def)
next
  case (Cons n' ns)
  then have n: "n = n'" "n' \<noteq> NULL" "chain (d_next s) (d_next s n') ns" by auto
  let ?s = "s\<lparr>live := (live s)(p := None)\<rparr>"
  have "free_blocks ?s n' (d_next s n') = Some (?s\<lparr>live := live ?s |` (- set (n' # ns))\<rparr>)"
    using Cons.prems n by (intro Cons.IH) auto
  moreover have "(live s)(p := None) |` (- set (n' # ns)) = live s |` (- set (p # n' # ns))"
    by (auto simp: restrict_map_def fun_eq_iff)
  moreover have "libc_free s p = Some ?s" "hdr ?s n' v = Some v" for v :: addr
    using Cons.prems n by (auto simp: libc_free_def hdr_def)
  ultimately show ?case using n by (subst free_blocks.simps) simp
qed

lemma pool_free_large:
  assumes ok: "pool_ok s pool psize bs ls"
  shows "free_large s (p_large s pool) = Some (s\<lparr>live := live s |` (- larges s ls)\<rparr>)"
proof (rule free_large_ok)
  show "\<forall>p \<in> larges s ls. live s p \<noteq> None" using larges_facts(1) [OF ok] by blast
qed (use ok in \<open>simp_all add: pool_ok_def larges_ok_def\<close>)

text \<open>\<open>destroy_pool\<close> never touches released memory; it releases the large blocks and the pool's own, and nothing else.\<close>

lemma destroy_pool_ok:
  assumes ok: "pool_ok s pool psize bs ls"
  shows "destroy_pool s pool = Some (s\<lparr>live := live s |` (- (set bs \<union> larges s ls))\<rparr>)"
proof -
  from ok have bo: "blocks_ok s pool psize bs" by (simp add: pool_ok_def)
  have "bs \<noteq> []" "hd bs = pool" using bo by (simp_all add: blocks_ok_def)
  then obtain cs where bs: "bs = pool # cs" by (metis list.collapse)
  let ?s = "s\<lparr>live := live s |` (- larges s ls)\<rparr>"
  have keep: "live ?s b = live s b" if "b \<in> set bs" for b
    using that larges_facts(2) [OF ok] by (auto simp: restrict_map_def)
  have "free_blocks ?s pool (d_next s pool) = Some (?s\<lparr>live := live ?s |` (- set (pool # cs))\<rparr>)"
  proof (rule free_blocks_ok)
    show "\<forall>b \<in> set (pool # cs). live ?s b \<noteq> None" using keep blocks_okD(1) [OF bo] unfolding bs by simp
  qed (use bo bs in \<open>simp_all add: blocks_ok_def\<close>)
  moreover have "hdr ?s pool v = Some v" for v :: addr
    using keep [OF pool_live [OF bo]] blocks_okD [OF bo pool_live [OF bo]] by (simp add: hdr_def)
  moreover have "live ?s |` (- set (pool # cs)) = live s |` (- (set bs \<union> larges s ls))"
    by (auto simp: restrict_map_def fun_eq_iff bs)
  ultimately show ?thesis by (simp add: destroy_pool_def pool_hdr [OF ok] pool_free_large [OF ok])
qed

lemma reset_blocks_ok:
  assumes "chain (d_next s) p bs" and "\<forall>b \<in> set bs. live s b \<noteq> None"
  shows "\<exists>df. reset_blocks s p = Some (s\<lparr>d_last := (\<lambda>b. if b \<in> set bs then b + sizeof_pool else d_last s b), d_failed := df\<rparr>)"
  using assms
proof (induction bs arbitrary: s p)
  case Nil
  then have "reset_blocks s p = Some (s\<lparr>d_last := d_last s, d_failed := d_failed s\<rparr>)" by (subst reset_blocks.simps) simp
  then show ?case by (intro exI [of _ "d_failed s"]) simp
next
  case (Cons b bs)
  let ?s = "s\<lparr>d_last := (d_last s)(b := b + sizeof_pool), d_failed := (d_failed s)(b := 0)\<rparr>"
  have "\<exists>df. reset_blocks ?s (d_next s b) = Some (?s\<lparr>d_last := (\<lambda>c. if c \<in> set bs then c + sizeof_pool else d_last ?s c), d_failed := df\<rparr>)"
    using Cons.prems by (intro Cons.IH) simp_all
  then obtain df where "reset_blocks ?s (d_next s b) = Some (?s\<lparr>d_last := (\<lambda>c. if c \<in> set bs then c + sizeof_pool else d_last ?s c), d_failed := df\<rparr>)" ..
  moreover have "(\<lambda>c. if c \<in> set bs then c + sizeof_pool else d_last ?s c) = (\<lambda>c. if c \<in> set (b # bs) then c + sizeof_pool else d_last s c)"
    by auto
  moreover have "reset_blocks s p = reset_blocks ?s (d_next s b)"
    using Cons.prems by (subst reset_blocks.simps) (auto simp: hdr_def)
  ultimately show ?case by auto
qed

text \<open>\<open>reset_pool\<close> releases the large blocks and keeps the chain, every block empty behind a pool header.\<close>

lemma reset_pool_ok:
  assumes ok: "pool_ok s pool psize bs ls"
  shows "\<exists>s'. reset_pool s pool = Some s' \<and> pool_ok s' pool psize bs [] \<and> live s' = live s |` (- larges s ls)
    \<and> given s' bs [] = (\<Union>b \<in> set bs. {b ..< b + sizeof_pool}) \<and> p_current s' pool = pool"
proof -
  from ok have bo: "blocks_ok s pool psize bs" and min: "MIN_POOL_SIZE \<le> psize" and mo: "mem_ok s" by (simp_all add: pool_ok_def)
  let ?s = "s\<lparr>live := live s |` (- larges s ls)\<rparr>"
  have keep: "live ?s b = live s b" if "b \<in> set bs" for b
    using that larges_facts(2) [OF ok] by (auto simp: restrict_map_def)
  note pk = keep [OF pool_live [OF bo]]
  have "\<exists>df. reset_blocks ?s pool = Some (?s\<lparr>d_last := (\<lambda>b. if b \<in> set bs then b + sizeof_pool else d_last ?s b), d_failed := df\<rparr>)"
  proof (rule reset_blocks_ok)
    show "\<forall>b \<in> set bs. live ?s b \<noteq> None" using keep blocks_okD(1) [OF bo] by simp
  qed (use bo in \<open>simp add: blocks_ok_def\<close>)
  then obtain df where r: "reset_blocks ?s pool = Some (?s\<lparr>d_last := (\<lambda>b. if b \<in> set bs then b + sizeof_pool else d_last ?s b), d_failed := df\<rparr>)" ..
  define s' where "s' = ?s\<lparr>d_last := (\<lambda>b. if b \<in> set bs then b + sizeof_pool else d_last ?s b), d_failed := df,
    p_current := (p_current s)(pool := pool), p_large := (p_large s)(pool := NULL)\<rparr>"
  have "live s pool = Some psize" "pool \<noteq> NULL" using blocks_okD [OF bo pool_live [OF bo]] by blast+
  then have "reset_pool s pool = Some s'"
    using r pk by (simp add: reset_pool_def pool_hdr [OF ok] pool_free_large [OF ok] hdr_def s'_def)
  moreover have "pool_ok s' pool psize bs []"
  proof -
    have "mem_ok s'" using mo by (auto simp: mem_ok_def s'_def restrict_map_def)
    moreover have "blocks_ok s' pool psize bs"
      using bo pool_live [OF bo] min keep
      by (auto simp: blocks_ok_def s'_def MIN_POOL_SIZE_eq sizeof_pool_def sizeof_pool_data_def)
    moreover have "larges_ok s' pool bs []" by (simp add: larges_ok_def s'_def)
    ultimately show ?thesis using ok by (simp add: pool_ok_def s'_def)
  qed
  moreover have "given s' bs [] = (\<Union>b \<in> set bs. {b ..< b + sizeof_pool})"
    by (simp add: given_def used_def large_bytes_def larges_def s'_def)
  ultimately show ?thesis by (simp add: s'_def)
qed

text \<open>\<open>create_pool\<close>, on the sizes it is meant for.\<close>

lemma create_pool_ok:
  assumes lok: "libc_ok libc" and mo: "mem_ok s" and sz: "MIN_POOL_SIZE \<le> sz" "8 dvd sz"
  shows "(\<exists>k. create_pool libc s sz = (s\<lparr>mcalls := k\<rparr>, NULL) \<and> k = Suc (mcalls s) \<and> refused libc s [(16, sz)])
    \<or> (\<exists>s' p. create_pool libc s sz = (s', p) \<and> p \<noteq> NULL \<and> pool_ok s' p sz [p] []
        \<and> live s p = None \<and> live s' = (live s)(p \<mapsto> sz) \<and> given s' [p] [] = {p ..< p + sizeof_pool})"
proof -
  consider (fail) k where "libc_alloc libc s 16 sz = (s\<lparr>mcalls := k\<rparr>, NULL)" "k = Suc (mcalls s)" "refused libc s [(16, sz)]"
    | (got) r k where "libc_alloc libc s 16 sz = (s\<lparr>mcalls := k, live := (live s)(r \<mapsto> sz)\<rparr>, r)"
        "r \<noteq> NULL" "live s r = None" "16 dvd r" "mem_ok (s\<lparr>mcalls := k, live := (live s)(r \<mapsto> sz)\<rparr>)"
    using libc_alloc_ok [OF lok mo, of 16 sz] by blast
  then show ?thesis
  proof cases
    case fail
    then have "create_pool libc s sz = (s\<lparr>mcalls := k\<rparr>, NULL)" by (simp add: create_pool_def memalign_def POOL_ALIGNMENT_def)
    with fail(2,3) show ?thesis by blast
  next
    case got
    have "r + sz < 2 ^ 63" using got(5) unfolding mem_ok_def by simp
    then have u: "usub sz sizeof_pool = sz - sizeof_pool" using sz by (intro usub_le) (simp_all add: MIN_POOL_SIZE_eq sizeof_pool_def)
    define s' where "s' = s\<lparr>mcalls := k, live := (live s)(r \<mapsto> sz), d_last := (d_last s)(r := r + sizeof_pool),
      d_end := (d_end s)(r := r + sz), d_next := (d_next s)(r := NULL), d_failed := (d_failed s)(r := 0),
      p_max := (p_max s)(r := if sz - sizeof_pool < MAX_ALLOC_FROM_POOL then sz - sizeof_pool else MAX_ALLOC_FROM_POOL),
      p_current := (p_current s)(r := r), p_large := (p_large s)(r := NULL)\<rparr>"
    have "create_pool libc s sz = (s', r)"
      using got(1,2) by (simp add: create_pool_def memalign_def POOL_ALIGNMENT_def Let_def u s'_def)
    moreover have "mem_ok s'" using got(5) by (simp add: mem_ok_def s'_def)
    moreover have "blocks_ok s' r sz [r]"
      using got sz by (simp add: blocks_ok_def s'_def sizeof_pool_def sizeof_pool_data_def MIN_POOL_SIZE_eq)
    moreover have "larges_ok s' r [r] []" by (simp add: larges_ok_def s'_def)
    ultimately show ?thesis using got(2,3) sz
      by (simp add: pool_ok_def given_def used_def large_bytes_def larges_def) (simp add: s'_def)
  qed
qed

end
