(* ===== verification/Pool.thy ===== *)
theory Pool
  imports Palloc
begin

text \<open>
  The life of a pool: any sequence of the operations of \<^verbatim>\<open>src/palloc.c\<close> between \<open>create_pool\<close> and
  \<open>destroy_pool\<close>. The clients of the allocator rely on one law (\<open>piece_allocator\<close>), which is proved
  here for the code's functions.
\<close>

section \<open>Memory that belongs to others\<close>

definition foreign :: "'a pmem_scheme \<Rightarrow> addr list \<Rightarrow> addr list \<Rightarrow> addr \<Rightarrow> nat option" where
  "foreign s bs ls = live s |` (- (set bs \<union> larges s ls))"

lemma gives_foreign:
  assumes "gives s pool psize bs ls s' bs' ls' m sz"
  shows "foreign s' bs' ls' = foreign s bs ls"
proof
  fix a
  from assms have g: "live s \<subseteq>\<^sub>m live s'" "set bs \<union> larges s ls \<subseteq> set bs' \<union> larges s' ls'"
    "dom (live s') - (set bs' \<union> larges s' ls') = dom (live s) - (set bs \<union> larges s ls)" by (simp_all add: gives_def)
  have d: "a \<in> dom (live s') - (set bs' \<union> larges s' ls') \<longleftrightarrow> a \<in> dom (live s) - (set bs \<union> larges s ls)" using g(3) by simp
  show "foreign s' bs' ls' a = foreign s bs ls a"
  proof (cases "a \<in> dom (live s) - (set bs \<union> larges s ls)")
    case True
    moreover from this d have "a \<notin> set bs' \<union> larges s' ls'" by blast
    moreover from True g(1) have "live s' a = live s a" by (auto simp: map_le_def)
    ultimately show ?thesis by (simp add: foreign_def restrict_map_def)
  next
    case False
    with d show ?thesis by (auto simp: foreign_def restrict_map_def)
  qed
qed

lemma memset0_views:
  "pool_ok (memset0 s m n) pool psize bs ls = pool_ok s pool psize bs ls"
  "given (memset0 s m n) bs ls = given s bs ls" "foreign (memset0 s m n) bs ls = foreign s bs ls"
  by (simp_all only: pool_ok_memset0)
    (simp_all add: given_def used_def large_bytes_def larges_def foreign_def memset0_def)

lemma gives_memset0:
  "gives s pool psize bs ls s' bs' ls' m sz \<Longrightarrow>
    m \<noteq> NULL \<and> pool_ok (memset0 s' m sz) pool psize bs' ls' \<and> {m ..< m + sz} \<inter> given s bs ls = {}
    \<and> given s bs ls \<union> {m ..< m + sz} \<subseteq> given (memset0 s' m sz) bs' ls' \<and> foreign (memset0 s' m sz) bs' ls' = foreign s bs ls"
  using gives_foreign [of s pool psize bs ls s' bs' ls' m sz]
  unfolding memset0_views by (simp add: gives_def)

section \<open>Requests to the allocator\<close>

datatype request = Palloc nat | Pnalloc nat | Pcalloc nat | Pmemalign nat nat

fun request_size :: "request \<Rightarrow> nat" where
  "request_size (Palloc n) = n"
| "request_size (Pnalloc n) = n"
| "request_size (Pcalloc n) = n"
| "request_size (Pmemalign n al) = n"

fun request_align :: "request \<Rightarrow> nat" where
  "request_align (Palloc n) = 8"
| "request_align (Pnalloc n) = 1"
| "request_align (Pcalloc n) = 8"
| "request_align (Pmemalign n al) = al"

fun serve :: "libc \<Rightarrow> addr \<Rightarrow> 'a pmem_scheme \<Rightarrow> request \<Rightarrow> ('a pmem_scheme \<times> addr) option" where
  "serve libc pool s (Palloc n) = palloc libc s pool n"
| "serve libc pool s (Pnalloc n) = pnalloc libc s pool n"
| "serve libc pool s (Pcalloc n) = pcalloc libc s pool n"
| "serve libc pool s (Pmemalign n al) = pmemalign libc s pool n al"

lemma same_pool: "pool_ok (s\<lparr>mcalls := k\<rparr>) pool psize bs ls = pool_ok s pool psize bs ls"
  "given (s\<lparr>mcalls := k\<rparr>) bs ls = given s bs ls" "foreign (s\<lparr>mcalls := k\<rparr>) bs ls = foreign s bs ls"
  by (simp_all add: pool_ok_def mem_ok_def blocks_ok_def larges_ok_def given_def used_def large_bytes_def larges_def foreign_def)

text \<open>What one request does, for all kinds.\<close>

lemma serve_ok:
  assumes lok: "libc_ok libc" and ok: "pool_ok s pool psize bs ls"
  shows "(\<exists>s'. serve libc pool s q = Some (s', NULL) \<and> pool_ok s' pool psize bs ls
        \<and> given s' bs ls = given s bs ls \<and> foreign s' bs ls = foreign s bs ls)
    \<or> (\<exists>s' bs' ls' m. serve libc pool s q = Some (s', m) \<and> m \<noteq> NULL \<and> request_align q dvd m \<and> pool_ok s' pool psize bs' ls'
        \<and> {m ..< m + request_size q} \<inter> given s bs ls = {} \<and> given s bs ls \<union> {m ..< m + request_size q} \<subseteq> given s' bs' ls'
        \<and> foreign s' bs' ls' = foreign s bs ls)"
    (is "?fail \<or> ?ok")
proof -
  have a: "?fail \<or> ?ok" if "alloc_result libc s pool psize bs ls ra (request_align q) (request_size q) (serve libc pool s q)" for ra
    using that
  proof (cases rule: alloc_resultE)
    case (fail k)
    then show ?thesis using ok by (simp add: same_pool)
  next
    case (ok s' bs' ls' m)
    then show ?thesis using gives_foreign [OF ok(3)] by (auto simp: gives_def)
  qed
  show ?thesis
  proof (cases q)
    case (Pcalloc n)
    show ?thesis
      using pcalloc_result [OF lok ok, of n]
    proof (elim disjE conjE exE)
      fix k assume "pcalloc libc s pool n = Some (s\<lparr>mcalls := k\<rparr>, NULL)"
      then show ?thesis using ok by (simp add: Pcalloc same_pool)
    next
      fix s' bs' ls' m
      assume "pcalloc libc s pool n = Some (memset0 s' m n, m)" "8 dvd m" "gives s pool psize bs ls s' bs' ls' m n"
      then have ?ok using gives_memset0 [of s pool psize bs ls s' bs' ls' m n] by (simp add: Pcalloc) blast
      then show ?thesis ..
    qed
  qed (use a palloc_result [OF lok ok] pnalloc_result [OF lok ok] pmemalign_result [OF lok ok] in fastforce)+
qed

section \<open>The interface\<close>

text \<open>
  An allocator of pieces: \<open>ok s v\<close> is the invariant with its ghost view, \<open>taken s v\<close> the bytes in use.
\<close>

locale piece_allocator =
  fixes ok :: "'s \<Rightarrow> 'v \<Rightarrow> bool" and taken :: "'s \<Rightarrow> 'v \<Rightarrow> addr set"
    and get :: "'s \<Rightarrow> 'q \<Rightarrow> ('s \<times> addr) option" and len :: "'q \<Rightarrow> nat"
  assumes get_ok: "ok s v \<Longrightarrow>
    (\<exists>s'. get s q = Some (s', NULL) \<and> ok s' v \<and> taken s' v = taken s v)
    \<or> (\<exists>s' v' m. get s q = Some (s', m) \<and> m \<noteq> NULL \<and> ok s' v'
        \<and> {m ..< m + len q} \<inter> taken s v = {} \<and> taken s v \<union> {m ..< m + len q} \<subseteq> taken s' v')"

text \<open>A series of requests and the pieces that it yields, failed requests left out.\<close>

fun pieces :: "('s \<Rightarrow> 'q \<Rightarrow> ('s \<times> addr) option) \<Rightarrow> ('q \<Rightarrow> nat) \<Rightarrow> 's \<Rightarrow> 'q list \<Rightarrow> ('s \<times> (addr \<times> nat) list) option" where
  "pieces get len s [] = Some (s, [])"
| "pieces get len s (q # qs) = do {
     (s', m) \<leftarrow> get s q;
     (s'', ps) \<leftarrow> pieces get len s' qs;
     Some (s'', if m = NULL then ps else (m, len q) # ps) }"

fun apart :: "(addr \<times> nat) list \<Rightarrow> bool" where
  "apart [] \<longleftrightarrow> True"
| "apart ((m, n) # ps) \<longleftrightarrow> (\<forall>(m', n') \<in> set ps. {m ..< m + n} \<inter> {m' ..< m' + n'} = {}) \<and> apart ps"

context piece_allocator
begin

lemma pieces_apart:
  "ok s v \<Longrightarrow> \<exists>s' v' ps. pieces get len s qs = Some (s', ps) \<and> ok s' v' \<and> apart ps \<and> taken s v \<subseteq> taken s' v'
    \<and> (\<forall>(m, n) \<in> set ps. {m ..< m + n} \<inter> taken s v = {} \<and> {m ..< m + n} \<subseteq> taken s' v')"
proof (induction qs arbitrary: s v)
  case Nil
  then show ?case by auto
next
  case (Cons q qs)
  from get_ok [OF Cons.prems, of q] show ?case
  proof (elim disjE conjE exE)
    fix s' assume "get s q = Some (s', NULL)" "ok s' v" "taken s' v = taken s v"
    with Cons.IH [of s' v] show ?thesis by auto
  next
    fix s' v' m
    assume g: "get s q = Some (s', m)" "m \<noteq> NULL" "ok s' v'" "{m ..< m + len q} \<inter> taken s v = {}"
      "taken s v \<union> {m ..< m + len q} \<subseteq> taken s' v'"
    from Cons.IH [OF g(3)] obtain s2 v2 ps where r: "pieces get len s' qs = Some (s2, ps)" "ok s2 v2" "apart ps"
      "taken s' v' \<subseteq> taken s2 v2" "\<forall>(m, n) \<in> set ps. {m ..< m + n} \<inter> taken s' v' = {} \<and> {m ..< m + n} \<subseteq> taken s2 v2" by blast
    have "pieces get len s (q # qs) = Some (s2, (m, len q) # ps)" using g(1,2) r(1) by simp
    moreover have "apart ((m, len q) # ps)"
    proof -
      have "{m ..< m + len q} \<inter> {m' ..< m' + n'} = {}" if "(m', n') \<in> set ps" for m' n'
        using r(5) that g(5) by blast
      then show ?thesis using r(3) by auto
    qed
    moreover have "\<forall>(m, n) \<in> set ((m, len q) # ps). {m ..< m + n} \<inter> taken s v = {} \<and> {m ..< m + n} \<subseteq> taken s2 v2"
    proof (intro ballI)
      fix x assume x: "x \<in> set ((m, len q) # ps)"
      show "case x of (m, n) \<Rightarrow> {m ..< m + n} \<inter> taken s v = {} \<and> {m ..< m + n} \<subseteq> taken s2 v2"
      proof (cases "x = (m, len q)")
        case True
        then show ?thesis using g(4,5) r(4) by (simp only: case_prod_conv) blast
      next
        case False
        then have "x \<in> set ps" using x by simp
        moreover obtain a n where "x = (a, n)" by (cases x)
        ultimately have "{a ..< a + n} \<inter> taken s' v' = {}" "{a ..< a + n} \<subseteq> taken s2 v2" using r(5) by auto
        then show ?thesis using g(5) unfolding \<open>x = (a, n)\<close> by (simp only: case_prod_conv) blast
      qed
    qed
    moreover have "taken s v \<subseteq> taken s2 v2" using g(5) r(4) by blast
    ultimately show ?thesis using r(2) by blast
  qed
qed

end

text \<open>The pool is such an allocator. The fact is stated with the hypotheses on the C library written out.\<close>

definition pool_inv :: "libc \<Rightarrow> addr \<Rightarrow> nat \<Rightarrow> 'a pmem_scheme \<Rightarrow> addr list \<times> addr list \<Rightarrow> bool" where
  "pool_inv libc pool psize s v \<longleftrightarrow> libc_ok libc \<and> pool_ok s pool psize (fst v) (snd v)"

interpretation pl: piece_allocator "pool_inv libc pool psize" "\<lambda>s v. given s (fst v) (snd v)" "serve libc pool" request_size
  for libc pool psize
proof
  fix s :: "'a pmem_scheme" and v :: "addr list \<times> addr list" and q
  assume "pool_inv libc pool psize s v"
  then have l: "libc_ok libc" "pool_ok s pool psize (fst v) (snd v)" by (simp_all add: pool_inv_def)
  from serve_ok [OF l, of q]
  show "(\<exists>s'. serve libc pool s q = Some (s', NULL) \<and> pool_inv libc pool psize s' v \<and> given s' (fst v) (snd v) = given s (fst v) (snd v))
    \<or> (\<exists>s' v' m. serve libc pool s q = Some (s', m) \<and> m \<noteq> NULL \<and> pool_inv libc pool psize s' v'
        \<and> {m ..< m + request_size q} \<inter> given s (fst v) (snd v) = {}
        \<and> given s (fst v) (snd v) \<union> {m ..< m + request_size q} \<subseteq> given s' (fst v') (snd v'))"
  proof (elim disjE conjE exE)
    fix s' bs' ls' m
    assume "serve libc pool s q = Some (s', m)" "m \<noteq> NULL" "pool_ok s' pool psize bs' ls'"
      "{m ..< m + request_size q} \<inter> given s (fst v) (snd v) = {}"
      "given s (fst v) (snd v) \<union> {m ..< m + request_size q} \<subseteq> given s' bs' ls'"
    then have "serve libc pool s q = Some (s', m) \<and> m \<noteq> NULL \<and> pool_inv libc pool psize s' (bs', ls')
        \<and> {m ..< m + request_size q} \<inter> given s (fst v) (snd v) = {}
        \<and> given s (fst v) (snd v) \<union> {m ..< m + request_size q} \<subseteq> given s' (fst (bs', ls')) (snd (bs', ls'))"
      using l(1) by (simp add: pool_inv_def)
    then show ?thesis by (intro disjI2 exI)
  qed (use l(1) in \<open>simp add: pool_inv_def\<close>)
qed

section \<open>Facts for the clients\<close>

lemma given_bound:
  assumes ok: "pool_ok s pool psize bs ls" and x: "x \<in> given s bs ls"
  shows "x < 2 ^ 63" "x \<noteq> NULL"
proof -
  from ok have bo: "blocks_ok s pool psize bs" and mo: "mem_ok s" by (simp_all add: pool_ok_def)
  from x consider b where "b \<in> set bs" "b \<le> x" "x < d_last s b"
    | q where "q \<in> larges s ls" "q \<le> x" "x < q + the (live s q)"
    by (auto simp: given_def used_def large_bytes_def)
  then have "x < 2 ^ 63 \<and> x \<noteq> NULL"
  proof cases
    case 1
    note bb = blocks_okD [OF bo 1(1)]
    have "b + psize < 2 ^ 63" using mo bb(1) by (simp add: mem_ok_def)
    with 1 bb show ?thesis by simp
  next
    case 2
    obtain n where n: "live s q = Some n" using larges_facts(1) [OF ok 2(1)] by blast
    then have "q + n < 2 ^ 63" using mo by (simp add: mem_ok_def)
    moreover have "q \<noteq> NULL" using 2(1) by (simp add: larges_def)
    ultimately show ?thesis using 2 n by simp
  qed
  then show "x < 2 ^ 63" "x \<noteq> NULL" by blast+
qed

lemma u32_in_u64: "unat (ucast (n :: u32) :: u64) = unat n"
proof -
  have "unat n < 2 ^ 64" using unsigned_less [of n, where 'a=nat] by simp
  then show ?thesis by (simp add: unsigned_ucast_eq take_bit_nat_eq_self)
qed

lemma unat_times: "unat (x :: u64) * unat (n :: u32) < 2 ^ 64 \<Longrightarrow> unat (x * ucast n) = unat x * unat n"
  using unat_mult_lem [of x "ucast n"] by (simp add: u32_in_u64)

lemma used_bump:
  assumes b: "b \<in> set bs" and k: "b \<le> d_last s b" "d_last s b \<le> k"
  shows "used (s\<lparr>d_last := (d_last s)(b := k)\<rparr>) bs = used s bs \<union> {d_last s b ..< k}"
proof -
  have "set bs = insert b (set bs - {b})" using b by blast
  then have u: "used t bs = {b ..< d_last t b} \<union> (\<Union>c \<in> set bs - {b}. {c ..< d_last t c})" for t :: "'a pmem_scheme"
    unfolding used_def by (metis (no_types, lifting) UN_insert)
  have "{b ..< k} = {b ..< d_last s b} \<union> {d_last s b ..< k}" using k by auto
  then show ?thesis by (simp add: u) blast
qed

text \<open>A small request that the current block has room for.\<close>

lemma palloc_here:
  assumes ok: "pool_ok s pool psize bs ls" and c: "p_current s pool = pool" and sz: "sz \<le> p_max s pool"
    and l: "8 dvd d_last s pool" "d_last s pool + sz \<le> d_end s pool"
  shows "palloc libc s pool sz = Some (s\<lparr>d_last := (d_last s)(pool := d_last s pool + sz)\<rparr>, d_last s pool)"
proof -
  from ok have bo: "blocks_ok s pool psize bs" by (simp add: pool_ok_def)
  note pb = pool_live [OF bo]
  have "d_last s pool < 2 ^ 63"
    using ok blocks_okD [OF bo pb] unfolding pool_ok_def mem_ok_def by (meson le_less_trans)
  from align_ptr_le [OF this order_refl l(1)] align_ptr_up(1) [OF this]
  have al: "align_ptr (d_last s pool) ALIGNMENT = d_last s pool" by (simp add: ALIGNMENT_def)
  have u: "usub (d_end s pool) (d_last s pool) = d_end s pool - d_last s pool"
    using small_fit(2) [OF ok pb, of True] blocks_okD(3) [OF bo pb] by (simp add: al)
  have "sz \<le> d_end s pool - d_last s pool" using l(2) by simp
  then have "palloc_small_loop s pool sz True = Some (Some (s\<lparr>d_last := (d_last s)(pool := d_last s pool + sz)\<rparr>, d_last s pool))"
    by (subst palloc_small_loop.simps) (simp add: pool_hdr [OF ok] al u Let_def)
  then show ?thesis using c sz by (simp add: palloc_def palloc_small_def pool_hdr [OF ok])
qed

section \<open>From creation to destruction\<close>

datatype pool_op = Request request | Pfree addr | Reset

fun pool_exec :: "libc \<Rightarrow> addr \<Rightarrow> 'a pmem_scheme \<Rightarrow> pool_op \<Rightarrow> 'a pmem_scheme option" where
  "pool_exec libc pool s (Request q) = map_option fst (serve libc pool s q)"
| "pool_exec libc pool s (Pfree p) = map_option fst (pfree s pool p)"
| "pool_exec libc pool s Reset = reset_pool s pool"

fun pool_run :: "libc \<Rightarrow> addr \<Rightarrow> 'a pmem_scheme \<Rightarrow> pool_op list \<Rightarrow> 'a pmem_scheme option" where
  "pool_run libc pool s [] = Some s"
| "pool_run libc pool s (x # xs) = do { s \<leftarrow> pool_exec libc pool s x; pool_run libc pool s xs }"

lemma pool_exec_ok:
  assumes lok: "libc_ok libc" and ok: "pool_ok s pool psize bs ls"
  shows "\<exists>s' bs' ls'. pool_exec libc pool s x = Some s' \<and> pool_ok s' pool psize bs' ls' \<and> foreign s' bs' ls' = foreign s bs ls"
proof (cases x)
  case (Request q)
  from serve_ok [OF lok ok, of q] show ?thesis by (elim disjE conjE exE) (force simp: Request)+
next
  case (Pfree p)
  consider "p = NULL" | "p \<noteq> NULL" "p \<notin> larges s ls" | "p \<noteq> NULL" "p \<in> larges s ls" by blast
  then show ?thesis
  proof cases
    case 1
    with pfree_null [OF ok] ok show ?thesis by (auto simp: Pfree)
  next
    case 2
    with pfree_ok(2) [OF ok 2] ok show ?thesis by (auto simp: Pfree)
  next
    case 3
    from pfree_ok(1) [OF ok 3] obtain s' where s': "pfree s pool p = Some (s', 0)" "pool_ok s' pool psize bs ls"
      "larges s' ls = larges s ls - {p}" "live s' = (live s)(p := None)" by blast
    have "foreign s' bs ls = foreign s bs ls" using 3(2) s'(3,4) by (auto simp: foreign_def restrict_map_def fun_eq_iff)
    with s'(1,2) show ?thesis by (auto simp: Pfree)
  qed
next
  case Reset
  from reset_pool_ok [OF ok] obtain s' where s': "reset_pool s pool = Some s'" "pool_ok s' pool psize bs []"
    "live s' = live s |` (- larges s ls)" by blast
  have "foreign s' bs [] = foreign s bs ls" using s'(3) by (auto simp: foreign_def larges_def restrict_map_def fun_eq_iff)
  with s'(1,2) show ?thesis by (auto simp: Reset)
qed

lemma pool_run_ok:
  assumes lok: "libc_ok libc"
  shows "pool_ok s pool psize bs ls \<Longrightarrow>
    \<exists>s' bs' ls'. pool_run libc pool s xs = Some s' \<and> pool_ok s' pool psize bs' ls' \<and> foreign s' bs' ls' = foreign s bs ls"
proof (induction xs arbitrary: s bs ls)
  case Nil
  then show ?case by auto
next
  case (Cons x xs)
  from pool_exec_ok [OF lok Cons.prems, of x] obtain s1 bs1 ls1 where
    1: "pool_exec libc pool s x = Some s1" "pool_ok s1 pool psize bs1 ls1" "foreign s1 bs1 ls1 = foreign s bs ls" by blast
  from Cons.IH [OF 1(2)] show ?case unfolding 1(3) by (simp add: 1(1))
qed

lemma create_run_destroy:
  assumes lok: "libc_ok libc" and mo: "mem_ok s" and sz: "MIN_POOL_SIZE \<le> sz" "8 dvd sz"
    and c: "create_pool libc s sz = (s1, p)" "p \<noteq> NULL"
  shows "\<exists>s2 s3. pool_run libc p s1 xs = Some s2 \<and> destroy_pool s2 p = Some s3 \<and> live s3 = live s"
proof -
  from create_pool_ok [OF lok mo sz] c have ok: "pool_ok s1 p sz [p] []" and l: "live s p = None" "live s1 = (live s)(p \<mapsto> sz)"
    by auto
  have "foreign s1 [p] [] = live s" using l by (auto simp: foreign_def larges_def restrict_map_def fun_eq_iff)
  with pool_run_ok [OF lok ok, of xs] obtain s2 bs ls where
    s2: "pool_run libc p s1 xs = Some s2" "pool_ok s2 p sz bs ls" "foreign s2 bs ls = live s" by auto
  from destroy_pool_ok [OF s2(2)] s2 show ?thesis by (auto simp: foreign_def)
qed

section \<open>A C library and a pool to run the examples on\<close>

text \<open>A library that hands out the 4096-byte slots in turn, as long as they lie above all live blocks.\<close>

definition slot_libc :: libc where
  "slot_libc L k al n = (let r = 4096 * Suc k in
     if n \<le> 4000 \<and> al dvd 4096 \<and> k < 2 ^ 40 \<and> (\<forall>b m. L b = Some m \<longrightarrow> b + m < r) then r else NULL)"

lemma slot_libc_ok: "libc_ok slot_libc"
proof -
  have "L r = None" if "\<forall>b m. L b = Some m \<longrightarrow> b + m < r" for L :: "addr \<Rightarrow> nat option" and r
    using that by (cases "L r") force+
  moreover have "4096 * Suc k + n < 2 ^ 63" if "n \<le> 4000" "k < 2 ^ 40" for n k :: nat using that by simp
  ultimately show ?thesis unfolding libc_ok_def slot_libc_def Let_def
    by (auto simp del: mult_Suc_right simp: dvd_mult2 less_imp_le)
qed

text \<open>
  A pool of 256 bytes at 4096 with one large block of 1000 bytes at 8192, whose entry is the first
  piece behind the pool's header; another block, at 64, belongs to somebody else.
\<close>

definition pool_ex :: pmem where
  "pool_ex = \<lparr>live = [64 \<mapsto> 16, 4096 \<mapsto> 256, 8192 \<mapsto> 1000], mcalls = 2, bytes = (\<lambda>_. 7), d_last = (\<lambda>_. 4168),
     d_end = (\<lambda>_. 4352), d_next = (\<lambda>_. NULL), d_failed = (\<lambda>_. 0), p_max = (\<lambda>_. 200), p_current = (\<lambda>_. 4096),
     p_large = (\<lambda>_. 4152), l_next = (\<lambda>_. NULL), l_alloc = (\<lambda>_. 8192)\<rparr>"

lemma pool_ex_ok: "pool_ok pool_ex 4096 256 [4096] [4152]"
proof -
  have "mem_ok pool_ex" by (auto simp: mem_ok_def pool_ex_def split: if_splits)
  moreover have "blocks_ok pool_ex 4096 256 [4096]"
    by (simp add: blocks_ok_def pool_ex_def sizeof_pool_def sizeof_pool_data_def)
  moreover have "larges_ok pool_ex 4096 [4096] [4152]"
    by (simp add: larges_ok_def pool_ex_def sizeof_pool_large_def sizeof_pool_data_def)
  ultimately show ?thesis by (simp add: pool_ok_def MIN_POOL_SIZE_eq sizeof_pool_def MAX_ALLOC_FROM_POOL_def pool_ex_def)
qed

lemma pool_ex_larges: "larges pool_ex [4152] = {8192}"
  by (simp add: larges_def pool_ex_def)

section \<open>Properties\<close>

text \<open>C18: No leak and no use of released memory. From \<open>create_pool\<close> (with a size of at least
  \<open>MIN_POOL_SIZE\<close> and divisible by 8) through any sequence of \<open>palloc\<close>, \<open>pnalloc\<close>, \<open>pcalloc\<close>, \<open>pmemalign\<close>, \<open>pfree\<close> (of any
  address) and \<open>reset_pool\<close> to \<open>destroy_pool\<close>, no call faults (no header of a dead block is read, nothing is
  released twice, all loops end), and afterwards the live memory is exactly what it was before.\<close>

theorem pool_life_cycle:
  assumes "libc_ok libc" and "mem_ok s" and "MIN_POOL_SIZE \<le> sz" and "8 dvd sz"
    and "create_pool libc s sz = (s1, p)" and "p \<noteq> NULL"
  shows "\<exists>s2 s3. pool_run libc p s1 ops = Some s2 \<and> destroy_pool s2 p = Some s3 \<and> live s3 = live s"
  using assms by (rule create_run_destroy)

theorem pool_life_cycle_witness:
  "\<exists>s2 s3. pool_run slot_libc 12288 (fst (create_pool slot_libc pool_ex 256))
       [Request (Palloc 100), Request (Palloc 150), Request (Pcalloc 3000), Pfree 20480, Pfree 99, Request (Pmemalign 64 10), Reset] = Some s2
     \<and> destroy_pool s2 12288 = Some s3 \<and> live s3 = [64 \<mapsto> 16, 4096 \<mapsto> 256, 8192 \<mapsto> 1000]"
proof -
  have "create_pool slot_libc pool_ex 256 = (fst (create_pool slot_libc pool_ex 256), 12288)"
    by (simp add: create_pool_def memalign_def libc_alloc_def slot_libc_def pool_ex_def POOL_ALIGNMENT_def Let_def)
  note c = this
  have "mem_ok pool_ex" using pool_ex_ok by (simp add: pool_ok_def)
  moreover have "live pool_ex = [64 \<mapsto> 16, 4096 \<mapsto> 256, 8192 \<mapsto> 1000]" by (simp add: pool_ex_def)
  ultimately show ?thesis
    using pool_life_cycle [OF slot_libc_ok _ _ _ c, of "[Request (Palloc 100), Request (Palloc 150),
        Request (Pcalloc 3000), Pfree 20480, Pfree 99, Request (Pmemalign 64 10), Reset]"]
    by (simp only: MIN_POOL_SIZE_eq) simp
qed

text \<open>C20: The allocating functions. \<open>palloc\<close>, \<open>pnalloc\<close> and \<open>pmemalign\<close>, for every size, never fault. They
  return \<open>NULL\<close> only if the C library refused a request that they made, for the piece or for a block of the pool, and then the pool is unchanged. Otherwise the \<open>sz\<close> bytes they give
  were not given out before (neither a part of a header, of a piece or of a list entry, nor of a large
  block), the pool stays well formed, no byte of data changes, and the address has the promised alignment:
  8 for \<open>palloc\<close>, the wanted one for \<open>pmemalign\<close>. With a library that grants those requests in the present state the result is no \<open>NULL\<close>.\<close>

theorem palloc_correct:
  assumes "libc_ok libc" and "pool_ok s pool psize bs ls"
  shows "alloc_result libc s pool psize bs ls 16 8 sz (palloc libc s pool sz)
    \<and> alloc_result libc s pool psize bs ls 16 1 sz (pnalloc libc s pool sz)
    \<and> alloc_result libc s pool psize bs ls al al sz (pmemalign libc s pool sz al)"
  using palloc_result [OF assms] pnalloc_result [OF assms] pmemalign_result [OF assms] by blast

text \<open>The library that gives slots grants every request that a pool of 256 bytes makes for a large piece of 3000 bytes, so that the piece is given.\<close>

theorem palloc_correct_witness:
  "alloc_result slot_libc pool_ex 4096 256 [4096] [4152] 16 8 100 (palloc slot_libc pool_ex 4096 100)
    \<and> palloc slot_libc pool_ex 4096 100 = Some (pool_ex\<lparr>d_last := (d_last pool_ex)(4096 := 4268)\<rparr>, 4168)
    \<and> (\<exists>s' bs' ls' m. palloc slot_libc pool_ex 4096 3000 = Some (s', m) \<and> gives pool_ex 4096 256 [4096] [4152] s' bs' ls' m 3000)"
proof -
  have "\<not> denied slot_libc pool_ex 16 256 3000 k" for k
    by (auto simp: denied_def refused.simps libc_alloc_def slot_libc_def pool_ex_def Let_def split: if_splits)
  moreover have "alloc_result slot_libc pool_ex 4096 256 [4096] [4152] 16 8 3000 (palloc slot_libc pool_ex 4096 3000)"
    using palloc_correct [OF slot_libc_ok pool_ex_ok, of 3000 1] by blast
  ultimately have "\<exists>s' bs' ls' m. palloc slot_libc pool_ex 4096 3000 = Some (s', m) \<and> gives pool_ex 4096 256 [4096] [4152] s' bs' ls' m 3000"
    unfolding alloc_result_def by blast
  then show ?thesis using palloc_correct [OF slot_libc_ok pool_ex_ok, of 100 1]
    by (simp add: palloc_def palloc_small_def hdr_def pool_ex_def palloc_small_loop.simps align_ptr_def ALIGNMENT_def usub_def Let_def)
qed

text \<open>C30: Pieces do not overlap. Any sequence of requests to a pool is served without a fault, and the pieces
  of the requests that did not fail are pairwise disjoint, were not in use before and are in use afterwards.\<close>

theorem pool_pieces_disjoint:
  assumes "libc_ok libc" and "pool_ok s pool psize bs ls"
  shows "\<exists>s' bs' ls' ps. pieces (serve libc pool) request_size s qs = Some (s', ps) \<and> pool_ok s' pool psize bs' ls' \<and> apart ps
    \<and> (\<forall>(m, n) \<in> set ps. {m ..< m + n} \<inter> given s bs ls = {} \<and> {m ..< m + n} \<subseteq> given s' bs' ls')"
proof -
  have "pool_inv libc pool psize s (bs, ls)" using assms by (simp add: pool_inv_def)
  from pl.pieces_apart [OF this, of qs] obtain s' v' ps where
    "pieces (serve libc pool) request_size s qs = Some (s', ps)" "pool_inv libc pool psize s' v'" "apart ps"
    "\<forall>(m, n) \<in> set ps. {m ..< m + n} \<inter> given s bs ls = {} \<and> {m ..< m + n} \<subseteq> given s' (fst v') (snd v')" by auto
  then show ?thesis unfolding pool_inv_def by blast
qed

theorem pool_pieces_disjoint_witness:
  "\<exists>s' bs' ls' ps. pieces (serve slot_libc 4096) request_size pool_ex [Palloc 100, Pnalloc 3, Palloc 2000, Pcalloc 90] = Some (s', ps)
    \<and> pool_ok s' 4096 256 bs' ls' \<and> apart ps
    \<and> (\<forall>(m, n) \<in> set ps. {m ..< m + n} \<inter> given pool_ex [4096] [4152] = {} \<and> {m ..< m + n} \<subseteq> given s' bs' ls')"
  using pool_pieces_disjoint [OF slot_libc_ok pool_ex_ok] .

text \<open>\<open>pcalloc\<close> clears what it gives, and only that: the new piece is zero afterwards, every other byte is
  as before.\<close>

theorem pcalloc_correct:
  assumes "libc_ok libc" and "pool_ok s pool psize bs ls" and "pcalloc libc s pool sz = Some (s', m)" and "m \<noteq> NULL"
  shows "(\<forall>a. m \<le> a \<and> a < m + sz \<longrightarrow> bytes s' a = 0) \<and> (\<forall>a \<in> given s bs ls. bytes s' a = bytes s a)
    \<and> (\<exists>bs' ls'. pool_ok s' pool psize bs' ls' \<and> given s bs ls \<union> {m ..< m + sz} \<subseteq> given s' bs' ls')"
proof -
  from pcalloc_result [OF assms(1,2), of sz] assms(3,4) obtain s1 bs' ls' where
    s': "s' = memset0 s1 m sz" and g: "gives s pool psize bs ls s1 bs' ls' m sz" by auto
  have "bytes s1 = bytes s" using g by (simp add: gives_def)
  then have "bytes s' = (\<lambda>a. if m \<le> a \<and> a < m + sz then 0 else bytes s a)" by (simp add: s' memset0_def fun_eq_iff)
  moreover have "{m ..< m + sz} \<inter> given s bs ls = {}" using g by (simp add: gives_def)
  ultimately show ?thesis using gives_memset0 [OF g] unfolding s' by auto
qed

theorem pcalloc_correct_witness:
  "\<exists>s'. pcalloc slot_libc pool_ex 4096 100 = Some (s', 4168)
    \<and> (\<forall>a. 4168 \<le> a \<and> a < 4168 + 100 \<longrightarrow> bytes s' a = 0) \<and> bytes s' 4100 = bytes pool_ex 4100"
proof -
  have "pcalloc slot_libc pool_ex 4096 100 = Some (memset0 (pool_ex\<lparr>d_last := (d_last pool_ex)(4096 := 4268)\<rparr>) 4168 100, 4168)"
    by (simp add: pcalloc_def palloc_def palloc_small_def hdr_def pool_ex_def palloc_small_loop.simps align_ptr_def ALIGNMENT_def usub_def Let_def)
  moreover have "4100 \<in> given pool_ex [4096] [4152]" by (simp add: given_def used_def pool_ex_def)
  ultimately show ?thesis using pcalloc_correct [OF slot_libc_ok pool_ex_ok, of 100 _ 4168] by simp
qed

text \<open>C29: \<open>pfree\<close> releases exactly the large block at the given address, leaves every other block alone and
  returns 0; for an address that is no large block of the pool it returns \<open>-1\<close> and changes nothing.\<close>

theorem pfree_correct:
  assumes "pool_ok s pool psize bs ls" and "p \<noteq> NULL"
  shows "if p \<in> larges s ls
    then \<exists>s'. pfree s pool p = Some (s', 0) \<and> pool_ok s' pool psize bs ls \<and> larges s' ls = larges s ls - {p}
      \<and> live s' = (live s)(p := None) \<and> used s' bs = used s bs
    else pfree s pool p = Some (s, - 1)"
  using pfree_ok [OF assms] by simp

theorem pfree_correct_witness:
  "(\<exists>s'. pfree pool_ex 4096 8192 = Some (s', 0) \<and> live s' = [64 \<mapsto> 16, 4096 \<mapsto> 256])
    \<and> pfree pool_ex 4096 4168 = Some (pool_ex, - 1)"
proof -
  have "(live pool_ex)(8192 := None) = [64 \<mapsto> 16, 4096 \<mapsto> 256]" by (auto simp: pool_ex_def)
  then show ?thesis
    using pfree_correct [OF pool_ex_ok, of 8192] pfree_correct [OF pool_ex_ok, of 4168]
    by (auto simp: pool_ex_larges)
qed

text \<open>C35: A block whose size is no multiple of 8 is overrun. When rounding the last used address up passes the
  block's end, \<open>(size_t)(end - m)\<close> wraps around: the loop takes any piece (of less than half of the address
  space) to fit, returns an address behind the block and moves \<open>last\<close> there.\<close>

theorem palloc_small_overrun:
  assumes "hdr s p () = Some ()" and "d_end s p < align_ptr (d_last s p) ALIGNMENT" and "align_ptr (d_last s p) ALIGNMENT < 2 ^ 62"
    and "sz < 2 ^ 63"
  shows "palloc_small_loop s p sz True = Some (Some (s\<lparr>d_last := (d_last s)(p := align_ptr (d_last s p) ALIGNMENT + sz)\<rparr>,
      align_ptr (d_last s p) ALIGNMENT))"
proof -
  define m where "m = align_ptr (d_last s p) ALIGNMENT"
  have h: "hdr s p v = Some v" for v :: addr using assms(1) by (auto simp: hdr_def split: if_splits)
  have "usub (d_end s p) m = 2 ^ 64 - (m - d_end s p)"
  proof -
    have "unat (of_nat (d_end s p) :: u64) = d_end s p" "unat (of_nat m :: u64) = m"
      using assms(2,3) by (simp_all add: unat_of_nat m_def take_bit_nat_eq_self)
    then show ?thesis using assms(2) unfolding usub_def m_def [symmetric] by (simp add: unat_sub_if')
  qed
  then have "sz \<le> usub (d_end s p) m" using assms(3,4) unfolding m_def [symmetric] by simp
  then show ?thesis unfolding m_def [symmetric] by (subst palloc_small_loop.simps) (simp add: h Let_def m_def)
qed

text \<open>A pool of 100 bytes at 4096 whose last used byte is the block's last but one.\<close>

theorem palloc_small_overrun_witness:
  "palloc_small_loop (pool_ex\<lparr>d_last := (\<lambda>_. 4195), d_end := (\<lambda>_. 4196)\<rparr>) 4096 500 True
    = Some (Some (pool_ex\<lparr>d_last := (\<lambda>_. 4195)(4096 := 4700), d_end := (\<lambda>_. 4196)\<rparr>, 4200))"
  using palloc_small_overrun [of "pool_ex\<lparr>d_last := (\<lambda>_. 4195), d_end := (\<lambda>_. 4196)\<rparr>" 4096 500]
  by (simp add: hdr_def align_ptr_def ALIGNMENT_def) (simp add: pool_ex_def)

end
