(* ===== verification/Clists.thy ===== *)
theory Clists
  imports Pool
begin

text \<open>
  The lists of \<^verbatim>\<open>src/list.c\<close>: a chain of parts of equal capacity in a pool, of which only the last one
  may have room; and the buffers of \<^verbatim>\<open>src/buf.c\<close>. The first part lies inside the list's own structure,
  8 bytes behind its start.
\<close>

section \<open>list.c\<close>

record lmem = pmem +
  lp_elts :: "addr \<Rightarrow> addr"
  lp_nelts :: "addr \<Rightarrow> u32"
  lp_next :: "addr \<Rightarrow> addr"
  li_last :: "addr \<Rightarrow> addr"
  li_size :: "addr \<Rightarrow> u64"
  li_nalloc :: "addr \<Rightarrow> u32"
  li_pool :: "addr \<Rightarrow> addr"

definition sizeof_list :: nat where "sizeof_list = 56"
definition sizeof_list_part :: nat where "sizeof_list_part = 24"

text \<open>\<open>&list->part\<close>.\<close>

definition li_part :: "addr \<Rightarrow> addr" where "li_part l = l + 8"

definition list_init :: "libc \<Rightarrow> 'a lmem_scheme \<Rightarrow> addr \<Rightarrow> addr \<Rightarrow> u32 \<Rightarrow> u64 \<Rightarrow> ('a lmem_scheme \<times> int) option" where
  "list_init libc s l pool n sz = do {
     (s, e) \<leftarrow> palloc libc s pool (unat (ucast n * sz));
     let s = s\<lparr>lp_elts := (lp_elts s)(li_part l := e)\<rparr>;
     if e = NULL then Some (s, - 1)
     else do {
       let s = s\<lparr>lp_nelts := (lp_nelts s)(li_part l := 0)\<rparr>;
       let s = s\<lparr>lp_next := (lp_next s)(li_part l := NULL)\<rparr>;
       let s = s\<lparr>li_last := (li_last s)(l := li_part l)\<rparr>;
       let s = s\<lparr>li_size := (li_size s)(l := sz)\<rparr>;
       let s = s\<lparr>li_nalloc := (li_nalloc s)(l := n)\<rparr>;
       Some (s\<lparr>li_pool := (li_pool s)(l := pool)\<rparr>, 0) } }"

definition list_create :: "libc \<Rightarrow> 'a lmem_scheme \<Rightarrow> addr \<Rightarrow> u32 \<Rightarrow> u64 \<Rightarrow> ('a lmem_scheme \<times> addr) option" where
  "list_create libc s pool n sz = do {
     (s, l) \<leftarrow> palloc libc s pool sizeof_list;
     if l = NULL then Some (s, NULL)
     else do {
       (s, rc) \<leftarrow> list_init libc s l pool n sz;
       Some (s, if rc \<noteq> 0 then NULL else l) } }"

text \<open>The new part for a full list; \<open>NULL\<close> stands for the early returns.\<close>

definition list_add_part :: "libc \<Rightarrow> 'a lmem_scheme \<Rightarrow> addr \<Rightarrow> ('a lmem_scheme \<times> addr) option" where
  "list_add_part libc s l = do {
     (s, last) \<leftarrow> palloc libc s (li_pool s l) sizeof_list_part;
     if last = NULL then Some (s, NULL)
     else do {
       (s, e) \<leftarrow> palloc libc s (li_pool s l) (unat (ucast (li_nalloc s l) * li_size s l));
       let s = s\<lparr>lp_elts := (lp_elts s)(last := e)\<rparr>;
       if e = NULL then Some (s, NULL)
       else do {
         let s = s\<lparr>lp_nelts := (lp_nelts s)(last := 0)\<rparr>;
         let s = s\<lparr>lp_next := (lp_next s)(last := NULL)\<rparr>;
         let s = s\<lparr>lp_next := (lp_next s)(li_last s l := last)\<rparr>;
         Some (s\<lparr>li_last := (li_last s)(l := last)\<rparr>, last) } } }"

definition list_push :: "libc \<Rightarrow> 'a lmem_scheme \<Rightarrow> addr \<Rightarrow> ('a lmem_scheme \<times> addr) option" where
  "list_push libc s l = do {
     let last = li_last s l;
     (s, last) \<leftarrow> (if lp_nelts s last = li_nalloc s l then list_add_part libc s l else Some (s, last));
     if last = NULL then Some (s, NULL)
     else do {
       let elt = lp_elts s last + unat (li_size s l * ucast (lp_nelts s last));
       Some (s\<lparr>lp_nelts := (lp_nelts s)(last := lp_nelts s last + 1)\<rparr>, elt) } }"

section \<open>What a list is\<close>

lemma lmore_fields:
  fixes s s' :: "'a lmem_scheme"
  assumes "pmem.more s' = pmem.more s"
  shows "lp_elts s' = lp_elts s" "lp_nelts s' = lp_nelts s" "lp_next s' = lp_next s" "li_last s' = li_last s"
    "li_size s' = li_size s" "li_nalloc s' = li_nalloc s" "li_pool s' = li_pool s"
  using assms by (cases s; cases s'; simp)+

lemma lpool_views [simp]:
  fixes s :: "'a lmem_scheme"
  shows "pool_ok (s\<lparr>lp_elts := f\<rparr>) pool psize bs ls = pool_ok s pool psize bs ls"
    "pool_ok (s\<lparr>lp_nelts := g\<rparr>) pool psize bs ls = pool_ok s pool psize bs ls"
    "pool_ok (s\<lparr>lp_next := f\<rparr>) pool psize bs ls = pool_ok s pool psize bs ls"
    "pool_ok (s\<lparr>li_last := f\<rparr>) pool psize bs ls = pool_ok s pool psize bs ls"
    "pool_ok (s\<lparr>li_size := h\<rparr>) pool psize bs ls = pool_ok s pool psize bs ls"
    "pool_ok (s\<lparr>li_nalloc := g\<rparr>) pool psize bs ls = pool_ok s pool psize bs ls"
    "pool_ok (s\<lparr>li_pool := f\<rparr>) pool psize bs ls = pool_ok s pool psize bs ls"
  by (simp_all add: pool_ok_def mem_ok_def blocks_ok_def larges_ok_def)

lemma lgiven_views [simp]:
  fixes s :: "'a lmem_scheme"
  shows "given (s\<lparr>lp_elts := f\<rparr>) bs ls = given s bs ls" "given (s\<lparr>lp_nelts := g\<rparr>) bs ls = given s bs ls"
    "given (s\<lparr>lp_next := f\<rparr>) bs ls = given s bs ls" "given (s\<lparr>li_last := f\<rparr>) bs ls = given s bs ls"
    "given (s\<lparr>li_size := h\<rparr>) bs ls = given s bs ls" "given (s\<lparr>li_nalloc := g\<rparr>) bs ls = given s bs ls"
    "given (s\<lparr>li_pool := f\<rparr>) bs ls = given s bs ls"
  by (simp_all add: given_def used_def large_bytes_def larges_def)

text \<open>The bytes of a part's elements, and the addresses of the elements of a list in order.\<close>

definition part_bytes :: "'a lmem_scheme \<Rightarrow> addr \<Rightarrow> addr \<Rightarrow> addr set" where
  "part_bytes s l p = {lp_elts s p ..< lp_elts s p + unat (li_size s l) * unat (li_nalloc s l)}"

definition part_elems :: "'a lmem_scheme \<Rightarrow> addr \<Rightarrow> addr \<Rightarrow> addr list" where
  "part_elems s l p = map (\<lambda>i. lp_elts s p + unat (li_size s l) * i) [0 ..< unat (lp_nelts s p)]"

definition elems :: "'a lmem_scheme \<Rightarrow> addr \<Rightarrow> addr list \<Rightarrow> addr list" where
  "elems s l ps = concat (map (part_elems s l) ps)"

text \<open>
  A well-formed list with the parts \<open>ps\<close>: chained from the part inside the list to \<open>last\<close>; the
  elements of each lie in a piece of the pool of their own, and the last part alone may have room.
\<close>

definition list_ok :: "'a lmem_scheme \<Rightarrow> addr \<Rightarrow> nat \<Rightarrow> addr list \<Rightarrow> addr list \<Rightarrow> addr list \<Rightarrow> bool" where
  "list_ok s l psize bs ls ps \<longleftrightarrow> pool_ok s (li_pool s l) psize bs ls
     \<and> ps \<noteq> [] \<and> last ps = li_last s l \<and> chain (lp_next s) (li_part l) ps \<and> distinct ps
     \<and> 0 < unat (li_size s l) \<and> 0 < unat (li_nalloc s l)
     \<and> (\<forall>p \<in> set ps. p \<in> given s bs ls \<and> lp_nelts s p \<le> li_nalloc s l \<and> part_bytes s l p \<subseteq> given s bs ls)
     \<and> (\<forall>p \<in> set ps. \<forall>q \<in> set ps. p \<noteq> q \<longrightarrow> part_bytes s l p \<inter> part_bytes s l q = {})
     \<and> (\<forall>p \<in> set (butlast ps). lp_nelts s p = li_nalloc s l)"

lemma list_okD:
  assumes "list_ok s l psize bs ls ps" and "p \<in> set ps"
  shows "p \<in> given s bs ls" "lp_nelts s p \<le> li_nalloc s l" "part_bytes s l p \<subseteq> given s bs ls"
    "lp_elts s p \<noteq> NULL" "unat (li_size s l) * unat (li_nalloc s l) < 2 ^ 63"
    "unat (li_size s l * ucast (lp_nelts s p)) = unat (li_size s l) * unat (lp_nelts s p)"
proof -
  from assms show 1: "p \<in> given s bs ls" "lp_nelts s p \<le> li_nalloc s l" "part_bytes s l p \<subseteq> given s bs ls"
    by (simp_all add: list_ok_def)
  define c where "c = unat (li_size s l) * unat (li_nalloc s l)"
  from assms(1) have ok: "pool_ok s (li_pool s l) psize bs ls" and c: "0 < c" by (simp_all add: list_ok_def c_def)
  with 1(3) have "lp_elts s p \<in> given s bs ls" "lp_elts s p + c - 1 \<in> given s bs ls"
    by (auto simp: part_bytes_def c_def [symmetric])
  from given_bound [OF ok this(1)] given_bound [OF ok this(2)] show e: "lp_elts s p \<noteq> NULL" and
    b: "unat (li_size s l) * unat (li_nalloc s l) < 2 ^ 63" by (simp_all add: c_def)
  have "unat (lp_nelts s p) \<le> unat (li_nalloc s l)" using 1(2) by (simp add: word_le_nat_alt)
  then have "unat (li_size s l) * unat (lp_nelts s p) \<le> unat (li_size s l) * unat (li_nalloc s l)" by simp
  from le_less_trans [OF this b] have "unat (li_size s l) * unat (lp_nelts s p) < 2 ^ 64" by (rule less_trans) simp
  then show "unat (li_size s l * ucast (lp_nelts s p)) = unat (li_size s l) * unat (lp_nelts s p)" by (rule unat_times)
qed

lemma list_last: "list_ok s l psize bs ls ps \<Longrightarrow> li_last s l \<in> set ps"
  unfolding list_ok_def by (metis last_in_set)

section \<open>Pushing\<close>

text \<open>Counting a new element of the last part.\<close>

definition count_elt :: "'a lmem_scheme \<Rightarrow> addr \<Rightarrow> 'a lmem_scheme" where
  "count_elt s p = s\<lparr>lp_nelts := (lp_nelts s)(p := lp_nelts s p + 1)\<rparr>"

lemma count_elt_ok:
  assumes ok: "list_ok s l psize bs ls ps" and room: "lp_nelts s (li_last s l) < li_nalloc s l"
  defines "e \<equiv> lp_elts s (li_last s l) + unat (li_size s l) * unat (lp_nelts s (li_last s l))"
  shows "list_ok (count_elt s (li_last s l)) l psize bs ls ps"
    "elems (count_elt s (li_last s l)) l ps = elems s l ps @ [e]"
    "{e ..< e + unat (li_size s l)} \<subseteq> part_bytes s l (li_last s l)"
proof -
  let ?p = "li_last s l" and ?t = "count_elt s (li_last s l)"
  have un: "unat (lp_nelts s ?p + 1) = unat (lp_nelts s ?p) + 1"
    using room unat_add_lem [of "lp_nelts s ?p" 1] unsigned_less [of "li_nalloc s l", where 'a=nat]
    by (simp add: word_less_nat_alt)
  from ok have ps: "ps \<noteq> []" "last ps = ?p" "distinct ps" by (simp_all add: list_ok_def)
  have nb: "?p \<notin> set (butlast ps)" using ps last_notin_butlast by metis
  have snoc: "ps = butlast ps @ [?p]" using ps(1,2) by (metis append_butlast_last_id)
  have pb: "part_bytes ?t = part_bytes s" by (simp add: part_bytes_def count_elt_def fun_eq_iff)
  have le: "lp_nelts s ?p + 1 \<le> li_nalloc s l" using room un by (simp add: word_le_nat_alt word_less_nat_alt)
  have same: "lp_nelts ?t q = lp_nelts s q" if "q \<noteq> ?p" for q using that by (simp add: count_elt_def)
  have full: "\<forall>q \<in> set (butlast ps). lp_nelts ?t q = li_nalloc s l"
  proof
    fix q assume q: "q \<in> set (butlast ps)"
    then have "q \<noteq> ?p" using nb by blast
    with q ok same show "lp_nelts ?t q = li_nalloc s l" by (simp add: list_ok_def)
  qed
  have parts: "\<forall>q \<in> set ps. q \<in> given ?t bs ls \<and> lp_nelts ?t q \<le> li_nalloc s l \<and> part_bytes s l q \<subseteq> given ?t bs ls"
  proof
    fix q assume q: "q \<in> set ps"
    show "q \<in> given ?t bs ls \<and> lp_nelts ?t q \<le> li_nalloc s l \<and> part_bytes s l q \<subseteq> given ?t bs ls"
      using list_okD(1-3) [OF ok q] le same by (cases "q = ?p") (simp_all add: count_elt_def)
  qed
  show "list_ok ?t l psize bs ls ps"
    using ok full parts unfolding list_ok_def pb by (simp add: count_elt_def)
  have "part_elems ?t l q = part_elems s l q" if "q \<in> set (butlast ps)" for q
  proof -
    have "q \<noteq> ?p" using that nb by blast
    then show ?thesis by (simp add: part_elems_def count_elt_def)
  qed
  then have b: "concat (map (part_elems ?t l) (butlast ps)) = concat (map (part_elems s l) (butlast ps))"
    by (simp cong: map_cong)
  have "part_elems ?t l ?p = part_elems s l ?p @ [e]"
    by (simp add: part_elems_def count_elt_def un e_def)
  then show "elems ?t l ps = elems s l ps @ [e]" unfolding elems_def by (subst (1 2) snoc) (simp add: b)
  have "unat (lp_nelts s ?p) + 1 \<le> unat (li_nalloc s l)" using room by (simp add: word_less_nat_alt)
  from mult_le_mono2 [OF this, of "unat (li_size s l)"]
  show "{e ..< e + unat (li_size s l)} \<subseteq> part_bytes s l ?p" by (auto simp: part_bytes_def e_def)
qed

text \<open>Facts that hold of the list while only the pool changes.\<close>

lemma list_ok_pool:
  fixes s s' :: "'a lmem_scheme"
  assumes ok: "list_ok s l psize bs ls ps" and p: "pool_ok s' (li_pool s l) psize bs' ls'"
    and m: "pmem.more s' = pmem.more s" and g: "given s bs ls \<subseteq> given s' bs' ls'"
  shows "list_ok s' l psize bs' ls' ps" "elems s' l ps = elems s l ps"
proof -
  note f = lmore_fields [OF m]
  have pb: "part_bytes s' = part_bytes s" by (simp add: part_bytes_def fun_eq_iff f)
  have "\<forall>q \<in> set ps. q \<in> given s' bs' ls' \<and> lp_nelts s q \<le> li_nalloc s l \<and> part_bytes s l q \<subseteq> given s' bs' ls'"
    using list_okD(1-3) [OF ok] g by blast
  then show "list_ok s' l psize bs' ls' ps" using ok p unfolding list_ok_def pb f by simp
  have "part_elems s' l = part_elems s l" by (simp add: part_elems_def fun_eq_iff f)
  then show "elems s' l ps = elems s l ps" by (simp add: elems_def)
qed

text \<open>Linking a fresh, empty part behind the last one.\<close>

definition link_part :: "'a lmem_scheme \<Rightarrow> addr \<Rightarrow> addr \<Rightarrow> addr \<Rightarrow> 'a lmem_scheme" where
  "link_part s l p e = s\<lparr>lp_elts := (lp_elts s)(p := e), lp_nelts := (lp_nelts s)(p := 0),
     lp_next := (lp_next s)(p := NULL, li_last s l := p), li_last := (li_last s)(l := p)\<rparr>"

lemma link_part_ok:
  assumes ok: "list_ok s l psize bs ls ps" and full: "lp_nelts s (li_last s l) = li_nalloc s l"
    and p: "p \<noteq> NULL" "p \<notin> set ps" "p \<in> given s bs ls"
    and e: "{e ..< e + unat (li_size s l) * unat (li_nalloc s l)} \<subseteq> given s bs ls"
    and new: "\<forall>q \<in> set ps. {e ..< e + unat (li_size s l) * unat (li_nalloc s l)} \<inter> part_bytes s l q = {}"
  shows "list_ok (link_part s l p e) l psize bs ls (ps @ [p])" "elems (link_part s l p e) l (ps @ [p]) = elems s l ps"
    "li_last (link_part s l p e) l = p" "lp_nelts (link_part s l p e) p < li_nalloc (link_part s l p e) l"
proof -
  let ?t = "link_part s l p e"
  from ok have ps: "ps \<noteq> []" "last ps = li_last s l" "chain (lp_next s) (li_part l) ps" "distinct ps"
    and nz: "0 < unat (li_nalloc s l)" by (simp_all add: list_ok_def)
  have eq: "li_size ?t = li_size s" "li_nalloc ?t = li_nalloc s" "li_pool ?t = li_pool s" "li_last ?t l = p" by (simp_all add: link_part_def)
  show "li_last ?t l = p" using eq by simp
  show "lp_nelts ?t p < li_nalloc ?t l" using nz by (simp add: link_part_def word_less_nat_alt)
  have same: "lp_nelts ?t q = lp_nelts s q" "lp_elts ?t q = lp_elts s q" if "q \<in> set ps" for q
    using that p(2) by (auto simp: link_part_def)
  have pbs: "part_bytes ?t l q = part_bytes s l q" if "q \<in> set ps" for q by (simp add: part_bytes_def same [OF that] eq)
  have pbn: "part_bytes ?t l p = {e ..< e + unat (li_size s l) * unat (li_nalloc s l)}" by (simp add: part_bytes_def eq) (simp add: link_part_def)
  have gv: "given ?t bs ls = given s bs ls" by (simp add: link_part_def)
  have "chain ((lp_next s)(p := NULL)) (li_part l) ps" using ps(3) p(2) by simp
  from chain_snoc [OF this ps(1), of p] have ch: "chain (lp_next ?t) (li_part l) (ps @ [p])"
    using ps p by (simp add: link_part_def)
  have one: "\<forall>q \<in> set (ps @ [p]). q \<in> given ?t bs ls \<and> lp_nelts ?t q \<le> li_nalloc s l \<and> part_bytes ?t l q \<subseteq> given ?t bs ls"
  proof
    fix q assume q: "q \<in> set (ps @ [p])"
    show "q \<in> given ?t bs ls \<and> lp_nelts ?t q \<le> li_nalloc s l \<and> part_bytes ?t l q \<subseteq> given ?t bs ls"
    proof (cases "q = p")
      case True
      have "lp_nelts ?t p = 0" by (simp add: link_part_def)
      then show ?thesis using p(3) e pbn gv True by simp
    next
      case False
      then have "q \<in> set ps" using q by simp
      then show ?thesis using list_okD(1-3) [OF ok] same pbs gv by simp
    qed
  qed
  have two: "\<forall>q \<in> set (ps @ [p]). \<forall>r \<in> set (ps @ [p]). q \<noteq> r \<longrightarrow> part_bytes ?t l q \<inter> part_bytes ?t l r = {}"
  proof (intro ballI impI)
    fix q r assume qr: "q \<in> set (ps @ [p])" "r \<in> set (ps @ [p])" "q \<noteq> r"
    consider "q = p" "r \<in> set ps" | "r = p" "q \<in> set ps" | "q \<in> set ps" "r \<in> set ps" using qr by auto
    then show "part_bytes ?t l q \<inter> part_bytes ?t l r = {}"
    proof cases
      case 1
      then show ?thesis using new pbs pbn by simp
    next
      case 2
      then show ?thesis using new pbs pbn by (simp add: Int_commute)
    next
      case 3
      then show ?thesis using ok qr(3) pbs by (simp add: list_ok_def)
    qed
  qed
  have three: "\<forall>q \<in> set (butlast (ps @ [p])). lp_nelts ?t q = li_nalloc s l"
  proof
    fix q assume "q \<in> set (butlast (ps @ [p]))"
    then have q: "q \<in> set ps" by simp
    have "ps = butlast ps @ [li_last s l]" using ps(1,2) by (metis append_butlast_last_id)
    then have "q \<in> set (butlast ps) \<or> q = li_last s l" using q by (metis UnE append_is_Nil_conv empty_iff list.set(1) set_ConsD set_append)
    then have "lp_nelts s q = li_nalloc s l" using ok full by (auto simp: list_ok_def)
    then show "lp_nelts ?t q = li_nalloc s l" using same [OF q] by simp
  qed
  have "pool_ok ?t (li_pool ?t l) psize bs ls" using ok by (simp add: list_ok_def link_part_def)
  then show "list_ok ?t l psize bs ls (ps @ [p])"
    unfolding list_ok_def eq using ch one two three ok p(2) ps(4) by (simp add: list_ok_def)
  have "part_elems ?t l q = part_elems s l q" if "q \<in> set ps" for q
    by (simp add: part_elems_def same [OF that] eq)
  moreover have "part_elems ?t l p = []" by (simp add: part_elems_def) (simp add: link_part_def)
  ultimately show "elems ?t l (ps @ [p]) = elems s l ps" by (simp add: elems_def cong: map_cong)
qed

lemma list_ok_elts:
  assumes "list_ok s l psize bs ls ps" and "p \<notin> set ps"
  shows "list_ok (s\<lparr>lp_elts := (lp_elts s)(p := e)\<rparr>) l psize bs ls ps" "elems (s\<lparr>lp_elts := (lp_elts s)(p := e)\<rparr>) l ps = elems s l ps"
proof -
  let ?t = "s\<lparr>lp_elts := (lp_elts s)(p := e)\<rparr>"
  have pb: "part_bytes ?t l q = part_bytes s l q" if "q \<in> set ps" for q using that assms(2) by (auto simp: part_bytes_def)
  have "\<forall>q \<in> set ps. q \<in> given ?t bs ls \<and> lp_nelts ?t q \<le> li_nalloc s l \<and> part_bytes ?t l q \<subseteq> given ?t bs ls"
    using list_okD(1-3) [OF assms(1)] pb by simp
  moreover have "\<forall>q \<in> set ps. \<forall>r \<in> set ps. q \<noteq> r \<longrightarrow> part_bytes ?t l q \<inter> part_bytes ?t l r = {}"
    using assms(1) pb by (simp add: list_ok_def)
  ultimately show "list_ok ?t l psize bs ls ps" using assms(1) by (simp add: list_ok_def)
  have "part_elems ?t l q = part_elems s l q" if "q \<in> set ps" for q using that assms(2) by (auto simp: part_elems_def)
  then show "elems ?t l ps = elems s l ps" by (simp add: elems_def cong: map_cong)
qed

text \<open>What stays when something is added to a list of the pool.\<close>

definition keeps :: "'a lmem_scheme \<Rightarrow> addr list \<Rightarrow> addr list \<Rightarrow> 'a lmem_scheme \<Rightarrow> addr list \<Rightarrow> addr list \<Rightarrow> bool" where
  "keeps s bs ls s' bs' ls' \<longleftrightarrow> given s bs ls \<subseteq> given s' bs' ls' \<and> bytes s' = bytes s \<and> foreign s' bs' ls' = foreign s bs ls
     \<and> li_size s' = li_size s \<and> li_nalloc s' = li_nalloc s \<and> li_pool s' = li_pool s"

lemma keeps_trans: "keeps s bs ls s1 bs1 ls1 \<Longrightarrow> keeps s1 bs1 ls1 s2 bs2 ls2 \<Longrightarrow> keeps s bs ls s2 bs2 ls2"
  by (auto simp: keeps_def)

lemma keeps_gives: "gives s pool psize bs ls s' bs' ls' m sz \<Longrightarrow> keeps s bs ls s' bs' ls'"
  using gives_foreign [of s pool psize bs ls s' bs' ls' m sz] lmore_fields [of s' s]
  by (auto simp: keeps_def gives_def)

lemma keeps_mcalls: "keeps s bs ls (s\<lparr>mcalls := k\<rparr>) bs ls"
  by (simp add: keeps_def same_pool)

lemma list_ok_mcalls:
  "list_ok (s\<lparr>mcalls := k\<rparr>) l psize bs ls ps = list_ok s l psize bs ls ps" "elems (s\<lparr>mcalls := k\<rparr>) l ps = elems s l ps"
proof -
  have e: "part_elems (s\<lparr>mcalls := k\<rparr>) l = part_elems s l" "part_bytes (s\<lparr>mcalls := k\<rparr>) = part_bytes s"
    by (simp_all add: part_elems_def part_bytes_def fun_eq_iff)
  show "elems (s\<lparr>mcalls := k\<rparr>) l ps = elems s l ps" by (simp add: elems_def e)
  show "list_ok (s\<lparr>mcalls := k\<rparr>) l psize bs ls ps = list_ok s l psize bs ls ps" by (simp add: list_ok_def same_pool e)
qed

definition add_result :: "libc \<Rightarrow> 'a lmem_scheme \<Rightarrow> addr \<Rightarrow> nat \<Rightarrow> addr list \<Rightarrow> addr list \<Rightarrow> addr list \<Rightarrow> 'a lmem_scheme \<times> addr \<Rightarrow> bool" where
  "add_result libc s l psize bs ls ps r = (case r of (s', p) \<Rightarrow>
     \<exists>bs' ls'. keeps s bs ls s' bs' ls' \<and>
      (if p = NULL then denied_either libc s (li_pool s l) psize sizeof_list_part (unat (li_size s l) * unat (li_nalloc s l)) (mcalls s')
         \<and> list_ok s' l psize bs' ls' ps \<and> elems s' l ps = elems s l ps
       else list_ok s' l psize bs' ls' (ps @ [p]) \<and> elems s' l (ps @ [p]) = elems s l ps \<and> li_last s' l = p
         \<and> lp_nelts s' p < li_nalloc s' l
         \<and> part_bytes s' l p \<inter> given s bs ls = {}))"

lemma list_add_part_ok:
  assumes lok: "libc_ok libc" and ok: "list_ok s l psize bs ls ps" and full: "lp_nelts s (li_last s l) = li_nalloc s l"
  shows "\<exists>r. list_add_part libc s l = Some r \<and> add_result libc s l psize bs ls ps r"
proof -
  from ok have po: "pool_ok s (li_pool s l) psize bs ls" by (simp add: list_ok_def)
  define c where "c = unat (li_size s l) * unat (li_nalloc s l)"
  from list_okD(5) [OF ok list_last [OF ok]] have un: "unat (ucast (li_nalloc s l) * li_size s l) = c"
    using unat_times [of "li_size s l" "li_nalloc s l"] by (simp add: c_def mult.commute)
  have cp: "0 < c" using ok by (simp add: c_def list_ok_def)
  from palloc_result [OF lok po, of sizeof_list_part] show ?thesis
  proof (cases rule: alloc_resultE)
    case (fail k)
    then have "list_add_part libc s l = Some (s\<lparr>mcalls := k\<rparr>, NULL)" by (simp add: list_add_part_def)
    moreover have "add_result libc s l psize bs ls ps (s\<lparr>mcalls := k\<rparr>, NULL)"
      using denied_first [OF fail(2)] ok keeps_mcalls [of s bs ls k] by (auto simp: add_result_def list_ok_mcalls)
    ultimately show ?thesis by blast
  next
    case first: (ok s1 bs1 ls1 p)
    have g1: "p \<noteq> NULL" "pool_ok s1 (li_pool s l) psize bs1 ls1" "given s bs ls \<subseteq> given s1 bs1 ls1" "pmem.more s1 = pmem.more s"
      "{p ..< p + sizeof_list_part} \<inter> given s bs ls = {}" "{p ..< p + sizeof_list_part} \<subseteq> given s1 bs1 ls1"
      using first(3) by (simp_all add: gives_def)
    note f1 = lmore_fields [OF g1(4)]
    note l1 = list_ok_pool [OF ok g1(2,4,3)]
    have "p \<in> {p ..< p + sizeof_list_part}" by (simp add: sizeof_list_part_def)
    then have pin: "p \<in> given s1 bs1 ls1" "p \<notin> given s bs ls" using g1(5,6) by blast+
    have pn: "p \<notin> set ps" using list_okD(1) [OF ok] pin(2) by blast
    have po1: "pool_ok s1 (li_pool s1 l) psize bs1 ls1" using g1(2) by (simp add: f1)
    from palloc_result [OF lok po1, of c] show ?thesis
    proof (cases rule: alloc_resultE)
      case (fail k)
      let ?t = "(s1\<lparr>mcalls := k\<rparr>)\<lparr>lp_elts := (lp_elts (s1\<lparr>mcalls := k\<rparr>))(p := NULL)\<rparr>"
      have "list_add_part libc s l = Some (?t, NULL)"
        using first(1) g1(1) fail(1) by (simp add: list_add_part_def f1 un Let_def)
      moreover have "list_ok ?t l psize bs1 ls1 ps" "elems ?t l ps = elems s l ps"
        using list_ok_elts [OF _ pn, of "s1\<lparr>mcalls := k\<rparr>" l psize bs1 ls1 NULL] l1 by (simp_all add: list_ok_mcalls)
      moreover have "keeps s bs ls ?t bs1 ls1"
        using keeps_gives [OF first(3)] by (simp add: keeps_def same_pool) (simp add: foreign_def larges_def)
      moreover have "denied_either libc s (li_pool s l) psize sizeof_list_part (unat (li_size s l) * unat (li_nalloc s l)) (mcalls ?t)"
        using denied_second [OF first(1) g1(1) fail(2)] by (simp add: c_def)
      ultimately show ?thesis by (auto simp: add_result_def)
    next
      case second: (ok s2 bs2 ls2 e)
      have g2: "e \<noteq> NULL" "pool_ok s2 (li_pool s1 l) psize bs2 ls2" "given s1 bs1 ls1 \<subseteq> given s2 bs2 ls2" "pmem.more s2 = pmem.more s1"
        "{e ..< e + c} \<inter> given s1 bs1 ls1 = {}" "{e ..< e + c} \<subseteq> given s2 bs2 ls2"
        using second(3) by (simp_all add: gives_def)
      note f2 = lmore_fields [OF g2(4)]
      note l2 = list_ok_pool [OF l1(1) g2(2,4,3)]
      let ?t = "link_part s2 l p e"
      have "list_add_part libc s l = Some (?t, p)"
        using first(1) g1(1) second(1) g2(1) by (simp add: list_add_part_def f1 f2 un Let_def link_part_def)
      moreover have sz: "unat (li_size s2 l) * unat (li_nalloc s2 l) = c" by (simp add: c_def f1 f2)
      have "p \<in> given s2 bs2 ls2" using pin(1) g2(3) by blast
      moreover have "\<forall>q \<in> set ps. {e ..< e + c} \<inter> part_bytes s2 l q = {}"
      proof
        fix q assume q: "q \<in> set ps"
        have "part_bytes s2 l q = part_bytes s1 l q" by (simp add: part_bytes_def f2)
        with list_okD(3) [OF l1(1) q] g2(5) show "{e ..< e + c} \<inter> part_bytes s2 l q = {}" by blast
      qed
      ultimately have lp: "list_ok ?t l psize bs2 ls2 (ps @ [p])" "elems ?t l (ps @ [p]) = elems s2 l ps" "li_last ?t l = p"
        "lp_nelts ?t p < li_nalloc ?t l"
        using link_part_ok [OF l2(1) _ g1(1) pn, of e] full g2(6) unfolding sz by (simp_all add: f1 f2)
      have "keeps s2 bs2 ls2 ?t bs2 ls2" by (simp add: keeps_def link_part_def) (simp add: foreign_def larges_def)
      with keeps_gives [OF first(3)] keeps_gives [OF second(3)] have k: "keeps s bs ls ?t bs2 ls2" by (blast intro: keeps_trans)
      have "part_bytes ?t l p = {e ..< e + c}" by (simp add: part_bytes_def) (simp add: link_part_def sz)
      then have "part_bytes ?t l p \<inter> given s bs ls = {}" using g2(5) g1(3) by blast
      with k lp l1 l2 g1(1) have "add_result libc s l psize bs ls ps (?t, p)" by (auto simp: add_result_def)
      with \<open>list_add_part libc s l = Some (?t, p)\<close> show ?thesis by blast
    qed
  qed
qed

lemma elem_in_part:
  assumes ok: "list_ok s l psize bs ls ps" and e: "e \<in> set (elems s l ps)"
  obtains q i where "q \<in> set ps" "i < unat (lp_nelts s q)" "e = lp_elts s q + unat (li_size s l) * i"
    "{e ..< e + unat (li_size s l)} \<subseteq> part_bytes s l q"
proof -
  from e obtain q i where q: "q \<in> set ps" "i < unat (lp_nelts s q)" "e = lp_elts s q + unat (li_size s l) * i"
    by (auto simp: elems_def part_elems_def)
  have "i + 1 \<le> unat (li_nalloc s l)" using q(2) list_okD(2) [OF ok q(1)] by (simp add: word_le_nat_alt)
  from mult_le_mono2 [OF this, of "unat (li_size s l)"] have "{e ..< e + unat (li_size s l)} \<subseteq> part_bytes s l q"
    by (auto simp: part_bytes_def q(3))
  with q that show thesis by blast
qed

definition list_push_result :: "libc \<Rightarrow> 'a lmem_scheme \<Rightarrow> addr \<Rightarrow> nat \<Rightarrow> addr list \<Rightarrow> addr list \<Rightarrow> addr list \<Rightarrow> 'a lmem_scheme \<times> addr \<Rightarrow> bool" where
  "list_push_result libc s l psize bs ls ps r = (case r of (s', e) \<Rightarrow>
     \<exists>bs' ls' ps'. keeps s bs ls s' bs' ls' \<and> list_ok s' l psize bs' ls' ps' \<and>
      (if e = NULL then lp_nelts s (li_last s l) = li_nalloc s l
         \<and> denied_either libc s (li_pool s l) psize sizeof_list_part (unat (li_size s l) * unat (li_nalloc s l)) (mcalls s')
         \<and> elems s' l ps' = elems s l ps
       else elems s' l ps' = elems s l ps @ [e] \<and> {e ..< e + unat (li_size s l)} \<subseteq> given s' bs' ls'
         \<and> (\<forall>d \<in> set (elems s l ps). {e ..< e + unat (li_size s l)} \<inter> {d ..< d + unat (li_size s l)} = {})))"

lemma keeps_refl: "keeps s bs ls s bs ls"
  by (simp add: keeps_def)

text \<open>The end of \<open>list_push\<close>, in a list whose last part has room.\<close>

lemma push_here:
  assumes ok: "list_ok s l psize bs ls ps" and room: "lp_nelts s (li_last s l) < li_nalloc s l"
  defines "e \<equiv> lp_elts s (li_last s l) + unat (li_size s l * ucast (lp_nelts s (li_last s l)))"
  shows "list_ok (count_elt s (li_last s l)) l psize bs ls ps" "elems (count_elt s (li_last s l)) l ps = elems s l ps @ [e]"
    "e \<noteq> NULL" "{e ..< e + unat (li_size s l)} \<subseteq> part_bytes s l (li_last s l)"
    "keeps s bs ls (count_elt s (li_last s l)) bs ls"
    "\<forall>d \<in> set (elems s l ps). {e ..< e + unat (li_size s l)} \<inter> {d ..< d + unat (li_size s l)} = {}"
proof -
  note ll = list_last [OF ok]
  have ee: "e = lp_elts s (li_last s l) + unat (li_size s l) * unat (lp_nelts s (li_last s l))"
    unfolding e_def list_okD(6) [OF ok ll] ..
  note c = count_elt_ok [OF ok room, folded ee]
  show "list_ok (count_elt s (li_last s l)) l psize bs ls ps" "elems (count_elt s (li_last s l)) l ps = elems s l ps @ [e]"
    "{e ..< e + unat (li_size s l)} \<subseteq> part_bytes s l (li_last s l)" using c by blast+
  show "e \<noteq> NULL" using list_okD(4) [OF ok ll] by (simp add: ee)
  show "keeps s bs ls (count_elt s (li_last s l)) bs ls"
    by (simp add: keeps_def count_elt_def) (simp add: foreign_def larges_def)
  show "\<forall>d \<in> set (elems s l ps). {e ..< e + unat (li_size s l)} \<inter> {d ..< d + unat (li_size s l)} = {}"
  proof
    fix d assume "d \<in> set (elems s l ps)"
    from elem_in_part [OF ok this] obtain q i where q: "q \<in> set ps" "i < unat (lp_nelts s q)"
      "d = lp_elts s q + unat (li_size s l) * i" "{d ..< d + unat (li_size s l)} \<subseteq> part_bytes s l q" .
    show "{e ..< e + unat (li_size s l)} \<inter> {d ..< d + unat (li_size s l)} = {}"
    proof (cases "q = li_last s l")
      case True
      have "i + 1 \<le> unat (lp_nelts s q)" using q(2) by simp
      from mult_le_mono2 [OF this, of "unat (li_size s l)"] have "d + unat (li_size s l) \<le> e" using True by (simp add: q(3) ee)
      then show ?thesis by auto
    next
      case False
      then have "part_bytes s l q \<inter> part_bytes s l (li_last s l) = {}" using ok q(1) ll by (simp add: list_ok_def)
      then show ?thesis using q(4) c(3) by blast
    qed
  qed
qed

lemma list_push_ok:
  assumes lok: "libc_ok libc" and ok: "list_ok s l psize bs ls ps"
  shows "\<exists>r. list_push libc s l = Some r \<and> list_push_result libc s l psize bs ls ps r"
proof (cases "lp_nelts s (li_last s l) = li_nalloc s l")
  case True
  from list_add_part_ok [OF lok ok True] obtain s1 p where a: "list_add_part libc s l = Some (s1, p)"
    "add_result libc s l psize bs ls ps (s1, p)" by (metis surj_pair)
  then obtain bs1 ls1 where r: "keeps s bs ls s1 bs1 ls1"
    "if p = NULL then denied_either libc s (li_pool s l) psize sizeof_list_part (unat (li_size s l) * unat (li_nalloc s l)) (mcalls s1)
         \<and> list_ok s1 l psize bs1 ls1 ps \<and> elems s1 l ps = elems s l ps
       else list_ok s1 l psize bs1 ls1 (ps @ [p]) \<and> elems s1 l (ps @ [p]) = elems s l ps \<and> li_last s1 l = p
         \<and> lp_nelts s1 p < li_nalloc s1 l \<and> part_bytes s1 l p \<inter> given s bs ls = {}" by (auto simp: add_result_def)
  show ?thesis
  proof (cases "p = NULL")
    case True
    then have "list_push libc s l = Some (s1, NULL)" using a(1) \<open>lp_nelts s (li_last s l) = li_nalloc s l\<close>
      by (simp add: list_push_def)
    moreover have "list_push_result libc s l psize bs ls ps (s1, NULL)"
      using r True \<open>lp_nelts s (li_last s l) = li_nalloc s l\<close> unfolding list_push_result_def by auto
    ultimately show ?thesis by blast
  next
    case False
    with r(2) have n: "list_ok s1 l psize bs1 ls1 (ps @ [p])" "elems s1 l (ps @ [p]) = elems s l ps" "li_last s1 l = p"
      "lp_nelts s1 (li_last s1 l) < li_nalloc s1 l" "part_bytes s1 l p \<inter> given s bs ls = {}" by simp_all
    define e where "e = lp_elts s1 p + unat (li_size s1 l * ucast (lp_nelts s1 p))"
    note h = push_here [OF n(1,4), unfolded n(3), folded e_def]
    have sz: "li_size s1 l = li_size s l" using r(1) by (simp add: keeps_def)
    have "list_push libc s l = Some (count_elt s1 p, e)"
      using a(1) True False by (simp add: list_push_def Let_def count_elt_def e_def)
    moreover have "list_push_result libc s l psize bs ls ps (count_elt s1 p, e)"
    proof -
      have "part_bytes s1 l p \<subseteq> given s1 bs1 ls1" using list_okD(3) [OF n(1)] by simp
      then have "{e ..< e + unat (li_size s l)} \<subseteq> given (count_elt s1 p) bs1 ls1" using h(4) unfolding sz by (auto simp: count_elt_def)
      moreover have "keeps s bs ls (count_elt s1 p) bs1 ls1" using r(1) h(5) by (rule keeps_trans)
      ultimately show ?thesis using h n(2) unfolding list_push_result_def sz by auto
    qed
    ultimately show ?thesis by blast
  qed
next
  case False
  have "lp_nelts s (li_last s l) \<le> li_nalloc s l" using list_okD(2) [OF ok list_last [OF ok]] .
  with False have room: "lp_nelts s (li_last s l) < li_nalloc s l" by (simp add: order.strict_iff_order)
  define e where "e = lp_elts s (li_last s l) + unat (li_size s l * ucast (lp_nelts s (li_last s l)))"
  note h = push_here [OF ok room, folded e_def]
  have "li_last s l \<noteq> NULL" using list_last [OF ok] ok chain_nonnull unfolding list_ok_def by metis
  then have "list_push libc s l = Some (count_elt s (li_last s l), e)"
    using False by (simp add: list_push_def Let_def count_elt_def e_def)
  moreover have "list_push_result libc s l psize bs ls ps (count_elt s (li_last s l), e)"
  proof -
    have "part_bytes s l (li_last s l) \<subseteq> given s bs ls" using list_okD(3) [OF ok list_last [OF ok]] .
    then have "{e ..< e + unat (li_size s l)} \<subseteq> given (count_elt s (li_last s l)) bs ls" using h(4) by (auto simp: count_elt_def)
    then show ?thesis using h unfolding list_push_result_def by auto
  qed
  ultimately show ?thesis by blast
qed

section \<open>Creation\<close>

definition list_create_result :: "libc \<Rightarrow> 'a lmem_scheme \<Rightarrow> addr \<Rightarrow> nat \<Rightarrow> addr list \<Rightarrow> addr list \<Rightarrow> u32 \<Rightarrow> u64 \<Rightarrow> 'a lmem_scheme \<times> addr \<Rightarrow> bool" where
  "list_create_result libc s pool psize bs ls n sz r = (case r of (s', l) \<Rightarrow>
     \<exists>bs' ls'. pool_ok s' pool psize bs' ls' \<and> given s bs ls \<subseteq> given s' bs' ls' \<and> bytes s' = bytes s
       \<and> foreign s' bs' ls' = foreign s bs ls \<and>
      (if l = NULL then denied_either libc s pool psize sizeof_list (unat sz * unat n) (mcalls s')
       else list_ok s' l psize bs' ls' [li_part l] \<and> elems s' l [li_part l] = []
         \<and> li_size s' l = sz \<and> li_nalloc s' l = n \<and> li_pool s' l = pool
         \<and> {l ..< l + sizeof_list} \<subseteq> given s' bs' ls' \<and> {l ..< l + sizeof_list} \<inter> given s bs ls = {}
         \<and> {l ..< l + sizeof_list} \<inter> part_bytes s' l (li_part l) = {}))"

lemma list_create_ok:
  assumes lok: "libc_ok libc" and po: "pool_ok s pool psize bs ls" and n: "0 < n" "0 < sz" "unat sz * unat n < 2 ^ 64"
  shows "\<exists>r. list_create libc s pool n sz = Some r \<and> list_create_result libc s pool psize bs ls n sz r"
proof -
  define c where "c = unat sz * unat n"
  have un: "unat (ucast n * sz) = c" using unat_times [of sz n] n(3) by (simp add: c_def mult.commute)
  from palloc_result [OF lok po, of sizeof_list] show ?thesis
  proof (cases rule: alloc_resultE)
    case (fail k)
    then have "list_create libc s pool n sz = Some (s\<lparr>mcalls := k\<rparr>, NULL)" by (simp add: list_create_def)
    moreover have "list_create_result libc s pool psize bs ls n sz (s\<lparr>mcalls := k\<rparr>, NULL)"
      unfolding list_create_result_def using denied_first [OF fail(2)] po
      by (simp only: prod.case) (intro exI [of _ bs] exI [of _ ls], simp add: same_pool)
    ultimately show ?thesis by blast
  next
    case first: (ok s1 bs1 ls1 l)
    have g1: "l \<noteq> NULL" "pool_ok s1 pool psize bs1 ls1" "given s bs ls \<subseteq> given s1 bs1 ls1" "bytes s1 = bytes s"
      "{l ..< l + sizeof_list} \<inter> given s bs ls = {}" "{l ..< l + sizeof_list} \<subseteq> given s1 bs1 ls1"
      using first(3) by (simp_all add: gives_def)
    note fo1 = gives_foreign [OF first(3)]
    have lc: "list_create libc s pool n sz = do { (s2, rc) \<leftarrow> list_init libc s1 l pool n sz; Some (s2, if rc \<noteq> 0 then NULL else l) }"
      using first(1) g1(1) by (simp add: list_create_def)
    from palloc_result [OF lok g1(2), of c] show ?thesis
    proof (cases rule: alloc_resultE)
      case (fail k)
      let ?t = "(s1\<lparr>mcalls := k\<rparr>)\<lparr>lp_elts := (lp_elts s1)(li_part l := NULL)\<rparr>"
      have "list_create libc s pool n sz = Some (?t, NULL)"
        unfolding lc using fail(1) by (simp add: list_init_def un Let_def)
      moreover have "foreign ?t bs1 ls1 = foreign s1 bs1 ls1" by (simp add: foreign_def larges_def)
      moreover have "given ?t bs1 ls1 = given s1 bs1 ls1" "pool_ok ?t pool psize bs1 ls1" using g1(2) by (simp_all add: same_pool)
      ultimately have "list_create_result libc s pool psize bs ls n sz (?t, NULL)"
        unfolding list_create_result_def using denied_second [OF first(1) g1(1) fail(2)] g1 fo1 unfolding c_def
        by (simp only: prod.case) (intro exI [of _ bs1] exI [of _ ls1], simp)
      with \<open>list_create libc s pool n sz = Some (?t, NULL)\<close> show ?thesis by blast
    next
      case second: (ok s2 bs2 ls2 e)
      have g2: "e \<noteq> NULL" "pool_ok s2 pool psize bs2 ls2" "given s1 bs1 ls1 \<subseteq> given s2 bs2 ls2" "bytes s2 = bytes s1"
        "{e ..< e + c} \<inter> given s1 bs1 ls1 = {}" "{e ..< e + c} \<subseteq> given s2 bs2 ls2"
        using second(3) by (simp_all add: gives_def)
      let ?t = "s2\<lparr>lp_elts := (lp_elts s2)(li_part l := e), lp_nelts := (lp_nelts s2)(li_part l := 0), lp_next := (lp_next s2)(li_part l := NULL),
        li_last := (li_last s2)(l := li_part l), li_size := (li_size s2)(l := sz), li_nalloc := (li_nalloc s2)(l := n), li_pool := (li_pool s2)(l := pool)\<rparr>"
      have cr: "list_create libc s pool n sz = Some (?t, l)"
        unfolding lc using second(1) g2(1) by (simp add: list_init_def un Let_def)
      have pb: "part_bytes ?t l (li_part l) = {e ..< e + c}" by (simp add: part_bytes_def c_def)
      have "li_part l \<in> {l ..< l + sizeof_list}" by (simp add: li_part_def sizeof_list_def)
      then have lin: "li_part l \<in> given s2 bs2 ls2" using g1(6) g2(3) by blast
      have "list_ok ?t l psize bs2 ls2 [li_part l]"
        unfolding list_ok_def using g2(2,6) n pb lin by (simp add: unat_gt_0 word_neq_0_conv li_part_def)
      moreover have "elems ?t l [li_part l] = []" by (simp add: elems_def part_elems_def)
      moreover have "foreign ?t bs2 ls2 = foreign s bs ls"
        using gives_foreign [OF second(3)] fo1 by (simp add: foreign_def larges_def)
      moreover have "{l ..< l + sizeof_list} \<inter> {e ..< e + c} = {}" using g1(6) g2(5) by blast
      moreover have "{l ..< l + sizeof_list} \<subseteq> given s2 bs2 ls2" "given s bs ls \<subseteq> given s2 bs2 ls2" using g1(3,6) g2(3) by blast+
      moreover have "pool_ok ?t pool psize bs2 ls2" "given ?t bs2 ls2 = given s2 bs2 ls2" "bytes ?t = bytes s" using g2(2,4) g1(4) by simp_all
      ultimately have "list_create_result libc s pool psize bs ls n sz (?t, l)"
        unfolding list_create_result_def using g1(1,5) pb
        by (simp only: prod.case) (intro exI [of _ bs2] exI [of _ ls2], simp)
      with cr show ?thesis by blast
    qed
  qed
qed

section \<open>Properties\<close>

text \<open>The example pool with a list of two 4-byte elements per part at 4168, its part at 4176; both are in use.\<close>

definition list_ex :: lmem where
  "list_ex = \<lparr>live = [64 \<mapsto> 16, 4096 \<mapsto> 256, 8192 \<mapsto> 1000], mcalls = 2, bytes = (\<lambda>_. 7), d_last = (\<lambda>_. 4232),
     d_end = (\<lambda>_. 4352), d_next = (\<lambda>_. NULL), d_failed = (\<lambda>_. 0), p_max = (\<lambda>_. 200), p_current = (\<lambda>_. 4096),
     p_large = (\<lambda>_. 4152), l_next = (\<lambda>_. NULL), l_alloc = (\<lambda>_. 8192),
     lp_elts = (\<lambda>_. 4224), lp_nelts = (\<lambda>_. 2), lp_next = (\<lambda>_. NULL), li_last = (\<lambda>_. 4176), li_size = (\<lambda>_. 4),
     li_nalloc = (\<lambda>_. 2), li_pool = (\<lambda>_. 4096)\<rparr>"

lemma list_ex_pool: "pool_ok list_ex 4096 256 [4096] [4152]"
proof -
  have "mem_ok list_ex" by (auto simp: mem_ok_def list_ex_def split: if_splits)
  moreover have "blocks_ok list_ex 4096 256 [4096]"
    by (simp add: blocks_ok_def list_ex_def sizeof_pool_def sizeof_pool_data_def)
  moreover have "larges_ok list_ex 4096 [4096] [4152]"
    by (simp add: larges_ok_def list_ex_def sizeof_pool_large_def sizeof_pool_data_def)
  ultimately show ?thesis by (simp add: pool_ok_def MIN_POOL_SIZE_eq sizeof_pool_def MAX_ALLOC_FROM_POOL_def list_ex_def)
qed

lemma list_ex_ok: "list_ok list_ex 4168 256 [4096] [4152] [4176]"
proof -
  have "{4224 ..< 4232} \<subseteq> given list_ex [4096] [4152]" "4176 \<in> given list_ex [4096] [4152]"
    by (auto simp: given_def used_def list_ex_def)
  then show ?thesis using list_ex_pool by (simp add: list_ok_def part_bytes_def) (simp add: list_ex_def li_part_def)
qed

text \<open>C25: \<open>list_push\<close> appends. It never faults; it returns \<open>NULL\<close> only if
  the last part was full and the C library refused the memory of a new part or of its elements, and the list is then
  well formed with the same elements; otherwise the sequence of the list's element addresses (the one the
  iteration described in the header walks) is the old one followed by the returned address, whose bytes
  belong to no earlier element; elements never move, no data byte changes and nothing in use is released.\<close>

theorem list_push_correct:
  assumes "libc_ok libc" and "list_ok s l psize bs ls ps"
  shows "\<exists>r. list_push libc s l = Some r \<and> list_push_result libc s l psize bs ls ps r"
  using assms by (rule list_push_ok)

lemma list_ex_push: "\<exists>s'. list_push slot_libc list_ex 4168 = Some (s', 4256)"
  by (simp add: list_push_def list_add_part_def palloc_def palloc_small_def hdr_def list_ex_def palloc_small_loop.simps align_ptr_def
    ALIGNMENT_def usub_def sizeof_list_part_def Let_def)

theorem list_push_correct_witness:
  "\<exists>s'. list_push slot_libc list_ex 4168 = Some (s', 4256) \<and> list_push_result slot_libc list_ex 4168 256 [4096] [4152] [4176] (s', 4256)"
  using list_push_correct [OF slot_libc_ok list_ex_ok] list_ex_push by auto

text \<open>\<open>list_create\<close> yields a well-formed empty list, whose structure and first part are new pieces of the pool
  that do not overlap, or \<open>NULL\<close> if the C library refused a request; either way the pool stays well formed.\<close>

theorem list_create_correct:
  assumes "libc_ok libc" and "pool_ok s pool psize bs ls" and "0 < n" and "0 < sz" and "unat sz * unat n < 2 ^ 64"
  shows "\<exists>r. list_create libc s pool n sz = Some r \<and> list_create_result libc s pool psize bs ls n sz r"
  using assms by (rule list_create_ok)

theorem list_create_correct_witness:
  "\<exists>r. list_create slot_libc list_ex 4096 20 8 = Some r \<and> list_create_result slot_libc list_ex 4096 256 [4096] [4152] 20 8 r"
  by (rule list_create_correct [OF slot_libc_ok list_ex_pool]) simp_all

end
