(* ===== verification/Queue.thy ===== *)
theory Queue
  imports Prelude "HOL-Library.Multiset"
begin

text \<open>
  The intrusive doubly linked queue of \<^verbatim>\<open>src/queue.h\<close> and \<^verbatim>\<open>src/queue.c\<close>.
  A queue is a ring of \<open>queue_t\<close> nodes through a head node (the sentinel); the macros of the
  header splice nodes, \<open>queue_middle\<close> walks the ring with two cursors and \<open>queue_sort\<close> is an
  insertion sort by relinking. The abstraction \<open>queue_list s h xs\<close> says that the ring at
  head \<open>h\<close> links exactly the nodes \<open>xs\<close>, in this order, in both directions.
\<close>

section \<open>The nodes and the macros of queue.h\<close>

record qheap =
  q_prev :: "addr \<Rightarrow> addr"
  q_next :: "addr \<Rightarrow> addr"

definition get_prev :: "qheap \<Rightarrow> addr \<Rightarrow> addr option" where
  "get_prev s p = deref p (q_prev s p)"

definition get_next :: "qheap \<Rightarrow> addr \<Rightarrow> addr option" where
  "get_next s p = deref p (q_next s p)"

definition set_prev :: "qheap \<Rightarrow> addr \<Rightarrow> addr \<Rightarrow> qheap option" where
  "set_prev s p v = deref p (s\<lparr>q_prev := (q_prev s)(p := v)\<rparr>)"

definition set_next :: "qheap \<Rightarrow> addr \<Rightarrow> addr \<Rightarrow> qheap option" where
  "set_next s p v = deref p (s\<lparr>q_next := (q_next s)(p := v)\<rparr>)"

lemmas q_access = get_prev_def get_next_def set_prev_def set_next_def

definition queue_init :: "qheap \<Rightarrow> addr \<Rightarrow> qheap option" where
  "queue_init s q = do {
     s \<leftarrow> set_prev s q q;
     set_next s q q }"

definition queue_empty :: "qheap \<Rightarrow> addr \<Rightarrow> bool option" where
  "queue_empty s h = do { p \<leftarrow> get_prev s h; Some (h = p) }"

definition queue_insert_head :: "qheap \<Rightarrow> addr \<Rightarrow> addr \<Rightarrow> qheap option" where
  "queue_insert_head s h x = do {
     hn \<leftarrow> get_next s h;
     s \<leftarrow> set_next s x hn;
     xn \<leftarrow> get_next s x;
     s \<leftarrow> set_prev s xn x;
     s \<leftarrow> set_prev s x h;
     set_next s h x }"

definition queue_insert_tail :: "qheap \<Rightarrow> addr \<Rightarrow> addr \<Rightarrow> qheap option" where
  "queue_insert_tail s h x = do {
     hp \<leftarrow> get_prev s h;
     s \<leftarrow> set_prev s x hp;
     xp \<leftarrow> get_prev s x;
     s \<leftarrow> set_next s xp x;
     s \<leftarrow> set_next s x h;
     set_prev s h x }"

definition queue_head :: "qheap \<Rightarrow> addr \<Rightarrow> addr option" where
  "queue_head s h = get_next s h"

definition queue_last :: "qheap \<Rightarrow> addr \<Rightarrow> addr option" where
  "queue_last s h = get_prev s h"

definition queue_remove :: "qheap \<Rightarrow> addr \<Rightarrow> qheap option" where
  "queue_remove s x = do {
     xn \<leftarrow> get_next s x;
     xp \<leftarrow> get_prev s x;
     s \<leftarrow> set_prev s xn xp;
     xp \<leftarrow> get_prev s x;
     xn \<leftarrow> get_next s x;
     set_next s xp xn }"

definition queue_split :: "qheap \<Rightarrow> addr \<Rightarrow> addr \<Rightarrow> addr \<Rightarrow> qheap option" where
  "queue_split s h q n = do {
     hp \<leftarrow> get_prev s h;
     s \<leftarrow> set_prev s n hp;
     np \<leftarrow> get_prev s n;
     s \<leftarrow> set_next s np n;
     s \<leftarrow> set_next s n q;
     qp \<leftarrow> get_prev s q;
     s \<leftarrow> set_prev s h qp;
     hp \<leftarrow> get_prev s h;
     s \<leftarrow> set_next s hp h;
     set_prev s q n }"

definition queue_add :: "qheap \<Rightarrow> addr \<Rightarrow> addr \<Rightarrow> qheap option" where
  "queue_add s h n = do {
     hp \<leftarrow> get_prev s h;
     nn \<leftarrow> get_next s n;
     s \<leftarrow> set_next s hp nn;
     nn \<leftarrow> get_next s n;
     hp \<leftarrow> get_prev s h;
     s \<leftarrow> set_prev s nn hp;
     np \<leftarrow> get_prev s n;
     s \<leftarrow> set_prev s h np;
     hp \<leftarrow> get_prev s h;
     set_next s hp h }"

section \<open>queue.c\<close>

partial_function (option) queue_middle_loop ::
    "qheap \<Rightarrow> addr \<Rightarrow> addr \<Rightarrow> addr \<Rightarrow> addr option" where
  "queue_middle_loop s queue middle nxt = do {
     middle \<leftarrow> get_next s middle;
     nxt \<leftarrow> get_next s nxt;
     lst \<leftarrow> queue_last s queue;
     if nxt = lst then Some middle
     else do {
       nxt \<leftarrow> get_next s nxt;
       lst \<leftarrow> queue_last s queue;
       if nxt = lst then Some middle
       else queue_middle_loop s queue middle nxt } }"

definition queue_middle :: "qheap \<Rightarrow> addr \<Rightarrow> addr option" where
  "queue_middle s queue = do {
     middle \<leftarrow> queue_head s queue;
     lst \<leftarrow> queue_last s queue;
     if middle = lst then Some middle
     else do {
       nxt \<leftarrow> queue_head s queue;
       queue_middle_loop s queue middle nxt } }"

text \<open>
  The comparison function only reads the elements that embed the nodes, so it is a pure
  function of the two node addresses. \<open>queue_sort_back\<close> is the inner \<open>do .. while\<close>.
\<close>

partial_function (option) queue_sort_back ::
    "qheap \<Rightarrow> addr \<Rightarrow> (addr \<Rightarrow> addr \<Rightarrow> int) \<Rightarrow> addr \<Rightarrow> addr \<Rightarrow> addr option" where
  "queue_sort_back s queue cmp prev q =
     (if cmp prev q \<le> 0 then Some prev
      else do {
        prev \<leftarrow> get_prev s prev;
        if prev \<noteq> queue then queue_sort_back s queue cmp prev q else Some prev })"

partial_function (option) queue_sort_loop ::
    "qheap \<Rightarrow> addr \<Rightarrow> (addr \<Rightarrow> addr \<Rightarrow> int) \<Rightarrow> addr \<Rightarrow> qheap option" where
  "queue_sort_loop s queue cmp q =
     (if q = queue then Some s
      else do {
        prev \<leftarrow> get_prev s q;
        nxt \<leftarrow> get_next s q;
        s \<leftarrow> queue_remove s q;
        prev \<leftarrow> queue_sort_back s queue cmp prev q;
        s \<leftarrow> queue_insert_head s prev q;
        queue_sort_loop s queue cmp nxt })"

definition queue_sort :: "qheap \<Rightarrow> addr \<Rightarrow> (addr \<Rightarrow> addr \<Rightarrow> int) \<Rightarrow> qheap option" where
  "queue_sort s queue cmp = do {
     q \<leftarrow> queue_head s queue;
     lst \<leftarrow> queue_last s queue;
     if q = lst then Some s
     else do {
       q \<leftarrow> get_next s q;
       queue_sort_loop s queue cmp q } }"

section \<open>Abstraction: a ring and the list of its nodes\<close>

text \<open>\<open>links n p ys\<close>: consecutive nodes of \<open>ys\<close> point at each other, both ways.\<close>

fun links :: "(addr \<Rightarrow> addr) \<Rightarrow> (addr \<Rightarrow> addr) \<Rightarrow> addr list \<Rightarrow> bool" where
  "links n p (a # b # ys) \<longleftrightarrow> n a = b \<and> p b = a \<and> links n p (b # ys)"
| "links n p _ \<longleftrightarrow> True"

definition queue_list :: "qheap \<Rightarrow> addr \<Rightarrow> addr list \<Rightarrow> bool" where
  "queue_list s h xs \<longleftrightarrow> links (q_next s) (q_prev s) (h # xs @ [h])
     \<and> distinct (h # xs) \<and> NULL \<notin> set (h # xs)"

lemma links_Cons: "links n p (a # ys) \<longleftrightarrow>
    (ys \<noteq> [] \<longrightarrow> n a = hd ys \<and> p (hd ys) = a) \<and> links n p ys"
  by (cases ys) auto

lemma links_append: "links n p (xs @ a # ys) \<longleftrightarrow> links n p (xs @ [a]) \<and> links n p (a # ys)"
proof (induction xs)
  case (Cons b xs)
  then show ?case by (cases xs) (auto simp: links_Cons)
qed simp

lemma links_snoc: "xs \<noteq> [] \<Longrightarrow>
    links n p (xs @ [a]) \<longleftrightarrow> links n p xs \<and> n (last xs) = a \<and> p a = last xs"
  by (induction n p xs rule: links.induct) auto

lemma links_next_upd [simp]:
  "a \<notin> set (butlast ys) \<Longrightarrow> links (n(a := v)) p ys = links n p ys"
  by (induction n p ys rule: links.induct) auto

lemma links_prev_upd [simp]:
  "a \<notin> set (tl ys) \<Longrightarrow> links n (p(a := v)) ys = links n p ys"
  by (induction n p ys rule: links.induct) auto

lemma links_app: "links n p (xs @ ys) \<longleftrightarrow> links n p xs \<and> links n p ys
    \<and> (xs \<noteq> [] \<and> ys \<noteq> [] \<longrightarrow> n (last xs) = hd ys \<and> p (hd ys) = last xs)"
  by (induction xs) (auto simp: links_Cons)

lemma links_upd_outside [simp]:
  "a \<notin> set ys \<Longrightarrow> links (n(a := v)) p ys = links n p ys"
  "a \<notin> set ys \<Longrightarrow> links n (p(a := v)) ys = links n p ys"
  by (induction n p ys rule: links.induct) auto

lemma links_cong:
  "links n p ys \<Longrightarrow> \<forall>a \<in> set ys. n' a = n a \<and> p' a = p a \<Longrightarrow> links n' p' ys"
  by (induction n p ys rule: links.induct) auto

lemma links_close:
  assumes "links n p zs" and "distinct zs" and "zs \<noteq> []"
  shows "links (n(last zs := hd zs)) (p(hd zs := last zs)) (zs @ [hd zs])"
proof -
  have "hd zs \<notin> set (tl zs)" using assms by (cases zs) auto
  with assms show ?thesis by (simp add: links_snoc last_notin_butlast)
qed

text \<open>Nodes outside a set keep both their pointers: the frame of every queue operation.\<close>

definition same_outside :: "addr set \<Rightarrow> qheap \<Rightarrow> qheap \<Rightarrow> bool" where
  "same_outside A s s' \<longleftrightarrow>
     (\<forall>p. p \<notin> A \<longrightarrow> q_prev s' p = q_prev s p \<and> q_next s' p = q_next s p)"

lemma same_outside_refl [simp]: "same_outside A s s"
  by (simp add: same_outside_def)

lemma same_outside_trans: "same_outside A s t \<Longrightarrow> same_outside B t u \<Longrightarrow> same_outside (A \<union> B) s u"
  by (simp add: same_outside_def)

lemma same_outside_mono: "same_outside A s t \<Longrightarrow> A \<subseteq> B \<Longrightarrow> same_outside B s t"
  by (auto simp: same_outside_def)

lemma links_frame: "same_outside A s s' \<Longrightarrow> set ys \<inter> A = {} \<Longrightarrow> links (q_next s') (q_prev s') ys = links (q_next s) (q_prev s) ys"
  by (induction ys rule: induct_list012) (auto simp: same_outside_def)

lemma queue_list_frame:
  "same_outside A s s' \<Longrightarrow> set (h # xs) \<inter> A = {} \<Longrightarrow> queue_list s' h xs = queue_list s h xs"
  unfolding queue_list_def by (subst links_frame [of A s s']) auto

text \<open>The ring can be read from any of its nodes.\<close>

lemma queue_list_rotate: "queue_list s h (as @ p # bs) \<longleftrightarrow> queue_list s p (bs @ h # as)"
  using links_append [of _ _ "h # as" p "bs @ [h]"] links_append [of _ _ "p # bs" h "as @ [p]"]
  by (auto simp: queue_list_def)

lemma queue_list_ends:
  assumes "queue_list s h xs"
  shows "h \<noteq> NULL" and "q_next s h = hd (xs @ [h])" and "q_prev s h = last (h # xs)"
  using assms links_snoc [of "h # xs" "q_next s" "q_prev s" h] by (auto simp: queue_list_def links_Cons)

lemma links_nth:
  "links n p ys \<Longrightarrow> Suc k < length ys \<Longrightarrow> n (ys ! k) = ys ! Suc k \<and> p (ys ! Suc k) = ys ! k"
proof (induction ys arbitrary: k)
  case (Cons y ys)
  then show ?case by (cases k; cases ys) auto
qed simp

lemma queue_list_nth:
  assumes "queue_list s h xs" and "Suc k < length xs"
  shows "q_next s (xs ! k) = xs ! Suc k" and "q_prev s (xs ! Suc k) = xs ! k"
  using assms links_nth [of _ _ "h # xs @ [h]" "Suc k"]
  by (auto simp: queue_list_def nth_append)

lemma queue_list_mid:
  assumes "queue_list s h (as @ p # bs)"
  shows "p \<noteq> NULL" and "q_next s p = hd (bs @ [h])" and "q_prev s p = last (h # as)"
  using queue_list_ends [of s p "bs @ h # as"] assms
  by (auto simp: queue_list_rotate [of s h as p bs] hd_append)

section \<open>The macros splice rings\<close>

lemma queue_init_ring: "q \<noteq> NULL \<Longrightarrow>
    \<exists>s'. queue_init s q = Some s' \<and> queue_list s' q [] \<and> same_outside {q} s s'"
  by (auto simp: queue_init_def q_access queue_list_def same_outside_def)

lemma queue_insert_head_ring:
  assumes q: "queue_list s h xs" and x: "x \<notin> set (h # xs)" "x \<noteq> NULL"
  shows "\<exists>s'. queue_insert_head s h x = Some s' \<and> queue_list s' h (x # xs)
    \<and> same_outside (set (h # x # xs)) s s'"
proof -
  obtain y ys where ys: "xs @ [h] = y # ys" by (cases "xs @ [h]") auto
  then have b: "butlast (y # ys) = xs" by (metis butlast_snoc)
  from ys q have y: "y \<noteq> NULL" "y \<notin> set ys" "y \<in> set (h # xs)"
    by (cases xs; auto simp: queue_list_def)+
  from q ys have l: "links (q_next s) (q_prev s) (h # y # ys)" by (simp add: queue_list_def)
  from q x ys y(3) have "x \<notin> set (y # ys)" by (metis Un_iff insert_iff list.simps(15) set_append empty_iff empty_set)
  with q x ys b y l show ?thesis
    by (auto simp: queue_insert_head_def q_access queue_list_def same_outside_def)
qed

lemma queue_insert_after_ring:
  assumes "queue_list s h (as @ bs)" and "x \<notin> set (h # as @ bs)" and "x \<noteq> NULL"
  shows "\<exists>s'. queue_insert_head s (last (h # as)) x = Some s' \<and> queue_list s' h (as @ x # bs)
    \<and> same_outside (set (h # x # as @ bs)) s s'"
proof (cases as rule: rev_cases)
  case Nil
  with queue_insert_head_ring [of s h bs x] assms show ?thesis by simp
next
  case (snoc as' p)
  with assms have "queue_list s p (bs @ h # as')" by (simp add: queue_list_rotate)
  then obtain s' where "queue_insert_head s p x = Some s'" "queue_list s' p ((x # bs) @ h # as')"
      "same_outside (set (p # x # bs @ h # as')) s s'"
    using queue_insert_head_ring [of s p "bs @ h # as'" x] assms snoc by auto
  with snoc show ?thesis
    by (auto simp: queue_list_rotate [of s' h as' p "x # bs"] elim: same_outside_mono)
qed

lemma queue_insert_tail_eq:
  assumes "queue_list s h xs" and "x \<notin> set (h # xs)" and "x \<noteq> NULL"
  shows "queue_insert_tail s h x = queue_insert_head s (last (h # xs)) x"
  using assms queue_list_ends [OF assms(1)] queue_list_mid [of s h "butlast xs" "last xs" "[]"]
  by (cases xs rule: rev_cases)
    (auto simp: queue_insert_tail_def queue_insert_head_def q_access fun_upd_twist)

lemma queue_insert_tail_ring:
  assumes "queue_list s h xs" and "x \<notin> set (h # xs)" and "x \<noteq> NULL"
  shows "\<exists>s'. queue_insert_tail s h x = Some s' \<and> queue_list s' h (xs @ [x])
    \<and> same_outside (set (h # x # xs)) s s'"
  using queue_insert_after_ring [of s h xs "[]" x] queue_insert_tail_eq [OF assms] assms by simp

lemma queue_remove_self_ring:
  assumes q: "queue_list s x (y # ys)"
  shows "\<exists>s'. queue_remove s x = Some s' \<and> queue_list s' y ys
    \<and> same_outside (set (y # ys)) s s'"
proof -
  define z where "z = last (y # ys)"
  note e = queue_list_ends [OF q]
  from q have l: "links (q_next s) (q_prev s) ((y # ys) @ [x])" by (simp add: queue_list_def)
  then have m: "links (q_next s) (q_prev s) (y # ys)" by (subst (asm) links_snoc) auto
  have pz: "q_prev s x = z" using e by (simp add: z_def)
  have "z \<in> set (y # ys)" by (simp add: z_def)
  moreover from q have "z \<notin> set (butlast (y # ys))"
    using last_notin_butlast [of "y # ys"] by (auto simp: z_def queue_list_def)
  moreover have "y \<notin> set ys" "NULL \<notin> set (y # ys)" "x \<notin> set (y # ys)"
    using q by (auto simp: queue_list_def)
  moreover have r: "queue_remove s x = Some (s\<lparr>q_prev := (q_prev s)(y := z), q_next := (q_next s)(z := y)\<rparr>)"
  proof -
    have "z \<noteq> NULL" using \<open>z \<in> set (y # ys)\<close> calculation(4) by metis
    then show ?thesis using e(1,2) pz calculation(4,5) by (auto simp: queue_remove_def q_access)
  qed
  moreover have "links ((q_next s)(z := y)) ((q_prev s)(y := z)) ((y # ys) @ [y])"
    using m calculation(2,3) by (subst links_snoc) (simp_all add: z_def)
  moreover have "distinct (y # ys)" using q by (simp add: queue_list_def)
  ultimately show ?thesis by (auto simp: queue_list_def same_outside_def)
qed

lemma queue_remove_ring:
  assumes "queue_list s h (as @ x # bs)"
  shows "\<exists>s'. queue_remove s x = Some s' \<and> queue_list s' h (as @ bs)
    \<and> same_outside (set (h # as @ bs)) s s'"
proof -
  from assms have "queue_list s x (bs @ h # as)" by (simp add: queue_list_rotate)
  then show ?thesis
  proof (cases bs)
    case Nil
    with \<open>queue_list s x (bs @ h # as)\<close> queue_remove_self_ring [of s x h as] show ?thesis by simp
  next
    case (Cons b bs')
    with \<open>queue_list s x (bs @ h # as)\<close> queue_remove_self_ring [of s x b "bs' @ h # as"]
    show ?thesis by (auto simp: queue_list_rotate [of _ h as b bs'] elim: same_outside_mono)
  qed
qed

section \<open>Splitting, joining\<close>

lemma queue_split_ring:
  assumes q: "queue_list s h (as @ x # bs)" and n: "n \<notin> set (h # as @ x # bs)" "n \<noteq> NULL"
  shows "\<exists>s'. queue_split s h x n = Some s' \<and> queue_list s' h as \<and> queue_list s' n (x # bs)
    \<and> same_outside (set (h # n # as @ x # bs)) s s'"
proof -
  define a where "a = last (h # as)"
  define z where "z = last (x # bs)"
  note mid = queue_list_mid [OF q] and ends = queue_list_ends [OF q]
  have pa: "q_prev s x = a" and pz: "q_prev s h = z"
    using mid ends by (auto simp: a_def z_def)
  have mem: "a \<in> set (h # as)" "z \<in> set (x # bs)" by (simp_all add: a_def z_def)
  have d: "distinct (h # as)" "distinct (x # bs)" "set (h # as) \<inter> set (x # bs) = {}"
      "NULL \<notin> set (h # as)" "NULL \<notin> set (x # bs)"
    using q by (auto simp: queue_list_def)
  then have ne: "a \<noteq> NULL" "z \<noteq> NULL" "x \<noteq> a" "h \<noteq> z" "x \<noteq> h" "a \<noteq> z" "n \<noteq> a" "n \<noteq> z" "n \<noteq> x" "n \<noteq> h"
    using mem n by auto
  have "links (q_next s) (q_prev s) ((h # as) @ x # bs @ [h])" using q by (simp add: queue_list_def)
  then have l: "links (q_next s) (q_prev s) (h # as)" "links (q_next s) (q_prev s) (x # bs)"
    unfolding links_append [of _ _ "h # as" x "bs @ [h]"]
    using links_snoc [of "h # as" _ _ x] links_snoc [of "x # bs" _ _ h] by auto
  let ?s = "s\<lparr>q_prev := (q_prev s)(n := z, h := a, x := n), q_next := (q_next s)(z := n, n := x, a := h)\<rparr>"
  have run: "queue_split s h x n = Some ?s"
    using ne mid(1) ends(1) n pa pz
    by (simp add: queue_split_def q_access fun_upd_twist)
  have r1: "links (q_next ?s) (q_prev ?s) ((h # as) @ [h])"
  proof -
    have "links ((q_next s)(a := h)) ((q_prev s)(h := a)) ((h # as) @ [h])"
      using links_close [OF l(1) d(1)] by (simp add: a_def)
    then show ?thesis
    proof (rule links_cong, intro ballI)
      fix v assume "v \<in> set ((h # as) @ [h])"
      then have "v \<in> set (h # as)" by auto
      then have "v \<noteq> n" "v \<noteq> z" "v \<noteq> x" using n d(3) mem(2) by auto
      then show "q_next ?s v = ((q_next s)(a := h)) v \<and> q_prev ?s v = ((q_prev s)(h := a)) v"
        by simp
    qed
  qed
  have r2: "links (q_next ?s) (q_prev ?s) ((n # x # bs) @ [n])"
  proof -
    have "links (q_next s) (q_prev s) [n]" by simp
    with l(2) have "links ((q_next s)(n := x)) ((q_prev s)(x := n)) (n # x # bs)"
      using d(2) n by (simp add: links_Cons [of _ _ n])
    from links_close [OF this] have
      "links ((q_next s)(n := x, z := n)) ((q_prev s)(x := n, n := z)) ((n # x # bs) @ [n])"
      using d(2) n by (simp add: z_def)
    then show ?thesis
    proof (rule links_cong, intro ballI)
      fix v assume "v \<in> set ((n # x # bs) @ [n])"
      then have "v = n \<or> v \<in> set (x # bs)" by auto
      then have "v \<noteq> a" "v \<noteq> h" using n d(3) mem(1) by auto
      then show "q_next ?s v = ((q_next s)(n := x, z := n)) v
          \<and> q_prev ?s v = ((q_prev s)(x := n, n := z)) v"
        using ne by simp
    qed
  qed
  from r1 r2 run d n mem show ?thesis by (auto simp: queue_list_def same_outside_def)
qed

text \<open>
  Joining leaves the head \<open>n\<close> of the second queue dangling: only the first ring is a queue
  afterwards.
\<close>

lemma queue_add_ring:
  assumes q1: "queue_list s h xs" and q2: "queue_list s n ys"
    and d: "set (h # xs) \<inter> set (n # ys) = {}"
  shows "\<exists>s'. queue_add s h n = Some s' \<and> queue_list s' h (xs @ ys)
    \<and> same_outside (set (h # xs @ n # ys)) s s'"
proof (cases ys rule: rev_cases)
  case Nil
  define a where "a = last (h # xs)"
  have mem: "a \<in> set (h # xs)" by (simp add: a_def)
  note e1 = queue_list_ends [OF q1] and e2 = queue_list_ends [OF q2]
  have e: "q_prev s h = a" "q_next s n = n" "q_prev s n = n" using e1 e2 Nil by (auto simp: a_def)
  from q1 mem have nz: "a \<noteq> NULL" by (metis queue_list_def)
  have "a \<noteq> n" "h \<noteq> n" using d mem by auto
  have "q_next s a = h"
    using q1 links_snoc [of "h # xs" _ _ h] by (auto simp: queue_list_def a_def)
  have "queue_add s h n = Some (s\<lparr>q_prev := (q_prev s)(n := a, h := a), q_next := (q_next s)(a := h)\<rparr>)"
    using nz e1(1) e2(1) e \<open>a \<noteq> n\<close> \<open>h \<noteq> n\<close> by (auto simp: queue_add_def q_access)
  moreover have "(q_prev s)(n := a, h := a) = (q_prev s)(n := a)" and "(q_next s)(a := h) = q_next s"
    using \<open>q_next s a = h\<close> e(1) \<open>h \<noteq> n\<close> by (auto simp: fun_eq_iff)
  moreover have "queue_list (s\<lparr>q_prev := (q_prev s)(n := a)\<rparr>) h xs"
    using q1 d by (auto simp: queue_list_def)
  ultimately show ?thesis using Nil by (auto simp: same_outside_def)
next
  case (snoc ys' z)
  define a where "a = last (h # xs)"
  obtain y ys'' where ys: "ys = y # ys''" using snoc by (metis list.exhaust snoc_eq_iff_butlast)
  have mem: "a \<in> set (h # xs)" "y \<in> set ys" "z \<in> set ys"
    unfolding a_def by (simp, simp add: ys, simp add: snoc)
  note e1 = queue_list_ends [OF q1] and e2 = queue_list_ends [OF q2]
  have "q_next s n = hd (ys @ [n])" "q_prev s n = last (n # ys)" using e2 by simp_all
  moreover have "hd (ys @ [n]) = y" "last (n # ys) = z" by (simp add: ys, simp add: snoc)
  ultimately have e: "q_prev s h = a" "q_next s n = y" "q_prev s n = z"
    using e1 by (simp_all add: a_def)
  have dd: "distinct (h # xs)" "distinct (n # ys)" "NULL \<notin> set (h # xs)" "NULL \<notin> set (n # ys)"
    using q1 q2 by (auto simp: queue_list_def)
  then have ne: "a \<noteq> NULL" "y \<noteq> NULL" "z \<noteq> NULL" "a \<noteq> z" "a \<noteq> n" "z \<noteq> n" "y \<noteq> n"
      "y \<noteq> h" "z \<noteq> h"
    using mem d by auto
  let ?s = "s\<lparr>q_prev := (q_prev s)(y := a, h := z), q_next := (q_next s)(a := y, z := h)\<rparr>"
  have run: "queue_add s h n = Some ?s"
    using ne e1(1) e2(1) e by (auto simp: queue_add_def q_access)
  have l: "links (q_next s) (q_prev s) (h # xs)" "links (q_next s) (q_prev s) ys"
    using q1 q2 links_app [of _ _ "h # xs" "[h]"] links_app [of _ _ "[n]" "ys @ [n]"]
      links_app [of _ _ ys "[n]"] by (auto simp: queue_list_def)
  have "links ((q_next s)(a := y)) ((q_prev s)(y := a)) ((h # xs) @ ys)"
  proof -
    have "a \<notin> set ys" "y \<notin> set (h # xs)" "a \<notin> set (butlast (h # xs))" "y \<notin> set (tl ys)"
      using mem d dd ys last_notin_butlast [OF dd(1)] by (auto simp: a_def)
    moreover have "last (h # xs) = a" "hd ys = y" by (simp_all add: a_def ys)
    ultimately show ?thesis
      unfolding links_app using l by (auto simp del: last.simps butlast.simps set_simps)
  qed
  then have "links (q_next ?s) (q_prev ?s) (((h # xs) @ ys) @ [h])"
  proof -
    have "last ((h # xs) @ ys) = z" by (simp add: snoc)
    moreover have "distinct ((h # xs) @ ys)" using dd d by auto
    moreover from \<open>distinct ((h # xs) @ ys)\<close> show ?thesis
      using links_close [OF \<open>links _ _ ((h # xs) @ ys)\<close>] calculation by simp
  qed
  then show ?thesis using run dd d mem by (auto simp: queue_list_def same_outside_def)
qed

section \<open>queue\_middle\<close>

lemma queue_middle_loop_nth:
  assumes q: "queue_list s h xs" and "2 * i + 1 < length xs"
  shows "queue_middle_loop s h (xs ! i) (xs ! (2 * i)) = Some (xs ! (length xs div 2))"
  using assms(2)
proof (induction "length xs - i" arbitrary: i rule: less_induct)
  case less
  let ?n = "length xs"
  have nz: "\<And>k. k < ?n \<Longrightarrow> xs ! k \<noteq> NULL" using q by (auto simp: queue_list_def in_set_conv_nth)
  have lst: "queue_last s h = Some (xs ! (?n - 1))"
    using queue_list_ends [OF q] less.prems
    by (auto simp: queue_last_def get_prev_def last_conv_nth split: if_splits)
  have eq: "\<And>k. k < ?n \<Longrightarrow> xs ! k = xs ! (?n - Suc 0) \<longleftrightarrow> k = ?n - Suc 0"
    using q by (auto simp: queue_list_def nth_eq_iff_index_eq)
  have nx: "\<And>k. Suc k < ?n \<Longrightarrow> get_next s (xs ! k) = Some (xs ! Suc k)"
    using nz queue_list_nth(1) [OF q] by (simp add: get_next_def)
  have "?n = 2 * i + 2 \<or> ?n = 2 * i + 3 \<or> 2 * (i + 1) + 1 < ?n"
    using less.prems by arith
  then show ?case
  proof (elim disjE)
    assume 3: "2 * (i + 1) + 1 < ?n"
    with less.hyps [of "i + 1"]
      have "queue_middle_loop s h (xs ! Suc i) (xs ! Suc (Suc (2 * i))) = Some (xs ! (?n div 2))"
      by simp
    moreover from 3 have "Suc (2 * i) \<noteq> ?n - Suc 0" "Suc (Suc (2 * i)) \<noteq> ?n - Suc 0" by arith+
    ultimately show ?thesis using 3 by (subst queue_middle_loop.simps) (simp add: nx lst eq)
  qed (subst queue_middle_loop.simps, simp add: nx lst eq)+
qed

lemma queue_middle_ring:
  assumes q: "queue_list s h xs"
  shows "queue_middle s h = Some (if xs = [] then h else xs ! (length xs div 2))"
proof -
  note e = queue_list_ends [OF q]
  show ?thesis
  proof (cases "length xs \<le> 1")
    case True
    with e show ?thesis
      by (cases xs) (auto simp: queue_middle_def queue_head_def queue_last_def q_access)
  next
    case False
    then have "xs ! 0 \<noteq> last xs" using q
      by (cases xs) (auto simp: queue_list_def last_conv_nth nth_eq_iff_index_eq)
    with False e queue_middle_loop_nth [OF q, of 0] show ?thesis
      by (cases xs) (auto simp: queue_middle_def queue_head_def queue_last_def q_access)
  qed
qed

section \<open>queue\_sort\<close>

text \<open>
  The list-level insertion sort that the relinking performs: the new element is put behind the
  longest suffix of strictly greater elements.
\<close>

definition insert_back :: "(addr \<Rightarrow> addr \<Rightarrow> int) \<Rightarrow> addr \<Rightarrow> addr list \<Rightarrow> addr list" where
  "insert_back cmp q ps =
     rev (dropWhile (\<lambda>p. 0 < cmp p q) (rev ps)) @ q # rev (takeWhile (\<lambda>p. 0 < cmp p q) (rev ps))"

lemma queue_sort_back_ring:
  assumes "queue_list s h (ps @ rs)" and "ps \<noteq> []"
  shows "queue_sort_back s h cmp (last ps) q
    = Some (last (h # rev (dropWhile (\<lambda>p. 0 < cmp p q) (rev ps))))"
  using assms
proof (induction ps arbitrary: rs rule: rev_induct)
  case (snoc p ps)
  have mid: "get_prev s p = Some (last (h # ps))"
    using queue_list_mid [of s h ps p rs] snoc.prems(1) by (simp add: get_prev_def)
  show ?case
  proof (cases "0 < cmp p q \<and> ps \<noteq> []")
    case True
    then have "last ps \<noteq> h" using snoc.prems(1) last_in_set [of ps] by (auto simp: queue_list_def)
    with True snoc mid show ?thesis by (subst queue_sort_back.simps) simp
  next
    case False
    with mid show ?thesis by (subst queue_sort_back.simps) auto
  qed
qed simp

lemma queue_sort_loop_ring:
  assumes "queue_list s h (ps @ rs)" and "ps \<noteq> []"
  shows "\<exists>s'. queue_sort_loop s h cmp (hd (rs @ [h])) = Some s'
    \<and> queue_list s' h (foldl (\<lambda>ps q. insert_back cmp q ps) ps rs)
    \<and> same_outside (set (h # ps @ rs)) s s'"
  using assms
proof (induction rs arbitrary: s ps)
  case Nil
  then show ?case by (subst queue_sort_loop.simps) simp
next
  case (Cons q rs)
  define keep where "keep = rev (dropWhile (\<lambda>p. 0 < cmp p q) (rev ps))"
  define skip where "skip = rev (takeWhile (\<lambda>p. 0 < cmp p q) (rev ps))"
  have ps: "ps = keep @ skip"
    unfolding keep_def skip_def by (metis rev_append rev_rev_ident takeWhile_dropWhile_id)
  have ib: "insert_back cmp q ps = keep @ q # skip"
    by (simp add: insert_back_def keep_def skip_def)
  note mid = queue_list_mid [OF Cons.prems(1)]
  obtain s1 where s1: "queue_remove s q = Some s1" "queue_list s1 h (ps @ rs)"
      "same_outside (set (h # ps @ rs)) s s1"
    using queue_remove_ring [OF Cons.prems(1)] by auto
  have q: "q \<notin> set (h # ps @ rs)" "q \<noteq> NULL" "q \<noteq> h"
    using Cons.prems(1) by (auto simp: queue_list_def)
  from s1(2) ps have "queue_list s1 h (keep @ (skip @ rs))" by simp
  then obtain s2 where s2: "queue_insert_head s1 (last (h # keep)) q = Some s2"
      "queue_list s2 h (keep @ q # skip @ rs)" "same_outside (set (h # q # ps @ rs)) s1 s2"
    using queue_insert_after_ring [of s1 h keep "skip @ rs" q] q ps by auto
  then have "queue_list s2 h (insert_back cmp q ps @ rs)" by (simp add: ib)
  from Cons.IH [OF this] obtain s3 where s3: "queue_sort_loop s2 h cmp (hd (rs @ [h])) = Some s3"
      "queue_list s3 h (foldl (\<lambda>ps q. insert_back cmp q ps) (insert_back cmp q ps) rs)"
      "same_outside (set (h # insert_back cmp q ps @ rs)) s2 s3"
    by (auto simp: ib)
  have "set (insert_back cmp q ps) = insert q (set ps)"
    unfolding ib using ps by auto
  then have "same_outside (set (h # ps @ q # rs)) s s3"
    using same_outside_trans [OF same_outside_trans [OF s1(3) s2(3)] s3(3)]
    by (auto elim!: same_outside_mono)
  moreover have "queue_sort_loop s h cmp q = Some s3"
    using mid q s1 s2 s3 Cons.prems(2) queue_sort_back_ring [OF s1(2) Cons.prems(2), of cmp q]
    by (subst queue_sort_loop.simps) (auto simp: get_prev_def get_next_def keep_def)
  ultimately show ?case using s3 by auto
qed

lemma queue_sort_ring:
  assumes q: "queue_list s h xs"
  shows "\<exists>s'. queue_sort s h cmp = Some s'
    \<and> queue_list s' h (foldl (\<lambda>ps q. insert_back cmp q ps) [] xs)
    \<and> same_outside (set (h # xs)) s s'"
proof -
  note e = queue_list_ends [OF q]
  show ?thesis
  proof (cases "length xs \<le> 1")
    case True
    with e q show ?thesis
      by (cases xs) (auto simp: queue_sort_def queue_head_def queue_last_def q_access insert_back_def)
  next
    case False
    then obtain x y ys where xs: "xs = x # y # ys" by (cases xs; cases "tl xs") auto
    then have "x \<noteq> last xs" using q by (auto simp: queue_list_def)
    moreover have "get_next s x = Some y"
      using queue_list_mid [of s h "[]" x "y # ys"] q xs by (simp add: get_next_def)
    ultimately show ?thesis
      using e xs queue_sort_loop_ring [of s h "[x]" "y # ys" cmp] q
      by (auto simp: queue_sort_def queue_head_def queue_last_def q_access insert_back_def
          split: if_splits)
  qed
qed

text \<open>When the comparison orders by a key, the result is the stable sort by that key.\<close>

lemma insert_back_split:
  fixes key :: "addr \<Rightarrow> 'k :: linorder"
  assumes "\<And>p. p \<in> set ps \<Longrightarrow> cmp p q \<le> 0 \<longleftrightarrow> key p \<le> key q" and "sorted (map key ps)"
  shows "\<exists>keep skip. ps = keep @ skip \<and> insert_back cmp q ps = keep @ q # skip
    \<and> (\<forall>p \<in> set keep. key p \<le> key q) \<and> (\<forall>p \<in> set skip. key q < key p)"
  using assms
proof (induction ps rule: rev_induct)
  case Nil
  then show ?case by (simp add: insert_back_def)
next
  case (snoc p ps)
  show ?case
  proof (cases "0 < cmp p q")
    case True
    then have "insert_back cmp q (ps @ [p]) = insert_back cmp q ps @ [p]"
      by (simp add: insert_back_def)
    moreover have "key q < key p" using True snoc.prems(1) [of p] by auto
    moreover have "\<exists>keep skip. ps = keep @ skip \<and> insert_back cmp q ps = keep @ q # skip
        \<and> (\<forall>p \<in> set keep. key p \<le> key q) \<and> (\<forall>p \<in> set skip. key q < key p)"
      using snoc by (simp add: sorted_append)
    ultimately show ?thesis by fastforce
  next
    case False
    then have "insert_back cmp q (ps @ [p]) = (ps @ [p]) @ q # []" by (simp add: insert_back_def)
    moreover have "key p \<le> key q" using False snoc.prems(1) [of p] by simp
    then have "\<forall>p' \<in> set (ps @ [p]). key p' \<le> key q"
      using snoc.prems(2) by (auto simp: sorted_append)
    ultimately show ?thesis by (metis append_Nil2 empty_iff empty_set)
  qed
qed

lemma insertion_sort_key:
  fixes key :: "addr \<Rightarrow> 'k :: linorder"
  assumes "\<And>p q. p \<in> set xs \<Longrightarrow> q \<in> set xs \<Longrightarrow> cmp p q \<le> 0 \<longleftrightarrow> key p \<le> key q"
  shows "foldl (\<lambda>ps q. insert_back cmp q ps) [] xs = sort_key key xs"
proof -
  let ?r = "foldl (\<lambda>ps q. insert_back cmp q ps) []"
  have "mset (?r xs) = mset xs \<and> sorted (map key (?r xs))
      \<and> (\<forall>k. filter (\<lambda>x. k = key x) (?r xs) = filter (\<lambda>x. k = key x) xs)"
    using assms
  proof (induction xs rule: rev_induct)
    case (snoc q xs)
    then have IH: "mset (?r xs) = mset xs" "sorted (map key (?r xs))"
        "\<And>k. filter (\<lambda>x. k = key x) (?r xs) = filter (\<lambda>x. k = key x) xs"
      by simp_all
    then have "set (?r xs) = set xs" by (metis set_mset_mset)
    then obtain keep skip where ks: "?r xs = keep @ skip" "insert_back cmp q (?r xs) = keep @ q # skip"
        "\<forall>p \<in> set keep. key p \<le> key q" "\<forall>p \<in> set skip. key q < key p"
      using insert_back_split [of "?r xs" cmp q key] snoc.prems IH(2) by auto
    have "filter (\<lambda>x. k = key x) (insert_back cmp q (?r xs)) = filter (\<lambda>x. k = key x) (xs @ [q])" for k
    proof -
      have "filter (\<lambda>x. key q = key x) skip = []" using ks(4) by (auto simp: filter_empty_conv)
      then show ?thesis using IH(3) [of k] ks(1,2) by (cases "k = key q") auto
    qed
    moreover have "mset (insert_back cmp q (?r xs)) = mset (xs @ [q])"
      using IH(1) ks by simp
    moreover have "sorted (map key (insert_back cmp q (?r xs)))"
      using IH(2) ks by (auto simp: sorted_append intro: less_imp_le)
    ultimately show ?case by simp
  qed simp
  then show ?thesis by (intro properties_for_sort_key [symmetric]) auto
qed

section \<open>Properties\<close>

text \<open>A ring of three nodes, for the instances below.\<close>

definition ring3 :: qheap where
  "ring3 = \<lparr>q_prev = (\<lambda>_. 0)(8 := 40, 16 := 8, 24 := 16, 40 := 24),
            q_next = (\<lambda>_. 0)(8 := 16, 16 := 24, 24 := 40, 40 := 8)\<rparr>"

lemma ring3_list: "queue_list ring3 40 [8, 16, 24]"
  by (simp add: queue_list_def ring3_def)

text \<open>
  C39: the splicing macros of queue.h do to the ring what they name: on a queue whose list is
  \<open>as @ x # bs\<close>, inserting a fresh node at the head or at the tail and removing \<open>x\<close> all run
  without a bad dereference and give the queue with exactly the expected list, linked in both
  directions; nodes outside the queue are untouched.
\<close>
theorem queue_splicing:
  assumes "queue_list s h (as @ x # bs)" and "y \<notin> set (h # as @ x # bs)" and "y \<noteq> NULL"
  shows "(\<exists>s'. queue_insert_head s h y = Some s' \<and> queue_list s' h (y # as @ x # bs)
            \<and> same_outside (set (h # y # as @ x # bs)) s s')
    \<and> (\<exists>s'. queue_insert_tail s h y = Some s' \<and> queue_list s' h (as @ x # bs @ [y])
            \<and> same_outside (set (h # y # as @ x # bs)) s s')
    \<and> (\<exists>s'. queue_remove s x = Some s' \<and> queue_list s' h (as @ bs)
            \<and> same_outside (set (h # as @ bs)) s s')"
  using queue_insert_head_ring [OF assms] queue_insert_tail_ring [OF assms]
    queue_remove_ring [OF assms(1)] by simp

theorem queue_splicing_witness:
  "\<exists>s'. queue_insert_tail ring3 40 48 = Some s' \<and> queue_list s' 40 [8, 16, 24, 48]"
  using queue_splicing [of ring3 40 "[8]" 16 "[24]" 48] ring3_list by auto

text \<open>
  \<open>queue_split\<close> cuts a queue before the node \<open>x\<close> into two well-formed queues, and \<open>queue_add\<close>
  puts the second back behind the first: the round trip restores the original list.
\<close>
theorem queue_split_add_roundtrip:
  assumes "queue_list s h (as @ x # bs)" and "n \<notin> set (h # as @ x # bs)" and "n \<noteq> NULL"
  shows "\<exists>s1 s2. queue_split s h x n = Some s1 \<and> queue_list s1 h as \<and> queue_list s1 n (x # bs)
    \<and> queue_add s1 h n = Some s2 \<and> queue_list s2 h (as @ x # bs)"
proof -
  obtain s1 where s1: "queue_split s h x n = Some s1" "queue_list s1 h as" "queue_list s1 n (x # bs)"
    using queue_split_ring [OF assms] by auto
  moreover have "set (h # as) \<inter> set (n # x # bs) = {}"
    using assms by (auto simp: queue_list_def)
  ultimately show ?thesis using queue_add_ring [OF s1(2,3)] by auto
qed

theorem queue_split_add_roundtrip_witness:
  "\<exists>s1 s2. queue_split ring3 40 16 48 = Some s1 \<and> queue_list s1 48 [16, 24]
    \<and> queue_add s1 40 48 = Some s2 \<and> queue_list s2 40 [8, 16, 24]"
  using queue_split_add_roundtrip [of ring3 40 "[8]" 16 "[24]" 48] ring3_list by auto

text \<open>
  \<open>queue_middle\<close> returns on every queue; the node it returns is the middle element of a queue
  of odd length and the first element of the second half of a queue of even length (the head
  itself when the queue is empty).
\<close>
theorem queue_middle_correct:
  assumes "queue_list s h xs"
  shows "queue_middle s h = Some (if xs = [] then h else xs ! (length xs div 2))"
  using assms by (rule queue_middle_ring)

theorem queue_middle_correct_witness: "queue_middle ring3 40 = Some 16"
  using queue_middle_correct [OF ring3_list] by simp

text \<open>
  C40: \<open>queue_sort\<close> terminates without a bad dereference on every queue and relinks it into the
  stable sort of its elements, whenever the comparison function orders by some key: equal
  elements keep their order, and no node outside the queue is written.
\<close>
theorem queue_sort_stable:
  fixes key :: "addr \<Rightarrow> 'k :: linorder"
  assumes "queue_list s h xs"
    and "\<forall>p \<in> set xs. \<forall>q \<in> set xs. cmp p q \<le> 0 \<longleftrightarrow> key p \<le> key q"
  shows "\<exists>s'. queue_sort s h cmp = Some s' \<and> queue_list s' h (sort_key key xs)
    \<and> same_outside (set (h # xs)) s s'"
  using queue_sort_ring [OF assms(1), of cmp] insertion_sort_key [of xs cmp key] assms(2) by simp

theorem queue_sort_stable_witness:
  "\<exists>s'. queue_sort ring3 40 (\<lambda>p q. int (q mod 16) - int (p mod 16)) = Some s'
    \<and> queue_list s' 40 [8, 24, 16]"
  using queue_sort_stable [OF ring3_list, of "\<lambda>p q. int (q mod 16) - int (p mod 16)" "\<lambda>p. - int (p mod 16)"]
  by auto

end
