(* ===== verification/Rbtree.thy ===== *)
theory Rbtree
  imports Prelude
begin

text \<open>
  The red-black tree of \<^verbatim>\<open>src/rbtree.h\<close> and \<^verbatim>\<open>src/rbtree.c\<close>, with parent
  pointers and one shared sentinel node: the state, the field accesses and every operation, each
  a transcription of the C function. The loops are \<open>partial_function (option)\<close>, so that
  \<open>None\<close> is a \<open>NULL\<close> dereference or a loop that does not end.

  \<open>rbtree\<close> is the \<open>rbtree_t\<close> of the program together with the memory of the nodes; the
  \<open>insert\<close> function pointer is one of the two descent functions of rbtree.c. The \<open>data\<close>
  byte of a node is used by no function and left out.
\<close>

section \<open>State\<close>

datatype rbtree_insert_pt = Rbtree_insert_value | Rbtree_insert_timer_value

record rbtree =
  rb_left :: "addr \<Rightarrow> addr"
  rb_right :: "addr \<Rightarrow> addr"
  rb_parent :: "addr \<Rightarrow> addr"
  rb_key :: "addr \<Rightarrow> u64"
  rb_color :: "addr \<Rightarrow> u8"
  rb_root :: addr
  rb_sentinel :: addr
  rb_insert :: rbtree_insert_pt

definition get_left :: "rbtree \<Rightarrow> addr \<Rightarrow> addr option" where
  "get_left s p = deref p (rb_left s p)"

definition get_right :: "rbtree \<Rightarrow> addr \<Rightarrow> addr option" where
  "get_right s p = deref p (rb_right s p)"

definition get_parent :: "rbtree \<Rightarrow> addr \<Rightarrow> addr option" where
  "get_parent s p = deref p (rb_parent s p)"

definition get_key :: "rbtree \<Rightarrow> addr \<Rightarrow> u64 option" where
  "get_key s p = deref p (rb_key s p)"

definition set_left :: "rbtree \<Rightarrow> addr \<Rightarrow> addr \<Rightarrow> rbtree option" where
  "set_left s p v = deref p (s\<lparr>rb_left := (rb_left s)(p := v)\<rparr>)"

definition set_right :: "rbtree \<Rightarrow> addr \<Rightarrow> addr \<Rightarrow> rbtree option" where
  "set_right s p v = deref p (s\<lparr>rb_right := (rb_right s)(p := v)\<rparr>)"

definition set_parent :: "rbtree \<Rightarrow> addr \<Rightarrow> addr \<Rightarrow> rbtree option" where
  "set_parent s p v = deref p (s\<lparr>rb_parent := (rb_parent s)(p := v)\<rparr>)"

definition set_key :: "rbtree \<Rightarrow> addr \<Rightarrow> u64 \<Rightarrow> rbtree option" where
  "set_key s p v = deref p (s\<lparr>rb_key := (rb_key s)(p := v)\<rparr>)"

definition set_root :: "rbtree \<Rightarrow> addr \<Rightarrow> rbtree" where
  "set_root s p = s\<lparr>rb_root := p\<rparr>"

text \<open>The colour macros: any non-zero byte is red.\<close>

definition rbt_red :: "rbtree \<Rightarrow> addr \<Rightarrow> rbtree option" where
  "rbt_red s p = deref p (s\<lparr>rb_color := (rb_color s)(p := 1)\<rparr>)"

definition rbt_black :: "rbtree \<Rightarrow> addr \<Rightarrow> rbtree option" where
  "rbt_black s p = deref p (s\<lparr>rb_color := (rb_color s)(p := 0)\<rparr>)"

definition rbt_is_red :: "rbtree \<Rightarrow> addr \<Rightarrow> bool option" where
  "rbt_is_red s p = deref p (rb_color s p \<noteq> 0)"

definition rbt_is_black :: "rbtree \<Rightarrow> addr \<Rightarrow> bool option" where
  "rbt_is_black s p = do { r \<leftarrow> rbt_is_red s p; Some (\<not> r) }"

definition rbt_copy_color :: "rbtree \<Rightarrow> addr \<Rightarrow> addr \<Rightarrow> rbtree option" where
  "rbt_copy_color s n1 n2 = do {
     c \<leftarrow> deref n2 (rb_color s n2);
     deref n1 (s\<lparr>rb_color := (rb_color s)(n1 := c)\<rparr>) }"

lemmas rb_access = get_left_def get_right_def get_parent_def get_key_def set_left_def
  set_right_def set_parent_def set_key_def set_root_def rbt_red_def rbt_black_def
  rbt_is_red_def rbt_is_black_def rbt_copy_color_def

definition rbtree_init :: "rbtree \<Rightarrow> addr \<Rightarrow> rbtree_insert_pt \<Rightarrow> rbtree option" where
  "rbtree_init s sentinel i = do {
     s \<leftarrow> rbt_black s sentinel;
     Some (s\<lparr>rb_root := sentinel, rb_sentinel := sentinel, rb_insert := i\<rparr>) }"

partial_function (option) rbtree_min :: "rbtree \<Rightarrow> addr \<Rightarrow> addr \<Rightarrow> addr option" where
  "rbtree_min s node sentinel = do {
     l \<leftarrow> get_left s node;
     if l \<noteq> sentinel then rbtree_min s l sentinel else Some node }"

section \<open>Rotations\<close>

definition rbtree_left_rotate :: "rbtree \<Rightarrow> addr \<Rightarrow> addr \<Rightarrow> rbtree option" where
  "rbtree_left_rotate s sentinel node = do {
     temp \<leftarrow> get_right s node;
     xl \<leftarrow> get_left s temp;
     s \<leftarrow> set_right s node xl;
     xl \<leftarrow> get_left s temp;
     s \<leftarrow> (if xl \<noteq> sentinel then set_parent s xl node else Some s);
     np \<leftarrow> get_parent s node;
     s \<leftarrow> set_parent s temp np;
     s \<leftarrow> (if node = rb_root s then Some (set_root s temp)
          else do {
            np \<leftarrow> get_parent s node;
            npl \<leftarrow> get_left s np;
            if node = npl then set_left s np temp else set_right s np temp });
     s \<leftarrow> set_left s temp node;
     set_parent s node temp }"

definition rbtree_right_rotate :: "rbtree \<Rightarrow> addr \<Rightarrow> addr \<Rightarrow> rbtree option" where
  "rbtree_right_rotate s sentinel node = do {
     temp \<leftarrow> get_left s node;
     xr \<leftarrow> get_right s temp;
     s \<leftarrow> set_left s node xr;
     xr \<leftarrow> get_right s temp;
     s \<leftarrow> (if xr \<noteq> sentinel then set_parent s xr node else Some s);
     np \<leftarrow> get_parent s node;
     s \<leftarrow> set_parent s temp np;
     s \<leftarrow> (if node = rb_root s then Some (set_root s temp)
          else do {
            np \<leftarrow> get_parent s node;
            npr \<leftarrow> get_right s np;
            if node = npr then set_right s np temp else set_left s np temp });
     s \<leftarrow> set_right s temp node;
     set_parent s node temp }"

section \<open>Insertion\<close>

text \<open>
  The two descent functions differ in the comparison only. \<open>p\<close> is the address of the child
  pointer that is followed: it is modelled by the pair of the node \<open>temp\<close> and the side.
\<close>

definition key_less_value :: "u64 \<Rightarrow> u64 \<Rightarrow> bool" where
  "key_less_value a b \<longleftrightarrow> a < b"

text \<open>\<open>(rbtree_key_int_t)(node->key - temp->key) < 0\<close>\<close>

definition key_less_timer :: "u64 \<Rightarrow> u64 \<Rightarrow> bool" where
  "key_less_timer a b \<longleftrightarrow> sint (a - b) < 0"

partial_function (option) rbtree_insert_value :: "rbtree \<Rightarrow> addr \<Rightarrow> addr \<Rightarrow> addr \<Rightarrow> rbtree option" where
  "rbtree_insert_value s temp node sentinel = do {
     nk \<leftarrow> get_key s node;
     tk \<leftarrow> get_key s temp;
     p \<leftarrow> (if key_less_value nk tk then get_left s temp else get_right s temp);
     if p = sentinel
     then do {
       s \<leftarrow> (if key_less_value nk tk then set_left s temp node else set_right s temp node);
       s \<leftarrow> set_parent s node temp;
       s \<leftarrow> set_left s node sentinel;
       s \<leftarrow> set_right s node sentinel;
       rbt_red s node }
     else rbtree_insert_value s p node sentinel }"

partial_function (option) rbtree_insert_timer_value :: "rbtree \<Rightarrow> addr \<Rightarrow> addr \<Rightarrow> addr \<Rightarrow> rbtree option" where
  "rbtree_insert_timer_value s temp node sentinel = do {
     nk \<leftarrow> get_key s node;
     tk \<leftarrow> get_key s temp;
     p \<leftarrow> (if key_less_timer nk tk then get_left s temp else get_right s temp);
     if p = sentinel
     then do {
       s \<leftarrow> (if key_less_timer nk tk then set_left s temp node else set_right s temp node);
       s \<leftarrow> set_parent s node temp;
       s \<leftarrow> set_left s node sentinel;
       s \<leftarrow> set_right s node sentinel;
       rbt_red s node }
     else rbtree_insert_timer_value s p node sentinel }"

definition tree_insert :: "rbtree \<Rightarrow> addr \<Rightarrow> addr \<Rightarrow> addr \<Rightarrow> rbtree option" where
  "tree_insert s root node sentinel = (case rb_insert s of
     Rbtree_insert_value \<Rightarrow> rbtree_insert_value s root node sentinel
   | Rbtree_insert_timer_value \<Rightarrow> rbtree_insert_timer_value s root node sentinel)"

text \<open>The re-balancing loop of \<open>rbtree_insert\<close>.\<close>

partial_function (option) rbtree_insert_fixup :: "rbtree \<Rightarrow> addr \<Rightarrow> addr \<Rightarrow> rbtree option" where
  "rbtree_insert_fixup s sentinel node = do {
     go \<leftarrow> (if node \<noteq> rb_root s then do { np \<leftarrow> get_parent s node; rbt_is_red s np } else Some False);
     if \<not> go then Some s
     else do {
       np \<leftarrow> get_parent s node;
       gp \<leftarrow> get_parent s np;
       gl \<leftarrow> get_left s gp;
       if np = gl
       then do {
         temp \<leftarrow> get_right s gp;
         ured \<leftarrow> rbt_is_red s temp;
         if ured
         then do {
           s \<leftarrow> rbt_black s np;
           s \<leftarrow> rbt_black s temp;
           s \<leftarrow> rbt_red s gp;
           rbtree_insert_fixup s sentinel gp }
         else do {
           npr \<leftarrow> get_right s np;
           (s, node) \<leftarrow> (if node = npr
             then do { s \<leftarrow> rbtree_left_rotate s sentinel np; Some (s, np) }
             else Some (s, node));
           np \<leftarrow> get_parent s node;
           s \<leftarrow> rbt_black s np;
           gp \<leftarrow> get_parent s np;
           s \<leftarrow> rbt_red s gp;
           s \<leftarrow> rbtree_right_rotate s sentinel gp;
           rbtree_insert_fixup s sentinel node } }
       else do {
         temp \<leftarrow> get_left s gp;
         ured \<leftarrow> rbt_is_red s temp;
         if ured
         then do {
           s \<leftarrow> rbt_black s np;
           s \<leftarrow> rbt_black s temp;
           s \<leftarrow> rbt_red s gp;
           rbtree_insert_fixup s sentinel gp }
         else do {
           npl \<leftarrow> get_left s np;
           (s, node) \<leftarrow> (if node = npl
             then do { s \<leftarrow> rbtree_right_rotate s sentinel np; Some (s, np) }
             else Some (s, node));
           np \<leftarrow> get_parent s node;
           s \<leftarrow> rbt_black s np;
           gp \<leftarrow> get_parent s np;
           s \<leftarrow> rbt_red s gp;
           s \<leftarrow> rbtree_left_rotate s sentinel gp;
           rbtree_insert_fixup s sentinel node } } } }"

definition rbtree_insert :: "rbtree \<Rightarrow> addr \<Rightarrow> rbtree option" where
  "rbtree_insert s node = do {
     let sentinel = rb_sentinel s;
     if rb_root s = sentinel
     then do {
       s \<leftarrow> set_parent s node NULL;
       s \<leftarrow> set_left s node sentinel;
       s \<leftarrow> set_right s node sentinel;
       s \<leftarrow> rbt_black s node;
       Some (set_root s node) }
     else do {
       s \<leftarrow> tree_insert s (rb_root s) node sentinel;
       s \<leftarrow> rbtree_insert_fixup s sentinel node;
       rbt_black s (rb_root s) } }"

section \<open>Deletion\<close>

text \<open>The fixup loop of \<open>rbtree_delete\<close>; the result is the final \<open>temp\<close>.\<close>

partial_function (option) rbtree_delete_fixup :: "rbtree \<Rightarrow> addr \<Rightarrow> addr \<Rightarrow> (rbtree \<times> addr) option" where
  "rbtree_delete_fixup s sentinel temp = do {
     go \<leftarrow> (if temp \<noteq> rb_root s then rbt_is_black s temp else Some False);
     if \<not> go then Some (s, temp)
     else do {
       tp \<leftarrow> get_parent s temp;
       tpl \<leftarrow> get_left s tp;
       if temp = tpl
       then do {
         w \<leftarrow> get_right s tp;
         wr \<leftarrow> rbt_is_red s w;
         (s, w) \<leftarrow> (if wr
           then do {
             s \<leftarrow> rbt_black s w;
             s \<leftarrow> rbt_red s tp;
             s \<leftarrow> rbtree_left_rotate s sentinel tp;
             tp \<leftarrow> get_parent s temp;
             w \<leftarrow> get_right s tp;
             Some (s, w) }
           else Some (s, w));
         lb \<leftarrow> do { x \<leftarrow> get_left s w; rbt_is_black s x };
         both \<leftarrow> (if lb then do { x \<leftarrow> get_right s w; rbt_is_black s x } else Some False);
         if both
         then do {
           s \<leftarrow> rbt_red s w;
           tp \<leftarrow> get_parent s temp;
           rbtree_delete_fixup s sentinel tp }
         else do {
           rb \<leftarrow> do { x \<leftarrow> get_right s w; rbt_is_black s x };
           (s, w) \<leftarrow> (if rb
             then do {
               wl \<leftarrow> get_left s w;
               s \<leftarrow> rbt_black s wl;
               s \<leftarrow> rbt_red s w;
               s \<leftarrow> rbtree_right_rotate s sentinel w;
               tp \<leftarrow> get_parent s temp;
               w \<leftarrow> get_right s tp;
               Some (s, w) }
             else Some (s, w));
           tp \<leftarrow> get_parent s temp;
           s \<leftarrow> rbt_copy_color s w tp;
           s \<leftarrow> rbt_black s tp;
           x \<leftarrow> get_right s w;
           s \<leftarrow> rbt_black s x;
           s \<leftarrow> rbtree_left_rotate s sentinel tp;
           rbtree_delete_fixup s sentinel (rb_root s) } }
       else do {
         w \<leftarrow> get_left s tp;
         wr \<leftarrow> rbt_is_red s w;
         (s, w) \<leftarrow> (if wr
           then do {
             s \<leftarrow> rbt_black s w;
             s \<leftarrow> rbt_red s tp;
             s \<leftarrow> rbtree_right_rotate s sentinel tp;
             tp \<leftarrow> get_parent s temp;
             w \<leftarrow> get_left s tp;
             Some (s, w) }
           else Some (s, w));
         lb \<leftarrow> do { x \<leftarrow> get_left s w; rbt_is_black s x };
         both \<leftarrow> (if lb then do { x \<leftarrow> get_right s w; rbt_is_black s x } else Some False);
         if both
         then do {
           s \<leftarrow> rbt_red s w;
           tp \<leftarrow> get_parent s temp;
           rbtree_delete_fixup s sentinel tp }
         else do {
           lb \<leftarrow> do { x \<leftarrow> get_left s w; rbt_is_black s x };
           (s, w) \<leftarrow> (if lb
             then do {
               wr \<leftarrow> get_right s w;
               s \<leftarrow> rbt_black s wr;
               s \<leftarrow> rbt_red s w;
               s \<leftarrow> rbtree_left_rotate s sentinel w;
               tp \<leftarrow> get_parent s temp;
               w \<leftarrow> get_left s tp;
               Some (s, w) }
             else Some (s, w));
           tp \<leftarrow> get_parent s temp;
           s \<leftarrow> rbt_copy_color s w tp;
           s \<leftarrow> rbt_black s tp;
           x \<leftarrow> get_left s w;
           s \<leftarrow> rbt_black s x;
           s \<leftarrow> rbtree_right_rotate s sentinel tp;
           rbtree_delete_fixup s sentinel (rb_root s) } } } }"

text \<open>The \<^verbatim>\<open>DEBUG stuff\<close> that clears the deleted node.\<close>

definition rbtree_clear_node :: "rbtree \<Rightarrow> addr \<Rightarrow> rbtree option" where
  "rbtree_clear_node s node = do {
     s \<leftarrow> set_left s node NULL;
     s \<leftarrow> set_right s node NULL;
     s \<leftarrow> set_parent s node NULL;
     set_key s node 0 }"

text \<open>The choice of \<open>subst\<close>, the node that leaves its place, and of its only child \<open>temp\<close>.\<close>

definition rbtree_delete_choose :: "rbtree \<Rightarrow> addr \<Rightarrow> addr \<Rightarrow> (addr \<times> addr) option" where
  "rbtree_delete_choose s sentinel node = do {
     nl \<leftarrow> get_left s node;
     nr \<leftarrow> get_right s node;
     if nl = sentinel then Some (node, nr)
     else if nr = sentinel then Some (node, nl)
     else do {
       subst \<leftarrow> rbtree_min s nr sentinel;
       sl \<leftarrow> get_left s subst;
       if sl \<noteq> sentinel then Some (subst, sl)
       else do { sr \<leftarrow> get_right s subst; Some (subst, sr) } } }"

text \<open>\<open>subst\<close> takes the place, the children and the colour of \<open>node\<close>.\<close>

definition rbtree_delete_replace :: "rbtree \<Rightarrow> addr \<Rightarrow> addr \<Rightarrow> addr \<Rightarrow> addr \<Rightarrow> rbtree option" where
  "rbtree_delete_replace s sentinel node subst temp = do {
     sp \<leftarrow> get_parent s subst;
     s \<leftarrow> set_parent s temp (if sp = node then subst else sp);
     nl \<leftarrow> get_left s node;
     s \<leftarrow> set_left s subst nl;
     nr \<leftarrow> get_right s node;
     s \<leftarrow> set_right s subst nr;
     np \<leftarrow> get_parent s node;
     s \<leftarrow> set_parent s subst np;
     s \<leftarrow> rbt_copy_color s subst node;
     s \<leftarrow> (if node = rb_root s then Some (set_root s subst)
          else do {
            np \<leftarrow> get_parent s node;
            npl \<leftarrow> get_left s np;
            if node = npl then set_left s np subst else set_right s np subst });
     sl \<leftarrow> get_left s subst;
     s \<leftarrow> (if sl \<noteq> sentinel then set_parent s sl subst else Some s);
     sr \<leftarrow> get_right s subst;
     (if sr \<noteq> sentinel then set_parent s sr subst else Some s) }"

definition rbtree_delete :: "rbtree \<Rightarrow> addr \<Rightarrow> rbtree option" where
  "rbtree_delete s node = do {
     let sentinel = rb_sentinel s;
     (subst, temp) \<leftarrow> rbtree_delete_choose s sentinel node;
     if subst = rb_root s
     then do {
       s \<leftarrow> rbt_black (set_root s temp) temp;
       rbtree_clear_node s node }
     else do {
       red \<leftarrow> rbt_is_red s subst;
       sp \<leftarrow> get_parent s subst;
       spl \<leftarrow> get_left s sp;
       s \<leftarrow> (if subst = spl then set_left s sp temp else set_right s sp temp);
       s \<leftarrow> (if subst = node
            then do { sp \<leftarrow> get_parent s subst; set_parent s temp sp }
            else rbtree_delete_replace s sentinel node subst temp);
       s \<leftarrow> rbtree_clear_node s node;
       if red then Some s
       else do {
         (s, temp) \<leftarrow> rbtree_delete_fixup s sentinel temp;
         rbt_black s temp } } }"

section \<open>Successor\<close>

partial_function (option) rbtree_next_up :: "rbtree \<Rightarrow> addr \<Rightarrow> addr \<Rightarrow> addr option" where
  "rbtree_next_up s root node = do {
     parent \<leftarrow> get_parent s node;
     if node = root then Some NULL
     else do {
       pl \<leftarrow> get_left s parent;
       if node = pl then Some parent else rbtree_next_up s root parent } }"

definition rbtree_next :: "rbtree \<Rightarrow> addr \<Rightarrow> addr option" where
  "rbtree_next s node = do {
     let sentinel = rb_sentinel s;
     nr \<leftarrow> get_right s node;
     if nr \<noteq> sentinel then rbtree_min s nr sentinel
     else rbtree_next_up s (rb_root s) node }"

end
