(* ===== verification/Rbtree_Shape.thy ===== *)
theory Rbtree_Shape
  imports Rbtree
begin

text \<open>
  The abstraction of the pointer structure of \<^verbatim>\<open>src/rbtree.c\<close>: a functional tree of node
  addresses with colours, a zipper (the path from a node up to the root, with the subtrees that
  hang off it), and the relations \<open>tree_at\<close> and \<open>ctx_at\<close> that say how memory represents them,
  parent pointers included. A loop of the C code that walks up through \<open>parent\<close> pointers is then
  a recursion on the path. The rotations are proved once here, for every context.
\<close>

section \<open>Trees of addresses and zippers\<close>

datatype rbt = Leaf | Node rbt addr bool rbt

datatype frame = InL addr bool rbt | InR rbt addr bool

fun inorder :: "rbt \<Rightarrow> addr list" where
  "inorder Leaf = []"
| "inorder (Node l a c r) = inorder l @ a # inorder r"

fun plug :: "frame list \<Rightarrow> rbt \<Rightarrow> rbt" where
  "plug [] t = t"
| "plug (InL a c r # fs) t = plug fs (Node t a c r)"
| "plug (InR l a c # fs) t = plug fs (Node l a c t)"

text \<open>The nodes before and after the hole, in order.\<close>

fun before :: "frame list \<Rightarrow> addr list" where
  "before [] = []"
| "before (InL a c r # fs) = before fs"
| "before (InR l a c # fs) = before fs @ inorder l @ [a]"

fun after :: "frame list \<Rightarrow> addr list" where
  "after [] = []"
| "after (InL a c r # fs) = a # inorder r @ after fs"
| "after (InR l a c # fs) = after fs"

lemma inorder_plug: "inorder (plug fs t) = before fs @ inorder t @ after fs"
  by (induction fs t rule: plug.induct) auto

lemma plug_append: "plug (fs @ gs) t = plug gs (plug fs t)"
  by (induction fs t rule: plug.induct) auto

lemma before_append: "before (fs @ gs) = before gs @ before fs"
  by (induction fs rule: before.induct) auto

lemma after_append: "after (fs @ gs) = after fs @ after gs"
  by (induction fs rule: after.induct) auto

abbreviation ctx_set :: "frame list \<Rightarrow> addr set" where
  "ctx_set fs \<equiv> set (before fs) \<union> set (after fs)"

section \<open>How memory represents them\<close>

text \<open>
  \<open>tree_on\<close> takes the fields as functions, so that an update of one field at one address is
  simplified away by the rules below whenever the address is not in the tree.
\<close>

fun tree_on :: "(addr \<Rightarrow> addr) \<Rightarrow> (addr \<Rightarrow> addr) \<Rightarrow> (addr \<Rightarrow> addr) \<Rightarrow> (addr \<Rightarrow> u8) \<Rightarrow> addr
    \<Rightarrow> rbt \<Rightarrow> addr \<Rightarrow> addr \<Rightarrow> bool" where
  "tree_on lf rt pa co sent Leaf q par \<longleftrightarrow> q = sent"
| "tree_on lf rt pa co sent (Node l a c r) q par \<longleftrightarrow>
     q = a \<and> a \<noteq> NULL \<and> a \<noteq> sent \<and> pa a = par \<and> (co a \<noteq> 0) = c
     \<and> tree_on lf rt pa co sent l (lf a) a \<and> tree_on lf rt pa co sent r (rt a) a"

fun ctx_on :: "(addr \<Rightarrow> addr) \<Rightarrow> (addr \<Rightarrow> addr) \<Rightarrow> (addr \<Rightarrow> addr) \<Rightarrow> (addr \<Rightarrow> u8) \<Rightarrow> addr
    \<Rightarrow> addr \<Rightarrow> frame list \<Rightarrow> addr \<Rightarrow> addr \<Rightarrow> bool" where
  "ctx_on lf rt pa co sent root [] q par \<longleftrightarrow> root = q"
| "ctx_on lf rt pa co sent root (InL a c r # fs) q par \<longleftrightarrow>
     par = a \<and> a \<noteq> NULL \<and> a \<noteq> sent \<and> lf a = q \<and> (co a \<noteq> 0) = c
     \<and> tree_on lf rt pa co sent r (rt a) a \<and> ctx_on lf rt pa co sent root fs a (pa a)"
| "ctx_on lf rt pa co sent root (InR l a c # fs) q par \<longleftrightarrow>
     par = a \<and> a \<noteq> NULL \<and> a \<noteq> sent \<and> rt a = q \<and> (co a \<noteq> 0) = c
     \<and> tree_on lf rt pa co sent l (lf a) a \<and> ctx_on lf rt pa co sent root fs a (pa a)"

abbreviation tree_at :: "rbtree \<Rightarrow> rbt \<Rightarrow> addr \<Rightarrow> addr \<Rightarrow> bool" where
  "tree_at s \<equiv> tree_on (rb_left s) (rb_right s) (rb_parent s) (rb_color s) (rb_sentinel s)"

abbreviation ctx_at :: "rbtree \<Rightarrow> frame list \<Rightarrow> addr \<Rightarrow> addr \<Rightarrow> bool" where
  "ctx_at s \<equiv> ctx_on (rb_left s) (rb_right s) (rb_parent s) (rb_color s) (rb_sentinel s) (rb_root s)"

text \<open>The sentinel is a black node of its own.\<close>

definition sentinel_ok :: "rbtree \<Rightarrow> bool" where
  "sentinel_ok s \<longleftrightarrow> rb_sentinel s \<noteq> NULL \<and> rb_color s (rb_sentinel s) = 0"

definition rep :: "rbtree \<Rightarrow> rbt \<Rightarrow> bool" where
  "rep s t \<longleftrightarrow> tree_at s t (rb_root s) (rb_parent s (rb_root s)) \<and> distinct (inorder t) \<and> sentinel_ok s"

text \<open>
  Memory represents the tree with the subtree \<open>t\<close>, rooted at \<open>q\<close> with parent \<open>par\<close>, in the
  context \<open>fs\<close>.
\<close>

definition zip_at :: "rbtree \<Rightarrow> frame list \<Rightarrow> rbt \<Rightarrow> addr \<Rightarrow> addr \<Rightarrow> bool" where
  "zip_at s fs t q par \<longleftrightarrow> ctx_at s fs q par \<and> tree_at s t q par
     \<and> distinct (before fs @ inorder t @ after fs) \<and> sentinel_ok s"

section \<open>Frame rules\<close>

lemma tree_on_upd [simp]:
  "a \<notin> set (inorder t) \<Longrightarrow> tree_on (lf(a := v)) rt pa co sent t q par = tree_on lf rt pa co sent t q par"
  "a \<notin> set (inorder t) \<Longrightarrow> tree_on lf (rt(a := v)) pa co sent t q par = tree_on lf rt pa co sent t q par"
  "a \<notin> set (inorder t) \<Longrightarrow> tree_on lf rt (pa(a := v)) co sent t q par = tree_on lf rt pa co sent t q par"
  "a \<notin> set (inorder t) \<Longrightarrow> tree_on lf rt pa (co(a := w)) sent t q par = tree_on lf rt pa co sent t q par"
  by (induction t arbitrary: q par) auto

lemma ctx_on_upd [simp]:
  "a \<notin> ctx_set fs \<Longrightarrow> ctx_on (lf(a := v)) rt pa co sent root fs q par = ctx_on lf rt pa co sent root fs q par"
  "a \<notin> ctx_set fs \<Longrightarrow> ctx_on lf (rt(a := v)) pa co sent root fs q par = ctx_on lf rt pa co sent root fs q par"
  "a \<notin> ctx_set fs \<Longrightarrow> ctx_on lf rt (pa(a := v)) co sent root fs q par = ctx_on lf rt pa co sent root fs q par"
  "a \<notin> ctx_set fs \<Longrightarrow> ctx_on lf rt pa (co(a := w)) sent root fs q par = ctx_on lf rt pa co sent root fs q par"
  by (induction fs arbitrary: q par rule: before.induct) auto

lemma tree_on_root: "tree_on lf rt pa co sent t q par \<Longrightarrow> q = sent \<and> t = Leaf \<or> q \<in> set (inorder t)"
  by (cases t) auto

lemma tree_on_notin:
  "tree_on lf rt pa co sent t q par \<Longrightarrow> NULL \<notin> set (inorder t) \<and> sent \<notin> set (inorder t)"
  by (induction t arbitrary: q par) auto

lemma ctx_on_notin:
  "ctx_on lf rt pa co sent root fs q par \<Longrightarrow> NULL \<notin> ctx_set fs \<and> sent \<notin> ctx_set fs"
  by (induction fs arbitrary: q par rule: before.induct) (auto dest: tree_on_notin)

lemma ctx_on_root:
  "ctx_on lf rt pa co sent root fs q par \<Longrightarrow> fs \<noteq> [] \<Longrightarrow> root \<in> ctx_set fs"
proof (induction fs arbitrary: q par rule: before.induct)
  case (2 a c r fs)
  then show ?case by (cases fs) auto
next
  case (3 l a c fs)
  then show ?case by (cases fs) auto
qed simp

lemma ctx_on_reroot:
  "ctx_on lf rt pa co sent root fs q par \<Longrightarrow> fs \<noteq> [] \<Longrightarrow> ctx_on lf rt pa co sent root fs q par' \<longleftrightarrow> par' = par"
  by (cases fs rule: before.cases) auto

lemma zip_plug:
  "(\<exists>q par. ctx_at s fs q par \<and> tree_at s t q par)
    \<longleftrightarrow> tree_at s (plug fs t) (rb_root s) (rb_parent s (rb_root s))"
proof (induction fs arbitrary: t)
  case Nil
  show ?case by (cases t) auto
next
  case (Cons f fs)
  show ?case by (cases f; simp; subst Cons.IH [symmetric]; auto)
qed

lemma rep_iff_zip: "rep s (plug fs t) \<longleftrightarrow> (\<exists>q par. zip_at s fs t q par)"
  unfolding rep_def zip_at_def zip_plug [symmetric] by (auto simp: inorder_plug)

lemma zip_at_rep: "zip_at s fs t q par \<Longrightarrow> rep s (plug fs t)"
  using rep_iff_zip by blast

text \<open>Moving the focus one frame up or down.\<close>

lemma zip_at_InL: "zip_at s (InL a c r # fs) t q par \<longleftrightarrow>
    zip_at s fs (Node t a c r) a (rb_parent s a) \<and> par = a \<and> q = rb_left s a"
  by (auto simp: zip_at_def)

lemma zip_at_InR: "zip_at s (InR l a c # fs) t q par \<longleftrightarrow>
    zip_at s fs (Node l a c t) a (rb_parent s a) \<and> par = a \<and> q = rb_right s a"
  by (auto simp: zip_at_def)

lemma zip_at_NodeD: "zip_at s fs (Node l a c r) q par \<Longrightarrow>
    q = a \<and> a \<noteq> NULL \<and> a \<noteq> rb_sentinel s \<and> rb_parent s a = par \<and> (rb_color s a \<noteq> 0) = c"
  by (auto simp: zip_at_def)

lemma zip_at_distinct:
  "zip_at s fs t q par \<Longrightarrow> distinct (before fs @ inorder t @ after fs) \<and> distinct (inorder t)"
  by (simp add: zip_at_def)

lemma zip_at_not_root: "zip_at s fs t q par \<Longrightarrow> p \<in> set (inorder t) \<Longrightarrow> p \<noteq> q \<Longrightarrow> p \<noteq> rb_root s"
  by (cases "fs = []") (auto simp: zip_at_def dest: ctx_on_root)

text \<open>What an operation leaves alone: all keys, the sentinel, and every node outside a set.\<close>

definition rb_frame :: "addr set \<Rightarrow> rbtree \<Rightarrow> rbtree \<Rightarrow> bool" where
  "rb_frame A s s' \<longleftrightarrow> rb_key s' = rb_key s \<and> rb_sentinel s' = rb_sentinel s \<and> rb_insert s' = rb_insert s
     \<and> (\<forall>a. a \<notin> A \<longrightarrow> rb_left s' a = rb_left s a \<and> rb_right s' a = rb_right s a
          \<and> rb_parent s' a = rb_parent s a \<and> rb_color s' a = rb_color s a)"

lemma rb_frame_refl [simp]: "rb_frame A s s"
  by (simp add: rb_frame_def)

lemma rb_frame_trans: "rb_frame A s t \<Longrightarrow> rb_frame B t u \<Longrightarrow> rb_frame (A \<union> B) s u"
  by (simp add: rb_frame_def)

lemma rb_frame_trans_same: "rb_frame A s t \<Longrightarrow> rb_frame A t u \<Longrightarrow> rb_frame A s u"
  using rb_frame_trans [of A s t A u] by simp

lemma rb_frame_mono: "rb_frame A s t \<Longrightarrow> A \<subseteq> B \<Longrightarrow> rb_frame B s t"
  by (auto simp: rb_frame_def)

abbreviation zip_set :: "frame list \<Rightarrow> rbt \<Rightarrow> addr set" where
  "zip_set fs t \<equiv> ctx_set fs \<union> set (inorder t)"

text \<open>Congruence: the relations only read the nodes they mention.\<close>

lemma tree_at_frame:
  "rb_frame A s s' \<Longrightarrow> set (inorder t) \<inter> A = {} \<Longrightarrow> tree_at s' t q par = tree_at s t q par"
  by (induction t arbitrary: q par) (auto simp: rb_frame_def Int_Un_distrib2)

lemma ctx_at_frame:
  "rb_frame A s s' \<Longrightarrow> rb_root s' = rb_root s \<Longrightarrow> ctx_set fs \<inter> A = {} \<Longrightarrow>
    ctx_at s' fs q par = ctx_at s fs q par"
proof (induction fs arbitrary: q par rule: before.induct)
  case (2 a c r fs)
  then have "set (inorder r) \<inter> A = {}" "ctx_set fs \<inter> A = {}" by auto
  with 2 tree_at_frame [OF 2(2)] show ?case by (auto simp: rb_frame_def)
next
  case (3 l a c fs)
  then have "set (inorder l) \<inter> A = {}" "ctx_set fs \<inter> A = {}" by auto
  with 3 tree_at_frame [OF 3(2)] show ?case by (auto simp: rb_frame_def)
qed simp

section \<open>Rotations, in any context\<close>

text \<open>
  The piece of code shared by the rotations and by \<open>rbtree_delete\<close>: the pointer that leads to
  \<open>x\<close> (the root, or one side of its parent) is set to \<open>temp\<close>.
\<close>

lemma relink_left_zip:
  assumes c: "ctx_at s fs x par" and x: "x \<notin> ctx_set fs" "x \<noteq> rb_sentinel s" "x \<noteq> NULL"
    and p: "fs \<noteq> [] \<longrightarrow> rb_parent s x = par" and d: "distinct (before fs @ after fs)"
  shows "\<exists>s'. (if x = rb_root s then Some (set_root s temp)
        else do {
          np \<leftarrow> get_parent s x;
          npl \<leftarrow> get_left s np;
          if x = npl then set_left s np temp else set_right s np temp }) = Some s'
    \<and> ctx_at s' fs temp par \<and> rb_frame (ctx_set fs) s s'
    \<and> rb_parent s' = rb_parent s \<and> rb_color s' = rb_color s"
proof (cases fs rule: before.cases)
  case 1
  with c show ?thesis by (simp add: set_root_def rb_frame_def)
next
  case (2 a c r gs)
  with x ctx_on_root [OF c] have "x \<noteq> rb_root s" by blast
  with 2 c x(3) p d show ?thesis by (simp add: rb_access rb_frame_def)
next
  case (3 l a c gs)
  with x ctx_on_root [OF c] have "x \<noteq> rb_root s" by blast
  moreover have "x \<noteq> rb_left s a" using c x 3 by (auto dest: tree_on_root)
  ultimately show ?thesis using 3 c x(3) p d by (simp add: rb_access rb_frame_def)
qed

lemma relink_right_zip:
  assumes c: "ctx_at s fs x par" and x: "x \<notin> ctx_set fs" "x \<noteq> rb_sentinel s" "x \<noteq> NULL"
    and p: "fs \<noteq> [] \<longrightarrow> rb_parent s x = par" and d: "distinct (before fs @ after fs)"
  shows "\<exists>s'. (if x = rb_root s then Some (set_root s temp)
        else do {
          np \<leftarrow> get_parent s x;
          npr \<leftarrow> get_right s np;
          if x = npr then set_right s np temp else set_left s np temp }) = Some s'
    \<and> ctx_at s' fs temp par \<and> rb_frame (ctx_set fs) s s'
    \<and> rb_parent s' = rb_parent s \<and> rb_color s' = rb_color s"
proof (cases fs rule: before.cases)
  case 1
  with c show ?thesis by (simp add: set_root_def rb_frame_def)
next
  case (2 a c r gs)
  with x ctx_on_root [OF c] have "x \<noteq> rb_root s" by blast
  moreover have "x \<noteq> rb_right s a" using c x 2 by (auto dest: tree_on_root)
  ultimately show ?thesis using 2 c x(3) p d by (simp add: rb_access rb_frame_def)
next
  case (3 l a c gs)
  with x ctx_on_root [OF c] have "x \<noteq> rb_root s" by blast
  with 3 c x(3) p d show ?thesis by (simp add: rb_access rb_frame_def)
qed

text \<open>Hanging a subtree under a new parent, as the guarded \<open>temp->left->parent = node\<close> does.\<close>

lemma reparent_tree:
  assumes "tree_at s t q par" and "distinct (inorder t)"
  shows "\<exists>s'. (if q \<noteq> rb_sentinel s then set_parent s q par' else Some s) = Some s'
    \<and> tree_at s' t q par' \<and> rb_frame (set (inorder t)) s s' \<and> rb_root s' = rb_root s
    \<and> rb_color s' = rb_color s"
  using assms by (cases t) (auto simp: rb_access rb_frame_def)

lemma left_rotate_zip:
  assumes z: "zip_at s fs (Node A x cx (Node B y cy C)) q par"
  shows "\<exists>s'. rbtree_left_rotate s (rb_sentinel s) x = Some s'
    \<and> zip_at s' fs (Node (Node A x cx B) y cy C) y par
    \<and> rb_frame (zip_set fs (Node A x cx (Node B y cy C))) s s'"
proof -
  let ?T = "Node A x cx (Node B y cy C)"
  have c: "ctx_at s fs x par" and x: "x \<noteq> NULL" "x \<noteq> rb_sentinel s" "rb_parent s x = par" "rb_right s x = y"
    and y: "y \<noteq> NULL" "y \<noteq> rb_sentinel s" "rb_parent s y = x" and B: "tree_at s B (rb_left s y) y"
    and AC: "tree_at s A (rb_left s x) x" "tree_at s C (rb_right s y) y"
    and d: "distinct (before fs @ inorder ?T @ after fs)"
    using z by (auto simp: zip_at_def)
  have xy: "x \<noteq> y" "x \<notin> ctx_set fs" "y \<notin> ctx_set fs" "x \<notin> set (inorder B)" "y \<notin> set (inorder B)"
    "ctx_set fs \<inter> set (inorder B) = {}" "distinct (before fs @ after fs)" "distinct (inorder B)"
    using d by auto
  define b where "b = rb_left s y"
  define s1 where "s1 = s\<lparr>rb_right := (rb_right s)(x := b)\<rparr>"
  have e1: "set_right s x b = Some s1" using x by (simp add: set_right_def s1_def)
  have B1: "tree_at s1 B b y" using B xy by (simp add: s1_def b_def)
  obtain s2 where e2: "(if b \<noteq> rb_sentinel s then set_parent s1 b x else Some s1) = Some s2"
    and B2: "tree_at s2 B b x" and f2: "rb_frame (set (inorder B)) s1 s2"
    and r2: "rb_root s2 = rb_root s1" "rb_color s2 = rb_color s1"
    using reparent_tree [OF B1 xy(8), of x] by (auto simp: s1_def)
  define s3 where "s3 = s2\<lparr>rb_parent := (rb_parent s2)(y := par)\<rparr>"
  have px: "rb_parent s2 x = par" "rb_right s2 x = b" "rb_left s2 x = rb_left s x"
    "rb_left s2 y = rb_left s y" "rb_right s2 y = rb_right s y"
    using f2 x xy by (auto simp: rb_frame_def s1_def)
  then have e3: "get_parent s2 x = Some par" "set_parent s2 y par = Some s3"
    using x y by (simp_all add: get_parent_def set_parent_def s3_def)
  have "ctx_at s2 fs x par"
    using ctx_at_frame [OF f2 r2(1)] c xy by (auto simp: s1_def)
  then have c3: "ctx_at s3 fs x par" using xy by (simp add: s3_def)
  have st: "rb_sentinel s3 = rb_sentinel s" "rb_parent s3 x = par"
    using f2 xy px by (simp_all add: s1_def s3_def rb_frame_def)
  obtain s4 where e4: "(if x = rb_root s3 then Some (set_root s3 y)
        else do {
          np \<leftarrow> get_parent s3 x;
          npl \<leftarrow> get_left s3 np;
          if x = npl then set_left s3 np y else set_right s3 np y }) = Some s4"
    and c4: "ctx_at s4 fs y par" and f4: "rb_frame (ctx_set fs) s3 s4"
    and r4: "rb_parent s4 = rb_parent s3" "rb_color s4 = rb_color s3"
    using relink_left_zip [OF c3 xy(2) _ x(1) _ xy(7), of y] x st by auto
  define s5 where "s5 = s4\<lparr>rb_left := (rb_left s4)(y := x)\<rparr>"
  define s6 where "s6 = s5\<lparr>rb_parent := (rb_parent s5)(x := y)\<rparr>"
  have e0: "get_right s x = Some y" "get_left s y = Some b" "get_left s1 y = Some b"
      "set_left s4 y x = Some s5" "set_parent s5 x y = Some s6"
    using x y by (simp_all add: get_right_def get_left_def b_def set_left_def set_parent_def
        s1_def s5_def s6_def)
  have run: "rbtree_left_rotate s (rb_sentinel s) x = Some s6"
    unfolding rbtree_left_rotate_def by (simp add: e0 e1 e2 e3 e4)
  have fr: "rb_frame (insert x (insert y (set (inorder B) \<union> ctx_set fs))) s s6"
    using f2 f4 by (auto simp: rb_frame_def s1_def s3_def s5_def s6_def)
  have vals: "rb_left s6 y = x" "rb_parent s6 x = y" "rb_left s6 x = rb_left s x" "rb_right s6 x = b"
    "rb_right s6 y = rb_right s y" "rb_parent s6 y = par" "rb_color s6 = rb_color s"
    "rb_sentinel s6 = rb_sentinel s"
    using f2 f4 r2 r4 px xy by (auto simp: rb_frame_def s1_def s3_def s5_def s6_def)
  have "tree_at s3 B b x" using B2 xy by (simp add: s3_def)
  then have "tree_at s4 B b x" using tree_at_frame [OF f4] xy by auto
  then have B6: "tree_at s6 B b x" using xy by (simp add: s5_def s6_def)
  let ?M = "insert x (insert y (set (inorder B) \<union> ctx_set fs))"
  have "set (inorder A) \<inter> ?M = {}" "set (inorder C) \<inter> ?M = {}" using d by auto
  then have A6: "tree_at s6 A (rb_left s x) x" and C6: "tree_at s6 C (rb_right s y) y"
    using AC by (simp_all only: tree_at_frame [OF fr])
  have "ctx_at s6 fs y par" using c4 xy by (simp add: s5_def s6_def)
  then have "zip_at s6 fs (Node (Node A x cx B) y cy C) y par"
    using A6 B6 C6 vals z x y by (auto simp: zip_at_def sentinel_ok_def)
  moreover have "rb_frame (zip_set fs ?T) s s6" using fr by (rule rb_frame_mono) auto
  ultimately show ?thesis using run by blast
qed

lemma right_rotate_zip:
  assumes z: "zip_at s fs (Node (Node C y cy B) x cx A) q par"
  shows "\<exists>s'. rbtree_right_rotate s (rb_sentinel s) x = Some s'
    \<and> zip_at s' fs (Node C y cy (Node B x cx A)) y par
    \<and> rb_frame (zip_set fs (Node (Node C y cy B) x cx A)) s s'"
proof -
  let ?T = "Node (Node C y cy B) x cx A"
  have c: "ctx_at s fs x par" and x: "x \<noteq> NULL" "x \<noteq> rb_sentinel s" "rb_parent s x = par" "rb_left s x = y"
    and y: "y \<noteq> NULL" "y \<noteq> rb_sentinel s" "rb_parent s y = x" and B: "tree_at s B (rb_right s y) y"
    and AC: "tree_at s A (rb_right s x) x" "tree_at s C (rb_left s y) y"
    and d: "distinct (before fs @ inorder ?T @ after fs)"
    using z by (auto simp: zip_at_def)
  have xy: "x \<noteq> y" "x \<notin> ctx_set fs" "y \<notin> ctx_set fs" "x \<notin> set (inorder B)" "y \<notin> set (inorder B)"
    "ctx_set fs \<inter> set (inorder B) = {}" "distinct (before fs @ after fs)" "distinct (inorder B)"
    using d by auto
  define b where "b = rb_right s y"
  define s1 where "s1 = s\<lparr>rb_left := (rb_left s)(x := b)\<rparr>"
  have e1: "set_left s x b = Some s1" using x by (simp add: set_left_def s1_def)
  have B1: "tree_at s1 B b y" using B xy by (simp add: s1_def b_def)
  obtain s2 where e2: "(if b \<noteq> rb_sentinel s then set_parent s1 b x else Some s1) = Some s2"
    and B2: "tree_at s2 B b x" and f2: "rb_frame (set (inorder B)) s1 s2"
    and r2: "rb_root s2 = rb_root s1" "rb_color s2 = rb_color s1"
    using reparent_tree [OF B1 xy(8), of x] by (auto simp: s1_def)
  define s3 where "s3 = s2\<lparr>rb_parent := (rb_parent s2)(y := par)\<rparr>"
  have px: "rb_parent s2 x = par" "rb_left s2 x = b" "rb_right s2 x = rb_right s x"
    "rb_right s2 y = rb_right s y" "rb_left s2 y = rb_left s y"
    using f2 x xy by (auto simp: rb_frame_def s1_def)
  then have e3: "get_parent s2 x = Some par" "set_parent s2 y par = Some s3"
    using x y by (simp_all add: get_parent_def set_parent_def s3_def)
  have "ctx_at s2 fs x par"
    using ctx_at_frame [OF f2 r2(1)] c xy by (auto simp: s1_def)
  then have c3: "ctx_at s3 fs x par" using xy by (simp add: s3_def)
  have st: "rb_sentinel s3 = rb_sentinel s" "rb_parent s3 x = par"
    using f2 xy px by (simp_all add: s1_def s3_def rb_frame_def)
  obtain s4 where e4: "(if x = rb_root s3 then Some (set_root s3 y)
        else do {
          np \<leftarrow> get_parent s3 x;
          npr \<leftarrow> get_right s3 np;
          if x = npr then set_right s3 np y else set_left s3 np y }) = Some s4"
    and c4: "ctx_at s4 fs y par" and f4: "rb_frame (ctx_set fs) s3 s4"
    and r4: "rb_parent s4 = rb_parent s3" "rb_color s4 = rb_color s3"
    using relink_right_zip [OF c3 xy(2) _ x(1) _ xy(7), of y] x st by auto
  define s5 where "s5 = s4\<lparr>rb_right := (rb_right s4)(y := x)\<rparr>"
  define s6 where "s6 = s5\<lparr>rb_parent := (rb_parent s5)(x := y)\<rparr>"
  have e0: "get_left s x = Some y" "get_right s y = Some b" "get_right s1 y = Some b"
      "set_right s4 y x = Some s5" "set_parent s5 x y = Some s6"
    using x y by (simp_all add: get_left_def get_right_def b_def set_right_def set_parent_def
        s1_def s5_def s6_def)
  have run: "rbtree_right_rotate s (rb_sentinel s) x = Some s6"
    unfolding rbtree_right_rotate_def by (simp add: e0 e1 e2 e3 e4)
  have fr: "rb_frame (insert x (insert y (set (inorder B) \<union> ctx_set fs))) s s6"
    using f2 f4 by (auto simp: rb_frame_def s1_def s3_def s5_def s6_def)
  have vals: "rb_right s6 y = x" "rb_parent s6 x = y" "rb_right s6 x = rb_right s x" "rb_left s6 x = b"
    "rb_left s6 y = rb_left s y" "rb_parent s6 y = par" "rb_color s6 = rb_color s"
    "rb_sentinel s6 = rb_sentinel s"
    using f2 f4 r2 r4 px xy by (auto simp: rb_frame_def s1_def s3_def s5_def s6_def)
  have "tree_at s3 B b x" using B2 xy by (simp add: s3_def)
  then have "tree_at s4 B b x" using tree_at_frame [OF f4] xy by auto
  then have B6: "tree_at s6 B b x" using xy by (simp add: s5_def s6_def)
  let ?M = "insert x (insert y (set (inorder B) \<union> ctx_set fs))"
  have "set (inorder A) \<inter> ?M = {}" "set (inorder C) \<inter> ?M = {}" using d by auto
  then have A6: "tree_at s6 A (rb_right s x) x" and C6: "tree_at s6 C (rb_left s y) y"
    using AC by (simp_all only: tree_at_frame [OF fr])
  have "ctx_at s6 fs y par" using c4 xy by (simp add: s5_def s6_def)
  then have "zip_at s6 fs (Node C y cy (Node B x cx A)) y par"
    using A6 B6 C6 vals z x y by (auto simp: zip_at_def sentinel_ok_def)
  moreover have "rb_frame (zip_set fs ?T) s s6" using fr by (rule rb_frame_mono) auto
  ultimately show ?thesis using run by blast
qed

end
