(* ===== verification/Rbtree_Insert.thy ===== *)
theory Rbtree_Insert
  imports Rbtree_Shape
begin

text \<open>
  \<open>rbtree_insert\<close>: the re-balancing loop of the code is simulated by the zipper function
  \<open>ins_fix\<close>, whose colour and height invariants and in-order sequence are then proved without
  memory; the descent functions are simulated by \<open>descend\<close>.
\<close>

section \<open>Colours and recolouring in memory\<close>

fun is_red :: "rbt \<Rightarrow> bool" where
  "is_red Leaf = False"
| "is_red (Node l a c r) = c"

fun paint :: "addr \<Rightarrow> bool \<Rightarrow> rbt \<Rightarrow> rbt" where
  "paint a c Leaf = Leaf"
| "paint a c (Node l b d r) = (if a = b then Node l b c r else Node (paint a c l) b d (paint a c r))"

lemma paint_notin [simp]: "a \<notin> set (inorder t) \<Longrightarrow> paint a c t = t"
  by (induction t) auto

lemma inorder_paint [simp]: "inorder (paint a c t) = inorder t"
  by (induction t) auto

lemma tree_on_paint:
  "tree_on lf rt pa co sent t q par \<Longrightarrow> distinct (inorder t) \<Longrightarrow>
    tree_on lf rt pa (co(a := w)) sent (paint a (w \<noteq> 0) t) q par"
  by (induction t arbitrary: q par) auto

lemma rbt_black_zip:
  assumes "zip_at s fs t q par" and "a \<in> set (inorder t)"
  shows "\<exists>s'. rbt_black s a = Some s' \<and> zip_at s' fs (paint a False t) q par \<and> rb_frame (zip_set fs t) s s'
    \<and> rb_sentinel s' = rb_sentinel s"
proof -
  have "tree_at s t q par" "ctx_at s fs q par" "distinct (before fs @ inorder t @ after fs)" "sentinel_ok s"
    using assms by (auto simp: zip_at_def)
  moreover then have "a \<noteq> NULL" "a \<noteq> rb_sentinel s" "a \<notin> ctx_set fs"
    using assms(2) by (auto dest: tree_on_notin)
  ultimately show ?thesis
    using tree_on_paint [of _ _ _ _ _ t q par a 0] assms(2)
    by (auto simp: rbt_black_def zip_at_def sentinel_ok_def rb_frame_def)
qed

lemma rbt_red_zip:
  assumes "zip_at s fs t q par" and "a \<in> set (inorder t)"
  shows "\<exists>s'. rbt_red s a = Some s' \<and> zip_at s' fs (paint a True t) q par \<and> rb_frame (zip_set fs t) s s'
    \<and> rb_sentinel s' = rb_sentinel s"
proof -
  have "tree_at s t q par" "ctx_at s fs q par" "distinct (before fs @ inorder t @ after fs)" "sentinel_ok s"
    using assms by (auto simp: zip_at_def)
  moreover then have "a \<noteq> NULL" "a \<noteq> rb_sentinel s" "a \<notin> ctx_set fs"
    using assms(2) by (auto dest: tree_on_notin)
  ultimately show ?thesis
    using tree_on_paint [of _ _ _ _ _ t q par a 1] assms(2)
    by (auto simp: rbt_red_def zip_at_def sentinel_ok_def rb_frame_def)
qed

lemma tree_at_is_red:
  "tree_at s t q par \<Longrightarrow> sentinel_ok s \<Longrightarrow> rbt_is_red s q = Some (is_red t) \<and> rbt_is_black s q = Some (\<not> is_red t)"
  by (cases t) (auto simp: rbt_is_red_def rbt_is_black_def sentinel_ok_def)

lemma is_red_Node: "is_red t \<longleftrightarrow> (\<exists>l a r. t = Node l a True r)"
  by (cases t) auto

fun frame_red :: "frame \<Rightarrow> bool" where
  "frame_red (InL a c r) = c"
| "frame_red (InR l a c) = c"

fun frame_addr :: "frame \<Rightarrow> addr" where
  "frame_addr (InL a c r) = a"
| "frame_addr (InR l a c) = a"

text \<open>The root of the represented tree is black: the outermost frame is.\<close>

definition top_black :: "frame list \<Rightarrow> bool" where
  "top_black fs \<longleftrightarrow> (fs \<noteq> [] \<longrightarrow> \<not> frame_red (last fs))"

fun blacken :: "rbt \<Rightarrow> rbt" where
  "blacken Leaf = Leaf"
| "blacken (Node l a c r) = Node l a False r"

lemma inorder_blacken [simp]: "inorder (blacken t) = inorder t"
  by (cases t) auto

section \<open>The re-balancing loop on zippers\<close>

text \<open>
  \<open>ins_fix fs t\<close>: \<open>t\<close> is the subtree of the current \<open>node\<close>, the first frame its parent, the
  second its grandparent. A red uncle sends the loop two frames up; otherwise one or two
  rotations end it.
\<close>

fun ins_fix :: "frame list \<Rightarrow> rbt \<Rightarrow> rbt" where
  "ins_fix (InL p True r # InL g gc u # fs) t =
     (if is_red u then ins_fix fs (Node (Node t p False r) g True (blacken u))
      else plug fs (Node t p False (Node r g True u)))"
| "ins_fix (InR l p True # InL g gc u # fs) (Node ta x c tb) =
     (if is_red u then ins_fix fs (Node (Node l p False (Node ta x c tb)) g True (blacken u))
      else plug fs (Node (Node l p True ta) x False (Node tb g True u)))"
| "ins_fix (InR l p True # InR u g gc # fs) t =
     (if is_red u then ins_fix fs (Node (blacken u) g True (Node l p False t))
      else plug fs (Node (Node u g True l) p False t))"
| "ins_fix (InL p True r # InR u g gc # fs) (Node ta x c tb) =
     (if is_red u then ins_fix fs (Node (blacken u) g True (Node (Node ta x c tb) p False r))
      else plug fs (Node (Node u g True ta) x False (Node tb p True r)))"
| "ins_fix fs t = plug fs t"

lemma inorder_ins_fix: "inorder (ins_fix fs t) = inorder (plug fs t)"
  by (induction fs t rule: ins_fix.induct) (auto simp: inorder_plug)

section \<open>The loop of the code follows it\<close>

lemma insert_fixup_stop:
  assumes z: "zip_at s fs (Node l x c r) q par" and stop: "fs = [] \<or> \<not> frame_red (hd fs)"
  shows "rbtree_insert_fixup s (rb_sentinel s) x = Some s"
proof (cases fs)
  case Nil
  with z have "rb_root s = x" by (auto simp: zip_at_def)
  then show ?thesis by (subst rbtree_insert_fixup.simps) simp
next
  case (Cons f gs)
  from z have c: "ctx_at s fs x par" and "x \<notin> ctx_set fs" by (auto simp: zip_at_def)
  with ctx_on_root [OF c] Cons have "x \<noteq> rb_root s" by auto
  moreover have "get_parent s x = Some par" "rbt_is_red s par = Some False"
    using z stop Cons by (cases f; auto simp: zip_at_def rb_access)+
  ultimately show ?thesis by (subst rbtree_insert_fixup.simps) simp
qed

text \<open>Reads around a node whose parent is a red left child.\<close>

lemma zip_reads_L:
  assumes "zip_at s fs (Node (Node t p pc r) g gc u) q par"
  shows "get_parent s p = Some g" "get_left s g = Some p" "get_right s p = Some (rb_right s p)"
    "get_right s g = Some (rb_right s g)" "p \<noteq> rb_root s" "rbt_is_red s p = Some pc"
    "rbt_is_red s (rb_right s g) = Some (is_red u)" "get_left s p = Some (rb_left s p)"
proof -
  show "p \<noteq> rb_root s"
    using zip_at_not_root [OF assms, of p] zip_at_distinct [OF assms] zip_at_NodeD [OF assms] by auto
  show "rbt_is_red s (rb_right s g) = Some (is_red u)"
    using assms tree_at_is_red [of s u "rb_right s g" g] by (auto simp: zip_at_def)
qed (use assms in \<open>auto simp: zip_at_def rb_access\<close>)

lemma zip_reads_R:
  assumes "zip_at s fs (Node u g gc (Node r p pc t)) q par"
  shows "get_parent s p = Some g" "get_right s g = Some p" "get_left s p = Some (rb_left s p)"
    "get_left s g = Some (rb_left s g)" "p \<noteq> rb_root s" "rbt_is_red s p = Some pc"
    "rbt_is_red s (rb_left s g) = Some (is_red u)" "p \<noteq> rb_left s g" "get_right s p = Some (rb_right s p)"
proof -
  show "p \<noteq> rb_root s"
    using zip_at_not_root [OF assms, of p] zip_at_distinct [OF assms] zip_at_NodeD [OF assms] by auto
  show "rbt_is_red s (rb_left s g) = Some (is_red u)"
    using assms tree_at_is_red [of s u "rb_left s g" g] by (auto simp: zip_at_def)
  show "p \<noteq> rb_left s g"
    using assms tree_on_root [of _ _ _ _ _ u "rb_left s g" g] by (auto simp: zip_at_def)
qed (use assms in \<open>auto simp: zip_at_def rb_access\<close>)

definition insert_rotate_L :: "rbtree \<Rightarrow> addr \<Rightarrow> addr \<Rightarrow> rbtree option" where
  "insert_rotate_L s sent x = do {
     np \<leftarrow> get_parent s x;
     s \<leftarrow> rbt_black s np;
     gp \<leftarrow> get_parent s np;
     s \<leftarrow> rbt_red s gp;
     s \<leftarrow> rbtree_right_rotate s sent gp;
     rbtree_insert_fixup s sent x }"

lemma insert_fixup_rotate_L:
  assumes z: "zip_at s fs (Node (Node (Node ta x c tb) p pc r) g gc u) q par"
    and sent: "sent = rb_sentinel s"
  shows "\<exists>s'. insert_rotate_L s sent x = Some s'
    \<and> rep s' (plug fs (Node (Node ta x c tb) p False (Node r g True u)))
    \<and> rb_frame (zip_set fs (Node (Node (Node ta x c tb) p pc r) g gc u)) s s'"
proof -
  let ?A = "zip_set fs (Node (Node (Node ta x c tb) p pc r) g gc u)"
  have d: "distinct (inorder (Node (Node (Node ta x c tb) p pc r) g gc u))"
    using zip_at_distinct [OF z] by blast
  obtain s1 where s1: "rbt_black s p = Some s1" "rb_frame ?A s s1" "rb_sentinel s1 = rb_sentinel s"
      "zip_at s1 fs (Node (Node (Node ta x c tb) p False r) g gc u) q par"
    using rbt_black_zip [OF z, of p] d by (auto split: if_splits)
  obtain s2 where s2: "rbt_red s1 g = Some s2" "rb_frame ?A s1 s2" "rb_sentinel s2 = rb_sentinel s"
      "zip_at s2 fs (Node (Node (Node ta x c tb) p False r) g True u) q par"
    using rbt_red_zip [OF s1(4), of g] d s1(3) by (auto split: if_splits)
  obtain s3 where s3: "rbtree_right_rotate s2 (rb_sentinel s) g = Some s3" "rb_frame ?A s2 s3"
      "zip_at s3 fs (Node (Node ta x c tb) p False (Node r g True u)) p par"
    using right_rotate_zip [OF s2(4)] s2(3) by auto
  have "get_parent s x = Some p" using z by (auto simp: zip_at_def rb_access)
  moreover have "get_parent s1 p = Some g" using zip_reads_L(1) [OF s1(4)] .
  moreover have "rbtree_insert_fixup s3 (rb_sentinel s) x = Some s3"
  proof -
    have "zip_at s3 (InL p False (Node r g True u) # fs) (Node ta x c tb) (rb_left s3 p) p"
      using s3(3) zip_at_NodeD [OF s3(3)] by (simp add: zip_at_InL)
    from insert_fixup_stop [OF this] show ?thesis using s3(2) s2(3) by (simp add: rb_frame_def)
  qed
  ultimately have "insert_rotate_L s sent x = Some s3"
    using s1(1) s2(1) s3(1) sent by (simp add: insert_rotate_L_def)
  moreover have "rb_frame ?A s s3"
    using s1(2) s2(2) s3(2) rb_frame_trans_same by blast
  ultimately show ?thesis using zip_at_rep [OF s3(3)] by blast
qed

definition insert_rotate_R :: "rbtree \<Rightarrow> addr \<Rightarrow> addr \<Rightarrow> rbtree option" where
  "insert_rotate_R s sent x = do {
     np \<leftarrow> get_parent s x;
     s \<leftarrow> rbt_black s np;
     gp \<leftarrow> get_parent s np;
     s \<leftarrow> rbt_red s gp;
     s \<leftarrow> rbtree_left_rotate s sent gp;
     rbtree_insert_fixup s sent x }"

lemma insert_fixup_rotate_R:
  assumes z: "zip_at s fs (Node u g gc (Node r p pc (Node ta x c tb))) q par"
    and sent: "sent = rb_sentinel s"
  shows "\<exists>s'. insert_rotate_R s sent x = Some s'
    \<and> rep s' (plug fs (Node (Node u g True r) p False (Node ta x c tb)))
    \<and> rb_frame (zip_set fs (Node u g gc (Node r p pc (Node ta x c tb)))) s s'"
proof -
  let ?A = "zip_set fs (Node u g gc (Node r p pc (Node ta x c tb)))"
  have d: "distinct (inorder (Node u g gc (Node r p pc (Node ta x c tb))))"
    using zip_at_distinct [OF z] by blast
  obtain s1 where s1: "rbt_black s p = Some s1" "rb_frame ?A s s1" "rb_sentinel s1 = rb_sentinel s"
      "zip_at s1 fs (Node u g gc (Node r p False (Node ta x c tb))) q par"
    using rbt_black_zip [OF z, of p] d by (auto split: if_splits)
  obtain s2 where s2: "rbt_red s1 g = Some s2" "rb_frame ?A s1 s2" "rb_sentinel s2 = rb_sentinel s"
      "zip_at s2 fs (Node u g True (Node r p False (Node ta x c tb))) q par"
    using rbt_red_zip [OF s1(4), of g] d s1(3) by (auto split: if_splits)
  obtain s3 where s3: "rbtree_left_rotate s2 (rb_sentinel s) g = Some s3" "rb_frame ?A s2 s3"
      "zip_at s3 fs (Node (Node u g True r) p False (Node ta x c tb)) p par"
    using left_rotate_zip [OF s2(4)] s2(3) by auto
  have "get_parent s x = Some p" using z by (auto simp: zip_at_def rb_access)
  moreover have "get_parent s1 p = Some g" using zip_reads_R(1) [OF s1(4)] .
  moreover have "rbtree_insert_fixup s3 (rb_sentinel s) x = Some s3"
  proof -
    have "zip_at s3 (InR (Node u g True r) p False # fs) (Node ta x c tb) (rb_right s3 p) p"
      using s3(3) zip_at_NodeD [OF s3(3)] by (simp add: zip_at_InR)
    from insert_fixup_stop [OF this] show ?thesis using s3(2) s2(3) by (simp add: rb_frame_def)
  qed
  ultimately have "insert_rotate_R s sent x = Some s3"
    using s1(1) s2(1) s3(1) sent by (simp add: insert_rotate_R_def)
  moreover have "rb_frame ?A s s3"
    using s1(2) s2(2) s3(2) rb_frame_trans_same by blast
  ultimately show ?thesis using zip_at_rep [OF s3(3)] by blast
qed

lemma insert_recolor_zip:
  assumes z: "zip_at s fs t q par" and m: "p \<in> set (inorder t)" "v \<in> set (inorder t)" "g \<in> set (inorder t)"
  shows "\<exists>s1 s2 s3. rbt_black s p = Some s1 \<and> rbt_black s1 v = Some s2 \<and> rbt_red s2 g = Some s3
    \<and> zip_at s3 fs (paint g True (paint v False (paint p False t))) q par
    \<and> rb_frame (zip_set fs t) s s3 \<and> rb_sentinel s3 = rb_sentinel s"
proof -
  obtain s1 where s1: "rbt_black s p = Some s1" "zip_at s1 fs (paint p False t) q par"
      "rb_frame (zip_set fs t) s s1" "rb_sentinel s1 = rb_sentinel s"
    using rbt_black_zip [OF z m(1)] by auto
  obtain s2 where s2: "rbt_black s1 v = Some s2" "zip_at s2 fs (paint v False (paint p False t)) q par"
      "rb_frame (zip_set fs t) s1 s2" "rb_sentinel s2 = rb_sentinel s"
    using rbt_black_zip [OF s1(2), of v] m(2) s1(4) by auto
  obtain s3 where s3: "rbt_red s2 g = Some s3"
      "zip_at s3 fs (paint g True (paint v False (paint p False t))) q par"
      "rb_frame (zip_set fs t) s2 s3" "rb_sentinel s3 = rb_sentinel s"
    using rbt_red_zip [OF s2(2), of g] m(3) s2(4) by auto
  from s1(3) s2(3) s3(3) have "rb_frame (zip_set fs t) s s3" using rb_frame_trans_same by blast
  with s1(1) s2(1) s3 show ?thesis by blast
qed

text \<open>
  The four positions of \<open>node\<close>. \<open>IH\<close> is the statement for the recursive call, two frames up.
\<close>

definition fixup_ok :: "frame list \<Rightarrow> bool" where
  "fixup_ok fs \<longleftrightarrow> (\<forall>s ta x c tb q par. zip_at s fs (Node ta x c tb) q par \<longrightarrow>
     (\<exists>s'. rbtree_insert_fixup s (rb_sentinel s) x = Some s'
        \<and> rep s' (ins_fix fs (Node ta x c tb)) \<and> rb_frame (zip_set fs (Node ta x c tb)) s s'))"

lemma fixup_okI:
  "(\<And>s ta x c tb q par. zip_at s fs (Node ta x c tb) q par \<Longrightarrow>
     \<exists>s'. rbtree_insert_fixup s (rb_sentinel s) x = Some s'
        \<and> rep s' (ins_fix fs (Node ta x c tb)) \<and> rb_frame (zip_set fs (Node ta x c tb)) s s')
    \<Longrightarrow> fixup_ok fs"
  unfolding fixup_ok_def by blast

lemma fixup_okD:
  "fixup_ok fs \<Longrightarrow> zip_at s fs (Node ta x c tb) q par \<Longrightarrow> sent = rb_sentinel s \<Longrightarrow>
    \<exists>s'. rbtree_insert_fixup s sent x = Some s' \<and> rep s' (ins_fix fs (Node ta x c tb))
      \<and> rb_frame (zip_set fs (Node ta x c tb)) s s'"
  unfolding fixup_ok_def by blast

lemma insert_fixup_LL: "fixup_ok fs \<Longrightarrow> fixup_ok (InL p True r # InL g gc u # fs)"
proof (rule fixup_okI)
  fix s ta x c tb q par
  assume IH: "fixup_ok fs" and z: "zip_at s (InL p True r # InL g gc u # fs) (Node ta x c tb) q par"
  let ?T = "Node (Node (Node ta x c tb) p True r) g gc u"
  from z have zg: "zip_at s fs ?T g (rb_parent s g)" unfolding zip_at_InL by blast
  note reads = zip_reads_L [OF zg] and d = zip_at_distinct [OF zg]
  have x: "get_parent s x = Some p" "x \<noteq> rb_root s"
    using zip_at_not_root [OF zg, of x] d zg by (auto simp: zip_at_def rb_access)
  have set: "zip_set (InL p True r # InL g gc u # fs) (Node ta x c tb) = zip_set fs ?T" by auto
  show "\<exists>s'. rbtree_insert_fixup s (rb_sentinel s) x = Some s'
      \<and> rep s' (ins_fix (InL p True r # InL g gc u # fs) (Node ta x c tb))
      \<and> rb_frame (zip_set (InL p True r # InL g gc u # fs) (Node ta x c tb)) s s'"
  proof (cases "is_red u")
    case True
    then obtain ul ua ur where u: "u = Node ul ua True ur" by (auto simp: is_red_Node)
    with zg have ua: "rb_right s g = ua" by (simp add: zip_at_def)
    obtain s1 s2 s3 where s: "rbt_black s p = Some s1" "rbt_black s1 ua = Some s2" "rbt_red s2 g = Some s3"
        "zip_at s3 fs (paint g True (paint ua False (paint p False ?T))) g (rb_parent s g)"
        "rb_frame (zip_set fs ?T) s s3" "rb_sentinel s3 = rb_sentinel s"
      using insert_recolor_zip [OF zg, of p ua g] u by auto
    have "paint g True (paint ua False (paint p False ?T)) = Node (Node (Node ta x c tb) p False r) g True (blacken u)"
      using d u by auto
    with s(4) have z3: "zip_at s3 fs (Node (Node (Node ta x c tb) p False r) g True (blacken u)) g (rb_parent s g)" by simp
    have set3: "zip_set fs (Node (Node (Node ta x c tb) p False r) g True (blacken u)) = zip_set fs ?T" by auto
    from fixup_okD [OF IH z3 s(6) [symmetric]] obtain s' where s': "rbtree_insert_fixup s3 (rb_sentinel s) g = Some s'"
        "rep s' (ins_fix fs (Node (Node (Node ta x c tb) p False r) g True (blacken u)))"
        "rb_frame (zip_set fs ?T) s3 s'"
      unfolding set3 by blast
    have "rbtree_insert_fixup s (rb_sentinel s) x = Some s'"
      by (subst rbtree_insert_fixup.simps) (simp add: x reads [unfolded ua] True s(1-3) s'(1))
    moreover have "rb_frame (zip_set fs ?T) s s'" using s(5) s'(3) by (rule rb_frame_trans_same)
    ultimately show ?thesis unfolding set using True s'(2) by (simp del: set_append set_simps)
  next
    case False
    have "x \<noteq> rb_right s p" using zg d by (auto simp: zip_at_def dest: tree_on_root)
    with x reads False have "rbtree_insert_fixup s (rb_sentinel s) x = insert_rotate_L s (rb_sentinel s) x"
      by (subst rbtree_insert_fixup.simps) (simp add: insert_rotate_L_def)
    with insert_fixup_rotate_L [OF zg refl] False show ?thesis unfolding set by simp
  qed
qed

lemma insert_fixup_LR: "fixup_ok fs \<Longrightarrow> fixup_ok (InR l p True # InL g gc u # fs)"
proof (rule fixup_okI)
  fix s ta x c tb q par
  assume IH: "fixup_ok fs" and z: "zip_at s (InR l p True # InL g gc u # fs) (Node ta x c tb) q par"
  let ?T = "Node (Node l p True (Node ta x c tb)) g gc u"
  from z have zp: "zip_at s (InL g gc u # fs) (Node l p True (Node ta x c tb)) p g"
    and zg: "zip_at s fs ?T g (rb_parent s g)" unfolding zip_at_InL zip_at_InR by auto
  note reads = zip_reads_L [OF zg] and d = zip_at_distinct [OF zg]
  have x: "get_parent s x = Some p" "x \<noteq> rb_root s" "rb_right s p = x"
    using zip_at_not_root [OF zg, of x] d zg by (auto simp: zip_at_def rb_access)
  have set: "zip_set (InR l p True # InL g gc u # fs) (Node ta x c tb) = zip_set fs ?T" by auto
  show "\<exists>s'. rbtree_insert_fixup s (rb_sentinel s) x = Some s'
      \<and> rep s' (ins_fix (InR l p True # InL g gc u # fs) (Node ta x c tb))
      \<and> rb_frame (zip_set (InR l p True # InL g gc u # fs) (Node ta x c tb)) s s'"
  proof (cases "is_red u")
    case True
    then obtain ul ua ur where u: "u = Node ul ua True ur" by (auto simp: is_red_Node)
    with zg have ua: "rb_right s g = ua" by (simp add: zip_at_def)
    obtain s1 s2 s3 where s: "rbt_black s p = Some s1" "rbt_black s1 ua = Some s2" "rbt_red s2 g = Some s3"
        "zip_at s3 fs (paint g True (paint ua False (paint p False ?T))) g (rb_parent s g)"
        "rb_frame (zip_set fs ?T) s s3" "rb_sentinel s3 = rb_sentinel s"
      using insert_recolor_zip [OF zg, of p ua g] u by auto
    have "paint g True (paint ua False (paint p False ?T)) = Node (Node l p False (Node ta x c tb)) g True (blacken u)"
      using d u by auto
    with s(4) have z3: "zip_at s3 fs (Node (Node l p False (Node ta x c tb)) g True (blacken u)) g (rb_parent s g)" by simp
    have set3: "zip_set fs (Node (Node l p False (Node ta x c tb)) g True (blacken u)) = zip_set fs ?T" by auto
    from fixup_okD [OF IH z3 s(6) [symmetric]] obtain s' where s': "rbtree_insert_fixup s3 (rb_sentinel s) g = Some s'"
        "rep s' (ins_fix fs (Node (Node l p False (Node ta x c tb)) g True (blacken u)))"
        "rb_frame (zip_set fs ?T) s3 s'"
      unfolding set3 by blast
    have "rbtree_insert_fixup s (rb_sentinel s) x = Some s'"
      by (subst rbtree_insert_fixup.simps) (simp add: x reads [unfolded ua] True s(1-3) s'(1))
    moreover have "rb_frame (zip_set fs ?T) s s'" using s(5) s'(3) by (rule rb_frame_trans_same)
    ultimately show ?thesis unfolding set using True s'(2) by (simp del: set_append set_simps)
  next
    case False
    have set2: "zip_set (InL g gc u # fs) (Node l p True (Node ta x c tb)) = zip_set fs ?T" by auto
    obtain s1 where s1: "rbtree_left_rotate s (rb_sentinel s) p = Some s1"
        "zip_at s1 (InL g gc u # fs) (Node (Node l p True ta) x c tb) x g" "rb_frame (zip_set fs ?T) s s1"
      using left_rotate_zip [OF zp] unfolding set2 by blast
    then have "zip_at s1 fs (Node (Node (Node l p True ta) x c tb) g gc u) g (rb_parent s1 g)"
      and "rb_sentinel s = rb_sentinel s1" unfolding zip_at_InL by (auto simp: rb_frame_def)
    from insert_fixup_rotate_L [OF this] obtain s2 where s2: "insert_rotate_L s1 (rb_sentinel s) p = Some s2"
        "rep s2 (ins_fix (InR l p True # InL g gc u # fs) (Node ta x c tb))" "rb_frame (zip_set fs ?T) s1 s2"
      using False by auto
    have "rbtree_insert_fixup s (rb_sentinel s) x = Some s2"
      using x reads False s1(1) s2(1) by (subst rbtree_insert_fixup.simps) (simp add: insert_rotate_L_def)
    moreover have "rb_frame (zip_set fs ?T) s s2" using s1(3) s2(3) by (rule rb_frame_trans_same)
    ultimately show ?thesis unfolding set using s2(2) by blast
  qed
qed

lemma insert_fixup_RR: "fixup_ok fs \<Longrightarrow> fixup_ok (InR r p True # InR u g gc # fs)"
proof (rule fixup_okI)
  fix s ta x c tb q par
  assume IH: "fixup_ok fs" and z: "zip_at s (InR r p True # InR u g gc # fs) (Node ta x c tb) q par"
  let ?T = "Node u g gc (Node r p True (Node ta x c tb))"
  from z have zg: "zip_at s fs ?T g (rb_parent s g)" unfolding zip_at_InR by blast
  note reads = zip_reads_R [OF zg] and d = zip_at_distinct [OF zg]
  have x: "get_parent s x = Some p" "x \<noteq> rb_root s"
    using zip_at_not_root [OF zg, of x] d zg by (auto simp: zip_at_def rb_access)
  have set: "zip_set (InR r p True # InR u g gc # fs) (Node ta x c tb) = zip_set fs ?T" by auto
  show "\<exists>s'. rbtree_insert_fixup s (rb_sentinel s) x = Some s'
      \<and> rep s' (ins_fix (InR r p True # InR u g gc # fs) (Node ta x c tb))
      \<and> rb_frame (zip_set (InR r p True # InR u g gc # fs) (Node ta x c tb)) s s'"
  proof (cases "is_red u")
    case True
    then obtain ul ua ur where u: "u = Node ul ua True ur" by (auto simp: is_red_Node)
    with zg have ua: "rb_left s g = ua" by (simp add: zip_at_def)
    obtain s1 s2 s3 where s: "rbt_black s p = Some s1" "rbt_black s1 ua = Some s2" "rbt_red s2 g = Some s3"
        "zip_at s3 fs (paint g True (paint ua False (paint p False ?T))) g (rb_parent s g)"
        "rb_frame (zip_set fs ?T) s s3" "rb_sentinel s3 = rb_sentinel s"
      using insert_recolor_zip [OF zg, of p ua g] u by auto
    have "paint g True (paint ua False (paint p False ?T)) = Node (blacken u) g True (Node r p False (Node ta x c tb))"
      using d u by auto
    with s(4) have z3: "zip_at s3 fs (Node (blacken u) g True (Node r p False (Node ta x c tb))) g (rb_parent s g)" by simp
    have set3: "zip_set fs (Node (blacken u) g True (Node r p False (Node ta x c tb))) = zip_set fs ?T" by auto
    from fixup_okD [OF IH z3 s(6) [symmetric]] obtain s' where s': "rbtree_insert_fixup s3 (rb_sentinel s) g = Some s'"
        "rep s' (ins_fix fs (Node (blacken u) g True (Node r p False (Node ta x c tb))))"
        "rb_frame (zip_set fs ?T) s3 s'"
      unfolding set3 by blast
    have "rbtree_insert_fixup s (rb_sentinel s) x = Some s'"
      by (subst rbtree_insert_fixup.simps) (simp add: x reads [unfolded ua] True s(1-3) s'(1))
    moreover have "rb_frame (zip_set fs ?T) s s'" using s(5) s'(3) by (rule rb_frame_trans_same)
    ultimately show ?thesis unfolding set using True s'(2) by (simp del: set_append set_simps)
  next
    case False
    have "x \<noteq> rb_left s p" using zg d by (auto simp: zip_at_def dest: tree_on_root)
    with x reads False have "rbtree_insert_fixup s (rb_sentinel s) x = insert_rotate_R s (rb_sentinel s) x"
      by (subst rbtree_insert_fixup.simps) (simp add: insert_rotate_R_def)
    with insert_fixup_rotate_R [OF zg refl] False show ?thesis unfolding set by simp
  qed
qed

lemma insert_fixup_RL: "fixup_ok fs \<Longrightarrow> fixup_ok (InL p True l # InR u g gc # fs)"
proof (rule fixup_okI)
  fix s ta x c tb q par
  assume IH: "fixup_ok fs" and z: "zip_at s (InL p True l # InR u g gc # fs) (Node ta x c tb) q par"
  let ?T = "Node u g gc (Node (Node ta x c tb) p True l)"
  from z have zp: "zip_at s (InR u g gc # fs) (Node (Node ta x c tb) p True l) p g"
    and zg: "zip_at s fs ?T g (rb_parent s g)" unfolding zip_at_InL zip_at_InR by auto
  note reads = zip_reads_R [OF zg] and d = zip_at_distinct [OF zg]
  have x: "get_parent s x = Some p" "x \<noteq> rb_root s" "rb_left s p = x"
    using zip_at_not_root [OF zg, of x] d zg by (auto simp: zip_at_def rb_access)
  have set: "zip_set (InL p True l # InR u g gc # fs) (Node ta x c tb) = zip_set fs ?T" by auto
  show "\<exists>s'. rbtree_insert_fixup s (rb_sentinel s) x = Some s'
      \<and> rep s' (ins_fix (InL p True l # InR u g gc # fs) (Node ta x c tb))
      \<and> rb_frame (zip_set (InL p True l # InR u g gc # fs) (Node ta x c tb)) s s'"
  proof (cases "is_red u")
    case True
    then obtain ul ua ur where u: "u = Node ul ua True ur" by (auto simp: is_red_Node)
    with zg have ua: "rb_left s g = ua" by (simp add: zip_at_def)
    obtain s1 s2 s3 where s: "rbt_black s p = Some s1" "rbt_black s1 ua = Some s2" "rbt_red s2 g = Some s3"
        "zip_at s3 fs (paint g True (paint ua False (paint p False ?T))) g (rb_parent s g)"
        "rb_frame (zip_set fs ?T) s s3" "rb_sentinel s3 = rb_sentinel s"
      using insert_recolor_zip [OF zg, of p ua g] u by auto
    have "paint g True (paint ua False (paint p False ?T)) = Node (blacken u) g True (Node (Node ta x c tb) p False l)"
      using d u by auto
    with s(4) have z3: "zip_at s3 fs (Node (blacken u) g True (Node (Node ta x c tb) p False l)) g (rb_parent s g)" by simp
    have set3: "zip_set fs (Node (blacken u) g True (Node (Node ta x c tb) p False l)) = zip_set fs ?T" by auto
    from fixup_okD [OF IH z3 s(6) [symmetric]] obtain s' where s': "rbtree_insert_fixup s3 (rb_sentinel s) g = Some s'"
        "rep s' (ins_fix fs (Node (blacken u) g True (Node (Node ta x c tb) p False l)))"
        "rb_frame (zip_set fs ?T) s3 s'"
      unfolding set3 by blast
    have "rbtree_insert_fixup s (rb_sentinel s) x = Some s'"
      by (subst rbtree_insert_fixup.simps) (simp add: x reads [unfolded ua] True s(1-3) s'(1))
    moreover have "rb_frame (zip_set fs ?T) s s'" using s(5) s'(3) by (rule rb_frame_trans_same)
    ultimately show ?thesis unfolding set using True s'(2) by (simp del: set_append set_simps)
  next
    case False
    have set2: "zip_set (InR u g gc # fs) (Node (Node ta x c tb) p True l) = zip_set fs ?T" by auto
    obtain s1 where s1: "rbtree_right_rotate s (rb_sentinel s) p = Some s1"
        "zip_at s1 (InR u g gc # fs) (Node ta x c (Node tb p True l)) x g" "rb_frame (zip_set fs ?T) s s1"
      using right_rotate_zip [OF zp] unfolding set2 by blast
    then have "zip_at s1 fs (Node u g gc (Node ta x c (Node tb p True l))) g (rb_parent s1 g)"
      and "rb_sentinel s = rb_sentinel s1" unfolding zip_at_InR by (auto simp: rb_frame_def)
    from insert_fixup_rotate_R [OF this] obtain s2 where s2: "insert_rotate_R s1 (rb_sentinel s) p = Some s2"
        "rep s2 (ins_fix (InL p True l # InR u g gc # fs) (Node ta x c tb))" "rb_frame (zip_set fs ?T) s1 s2"
      using False by auto
    have "rbtree_insert_fixup s (rb_sentinel s) x = Some s2"
      using x reads False s1(1) s2(1) by (subst rbtree_insert_fixup.simps) (simp add: insert_rotate_R_def)
    moreover have "rb_frame (zip_set fs ?T) s s2" using s1(3) s2(3) by (rule rb_frame_trans_same)
    ultimately show ?thesis unfolding set using s2(2) by blast
  qed
qed

text \<open>The loop ends, faults nowhere, and leaves the tree that \<open>ins_fix\<close> computes.\<close>

lemma insert_fixup_zip: "top_black fs \<Longrightarrow> fixup_ok fs"
proof (induction "length fs" arbitrary: fs rule: less_induct)
  case less
  show ?case
  proof (cases "fs = [] \<or> \<not> frame_red (hd fs)")
    case True
    have "ins_fix fs (Node ta x c tb) = plug fs (Node ta x c tb)" for ta x c tb
      using True by (cases "(fs, Node ta x c tb)" rule: ins_fix.cases) auto
    then show ?thesis
      unfolding fixup_ok_def using insert_fixup_stop [OF _ True] zip_at_rep by fastforce
  next
    case False
    then obtain f g gs where fs: "fs = f # g # gs" "frame_red f"
      using less.prems by (cases fs; cases "tl fs") (auto simp: top_black_def)
    then have IH: "fixup_ok gs" using less by (auto simp: top_black_def split: if_splits)
    with fs show ?thesis
      by (cases f; cases g)
        (auto intro: insert_fixup_LL insert_fixup_LR insert_fixup_RR insert_fixup_RL)
  qed
qed

section \<open>Red-black invariants\<close>

fun bh :: "rbt \<Rightarrow> nat" where
  "bh Leaf = 0"
| "bh (Node l a c r) = bh l + (if c then 0 else 1)"

fun rb_ok :: "rbt \<Rightarrow> bool" where
  "rb_ok Leaf \<longleftrightarrow> True"
| "rb_ok (Node l a c r) \<longleftrightarrow>
     rb_ok l \<and> rb_ok r \<and> bh l = bh r \<and> (c \<longrightarrow> \<not> is_red l \<and> \<not> is_red r)"

text \<open>
  The same for a path whose hole has the given black height; \<open>red\<close> says whether the hole may be
  filled with a red node (\<open>False\<close> demands nothing of the colour above it).
\<close>

fun ctx_ok :: "frame list \<Rightarrow> bool \<Rightarrow> nat \<Rightarrow> bool" where
  "ctx_ok [] red n \<longleftrightarrow> True"
| "ctx_ok (InL a c r # fs) red n \<longleftrightarrow>
     rb_ok r \<and> bh r = n \<and> (c \<longrightarrow> \<not> is_red r \<and> \<not> red) \<and> ctx_ok fs c (n + (if c then 0 else 1))"
| "ctx_ok (InR l a c # fs) red n \<longleftrightarrow>
     rb_ok l \<and> bh l = n \<and> (c \<longrightarrow> \<not> is_red l \<and> \<not> red) \<and> ctx_ok fs c (n + (if c then 0 else 1))"

lemma ctx_ok_False: "ctx_ok fs red n \<Longrightarrow> ctx_ok fs False n"
  by (cases fs rule: before.cases) auto

lemma ctx_ok_black: "\<not> frame_red f \<Longrightarrow> ctx_ok (f # fs) True n \<longleftrightarrow> ctx_ok (f # fs) False n"
  by (cases f) auto

lemma rb_ok_plug: "rb_ok (plug fs t) \<longleftrightarrow> rb_ok t \<and> ctx_ok fs (is_red t) (bh t)"
  by (induction fs t rule: plug.induct) auto

lemma rb_ok_blacken: "rb_ok t \<Longrightarrow> rb_ok (blacken t)"
  by (cases t) auto

lemma is_red_blacken [simp]: "\<not> is_red (blacken t)"
  by (cases t) auto

lemma bh_blacken: "bh (blacken t) = bh t + (if is_red t then 1 else 0)"
  by (cases t) auto

lemma blacken_black: "\<not> is_red t \<Longrightarrow> blacken t = t"
  by (cases t) auto

lemma is_red_plug: "top_black fs \<Longrightarrow> fs \<noteq> [] \<Longrightarrow> \<not> is_red (plug fs t)"
  by (induction fs t rule: plug.induct) (auto simp: top_black_def split: if_splits)

lemma top_black_plug: "\<not> is_red (plug fs t) \<Longrightarrow> top_black fs"
  by (induction fs t rule: plug.induct) (auto simp: top_black_def split: if_splits)

lemma top_black_tl: "top_black (f # fs) \<Longrightarrow> top_black fs"
  by (auto simp: top_black_def split: if_splits)

lemma ins_fix_rb_ok:
  "rb_ok t \<Longrightarrow> is_red t \<Longrightarrow> ctx_ok fs False (bh t) \<Longrightarrow> top_black fs \<Longrightarrow> rb_ok (blacken (ins_fix fs t))"
proof (induction fs t rule: ins_fix.induct)
  case (1 p r g gc u fs t)
  then show ?case
    using top_black_tl [of "InL p True r" "InL g gc u # fs"] top_black_tl [of "InL g gc u" fs]
    by (auto simp: rb_ok_blacken rb_ok_plug bh_blacken split: if_splits dest: ctx_ok_False)
next
  case (2 l p g gc u fs ta x c tb)
  then show ?case
    using top_black_tl [of "InR l p True" "InL g gc u # fs"] top_black_tl [of "InL g gc u" fs]
    by (auto simp: rb_ok_blacken rb_ok_plug bh_blacken split: if_splits dest: ctx_ok_False)
next
  case (3 l p u g gc fs t)
  then show ?case
    using top_black_tl [of "InR l p True" "InR u g gc # fs"] top_black_tl [of "InR u g gc" fs]
    by (auto simp: rb_ok_blacken rb_ok_plug bh_blacken split: if_splits dest: ctx_ok_False)
next
  case (4 p r u g gc fs ta x c tb)
  then show ?case
    using top_black_tl [of "InL p True r" "InR u g gc # fs"] top_black_tl [of "InR u g gc" fs]
    by (auto simp: rb_ok_blacken rb_ok_plug bh_blacken split: if_splits dest: ctx_ok_False)
qed (auto simp: rb_ok_blacken rb_ok_plug bh_blacken top_black_def ctx_ok_black split: if_splits
    dest: ctx_ok_False)

section \<open>The descent to the leaf\<close>

text \<open>\<open>go a\<close> says that the new node goes to the left of \<open>a\<close>.\<close>

fun descend :: "(addr \<Rightarrow> bool) \<Rightarrow> frame list \<Rightarrow> rbt \<Rightarrow> frame list" where
  "descend go fs Leaf = fs"
| "descend go fs (Node l a c r) =
     (if go a then descend go (InL a c r # fs) l else descend go (InR l a c # fs) r)"

lemma plug_descend: "plug (descend go fs t) Leaf = plug fs t"
  by (induction go fs t rule: descend.induct) auto

lemma ctx_set_descend: "ctx_set (descend go fs t) = zip_set fs t"
  by (induction go fs t rule: descend.induct) auto

lemma before_after_descend: "before (descend go fs t) @ after (descend go fs t) = before fs @ inorder t @ after fs"
  using inorder_plug [of "descend go fs t" Leaf] by (simp add: plug_descend inorder_plug)

text \<open>On a tree in which everything right of a \<open>go\<close> node is a \<open>go\<close> node, the path splits the sequence.\<close>

lemma descend_split:
  assumes "sorted_wrt (\<lambda>a b. go a \<longrightarrow> go b) (inorder t)"
  shows "before (descend go fs t) = before fs @ filter (\<lambda>a. \<not> go a) (inorder t)
    \<and> after (descend go fs t) = filter go (inorder t) @ after fs"
  using assms
proof (induction go fs t rule: descend.induct)
  case (2 go fs l a c r)
  show ?case
  proof (cases "go a")
    case True
    then have "\<forall>b \<in> set (inorder r). go b" using 2(3) by (simp add: sorted_wrt_append)
    with True 2 show ?thesis by (simp add: sorted_wrt_append)
  next
    case False
    then have "\<forall>b \<in> set (inorder l). \<not> go b" using 2(3) by (auto simp: sorted_wrt_append)
    with False 2 show ?thesis by (simp add: sorted_wrt_append)
  qed
qed simp

text \<open>The two descent functions share this contract: one step compares, goes down or links.\<close>

locale descent =
  fixes ins :: "rbtree \<Rightarrow> addr \<Rightarrow> addr \<Rightarrow> addr \<Rightarrow> rbtree option" and less :: "u64 \<Rightarrow> u64 \<Rightarrow> bool"
  assumes ins_step: "ins s temp node sentinel = do {
     nk \<leftarrow> get_key s node;
     tk \<leftarrow> get_key s temp;
     p \<leftarrow> (if less nk tk then get_left s temp else get_right s temp);
     if p = sentinel
     then do {
       s \<leftarrow> (if less nk tk then set_left s temp node else set_right s temp node);
       s \<leftarrow> set_parent s node temp;
       s \<leftarrow> set_left s node sentinel;
       s \<leftarrow> set_right s node sentinel;
       rbt_red s node }
     else ins s p node sentinel }"
begin

lemma ins_zip:
  assumes "zip_at s fs t q par" and "t \<noteq> Leaf" and "x \<notin> zip_set fs t"
    and "x \<noteq> NULL" and "x \<noteq> rb_sentinel s"
  shows "\<exists>s' q' par'. ins s q x (rb_sentinel s) = Some s'
    \<and> zip_at s' (descend (\<lambda>b. less (rb_key s x) (rb_key s b)) fs t) (Node Leaf x True Leaf) q' par'
    \<and> rb_frame (insert x (zip_set fs t)) s s'"
  using assms
proof (induction t arbitrary: fs q par)
  case (Node l a c r)
  let ?go = "less (rb_key s x) (rb_key s a)"
  let ?child = "if ?go then l else r"
  let ?fs = "if ?go then InL a c r # fs else InR l a c # fs"
  let ?p = "if ?go then rb_left s a else rb_right s a"
  have a: "q = a" "a \<noteq> NULL" "a \<noteq> rb_sentinel s" using Node.prems(1) by (auto simp: zip_at_def)
  have z: "zip_at s ?fs ?child ?p a"
    using Node.prems(1) zip_at_NodeD [OF Node.prems(1)] by (auto simp: zip_at_InL zip_at_InR)
  have sets: "zip_set ?fs ?child = zip_set fs (Node l a c r)" by auto
  show ?case
  proof (cases "?child = Leaf")
    case True
    with z have p: "?p = rb_sentinel s" by (auto simp: zip_at_def)
    show ?thesis
      using z True p a Node.prems(3-5) zip_at_distinct [OF z]
      by (subst ins_step) (auto simp: rb_access zip_at_def sentinel_ok_def rb_frame_def split: if_splits)
  next
    case False
    with z have "?p \<noteq> rb_sentinel s" by (cases ?child) (auto simp: zip_at_def split: if_splits)
    then have step: "ins s q x (rb_sentinel s) = ins s ?p x (rb_sentinel s)"
      using a Node.prems(4) by (subst ins_step) (auto simp: rb_access)
    have "x \<notin> zip_set ?fs ?child" using Node.prems(3) sets by simp
    then have "\<exists>s' q' par'. ins s ?p x (rb_sentinel s) = Some s'
        \<and> zip_at s' (descend (\<lambda>b. less (rb_key s x) (rb_key s b)) ?fs ?child) (Node Leaf x True Leaf) q' par'
        \<and> rb_frame (insert x (zip_set ?fs ?child)) s s'"
    proof (cases ?go)
      case go: True
      with z False \<open>x \<notin> zip_set ?fs ?child\<close> have
        "zip_at s (InL a c r # fs) l (rb_left s a) a" "l \<noteq> Leaf" "x \<notin> zip_set (InL a c r # fs) l"
        by (simp_all only: if_True not_False_eq_True)
      from Node.IH(1) [OF this Node.prems(4,5)] go show ?thesis by (simp only: if_True)
    next
      case go: False
      with z False \<open>x \<notin> zip_set ?fs ?child\<close> have
        "zip_at s (InR l a c # fs) r (rb_right s a) a" "r \<noteq> Leaf" "x \<notin> zip_set (InR l a c # fs) r"
        by (simp_all only: if_False not_False_eq_True)
      from Node.IH(2) [OF this Node.prems(4,5)] go show ?thesis by (simp only: if_False)
    qed
    then show ?thesis unfolding sets step by (simp split: if_splits)
  qed
qed simp

end

interpretation value_descent: descent rbtree_insert_value key_less_value
  by unfold_locales (subst rbtree_insert_value.simps, rule refl)

interpretation timer_descent: descent rbtree_insert_timer_value key_less_timer
  by unfold_locales (subst rbtree_insert_timer_value.simps, rule refl)

text \<open>The comparison that the tree's \<open>insert\<close> pointer selects.\<close>

fun key_less :: "rbtree_insert_pt \<Rightarrow> u64 \<Rightarrow> u64 \<Rightarrow> bool" where
  "key_less Rbtree_insert_value = key_less_value"
| "key_less Rbtree_insert_timer_value = key_less_timer"

lemma tree_insert_zip:
  assumes "zip_at s fs t q par" and "t \<noteq> Leaf" and "x \<notin> zip_set fs t"
    and "x \<noteq> NULL" and "x \<noteq> rb_sentinel s"
  shows "\<exists>s' q' par'. tree_insert s q x (rb_sentinel s) = Some s'
    \<and> zip_at s' (descend (\<lambda>b. key_less (rb_insert s) (rb_key s x) (rb_key s b)) fs t) (Node Leaf x True Leaf) q' par'
    \<and> rb_frame (insert x (zip_set fs t)) s s'"
  using value_descent.ins_zip [OF assms] timer_descent.ins_zip [OF assms]
  by (cases "rb_insert s") (simp_all add: tree_insert_def)

section \<open>rbtree\_insert\<close>

text \<open>A tree in memory that satisfies the red-black conditions.\<close>

definition rbtree_ok :: "rbtree \<Rightarrow> rbt \<Rightarrow> bool" where
  "rbtree_ok s t \<longleftrightarrow> rep s t \<and> rb_ok t \<and> \<not> is_red t"

definition ins_tree :: "(addr \<Rightarrow> bool) \<Rightarrow> addr \<Rightarrow> rbt \<Rightarrow> rbt" where
  "ins_tree go x t = blacken (ins_fix (descend go [] t) (Node Leaf x True Leaf))"

lemma descend_nonempty: "t \<noteq> Leaf \<Longrightarrow> descend go fs t \<noteq> []"
proof (induction go fs t rule: descend.induct)
  case (2 go fs l a c r)
  then show ?case by (cases l; cases r) auto
qed simp

lemma rep_zip_root: "rep s t \<longleftrightarrow> zip_at s [] t (rb_root s) (rb_parent s (rb_root s))"
  by (auto simp: rep_def zip_at_def)

lemma rep_blacken_root:
  assumes r: "rep s t" and ne: "t \<noteq> Leaf"
  shows "\<exists>s'. rbt_black s (rb_root s) = Some s' \<and> rep s' (blacken t)
    \<and> rb_frame (set (inorder t)) s s'"
proof -
  obtain l a c r' where t: "t = Node l a c r'" using ne by (cases t) auto
  from r t have a: "rb_root s = a" by (simp add: rep_def)
  from r have z: "zip_at s [] t (rb_root s) (rb_parent s (rb_root s))" by (simp add: rep_zip_root)
  from rbt_black_zip [OF z, of a] t obtain s' where
    "rbt_black s a = Some s'" "zip_at s' [] (blacken t) a (rb_parent s a)" "rb_frame (set (inorder t)) s s'"
    by (auto simp: a)
  then show ?thesis using zip_at_rep [of s' "[]"] a by auto
qed

lemma rbtree_insert_rep:
  assumes ok: "rbtree_ok s t" and x: "x \<notin> set (inorder t)" "x \<noteq> NULL" "x \<noteq> rb_sentinel s"
  shows "\<exists>s'. rbtree_insert s x = Some s'
    \<and> rep s' (ins_tree (\<lambda>b. key_less (rb_insert s) (rb_key s x) (rb_key s b)) x t)
    \<and> rb_frame (insert x (set (inorder t))) s s'"
proof (cases "t = Leaf")
  case True
  with ok x show ?thesis
    by (auto simp: rbtree_insert_def Let_def rbtree_ok_def rep_def rb_access ins_tree_def sentinel_ok_def rb_frame_def)
next
  case False
  let ?go = "\<lambda>b. key_less (rb_insert s) (rb_key s x) (rb_key s b)"
  let ?n = "Node Leaf x True Leaf"
  from ok have z: "zip_at s [] t (rb_root s) (rb_parent s (rb_root s))"
    by (simp add: rbtree_ok_def rep_zip_root)
  have root: "rb_root s \<noteq> rb_sentinel s" using z False by (cases t) (auto simp: zip_at_def)
  obtain s1 q' par' where s1: "tree_insert s (rb_root s) x (rb_sentinel s) = Some s1"
      "zip_at s1 (descend ?go [] t) ?n q' par'" "rb_frame (insert x (set (inorder t))) s s1"
  proof -
    have zs: "zip_set [] t = set (inorder t)" by simp
    with x(1) have "x \<notin> zip_set [] t" by simp
    from tree_insert_zip [OF z False this x(2,3)] that show ?thesis unfolding zs by blast
  qed
  have "\<not> is_red (plug (descend ?go [] t) Leaf)"
    using ok by (simp add: plug_descend rbtree_ok_def)
  then obtain s2 where s2:
      "rbtree_insert_fixup s1 (rb_sentinel s1) x = Some s2"
      "rep s2 (ins_fix (descend ?go [] t) ?n)" "rb_frame (insert x (set (inorder t))) s1 s2"
  proof -
    have zs: "zip_set (descend ?go [] t) ?n = insert x (set (inorder t))"
      using ctx_set_descend [of ?go "[]" t] by auto
    from fixup_okD [OF insert_fixup_zip [OF top_black_plug [OF \<open>\<not> is_red _\<close>]] s1(2) refl] that
    show ?thesis unfolding zs by blast
  qed
  have io: "set (inorder (ins_fix (descend ?go [] t) ?n)) = insert x (set (inorder t))"
    using ctx_set_descend [of ?go "[]" t] by (auto simp: inorder_ins_fix inorder_plug)
  then have "ins_fix (descend ?go [] t) ?n \<noteq> Leaf" by auto
  from rep_blacken_root [OF s2(2) this] obtain s3 where s3: "rbt_black s2 (rb_root s2) = Some s3"
      "rep s3 (ins_tree ?go x t)" "rb_frame (insert x (set (inorder t))) s2 s3"
    unfolding io ins_tree_def by blast
  have "rb_sentinel s1 = rb_sentinel s" using s1(3) by (simp add: rb_frame_def)
  then have "rbtree_insert s x = Some s3"
    using root s1(1) s2(1) s3(1) by (simp add: rbtree_insert_def)
  moreover have "rb_frame (insert x (set (inorder t))) s s3"
    using s1(3) s2(3) s3(3) rb_frame_trans_same by blast
  ultimately show ?thesis using s3(2) by blast
qed

lemma ins_tree_ok:
  assumes "rb_ok t" and "\<not> is_red t"
  shows "rb_ok (ins_tree go x t)" and "\<not> is_red (ins_tree go x t)"
proof -
  have "rb_ok (plug (descend go [] t) Leaf)" and "\<not> is_red (plug (descend go [] t) Leaf)"
    using assms by (simp_all add: plug_descend)
  then have "ctx_ok (descend go [] t) False 0" and "top_black (descend go [] t)"
    by (auto simp: rb_ok_plug intro: top_black_plug)
  then show "rb_ok (ins_tree go x t)"
    using ins_fix_rb_ok [of "Node Leaf x True Leaf"] by (simp add: ins_tree_def)
qed (simp add: ins_tree_def)

lemma inorder_ins_tree:
  assumes "sorted_wrt (\<lambda>a b. go a \<longrightarrow> go b) (inorder t)"
  shows "inorder (ins_tree go x t) = filter (\<lambda>a. \<not> go a) (inorder t) @ x # filter go (inorder t)"
  using descend_split [OF assms, of "[]"] by (simp add: ins_tree_def inorder_ins_fix inorder_plug)

end
