(* ===== verification/Rbtree_Delete.thy ===== *)
theory Rbtree_Delete
  imports Rbtree_Insert
begin

text \<open>
  \<open>rbtree_delete\<close>: the node that leaves its place is unlinked, its place in the tree is given
  to its only child, and the black height is repaired by the loop that the zipper function
  \<open>del_fix\<close> follows. The sentinel takes part: when the child is the sentinel, its \<open>parent\<close>
  field carries the position of the hole.
\<close>

section \<open>The repair loop on zippers\<close>

text \<open>
  The black-height repair with a black sibling \<open>w\<close> that has a red child: one or two rotations
  end the loop. \<open>t\<close> is the subtree that is one black node short, \<open>p\<close> its parent.
\<close>

fun rot_L :: "rbt \<Rightarrow> addr \<Rightarrow> bool \<Rightarrow> rbt \<Rightarrow> addr \<Rightarrow> rbt \<Rightarrow> rbt" where
  "rot_L t p c a w b = (if is_red b then Node (Node t p False a) w c (blacken b)
     else case a of Leaf \<Rightarrow> Leaf | Node al x cx ar \<Rightarrow> Node (Node t p False al) x c (Node ar w False b))"

fun rot_R :: "rbt \<Rightarrow> addr \<Rightarrow> rbt \<Rightarrow> addr \<Rightarrow> bool \<Rightarrow> rbt \<Rightarrow> rbt" where
  "rot_R b w a p c t = (if is_red b then Node (blacken b) w c (Node a p False t)
     else case a of Leaf \<Rightarrow> Leaf | Node al x cx ar \<Rightarrow> Node (Node b w False al) x c (Node ar p False t))"

text \<open>
  A red sibling is rotated above the parent first. With two black nephews the sibling is painted
  red and the loop goes up, which ends at once when the parent is red.
\<close>

fun del_fix :: "frame list \<Rightarrow> rbt \<Rightarrow> rbt" where
  "del_fix [] t = blacken t"
| "del_fix (InL p c (Node a w cw b) # fs) t =
     (if is_red t then plug (InL p c (Node a w cw b) # fs) (blacken t)
      else if cw then (case a of Leaf \<Rightarrow> Leaf | Node a1 w1 c1 b1 \<Rightarrow>
        plug (InL w False b # fs) (if \<not> is_red a1 \<and> \<not> is_red b1 then Node t p False (Node a1 w1 True b1)
          else rot_L t p True a1 w1 b1))
      else if \<not> is_red a \<and> \<not> is_red b then del_fix fs (Node t p c (Node a w True b))
      else plug fs (rot_L t p c a w b))"
| "del_fix (InR (Node b w cw a) p c # fs) t =
     (if is_red t then plug (InR (Node b w cw a) p c # fs) (blacken t)
      else if cw then (case a of Leaf \<Rightarrow> Leaf | Node b1 w1 c1 a1 \<Rightarrow>
        plug (InR b w False # fs) (if \<not> is_red a1 \<and> \<not> is_red b1 then Node (Node b1 w1 True a1) p False t
          else rot_R b1 w1 a1 p True t))
      else if \<not> is_red a \<and> \<not> is_red b then del_fix fs (Node (Node b w True a) p c t)
      else plug fs (rot_R b w a p c t))"
| "del_fix fs t = plug fs (blacken t)"

lemma inorder_rot_L: "is_red a \<or> is_red b \<Longrightarrow> inorder (rot_L t p c a w b) = inorder t @ p # inorder a @ w # inorder b"
  by (cases a) auto

lemma inorder_rot_R: "is_red a \<or> is_red b \<Longrightarrow> inorder (rot_R b w a p c t) = inorder b @ w # inorder a @ p # inorder t"
  by (cases a) auto

lemma rot_L_rb_ok:
  assumes "rb_ok t" "rb_ok a" "rb_ok b" "bh a = bh t" "bh b = bh t" "is_red a \<or> is_red b" "\<not> is_red t"
  shows "rb_ok (rot_L t p c a w b)" "bh (rot_L t p c a w b) = bh t + (if c then 1 else 2)"
    "is_red (rot_L t p c a w b) = c"
  using assms by (cases a; cases b; auto)+

lemma rot_R_rb_ok:
  assumes "rb_ok t" "rb_ok a" "rb_ok b" "bh a = bh t" "bh b = bh t" "is_red a \<or> is_red b" "\<not> is_red t"
  shows "rb_ok (rot_R b w a p c t)" "bh (rot_R b w a p c t) = bh t + (if c then 1 else 2)"
    "is_red (rot_R b w a p c t) = c"
  using assms by (cases a; cases b; auto)+

lemma bh_black_pos: "bh t = Suc n \<Longrightarrow> t \<noteq> Leaf"
  by auto

lemma ctx_ok_weaken: "ctx_ok fs True n \<Longrightarrow> ctx_ok fs c n"
  by (cases fs rule: before.cases) auto

text \<open>
  One black node too few at the hole, everything else red-black: \<open>del_fix\<close> gives a red-black
  tree with the same in-order sequence.
\<close>

lemma rb_ok_plug_step:
  "rb_ok t' \<Longrightarrow> ctx_ok fs (is_red t') (bh t') \<Longrightarrow> top_black fs \<Longrightarrow> fs = [] \<longrightarrow> \<not> is_red t' \<Longrightarrow>
    rb_ok (plug fs t') \<and> \<not> is_red (plug fs t') \<and> inorder (plug fs t') = before fs @ inorder t' @ after fs"
  using is_red_plug [of fs t'] by (cases "fs = []") (auto simp: rb_ok_plug inorder_plug)

lemma del_fix_ok_L:
  assumes "rb_ok t" "\<not> is_red t" and c: "ctx_ok (InL p False (Node a w True b) # fs) False (Suc (bh t))"
    and top: "top_black fs"
  shows "rb_ok (del_fix (InL p c (Node a w True b) # fs) t) \<and> \<not> is_red (del_fix (InL p c (Node a w True b) # fs) t)
    \<and> inorder (del_fix (InL p c (Node a w True b) # fs) t) = before fs @ inorder t @ p # inorder a @ w # inorder b @ after fs"
proof -
  obtain a1 w1 b1 where a: "a = Node a1 w1 False b1" using c by (cases a) auto
  let ?t = "if \<not> is_red a1 \<and> \<not> is_red b1 then Node t p False (Node a1 w1 True b1) else rot_L t p True a1 w1 b1"
  have t: "rb_ok ?t" "bh ?t = Suc (bh t)" "inorder ?t = inorder t @ p # inorder a"
    using assms a rot_L_rb_ok [of t a1 b1 p True w1] inorder_rot_L [of a1 b1 t p True w1]
    by (auto simp del: rot_L.simps)
  have top': "top_black (InL w False b # fs)" using top by (auto simp: top_black_def)
  have "ctx_ok (InL w False b # fs) (is_red ?t) (bh ?t)" unfolding t(2) using c a by simp
  from rb_ok_plug_step [OF t(1) this top'] have
    "rb_ok (plug (InL w False b # fs) ?t) \<and> \<not> is_red (plug (InL w False b # fs) ?t)
      \<and> inorder (plug (InL w False b # fs) ?t) = before (InL w False b # fs) @ inorder ?t @ after (InL w False b # fs)"
    by simp
  moreover have "del_fix (InL p c (Node a w True b) # fs) t = plug (InL w False b # fs) ?t"
    using a assms(2) by simp
  ultimately show ?thesis unfolding t(3) by (simp del: del_fix.simps plug.simps)
qed

lemma del_fix_ok_R:
  assumes "rb_ok t" "\<not> is_red t" and c: "ctx_ok (InR (Node b w True a) p False # fs) False (Suc (bh t))"
    and top: "top_black fs"
  shows "rb_ok (del_fix (InR (Node b w True a) p c # fs) t) \<and> \<not> is_red (del_fix (InR (Node b w True a) p c # fs) t)
    \<and> inorder (del_fix (InR (Node b w True a) p c # fs) t) = before fs @ inorder b @ w # inorder a @ p # inorder t @ after fs"
proof -
  obtain a1 w1 b1 where a: "a = Node b1 w1 False a1" using c by (cases a) auto
  let ?t = "if \<not> is_red a1 \<and> \<not> is_red b1 then Node (Node b1 w1 True a1) p False t else rot_R b1 w1 a1 p True t"
  have t: "rb_ok ?t" "bh ?t = Suc (bh t)" "inorder ?t = inorder a @ p # inorder t"
    using assms a rot_R_rb_ok [of t a1 b1 w1 p True] inorder_rot_R [of a1 b1 w1 p True t]
    by (auto simp del: rot_R.simps)
  have top': "top_black (InR b w False # fs)" using top by (auto simp: top_black_def)
  have "ctx_ok (InR b w False # fs) (is_red ?t) (bh ?t)" unfolding t(2) using c a by simp
  from rb_ok_plug_step [OF t(1) this top'] have
    "rb_ok (plug (InR b w False # fs) ?t) \<and> \<not> is_red (plug (InR b w False # fs) ?t)
      \<and> inorder (plug (InR b w False # fs) ?t) = before (InR b w False # fs) @ inorder ?t @ after (InR b w False # fs)"
    by simp
  moreover have "del_fix (InR (Node b w True a) p c # fs) t = plug (InR b w False # fs) ?t"
    using a assms(2) by simp
  ultimately show ?thesis unfolding t(3) by (simp del: del_fix.simps plug.simps)
qed

lemma del_fix_ok:
  "rb_ok (blacken t) \<Longrightarrow> ctx_ok fs False (Suc (bh t)) \<Longrightarrow> top_black fs \<Longrightarrow>
    rb_ok (del_fix fs t) \<and> \<not> is_red (del_fix fs t) \<and> inorder (del_fix fs t) = before fs @ inorder t @ after fs"
proof (induction fs t rule: del_fix.induct)
  case (2 p c a w cw b fs t)
  have top: "top_black fs" using 2(4) by (rule top_black_tl)
  consider "is_red t" | "\<not> is_red t" "cw" | "\<not> is_red t" "\<not> cw" "\<not> is_red a" "\<not> is_red b"
    | "\<not> is_red t" "\<not> cw" "is_red a \<or> is_red b" by blast
  then show ?case
  proof cases
    case 1
    then show ?thesis using "2.prems" is_red_plug [OF "2.prems"(3)] by (auto simp: rb_ok_plug bh_blacken inorder_plug)
  next
    case cw: 2
    with "2.prems" have "rb_ok t" "ctx_ok (InL p False (Node a w True b) # fs) False (Suc (bh t))" "\<not> c"
      by (auto simp: blacken_black)
    from del_fix_ok_L [OF this(1) cw(1) this(2) top, of c] cw show ?thesis by (simp del: del_fix.simps)
  next
    case 3
    with "2.prems" have "ctx_ok fs c (Suc (bh (Node t p c (Node a w True b))))" and ok: "rb_ok (blacken (Node t p c (Node a w True b)))"
      by (auto simp: blacken_black)
    then have "ctx_ok fs False (Suc (bh (Node t p c (Node a w True b))))" using ctx_ok_False by blast
    from "2.IH" [OF 3(1,2) conjI [OF 3(3,4)] ok this top] 3 show ?thesis by simp
  next
    case 4
    let ?t = "rot_L t p c a w b"
    have t: "rb_ok ?t" "bh ?t = bh t + (if c then 1 else 2)" "is_red ?t = c"
      "inorder ?t = inorder t @ p # inorder a @ w # inorder b"
      using 4 "2.prems" rot_L_rb_ok [of t a b p c w] inorder_rot_L [of a b t p c w]
      by (auto simp: blacken_black simp del: rot_L.simps)
    moreover have "ctx_ok fs (is_red ?t) (bh ?t)" using "2.prems" unfolding t by (auto split: if_splits)
    moreover have "fs = [] \<longrightarrow> \<not> is_red ?t" using "2.prems" t by (auto simp: top_black_def)
    ultimately have "rb_ok (plug fs ?t) \<and> \<not> is_red (plug fs ?t) \<and> inorder (plug fs ?t) = before fs @ inorder ?t @ after fs"
      using top by (intro rb_ok_plug_step)
    moreover have "del_fix (InL p c (Node a w cw b) # fs) t = plug fs ?t" using 4 by auto
    ultimately show ?thesis using t(4) by (simp del: del_fix.simps)
  qed
next
  case (3 b w cw a p c fs t)
  have top: "top_black fs" using 3(4) by (rule top_black_tl)
  consider "is_red t" | "\<not> is_red t" "cw" | "\<not> is_red t" "\<not> cw" "\<not> is_red a" "\<not> is_red b"
    | "\<not> is_red t" "\<not> cw" "is_red a \<or> is_red b" by blast
  then show ?case
  proof cases
    case 1
    then show ?thesis using "3.prems" is_red_plug [OF "3.prems"(3)] by (auto simp: rb_ok_plug bh_blacken inorder_plug)
  next
    case cw: 2
    with "3.prems" have "rb_ok t" "ctx_ok (InR (Node b w True a) p False # fs) False (Suc (bh t))" "\<not> c"
      by (auto simp: blacken_black)
    from del_fix_ok_R [OF this(1) cw(1) this(2) top, of c] cw show ?thesis by (simp del: del_fix.simps)
  next
    case 3
    with "3.prems" have "ctx_ok fs c (Suc (bh (Node (Node b w True a) p c t)))" and ok: "rb_ok (blacken (Node (Node b w True a) p c t))"
      by (auto simp: blacken_black)
    then have "ctx_ok fs False (Suc (bh (Node (Node b w True a) p c t)))" using ctx_ok_False by blast
    from "3.IH" [OF 3(1,2) conjI [OF 3(3,4)] ok this top] 3 show ?thesis by simp
  next
    case 4
    let ?t = "rot_R b w a p c t"
    have t: "rb_ok ?t" "bh ?t = bh t + (if c then 1 else 2)" "is_red ?t = c"
      "inorder ?t = inorder b @ w # inorder a @ p # inorder t"
      using 4 "3.prems" rot_R_rb_ok [of t a b w p c] inorder_rot_R [of a b w p c t]
      by (auto simp: blacken_black simp del: rot_R.simps)
    moreover have "ctx_ok fs (is_red ?t) (bh ?t)" using "3.prems" unfolding t by (auto split: if_splits)
    moreover have "fs = [] \<longrightarrow> \<not> is_red ?t" using "3.prems" t by (auto simp: top_black_def)
    ultimately have "rb_ok (plug fs ?t) \<and> \<not> is_red (plug fs ?t) \<and> inorder (plug fs ?t) = before fs @ inorder ?t @ after fs"
      using top by (intro rb_ok_plug_step)
    moreover have "del_fix (InR (Node b w cw a) p c # fs) t = plug fs ?t" using 4 by auto
    ultimately show ?thesis using t(4) by (simp del: del_fix.simps)
  qed
qed (auto simp: top_black_def)

section \<open>The loop of the code follows it\<close>

lemma zip_at_notin:
  "zip_at s fs t q par \<Longrightarrow> rb_sentinel s \<notin> zip_set fs t \<and> NULL \<notin> zip_set fs t"
  by (auto simp: zip_at_def dest: tree_on_notin ctx_on_notin)

lemma zip_at_nonnull: "zip_at s fs t q par \<Longrightarrow> q \<noteq> NULL"
  by (cases t) (auto simp: zip_at_def sentinel_ok_def)

lemma zip_at_focus:
  "zip_at s fs t q par \<Longrightarrow> zip_at s' fs' t q' par' \<Longrightarrow> rb_sentinel s' = rb_sentinel s \<Longrightarrow> q' = q"
  by (cases t) (auto simp: zip_at_def)

text \<open>The parent of the focus survives what leaves the sentinel alone.\<close>

lemma hole_parent:
  "zip_at s' fs t q p \<Longrightarrow> rb_parent s q = p \<Longrightarrow> rb_frame A s s' \<Longrightarrow> rb_sentinel s \<notin> A \<Longrightarrow> rb_parent s' q = p"
  by (cases t) (auto simp: zip_at_def rb_frame_def)

lemma rbt_copy_color_zip:
  assumes "zip_at s fs t q par" and "a \<in> set (inorder t)" and "b \<in> set (inorder t)"
  shows "\<exists>s'. rbt_copy_color s a b = Some s' \<and> zip_at s' fs (paint a (rb_color s b \<noteq> 0) t) q par
    \<and> rb_frame (zip_set fs t) s s' \<and> rb_sentinel s' = rb_sentinel s"
proof -
  have "tree_at s t q par" "ctx_at s fs q par" "distinct (before fs @ inorder t @ after fs)" "sentinel_ok s"
    using assms by (auto simp: zip_at_def)
  moreover then have "a \<noteq> NULL" "b \<noteq> NULL" "a \<noteq> rb_sentinel s" "a \<notin> ctx_set fs"
    using assms(2,3) by (auto dest: tree_on_notin)
  ultimately show ?thesis
    using tree_on_paint [of _ _ _ _ _ t q par a "rb_color s b"] assms(2)
    by (auto simp: rbt_copy_color_def zip_at_def sentinel_ok_def rb_frame_def)
qed

lemma delete_fixup_root: "rbtree_delete_fixup s sent (rb_root s) = Some (s, rb_root s)"
  by (subst rbtree_delete_fixup.simps) simp

lemma delete_fixup_stop:
  assumes z: "zip_at s fs t q par" and stop: "fs = [] \<or> is_red t"
  shows "rbtree_delete_fixup s sent q = Some (s, q)"
proof (cases "q = rb_root s")
  case True
  then show ?thesis using delete_fixup_root by simp
next
  case False
  with z have "fs \<noteq> []" by (auto simp: zip_at_def)
  with stop z tree_at_is_red [of s t q par] have "rbt_is_black s q = Some False" by (auto simp: zip_at_def)
  with False show ?thesis by (subst rbtree_delete_fixup.simps) simp
qed

text \<open>The final \<open>rbt_black(temp)\<close>.\<close>

lemma delete_finish_zip:
  assumes z: "zip_at s fs t q par"
  shows "\<exists>s'. rbt_black s q = Some s' \<and> rep s' (plug fs (blacken t)) \<and> rb_frame (zip_set fs t) s s'"
proof (cases t)
  case Leaf
  with z have "q = rb_sentinel s" "rb_color s q = 0" "q \<noteq> NULL" by (auto simp: zip_at_def sentinel_ok_def)
  then have "rbt_black s q = Some (s\<lparr>rb_color := rb_color s\<rparr>)" by (simp add: rbt_black_def fun_upd_idem)
  then show ?thesis using zip_at_rep [OF z] Leaf by simp
next
  case (Node l a c r)
  with zip_at_NodeD z have "q = a" by blast
  with rbt_black_zip [OF z, of a] Node show ?thesis by (auto dest: zip_at_rep)
qed

text \<open>What the loop does once the sibling is black, on the left and on the right.\<close>

definition delete_rotate_L :: "rbtree \<Rightarrow> addr \<Rightarrow> addr \<Rightarrow> addr \<Rightarrow> (rbtree \<times> addr) option" where
  "delete_rotate_L s sent temp w = do {
     tp \<leftarrow> get_parent s temp;
     s \<leftarrow> rbt_copy_color s w tp;
     s \<leftarrow> rbt_black s tp;
     x \<leftarrow> get_right s w;
     s \<leftarrow> rbt_black s x;
     s \<leftarrow> rbtree_left_rotate s sent tp;
     rbtree_delete_fixup s sent (rb_root s) }"

definition delete_balance_L :: "rbtree \<Rightarrow> addr \<Rightarrow> addr \<Rightarrow> addr \<Rightarrow> (rbtree \<times> addr) option" where
  "delete_balance_L s sent temp w = do {
     lb \<leftarrow> do { x \<leftarrow> get_left s w; rbt_is_black s x };
     both \<leftarrow> (if lb then do { x \<leftarrow> get_right s w; rbt_is_black s x } else Some False);
     if both
     then do {
       s \<leftarrow> rbt_red s w;
       tp \<leftarrow> get_parent s temp;
       rbtree_delete_fixup s sent tp }
     else do {
       rb \<leftarrow> do { x \<leftarrow> get_right s w; rbt_is_black s x };
       (s, w) \<leftarrow> (if rb
         then do {
           wl \<leftarrow> get_left s w;
           s \<leftarrow> rbt_black s wl;
           s \<leftarrow> rbt_red s w;
           s \<leftarrow> rbtree_right_rotate s sent w;
           tp \<leftarrow> get_parent s temp;
           w \<leftarrow> get_right s tp;
           Some (s, w) }
         else Some (s, w));
       delete_rotate_L s sent temp w } }"

definition delete_rotate_R :: "rbtree \<Rightarrow> addr \<Rightarrow> addr \<Rightarrow> addr \<Rightarrow> (rbtree \<times> addr) option" where
  "delete_rotate_R s sent temp w = do {
     tp \<leftarrow> get_parent s temp;
     s \<leftarrow> rbt_copy_color s w tp;
     s \<leftarrow> rbt_black s tp;
     x \<leftarrow> get_left s w;
     s \<leftarrow> rbt_black s x;
     s \<leftarrow> rbtree_right_rotate s sent tp;
     rbtree_delete_fixup s sent (rb_root s) }"

definition delete_balance_R :: "rbtree \<Rightarrow> addr \<Rightarrow> addr \<Rightarrow> addr \<Rightarrow> (rbtree \<times> addr) option" where
  "delete_balance_R s sent temp w = do {
     lb \<leftarrow> do { x \<leftarrow> get_left s w; rbt_is_black s x };
     both \<leftarrow> (if lb then do { x \<leftarrow> get_right s w; rbt_is_black s x } else Some False);
     if both
     then do {
       s \<leftarrow> rbt_red s w;
       tp \<leftarrow> get_parent s temp;
       rbtree_delete_fixup s sent tp }
     else do {
       lb \<leftarrow> do { x \<leftarrow> get_left s w; rbt_is_black s x };
       (s, w) \<leftarrow> (if lb
         then do {
           wr \<leftarrow> get_right s w;
           s \<leftarrow> rbt_black s wr;
           s \<leftarrow> rbt_red s w;
           s \<leftarrow> rbtree_left_rotate s sent w;
           tp \<leftarrow> get_parent s temp;
           w \<leftarrow> get_left s tp;
           Some (s, w) }
         else Some (s, w));
       delete_rotate_R s sent temp w } }"

text \<open>The loop, folded.\<close>

lemma delete_fixup_fold: "rbtree_delete_fixup s sentinel temp = do {
     go \<leftarrow> (if temp \<noteq> rb_root s then rbt_is_black s temp else Some False);
     if \<not> go then Some (s, temp)
     else do {
       tp \<leftarrow> get_parent s temp;
       tpl \<leftarrow> get_left s tp;
       if temp = tpl
       then do {
         w \<leftarrow> get_right s tp;
         wr \<leftarrow> rbt_is_red s w;
         (s, w) \<leftarrow> (if wr
           then do {
             s \<leftarrow> rbt_black s w;
             s \<leftarrow> rbt_red s tp;
             s \<leftarrow> rbtree_left_rotate s sentinel tp;
             tp \<leftarrow> get_parent s temp;
             w \<leftarrow> get_right s tp;
             Some (s, w) }
           else Some (s, w));
         delete_balance_L s sentinel temp w }
       else do {
         w \<leftarrow> get_left s tp;
         wr \<leftarrow> rbt_is_red s w;
         (s, w) \<leftarrow> (if wr
           then do {
             s \<leftarrow> rbt_black s w;
             s \<leftarrow> rbt_red s tp;
             s \<leftarrow> rbtree_right_rotate s sentinel tp;
             tp \<leftarrow> get_parent s temp;
             w \<leftarrow> get_left s tp;
             Some (s, w) }
           else Some (s, w));
         delete_balance_R s sentinel temp w } } }"
  unfolding delete_balance_L_def delete_rotate_L_def delete_balance_R_def delete_rotate_R_def
  by (rule rbtree_delete_fixup.simps)

lemma sib_reads_L:
  assumes "zip_at s fs (Node t p c (Node a w cw b)) p' par"
  shows "get_left s p = Some (rb_left s p)" "get_right s p = Some w" "rbt_is_red s w = Some cw"
    "get_left s w = Some (rb_left s w)" "get_right s w = Some (rb_right s w)"
    "rbt_is_black s (rb_left s w) = Some (\<not> is_red a)" "rbt_is_black s (rb_right s w) = Some (\<not> is_red b)"
    "(rb_color s p \<noteq> 0) = c"
  using assms tree_at_is_red [of s a "rb_left s w" w] tree_at_is_red [of s b "rb_right s w" w]
  by (auto simp: zip_at_def rb_access)

lemma delete_rotate_L_zip:
  assumes z: "zip_at s fs (Node t p c (Node a w cw b)) p par" and q: "get_parent s q = Some p"
    and b: "is_red b" and sent: "sent = rb_sentinel s"
  shows "\<exists>s'. delete_rotate_L s sent q w = Some (s', rb_root s')
    \<and> rep s' (plug fs (Node (Node t p False a) w c (blacken b)))
    \<and> rb_frame (zip_set fs (Node t p c (Node a w cw b))) s s'"
proof -
  let ?A = "zip_set fs (Node t p c (Node a w cw b))"
  obtain bl x br where x: "b = Node bl x True br" using b by (auto simp: is_red_Node)
  have d: "distinct (inorder (Node t p c (Node a w cw b)))" using zip_at_distinct [OF z] by blast
  note rd = sib_reads_L [OF z]
  obtain s1 where s1: "rbt_copy_color s w p = Some s1" "rb_frame ?A s s1" "rb_sentinel s1 = rb_sentinel s"
      "zip_at s1 fs (Node t p c (Node a w c b)) p par"
    using rbt_copy_color_zip [OF z, of w p] d rd by (auto split: if_splits)
  obtain s2 where s2: "rbt_black s1 p = Some s2" "rb_frame ?A s1 s2" "rb_sentinel s2 = rb_sentinel s"
      "zip_at s2 fs (Node t p False (Node a w c b)) p par"
    using rbt_black_zip [OF s1(4), of p] d s1(3) by (auto split: if_splits)
  have r: "get_right s2 w = Some x" using s2(4) x by (auto simp: zip_at_def rb_access)
  obtain s3 where s3: "rbt_black s2 x = Some s3" "rb_frame ?A s2 s3" "rb_sentinel s3 = rb_sentinel s"
      "zip_at s3 fs (Node t p False (Node a w c (blacken b))) p par"
    using rbt_black_zip [OF s2(4), of x] d s2(3) x by (auto split: if_splits)
  obtain s4 where s4: "rbtree_left_rotate s3 sent p = Some s4" "rb_frame ?A s3 s4"
      "zip_at s4 fs (Node (Node t p False a) w c (blacken b)) w par"
    using left_rotate_zip [OF s3(4)] s3(3) sent by auto
  have "delete_rotate_L s sent q w = Some (s4, rb_root s4)"
    unfolding delete_rotate_L_def by (simp add: q s1(1) s2(1) r s3(1) s4(1) delete_fixup_root)
  moreover have "rb_frame ?A s s4"
    using s1(2) s2(2) s3(2) s4(2) rb_frame_trans_same by blast
  ultimately show ?thesis using zip_at_rep [OF s4(3)] by blast
qed

lemma delete_balance_L_rotate:
  assumes z: "zip_at s (InL p c (Node a w False b) # fs) t q p" and q: "rb_parent s q = p"
    and red: "is_red a \<or> is_red b" and sent: "sent = rb_sentinel s"
  shows "\<exists>s'. delete_balance_L s sent q w = Some (s', rb_root s')
    \<and> rep s' (plug fs (rot_L t p c a w b))
    \<and> rb_frame (zip_set fs (Node t p c (Node a w False b))) s s'"
proof -
  let ?A = "zip_set fs (Node t p c (Node a w False b))"
  from z have zp: "zip_at s fs (Node t p c (Node a w False b)) p (rb_parent s p)"
    and z': "zip_at s (InR t p c # fs) (Node a w False b) w p"
    unfolding zip_at_InL zip_at_InR by (auto simp: zip_at_def)
  note rd = sib_reads_L [OF zp]
  have gq: "get_parent s q = Some p" using q zip_at_nonnull [OF z] by (simp add: get_parent_def)
  show ?thesis
  proof (cases "is_red b")
    case True
    then have "delete_balance_L s sent q w = delete_rotate_L s sent q w"
      unfolding delete_balance_L_def by (simp add: rd)
    with delete_rotate_L_zip [OF zp gq True sent] True show ?thesis by simp
  next
    case False
    with red obtain al x ar where a: "a = Node al x True ar" by (auto simp: is_red_Node)
    have d: "distinct (inorder (Node t p c (Node a w False b)))" using zip_at_distinct [OF zp] by blast
    have set: "zip_set (InR t p c # fs) (Node (Node al x f ar) w g b) = ?A" for f g using a by auto
    have lw: "rb_left s w = x" using zp a by (auto simp: zip_at_def)
    obtain s1 where s1: "rbt_black s x = Some s1" "rb_frame ?A s s1" "rb_sentinel s1 = rb_sentinel s"
        "zip_at s1 (InR t p c # fs) (Node (Node al x False ar) w False b) w p"
      using rbt_black_zip [OF z', of x] d unfolding a set by (auto split: if_splits)
    obtain s2 where s2: "rbt_red s1 w = Some s2" "rb_frame ?A s1 s2" "rb_sentinel s2 = rb_sentinel s"
        "zip_at s2 (InR t p c # fs) (Node (Node al x False ar) w True b) w p"
      using rbt_red_zip [OF s1(4), of w] d s1(3) unfolding a set by (auto split: if_splits)
    obtain s3 where s3: "rbtree_right_rotate s2 sent w = Some s3" "rb_frame ?A s2 s3"
        "zip_at s3 (InR t p c # fs) (Node al x False (Node ar w True b)) x p"
      using right_rotate_zip [OF s2(4)] s2(3) sent unfolding set by auto
    have f3: "rb_frame ?A s s3" using s1(2) s2(2) s3(2) rb_frame_trans_same by blast
    from s3(3) have z3: "zip_at s3 fs (Node t p c (Node al x False (Node ar w True b))) p (rb_parent s3 p)"
      unfolding zip_at_InR by blast
    have "zip_at s3 (InL p c (Node al x False (Node ar w True b)) # fs) t (rb_left s3 p) p"
      using z3 unfolding zip_at_InL by simp
    with zip_at_focus [OF z this] f3 have "rb_left s3 p = q" by (simp add: rb_frame_def)
    then have "zip_at s3 (InL p c (Node al x False (Node ar w True b)) # fs) t q p"
      using z3 unfolding zip_at_InL by simp
    from hole_parent [OF this q f3] zip_at_notin [OF zp] zip_at_nonnull [OF this]
    have g3: "get_parent s3 q = Some p" by (simp add: get_parent_def)
    have sent3: "sent = rb_sentinel s3" using f3 sent by (simp add: rb_frame_def)
    have "delete_balance_L s sent q w = delete_rotate_L s3 sent q x"
      unfolding delete_balance_L_def
      by (simp add: rd [unfolded lw] a False lw s1(1) s2(1) s3(1) g3 sib_reads_L [OF z3])
    with delete_rotate_L_zip [OF z3 g3 _ sent3] f3 show ?thesis using False a
      unfolding set by (fastforce intro: rb_frame_trans_same)
  qed
qed

text \<open>\<open>IH\<close>-style statement of the loop, as for the insertion.\<close>

definition delfix_ok :: "frame list \<Rightarrow> rbt \<Rightarrow> bool" where
  "delfix_ok fs t \<longleftrightarrow> (\<forall>s q par. zip_at s fs t q par \<longrightarrow> (fs \<noteq> [] \<longrightarrow> rb_parent s q = par) \<longrightarrow>
     (\<exists>s' temp s''. rbtree_delete_fixup s (rb_sentinel s) q = Some (s', temp) \<and> rbt_black s' temp = Some s''
        \<and> rep s'' (del_fix fs t) \<and> rb_frame (zip_set fs t) s s''))"

lemma delfix_okD:
  "delfix_ok fs t \<Longrightarrow> zip_at s fs t q par \<Longrightarrow> (fs \<noteq> [] \<longrightarrow> rb_parent s q = par) \<Longrightarrow> sent = rb_sentinel s \<Longrightarrow>
     \<exists>s' temp s''. rbtree_delete_fixup s sent q = Some (s', temp) \<and> rbt_black s' temp = Some s''
        \<and> rep s'' (del_fix fs t) \<and> rb_frame (zip_set fs t) s s''"
  unfolding delfix_ok_def by blast

lemma delfix_stop:
  assumes "fs = [] \<or> is_red t" and "del_fix fs t = plug fs (blacken t)"
  shows "delfix_ok fs t"
  unfolding delfix_ok_def using assms delete_fixup_stop [OF _ assms(1)] delete_finish_zip by fastforce

text \<open>After a rotation the loop ends at the root, which is black already.\<close>

lemma rep_black_root:
  assumes r: "rep s t" and b: "\<not> is_red t"
  shows "\<exists>s'. rbt_black s (rb_root s) = Some s' \<and> rep s' t \<and> rb_frame (set (inorder t)) s s'"
proof (cases "t = Leaf")
  case True
  from r have "zip_at s [] t (rb_root s) (rb_parent s (rb_root s))" by (simp add: rep_zip_root)
  from delete_finish_zip [OF this] True show ?thesis by simp
next
  case False
  with rep_blacken_root [OF r] blacken_black [OF b] show ?thesis by simp
qed

lemma not_red_plug: "top_black fs \<Longrightarrow> (fs = [] \<Longrightarrow> \<not> is_red t) \<Longrightarrow> \<not> is_red (plug fs t)"
  using is_red_plug by (cases "fs = []") auto

lemma is_red_rot: "is_red a \<or> is_red b \<Longrightarrow> is_red (rot_L t p c a w b) = c"
  "is_red a \<or> is_red b \<Longrightarrow> is_red (rot_R b w a p c t) = c"
  by (cases a; simp)+

lemma del_fix_red: "is_red t \<Longrightarrow> del_fix fs t = plug fs (blacken t)"
  by (cases "(fs, t)" rule: del_fix.cases) auto

lemma focus_not_root: "zip_at s (f # fs) t q par \<Longrightarrow> q \<noteq> rb_root s"
proof -
  assume z: "zip_at s (f # fs) t q par"
  then have "rb_root s \<in> ctx_set (f # fs)" by (auto simp: zip_at_def dest: ctx_on_root)
  moreover have "q \<notin> ctx_set (f # fs)"
    using z tree_on_root [of _ _ _ _ _ t q par] ctx_on_notin by (fastforce simp: zip_at_def)
  ultimately show ?thesis by metis
qed

subsection \<open>A short subtree on the left\<close>

lemma delete_balance_L_up:
  assumes z: "zip_at s (InL p c (Node a w False b) # fs) t q p" and q: "rb_parent s q = p"
    and black: "\<not> is_red a" "\<not> is_red b" and sent: "sent = rb_sentinel s"
  shows "\<exists>s1. delete_balance_L s sent q w = rbtree_delete_fixup s1 sent p
    \<and> zip_at s1 fs (Node t p c (Node a w True b)) p (rb_parent s1 p)
    \<and> rb_frame (zip_set fs (Node t p c (Node a w False b))) s s1"
proof -
  let ?A = "zip_set fs (Node t p c (Node a w False b))"
  from z have zp: "zip_at s fs (Node t p c (Node a w False b)) p (rb_parent s p)"
    unfolding zip_at_InL by auto
  have d: "distinct (inorder (Node t p c (Node a w False b)))" using zip_at_distinct [OF zp] by blast
  obtain s1 where s1: "rbt_red s w = Some s1" "rb_frame ?A s s1" "rb_sentinel s1 = rb_sentinel s"
      "zip_at s1 fs (Node t p c (Node a w True b)) p (rb_parent s p)"
    using rbt_red_zip [OF zp, of w] d by (auto split: if_splits)
  have zq: "zip_at s1 (InL p c (Node a w True b) # fs) t (rb_left s1 p) p"
    using s1(4) zip_at_NodeD [OF s1(4)] unfolding zip_at_InL by simp
  with zip_at_focus [OF z zq s1(3)] have "zip_at s1 (InL p c (Node a w True b) # fs) t q p" by simp
  from hole_parent [OF this q s1(2)] zip_at_notin [OF zp] zip_at_nonnull [OF this]
  have "get_parent s1 q = Some p" by (simp add: get_parent_def)
  then have "delete_balance_L s sent q w = rbtree_delete_fixup s1 sent p"
    unfolding delete_balance_L_def by (simp add: sib_reads_L [OF zp] black s1(1))
  with s1 zip_at_NodeD [OF s1(4)] show ?thesis by auto
qed

lemma delete_balance_L_ok:
  assumes z: "zip_at s (InL p c (Node a w False b) # fs) t q p" and q: "rb_parent s q = p"
    and IH: "\<not> is_red a \<Longrightarrow> \<not> is_red b \<Longrightarrow> delfix_ok fs (Node t p c (Node a w True b))"
    and top: "top_black fs" "fs = [] \<longrightarrow> \<not> c" and sent: "sent = rb_sentinel s"
  shows "\<exists>s' temp s''. delete_balance_L s sent q w = Some (s', temp) \<and> rbt_black s' temp = Some s''
    \<and> rep s'' (if \<not> is_red a \<and> \<not> is_red b then del_fix fs (Node t p c (Node a w True b)) else plug fs (rot_L t p c a w b))
    \<and> rb_frame (zip_set fs (Node t p c (Node a w False b))) s s''"
proof (cases "is_red a \<or> is_red b")
  case True
  let ?t = "rot_L t p c a w b"
  obtain s1 where s1: "delete_balance_L s sent q w = Some (s1, rb_root s1)" "rep s1 (plug fs ?t)"
      "rb_frame (zip_set fs (Node t p c (Node a w False b))) s s1"
    using delete_balance_L_rotate [OF z q True sent] by blast
  have "\<not> is_red (plug fs ?t)" using not_red_plug [OF top(1), of ?t] is_red_rot(1) [OF True] top(2) by blast
  from rep_black_root [OF s1(2) this] obtain s2 where s2: "rbt_black s1 (rb_root s1) = Some s2"
    "rep s2 (plug fs ?t)" "rb_frame (set (inorder (plug fs ?t))) s1 s2" by blast
  have io: "set (inorder (plug fs ?t)) = zip_set fs (Node t p c (Node a w False b))"
    unfolding inorder_plug inorder_rot_L [OF True] by auto
  have "rb_frame (zip_set fs (Node t p c (Node a w False b))) s s2"
    using s1(3) s2(3) unfolding io by (rule rb_frame_trans_same)
  with s1(1) s2 True show ?thesis by auto
next
  case False
  then obtain s1 where s1: "delete_balance_L s sent q w = rbtree_delete_fixup s1 sent p"
      "zip_at s1 fs (Node t p c (Node a w True b)) p (rb_parent s1 p)"
      "rb_frame (zip_set fs (Node t p c (Node a w False b))) s s1"
    using delete_balance_L_up [OF z q _ _ sent] by blast
  have sent1: "sent = rb_sentinel s1" using s1(3) sent by (simp add: rb_frame_def)
  have set: "zip_set fs (Node t p c (Node a w True b)) = zip_set fs (Node t p c (Node a w False b))" by simp
  from delfix_okD [OF IH s1(2) _ sent1] False show ?thesis
    unfolding s1(1) set using s1(3) by (auto intro: rb_frame_trans_same)
qed

lemma delfix_L:
  assumes IH: "\<not> cw \<Longrightarrow> \<not> is_red a \<Longrightarrow> \<not> is_red b \<Longrightarrow> delfix_ok fs (Node t p c (Node a w True b))"
    and top: "top_black (InL p c (Node a w cw b) # fs)" and t: "\<not> is_red t"
    and a: "cw \<Longrightarrow> a = Node a1 w1 False b1"
  shows "delfix_ok (InL p c (Node a w cw b) # fs) t"
  unfolding delfix_ok_def
proof (intro allI impI)
  fix s q par
  assume z: "zip_at s (InL p c (Node a w cw b) # fs) t q par"
    and "InL p c (Node a w cw b) # fs \<noteq> [] \<longrightarrow> rb_parent s q = par"
  then have par: "par = p" "rb_parent s q = p" unfolding zip_at_InL by auto
  note z = z [unfolded par(1)]
  have top': "top_black fs" "fs = [] \<longrightarrow> \<not> c" using top by (auto simp: top_black_def split: if_splits)
  from z have zp: "zip_at s fs (Node t p c (Node a w cw b)) p (rb_parent s p)" and lq: "rb_left s p = q"
    unfolding zip_at_InL by auto
  let ?A = "zip_set fs (Node t p c (Node a w cw b))"
  have set: "zip_set (InL p c (Node a w cw b) # fs) t = ?A" by auto
  have rq: "get_parent s q = Some p" "q \<noteq> rb_root s" "rbt_is_black s q = Some True"
    using par zip_at_nonnull [OF z] focus_not_root [OF z] z t tree_at_is_red [of s t q p]
    by (auto simp: get_parent_def zip_at_def)
  note rd = sib_reads_L [OF zp, unfolded lq]
  show "\<exists>s' temp s''. rbtree_delete_fixup s (rb_sentinel s) q = Some (s', temp) \<and> rbt_black s' temp = Some s''
        \<and> rep s'' (del_fix (InL p c (Node a w cw b) # fs) t)
        \<and> rb_frame (zip_set (InL p c (Node a w cw b) # fs) t) s s''"
  proof (cases cw)
    case False
    then have "rbtree_delete_fixup s (rb_sentinel s) q = delete_balance_L s (rb_sentinel s) q w"
      by (subst delete_fixup_fold) (simp add: rq rd)
    moreover have zF: "zip_at s (InL p c (Node a w False b) # fs) t q p" using z False by simp
    ultimately show ?thesis unfolding set
    using delete_balance_L_ok [OF zF par(2) IH [OF False] top' refl] False t by simp
  next
    case True
    note a = a [OF True]
    have d: "distinct (inorder (Node t p c (Node a w True b)))" using zip_at_distinct [OF zp] by auto
    obtain s1 where s1: "rbt_black s w = Some s1" "rb_frame ?A s s1" "rb_sentinel s1 = rb_sentinel s"
        "zip_at s1 fs (Node t p c (Node a w False b)) p (rb_parent s p)"
      using rbt_black_zip [OF zp, of w] d by (auto split: if_splits)
    obtain s2 where s2: "rbt_red s1 p = Some s2" "rb_frame ?A s1 s2" "rb_sentinel s2 = rb_sentinel s"
        "zip_at s2 fs (Node t p True (Node a w False b)) p (rb_parent s p)"
      using rbt_red_zip [OF s1(4), of p] d s1(3) by (auto split: if_splits)
    obtain s3 where s3: "rbtree_left_rotate s2 (rb_sentinel s) p = Some s3" "rb_frame ?A s2 s3"
        "zip_at s3 fs (Node (Node t p True a) w False b) w (rb_parent s p)"
      using left_rotate_zip [OF s2(4)] s2(3) by auto
    have f3: "rb_frame ?A s s3" using s1(2) s2(2) s3(2) rb_frame_trans_same by blast
    then have sent3: "rb_sentinel s = rb_sentinel s3" by (simp add: rb_frame_def)
    have zw: "zip_at s3 (InL w False b # fs) (Node t p True (Node a1 w1 False b1)) p w"
      using s3(3) zip_at_NodeD [OF s3(3)] unfolding a zip_at_InL by (auto simp: zip_at_def)
    then have "zip_at s3 (InL p True (Node a1 w1 False b1) # InL w False b # fs) t (rb_left s3 p) p"
      unfolding zip_at_InL [of s3 p] using zip_at_NodeD by metis
    with zip_at_focus [OF z this] sent3
    have z3: "zip_at s3 (InL p True (Node a1 w1 False b1) # InL w False b # fs) t q p" by simp
    have p3: "rb_parent s3 q = p"
      using hole_parent [OF z3 par(2) f3] zip_at_notin [OF zp] by blast
    then have g3: "get_parent s3 q = Some p" "get_right s3 p = Some w1"
      using zip_at_nonnull [OF z3] sib_reads_L(2) [OF zw] by (simp_all add: get_parent_def)
    have run: "rbtree_delete_fixup s (rb_sentinel s) q = delete_balance_L s3 (rb_sentinel s) q w1"
      by (subst delete_fixup_fold) (simp add: True rq rd s1(1) s2(1) s3(1) g3)
    have IH3: "delfix_ok (InL w False b # fs) (Node t p True (Node a1 w1 True b1))"
      by (rule delfix_stop) (simp_all add: del_fix_red)
    have top3: "top_black (InL w False b # fs)" "InL w False b # fs = [] \<longrightarrow> \<not> True"
      using top'(1) by (auto simp: top_black_def)
    have set3: "zip_set (InL w False b # fs) (Node t p True (Node a1 w1 False b1)) = ?A"
      unfolding a by auto
    have dfx: "(if \<not> is_red a1 \<and> \<not> is_red b1 then del_fix (InL w False b # fs) (Node t p True (Node a1 w1 True b1))
       else plug (InL w False b # fs) (rot_L t p True a1 w1 b1)) = del_fix (InL p c (Node a w cw b) # fs) t"
      using True a t by (simp add: del_fix_red)
    from delete_balance_L_ok [OF z3 p3 IH3 top3 sent3, unfolded set3 dfx] show ?thesis
      unfolding set run using f3 rb_frame_trans_same by blast
  qed
qed

subsection \<open>A short subtree on the right\<close>

lemma sib_reads_R:
  assumes "zip_at s fs (Node (Node b w cw a) p c t) p' par"
  shows "get_right s p = Some (rb_right s p)" "get_left s p = Some w" "rbt_is_red s w = Some cw"
    "get_right s w = Some (rb_right s w)" "get_left s w = Some (rb_left s w)"
    "rbt_is_black s (rb_right s w) = Some (\<not> is_red a)" "rbt_is_black s (rb_left s w) = Some (\<not> is_red b)"
    "(rb_color s p \<noteq> 0) = c"
  using assms tree_at_is_red [of s a "rb_right s w" w] tree_at_is_red [of s b "rb_left s w" w]
  by (auto simp: zip_at_def rb_access)

lemma delete_rotate_R_zip:
  assumes z: "zip_at s fs (Node (Node b w cw a) p c t) p par" and q: "get_parent s q = Some p"
    and b: "is_red b" and sent: "sent = rb_sentinel s"
  shows "\<exists>s'. delete_rotate_R s sent q w = Some (s', rb_root s')
    \<and> rep s' (plug fs (Node (blacken b) w c (Node a p False t)))
    \<and> rb_frame (zip_set fs (Node (Node b w cw a) p c t)) s s'"
proof -
  let ?A = "zip_set fs (Node (Node b w cw a) p c t)"
  obtain bl x br where x: "b = Node br x True bl" using b by (auto simp: is_red_Node)
  have d: "distinct (inorder (Node (Node b w cw a) p c t))" using zip_at_distinct [OF z] by blast
  note rd = sib_reads_R [OF z]
  obtain s1 where s1: "rbt_copy_color s w p = Some s1" "rb_frame ?A s s1" "rb_sentinel s1 = rb_sentinel s"
      "zip_at s1 fs (Node (Node b w c a) p c t) p par"
    using rbt_copy_color_zip [OF z, of w p] d rd by (auto split: if_splits)
  obtain s2 where s2: "rbt_black s1 p = Some s2" "rb_frame ?A s1 s2" "rb_sentinel s2 = rb_sentinel s"
      "zip_at s2 fs (Node (Node b w c a) p False t) p par"
    using rbt_black_zip [OF s1(4), of p] d s1(3) by (auto split: if_splits)
  have r: "get_left s2 w = Some x" using s2(4) x by (auto simp: zip_at_def rb_access)
  obtain s3 where s3: "rbt_black s2 x = Some s3" "rb_frame ?A s2 s3" "rb_sentinel s3 = rb_sentinel s"
      "zip_at s3 fs (Node (Node (blacken b) w c a) p False t) p par"
    using rbt_black_zip [OF s2(4), of x] d s2(3) x by (auto split: if_splits)
  obtain s4 where s4: "rbtree_right_rotate s3 sent p = Some s4" "rb_frame ?A s3 s4"
      "zip_at s4 fs (Node (blacken b) w c (Node a p False t)) w par"
    using right_rotate_zip [OF s3(4)] s3(3) sent by auto
  have "delete_rotate_R s sent q w = Some (s4, rb_root s4)"
    unfolding delete_rotate_R_def by (simp add: q s1(1) s2(1) r s3(1) s4(1) delete_fixup_root)
  moreover have "rb_frame ?A s s4"
    using s1(2) s2(2) s3(2) s4(2) rb_frame_trans_same by blast
  ultimately show ?thesis using zip_at_rep [OF s4(3)] by blast
qed

lemma delete_balance_R_rotate:
  assumes z: "zip_at s (InR (Node b w False a) p c # fs) t q p" and q: "rb_parent s q = p"
    and red: "is_red a \<or> is_red b" and sent: "sent = rb_sentinel s"
  shows "\<exists>s'. delete_balance_R s sent q w = Some (s', rb_root s')
    \<and> rep s' (plug fs (rot_R b w a p c t))
    \<and> rb_frame (zip_set fs (Node (Node b w False a) p c t)) s s'"
proof -
  let ?A = "zip_set fs (Node (Node b w False a) p c t)"
  from z have zp: "zip_at s fs (Node (Node b w False a) p c t) p (rb_parent s p)"
    and z': "zip_at s (InL p c t # fs) (Node b w False a) w p"
    unfolding zip_at_InR zip_at_InL by (auto simp: zip_at_def)
  note rd = sib_reads_R [OF zp]
  have gq: "get_parent s q = Some p" using q zip_at_nonnull [OF z] by (simp add: get_parent_def)
  show ?thesis
  proof (cases "is_red b")
    case True
    then have "delete_balance_R s sent q w = delete_rotate_R s sent q w"
      unfolding delete_balance_R_def by (simp add: rd)
    with delete_rotate_R_zip [OF zp gq True sent] True show ?thesis by simp
  next
    case False
    with red obtain al x ar where a: "a = Node ar x True al" by (auto simp: is_red_Node)
    have d: "distinct (inorder (Node (Node b w False a) p c t))" using zip_at_distinct [OF zp] by blast
    have set: "zip_set (InL p c t # fs) (Node b w g (Node ar x f al)) = ?A" for f g using a by auto
    have lw: "rb_right s w = x" using zp a by (auto simp: zip_at_def)
    obtain s1 where s1: "rbt_black s x = Some s1" "rb_frame ?A s s1" "rb_sentinel s1 = rb_sentinel s"
        "zip_at s1 (InL p c t # fs) (Node b w False (Node ar x False al)) w p"
      using rbt_black_zip [OF z', of x] d unfolding a set by (auto split: if_splits)
    obtain s2 where s2: "rbt_red s1 w = Some s2" "rb_frame ?A s1 s2" "rb_sentinel s2 = rb_sentinel s"
        "zip_at s2 (InL p c t # fs) (Node b w True (Node ar x False al)) w p"
      using rbt_red_zip [OF s1(4), of w] d s1(3) unfolding a set by (auto split: if_splits)
    obtain s3 where s3: "rbtree_left_rotate s2 sent w = Some s3" "rb_frame ?A s2 s3"
        "zip_at s3 (InL p c t # fs) (Node (Node b w True ar) x False al) x p"
      using left_rotate_zip [OF s2(4)] s2(3) sent unfolding set by auto
    have f3: "rb_frame ?A s s3" using s1(2) s2(2) s3(2) rb_frame_trans_same by blast
    from s3(3) have z3: "zip_at s3 fs (Node (Node (Node b w True ar) x False al) p c t) p (rb_parent s3 p)"
      unfolding zip_at_InL by blast
    have "zip_at s3 (InR (Node (Node b w True ar) x False al) p c # fs) t (rb_right s3 p) p"
      using z3 unfolding zip_at_InR by simp
    with zip_at_focus [OF z this] f3 have "rb_right s3 p = q" by (simp add: rb_frame_def)
    then have "zip_at s3 (InR (Node (Node b w True ar) x False al) p c # fs) t q p"
      using z3 unfolding zip_at_InR by simp
    from hole_parent [OF this q f3] zip_at_notin [OF zp] zip_at_nonnull [OF this]
    have g3: "get_parent s3 q = Some p" by (simp add: get_parent_def)
    have sent3: "sent = rb_sentinel s3" using f3 sent by (simp add: rb_frame_def)
    have "delete_balance_R s sent q w = delete_rotate_R s3 sent q x"
      unfolding delete_balance_R_def
      by (simp add: rd [unfolded lw] a False lw s1(1) s2(1) s3(1) g3 sib_reads_R [OF z3])
    with delete_rotate_R_zip [OF z3 g3 _ sent3] f3 show ?thesis using False a
      unfolding set by (fastforce intro: rb_frame_trans_same)
  qed
qed

lemma delete_balance_R_up:
  assumes z: "zip_at s (InR (Node b w False a) p c # fs) t q p" and q: "rb_parent s q = p"
    and black: "\<not> is_red a" "\<not> is_red b" and sent: "sent = rb_sentinel s"
  shows "\<exists>s1. delete_balance_R s sent q w = rbtree_delete_fixup s1 sent p
    \<and> zip_at s1 fs (Node (Node b w True a) p c t) p (rb_parent s1 p)
    \<and> rb_frame (zip_set fs (Node (Node b w False a) p c t)) s s1"
proof -
  let ?A = "zip_set fs (Node (Node b w False a) p c t)"
  from z have zp: "zip_at s fs (Node (Node b w False a) p c t) p (rb_parent s p)"
    unfolding zip_at_InR by auto
  have d: "distinct (inorder (Node (Node b w False a) p c t))" using zip_at_distinct [OF zp] by blast
  obtain s1 where s1: "rbt_red s w = Some s1" "rb_frame ?A s s1" "rb_sentinel s1 = rb_sentinel s"
      "zip_at s1 fs (Node (Node b w True a) p c t) p (rb_parent s p)"
    using rbt_red_zip [OF zp, of w] d by (auto split: if_splits)
  have zq: "zip_at s1 (InR (Node b w True a) p c # fs) t (rb_right s1 p) p"
    using s1(4) zip_at_NodeD [OF s1(4)] unfolding zip_at_InR by simp
  with zip_at_focus [OF z zq s1(3)] have "zip_at s1 (InR (Node b w True a) p c # fs) t q p" by simp
  from hole_parent [OF this q s1(2)] zip_at_notin [OF zp] zip_at_nonnull [OF this]
  have "get_parent s1 q = Some p" by (simp add: get_parent_def)
  then have "delete_balance_R s sent q w = rbtree_delete_fixup s1 sent p"
    unfolding delete_balance_R_def by (simp add: sib_reads_R [OF zp] black s1(1))
  with s1 zip_at_NodeD [OF s1(4)] show ?thesis by auto
qed

lemma delete_balance_R_ok:
  assumes z: "zip_at s (InR (Node b w False a) p c # fs) t q p" and q: "rb_parent s q = p"
    and IH: "\<not> is_red a \<Longrightarrow> \<not> is_red b \<Longrightarrow> delfix_ok fs (Node (Node b w True a) p c t)"
    and top: "top_black fs" "fs = [] \<longrightarrow> \<not> c" and sent: "sent = rb_sentinel s"
  shows "\<exists>s' temp s''. delete_balance_R s sent q w = Some (s', temp) \<and> rbt_black s' temp = Some s''
    \<and> rep s'' (if \<not> is_red a \<and> \<not> is_red b then del_fix fs (Node (Node b w True a) p c t) else plug fs (rot_R b w a p c t))
    \<and> rb_frame (zip_set fs (Node (Node b w False a) p c t)) s s''"
proof (cases "is_red a \<or> is_red b")
  case True
  let ?t = "rot_R b w a p c t"
  obtain s1 where s1: "delete_balance_R s sent q w = Some (s1, rb_root s1)" "rep s1 (plug fs ?t)"
      "rb_frame (zip_set fs (Node (Node b w False a) p c t)) s s1"
    using delete_balance_R_rotate [OF z q True sent] by blast
  have "\<not> is_red (plug fs ?t)" using not_red_plug [OF top(1), of ?t] is_red_rot(2) [OF True] top(2) by blast
  from rep_black_root [OF s1(2) this] obtain s2 where s2: "rbt_black s1 (rb_root s1) = Some s2"
    "rep s2 (plug fs ?t)" "rb_frame (set (inorder (plug fs ?t))) s1 s2" by blast
  have io: "set (inorder (plug fs ?t)) = zip_set fs (Node (Node b w False a) p c t)"
    unfolding inorder_plug inorder_rot_R [OF True] by auto
  have "rb_frame (zip_set fs (Node (Node b w False a) p c t)) s s2"
    using s1(3) s2(3) unfolding io by (rule rb_frame_trans_same)
  with s1(1) s2 True show ?thesis by auto
next
  case False
  then obtain s1 where s1: "delete_balance_R s sent q w = rbtree_delete_fixup s1 sent p"
      "zip_at s1 fs (Node (Node b w True a) p c t) p (rb_parent s1 p)"
      "rb_frame (zip_set fs (Node (Node b w False a) p c t)) s s1"
    using delete_balance_R_up [OF z q _ _ sent] by blast
  have sent1: "sent = rb_sentinel s1" using s1(3) sent by (simp add: rb_frame_def)
  have set: "zip_set fs (Node (Node b w True a) p c t) = zip_set fs (Node (Node b w False a) p c t)" by simp
  from delfix_okD [OF IH s1(2) _ sent1] False show ?thesis
    unfolding s1(1) set using s1(3) by (auto intro: rb_frame_trans_same)
qed

lemma delfix_R:
  assumes IH: "\<not> cw \<Longrightarrow> \<not> is_red a \<Longrightarrow> \<not> is_red b \<Longrightarrow> delfix_ok fs (Node (Node b w True a) p c t)"
    and top: "top_black (InR (Node b w cw a) p c # fs)" and t: "\<not> is_red t"
    and a: "cw \<Longrightarrow> a = Node b1 w1 False a1"
  shows "delfix_ok (InR (Node b w cw a) p c # fs) t"
  unfolding delfix_ok_def
proof (intro allI impI)
  fix s q par
  assume z: "zip_at s (InR (Node b w cw a) p c # fs) t q par"
    and "InR (Node b w cw a) p c # fs \<noteq> [] \<longrightarrow> rb_parent s q = par"
  then have par: "par = p" "rb_parent s q = p" unfolding zip_at_InR by auto
  note z = z [unfolded par(1)]
  have top': "top_black fs" "fs = [] \<longrightarrow> \<not> c" using top by (auto simp: top_black_def split: if_splits)
  from z have zp: "zip_at s fs (Node (Node b w cw a) p c t) p (rb_parent s p)" and lq: "rb_right s p = q"
    unfolding zip_at_InR by auto
  let ?A = "zip_set fs (Node (Node b w cw a) p c t)"
  have set: "zip_set (InR (Node b w cw a) p c # fs) t = ?A" by auto
  have rq: "get_parent s q = Some p" "q \<noteq> rb_root s" "rbt_is_black s q = Some True"
    using par zip_at_nonnull [OF z] focus_not_root [OF z] z t tree_at_is_red [of s t q p]
    by (auto simp: get_parent_def zip_at_def)
  have qw: "q \<noteq> w"
    using z tree_on_root [of _ _ _ _ _ t q p] zip_at_distinct [OF zp] zp by (auto simp: zip_at_def)
  note rd = sib_reads_R [OF zp, unfolded lq] qw
  show "\<exists>s' temp s''. rbtree_delete_fixup s (rb_sentinel s) q = Some (s', temp) \<and> rbt_black s' temp = Some s''
        \<and> rep s'' (del_fix (InR (Node b w cw a) p c # fs) t)
        \<and> rb_frame (zip_set (InR (Node b w cw a) p c # fs) t) s s''"
  proof (cases cw)
    case False
    then have "rbtree_delete_fixup s (rb_sentinel s) q = delete_balance_R s (rb_sentinel s) q w"
      by (subst delete_fixup_fold) (simp add: rq rd)
    moreover have zF: "zip_at s (InR (Node b w False a) p c # fs) t q p" using z False by simp
    ultimately show ?thesis unfolding set
    using delete_balance_R_ok [OF zF par(2) IH [OF False] top' refl] False t by simp
  next
    case True
    note a = a [OF True]
    have d: "distinct (inorder (Node (Node b w True a) p c t))" using zip_at_distinct [OF zp] by auto
    obtain s1 where s1: "rbt_black s w = Some s1" "rb_frame ?A s s1" "rb_sentinel s1 = rb_sentinel s"
        "zip_at s1 fs (Node (Node b w False a) p c t) p (rb_parent s p)"
      using rbt_black_zip [OF zp, of w] d by (auto split: if_splits)
    obtain s2 where s2: "rbt_red s1 p = Some s2" "rb_frame ?A s1 s2" "rb_sentinel s2 = rb_sentinel s"
        "zip_at s2 fs (Node (Node b w False a) p True t) p (rb_parent s p)"
      using rbt_red_zip [OF s1(4), of p] d s1(3) by (auto split: if_splits)
    obtain s3 where s3: "rbtree_right_rotate s2 (rb_sentinel s) p = Some s3" "rb_frame ?A s2 s3"
        "zip_at s3 fs (Node b w False (Node a p True t)) w (rb_parent s p)"
      using right_rotate_zip [OF s2(4)] s2(3) by auto
    have f3: "rb_frame ?A s s3" using s1(2) s2(2) s3(2) rb_frame_trans_same by blast
    then have sent3: "rb_sentinel s = rb_sentinel s3" by (simp add: rb_frame_def)
    have zw: "zip_at s3 (InR b w False # fs) (Node (Node b1 w1 False a1) p True t) p w"
      using s3(3) zip_at_NodeD [OF s3(3)] unfolding a zip_at_InR by (auto simp: zip_at_def)
    then have "zip_at s3 (InR (Node b1 w1 False a1) p True # InR b w False # fs) t (rb_right s3 p) p"
      unfolding zip_at_InR [of s3 "Node b1 w1 False a1" p for b1 w1 a1] using zip_at_NodeD by metis
    with zip_at_focus [OF z this] sent3
    have z3: "zip_at s3 (InR (Node b1 w1 False a1) p True # InR b w False # fs) t q p" by simp
    have p3: "rb_parent s3 q = p"
      using hole_parent [OF z3 par(2) f3] zip_at_notin [OF zp] by blast
    then have g3: "get_parent s3 q = Some p" "get_left s3 p = Some w1"
      using zip_at_nonnull [OF z3] sib_reads_R(2) [OF zw] by (simp_all add: get_parent_def)
    have run: "rbtree_delete_fixup s (rb_sentinel s) q = delete_balance_R s3 (rb_sentinel s) q w1"
      by (subst delete_fixup_fold) (simp add: True rq rd s1(1) s2(1) s3(1) g3)
    have IH3: "delfix_ok (InR b w False # fs) (Node (Node b1 w1 True a1) p True t)"
      by (rule delfix_stop) (simp_all add: del_fix_red)
    have top3: "top_black (InR b w False # fs)" "InR b w False # fs = [] \<longrightarrow> \<not> True"
      using top'(1) by (auto simp: top_black_def)
    have set3: "zip_set (InR b w False # fs) (Node (Node b1 w1 False a1) p True t) = ?A"
      unfolding a by auto
    have dfx: "(if \<not> is_red a1 \<and> \<not> is_red b1 then del_fix (InR b w False # fs) (Node (Node b1 w1 True a1) p True t)
       else plug (InR b w False # fs) (rot_R b1 w1 a1 p True t)) = del_fix (InR (Node b w cw a) p c # fs) t"
      using True a t by (simp add: del_fix_red)
    from delete_balance_R_ok [OF z3 p3 IH3 top3 sent3, unfolded set3 dfx] show ?thesis
      unfolding set run using f3 rb_frame_trans_same by blast
  qed
qed

subsection \<open>The loop\<close>

text \<open>Under the height invariant the loop ends, faults nowhere, and computes \<open>del_fix\<close>.\<close>

lemma delfix_zip:
  "rb_ok (blacken t) \<Longrightarrow> ctx_ok fs False (Suc (bh t)) \<Longrightarrow> top_black fs \<Longrightarrow> delfix_ok fs t"
proof (induction fs t rule: del_fix.induct)
  case (1 t)
  show ?case by (rule delfix_stop) simp_all
next
  case (2 p c a w cw b fs t)
  show ?case
  proof (cases "is_red t")
    case True
    then show ?thesis by (intro delfix_stop) (simp_all add: del_fix_red)
  next
    case False
    then have t: "rb_ok t" using "2.prems" by (simp add: blacken_black)
    have IH: "delfix_ok fs (Node t p c (Node a w True b))" if n: "\<not> cw" "\<not> is_red a" "\<not> is_red b"
    proof (rule "2.IH" [OF False])
      show "\<not> cw" "\<not> is_red a \<and> \<not> is_red b" "top_black fs"
        using n top_black_tl [OF "2.prems"(3)] by auto
      show "rb_ok (blacken (Node t p c (Node a w True b)))" using n t "2.prems" by auto
      have "ctx_ok fs c (Suc (bh (Node t p c (Node a w True b))))" using n "2.prems" by auto
      then show "ctx_ok fs False (Suc (bh (Node t p c (Node a w True b))))" by (rule ctx_ok_False)
    qed
    have "\<exists>a1 w1 b1. cw \<longrightarrow> a = Node a1 w1 False b1" using "2.prems" by (cases a) auto
    then obtain a1 w1 b1 where "cw \<longrightarrow> a = Node a1 w1 False b1" by blast
    then show ?thesis using delfix_L [OF IH "2.prems"(3) False] by blast
  qed
next
  case (3 b w cw a p c fs t)
  show ?case
  proof (cases "is_red t")
    case True
    then show ?thesis by (intro delfix_stop) (simp_all add: del_fix_red)
  next
    case False
    then have t: "rb_ok t" using "3.prems" by (simp add: blacken_black)
    have IH: "delfix_ok fs (Node (Node b w True a) p c t)" if n: "\<not> cw" "\<not> is_red a" "\<not> is_red b"
    proof (rule "3.IH" [OF False])
      show "\<not> cw" "\<not> is_red a \<and> \<not> is_red b" "top_black fs"
        using n top_black_tl [OF "3.prems"(3)] by auto
      show "rb_ok (blacken (Node (Node b w True a) p c t))" using n t "3.prems" by auto
      have "ctx_ok fs c (Suc (bh (Node (Node b w True a) p c t)))" using n "3.prems" by auto
      then show "ctx_ok fs False (Suc (bh (Node (Node b w True a) p c t)))" by (rule ctx_ok_False)
    qed
    have "\<exists>a1 w1 b1. cw \<longrightarrow> a = Node b1 w1 False a1" using "3.prems" by (cases a) auto
    then obtain a1 w1 b1 where "cw \<longrightarrow> a = Node b1 w1 False a1" by blast
    then show ?thesis using delfix_R [OF IH "3.prems"(3) False] by blast
  qed
qed auto

section \<open>Taking a node out of its place\<close>

text \<open>
  The link from the parent of \<open>m\<close> to \<open>m\<close> is redirected to its only child \<open>temp\<close>; the new
  parent of \<open>temp\<close> is written next, even when \<open>temp\<close> is the sentinel.
\<close>

definition unlink :: "rbtree \<Rightarrow> addr \<Rightarrow> addr \<Rightarrow> rbtree option" where
  "unlink s m temp = do {
     sp \<leftarrow> get_parent s m;
     spl \<leftarrow> get_left s sp;
     if m = spl then set_left s sp temp else set_right s sp temp }"

lemma frame_InR_left: "zip_at s (InR l a c # fs) (Node l' m cm r') q par \<Longrightarrow> m \<noteq> rb_left s a"
  using tree_on_root [of _ _ _ _ _ l "rb_left s a" a] by (auto simp: zip_at_def)

lemma unlink_ctx:
  assumes z: "zip_at s fs (Node l m c r) q par" and ne: "fs \<noteq> []"
  shows "\<exists>s1. unlink s m temp = Some s1 \<and> ctx_at s1 fs temp par
    \<and> rb_frame {par} s s1 \<and> rb_parent s1 = rb_parent s \<and> rb_color s1 = rb_color s \<and> rb_root s1 = rb_root s
    \<and> par \<in> ctx_set fs"
proof (cases fs rule: before.cases)
  case 1
  with ne show ?thesis by simp
next
  case (2 a c r gs)
  with z show ?thesis by (auto simp: unlink_def zip_at_def rb_access rb_frame_def)
next
  case (3 l a c gs)
  with z frame_InR_left [of s l a c gs] show ?thesis
    by (auto simp: unlink_def zip_at_def rb_access rb_frame_def)
qed

text \<open>\<open>t\<close> is the only subtree of \<open>m\<close>, the other one is empty.\<close>

lemma unlink_zip:
  assumes z: "zip_at s fs (Node l m c r) q par" and ne: "fs \<noteq> []"
    and t: "t = l \<and> temp = rb_left s m \<and> r = Leaf \<or> t = r \<and> temp = rb_right s m \<and> l = Leaf"
  shows "\<exists>s1 s2. unlink s m temp = Some s1 \<and> get_parent s1 m = Some par \<and> set_parent s1 temp par = Some s2
    \<and> zip_at s2 fs t temp par \<and> rb_parent s2 temp = par
    \<and> rb_frame (insert (rb_sentinel s) (ctx_set fs \<union> set (inorder t))) s s2"
proof -
  obtain s1 where s1: "unlink s m temp = Some s1" "ctx_at s1 fs temp par" "rb_frame {par} s s1"
    "rb_parent s1 = rb_parent s" "rb_color s1 = rb_color s" "rb_root s1 = rb_root s" "par \<in> ctx_set fs"
    using unlink_ctx [OF z ne] by blast
  have sent: "rb_sentinel s1 = rb_sentinel s" using s1(3) by (simp add: rb_frame_def)
  have d: "distinct (before fs @ inorder t @ after fs)" "m \<notin> set (inorder t)"
    and tm: "tree_at s t temp m" and m: "m \<noteq> NULL" "rb_parent s m = par" and sok: "sentinel_ok s"
    using z t by (auto simp: zip_at_def)
  have par: "par \<notin> set (inorder t)" using d s1(7) by auto
  have tm1: "tree_at s1 t temp m" using tree_at_frame [OF s1(3), of t temp m] par tm by simp
  have temp: "temp \<noteq> NULL" using tm sok by (cases t) (auto simp: sentinel_ok_def)
  define s2 where "s2 = s1\<lparr>rb_parent := (rb_parent s1)(temp := par)\<rparr>"
  have tn: "temp \<notin> ctx_set fs"
    using tm d z tree_on_root [OF tm] zip_at_notin [OF z] by (fastforce simp: zip_at_def)
  have "tree_at s2 t temp par"
    using tm1 d by (cases t) (auto simp: s2_def)
  moreover have "ctx_at s2 fs temp par" using s1(2) tn by (simp add: s2_def)
  moreover have "sentinel_ok s2" using sok sent s1(5) by (simp add: sentinel_ok_def s2_def)
  ultimately have "zip_at s2 fs t temp par" using d by (simp add: zip_at_def)
  moreover have "rb_frame (insert (rb_sentinel s) (ctx_set fs \<union> set (inorder t))) s s2"
    using s1 tree_on_root [OF tm] by (auto simp: rb_frame_def s2_def)
  moreover have "get_parent s1 m = Some par" "set_parent s1 temp par = Some s2" "rb_parent s2 temp = par"
    using m temp s1(4) by (simp_all add: get_parent_def set_parent_def s2_def)
  ultimately show ?thesis using s1(1) by blast
qed

text \<open>\<open>subst\<close> takes the place of \<open>node\<close>: everything in \<open>rbtree_delete_replace\<close> but the first write.\<close>

definition take_place :: "rbtree \<Rightarrow> addr \<Rightarrow> addr \<Rightarrow> addr \<Rightarrow> rbtree option" where
  "take_place s sentinel node subst = do {
     nl \<leftarrow> get_left s node;
     s \<leftarrow> set_left s subst nl;
     nr \<leftarrow> get_right s node;
     s \<leftarrow> set_right s subst nr;
     np \<leftarrow> get_parent s node;
     s \<leftarrow> set_parent s subst np;
     s \<leftarrow> rbt_copy_color s subst node;
     s \<leftarrow> (if node = rb_root s then Some (set_root s subst)
          else do {
            np \<leftarrow> get_parent s node;
            npl \<leftarrow> get_left s np;
            if node = npl then set_left s np subst else set_right s np subst });
     sl \<leftarrow> get_left s subst;
     s \<leftarrow> (if sl \<noteq> sentinel then set_parent s sl subst else Some s);
     sr \<leftarrow> get_right s subst;
     (if sr \<noteq> sentinel then set_parent s sr subst else Some s) }"

lemma delete_replace_fold: "rbtree_delete_replace s sentinel node subst temp = do {
     sp \<leftarrow> get_parent s subst;
     s \<leftarrow> set_parent s temp (if sp = node then subst else sp);
     take_place s sentinel node subst }"
  unfolding take_place_def by (rule rbtree_delete_replace_def)

lemma take_place_zip:
  assumes c: "ctx_at s fs x px" and l: "tree_at s l (rb_left s x) x" and r: "tree_at s r (rb_right s x) pr"
    and x: "x \<noteq> NULL" "x \<noteq> rb_sentinel s" "rb_parent s x = px" "(rb_color s x \<noteq> 0) = cx"
    and m: "m \<noteq> NULL" "m \<noteq> rb_sentinel s" "m \<notin> insert x (ctx_set fs \<union> set (inorder l) \<union> set (inorder r))"
    and d: "distinct (before fs @ inorder l @ x # inorder r @ after fs)" and sok: "sentinel_ok s"
  shows "\<exists>s'. take_place s (rb_sentinel s) x m = Some s' \<and> zip_at s' fs (Node l m cx r) m px
    \<and> rb_frame (insert m (ctx_set fs \<union> set (inorder l) \<union> set (inorder r))) s s'"
proof -
  have ds: "x \<notin> ctx_set fs" "x \<notin> set (inorder l)" "x \<notin> set (inorder r)" "distinct (before fs @ after fs)"
    "distinct (inorder l)" "distinct (inorder r)" "ctx_set fs \<inter> set (inorder l) = {}"
    "ctx_set fs \<inter> set (inorder r) = {}" "set (inorder l) \<inter> set (inorder r) = {}"
    using d by auto
  have ms: "m \<noteq> x" "m \<notin> ctx_set fs" "m \<notin> set (inorder l)" "m \<notin> set (inorder r)" using m(3) by auto
  define s1 where "s1 = s\<lparr>rb_left := (rb_left s)(m := rb_left s x)\<rparr>"
  define s2 where "s2 = s1\<lparr>rb_right := (rb_right s1)(m := rb_right s x)\<rparr>"
  define s3 where "s3 = s2\<lparr>rb_parent := (rb_parent s2)(m := px)\<rparr>"
  define s4 where "s4 = s3\<lparr>rb_color := (rb_color s3)(m := rb_color s x)\<rparr>"
  note ss = s1_def s2_def s3_def s4_def
  have e1: "get_left s x = Some (rb_left s x)" "set_left s m (rb_left s x) = Some s1"
      "get_right s1 x = Some (rb_right s x)" "set_right s1 m (rb_right s x) = Some s2"
      "get_parent s2 x = Some px" "set_parent s2 m px = Some s3" "rbt_copy_color s3 m x = Some s4"
    using x m ms by (simp_all add: rb_access ss)
  have c4: "ctx_at s4 fs x px" and l4: "tree_at s4 l (rb_left s x) x" and r4: "tree_at s4 r (rb_right s x) pr"
    using c l r ms by (simp_all add: ss)
  have st: "rb_sentinel s4 = rb_sentinel s" "rb_parent s4 x = px" using x ms by (simp_all add: ss)
  obtain s5 where e5: "(if x = rb_root s4 then Some (set_root s4 m)
        else do {
          np \<leftarrow> get_parent s4 x;
          npl \<leftarrow> get_left s4 np;
          if x = npl then set_left s4 np m else set_right s4 np m }) = Some s5"
    and c5: "ctx_at s5 fs m px" and f5: "rb_frame (ctx_set fs) s4 s5"
    and k5: "rb_parent s5 = rb_parent s4" "rb_color s5 = rb_color s4"
    using relink_left_zip [OF c4 ds(1) _ x(1) _ ds(4), of m] x st by auto
  have l5: "tree_at s5 l (rb_left s x) x" and r5: "tree_at s5 r (rb_right s x) pr"
    using l4 r4 tree_at_frame [OF f5] ds by (simp_all add: Int_commute)
  have m5: "rb_left s5 m = rb_left s x" "rb_right s5 m = rb_right s x" "rb_parent s5 m = px"
      "rb_color s5 m = rb_color s x" "rb_sentinel s5 = rb_sentinel s"
    using f5 ms k5 by (simp_all add: rb_frame_def ss)
  obtain s6 where e6: "(if rb_left s x \<noteq> rb_sentinel s5 then set_parent s5 (rb_left s x) m else Some s5) = Some s6"
      "tree_at s6 l (rb_left s x) m" "rb_frame (set (inorder l)) s5 s6" "rb_root s6 = rb_root s5" "rb_color s6 = rb_color s5"
    using reparent_tree [OF l5 ds(5), of m] by blast
  have c6: "ctx_at s6 fs m px" and r6: "tree_at s6 r (rb_right s x) pr"
    using ctx_at_frame [OF e6(3,4) ds(7)] tree_at_frame [OF e6(3)] c5 r5 ds by (simp_all add: Int_commute)
  have m6: "rb_left s6 m = rb_left s x" "rb_right s6 m = rb_right s x" "rb_parent s6 m = px"
      "rb_color s6 m = rb_color s x" "rb_sentinel s6 = rb_sentinel s"
    using e6(3) ms m5 by (simp_all add: rb_frame_def)
  obtain s7 where e7: "(if rb_right s x \<noteq> rb_sentinel s6 then set_parent s6 (rb_right s x) m else Some s6) = Some s7"
      "tree_at s7 r (rb_right s x) m" "rb_frame (set (inorder r)) s6 s7" "rb_root s7 = rb_root s6" "rb_color s7 = rb_color s6"
    using reparent_tree [OF r6 ds(6), of m] by blast
  have c7: "ctx_at s7 fs m px" and l7: "tree_at s7 l (rb_left s x) m"
    using ctx_at_frame [OF e7(3,4) ds(8)] tree_at_frame [OF e7(3)] c6 e6(2) ds by simp_all
  have m7: "rb_left s7 m = rb_left s x" "rb_right s7 m = rb_right s x" "rb_parent s7 m = px"
      "rb_color s7 m = rb_color s x" "rb_sentinel s7 = rb_sentinel s"
    using e7(3) ms m6 by (simp_all add: rb_frame_def)
  have g: "get_left s5 m = Some (rb_left s x)" "get_right s6 m = Some (rb_right s x)"
    using m(1) m5 m6 by (simp_all add: rb_access)
  have run: "take_place s (rb_sentinel s) x m = Some s7"
    unfolding take_place_def by (simp add: e1 e5 g e6(1) [unfolded m5(5)] e7(1) [unfolded m6(5)])
  have "rb_color s7 (rb_sentinel s) = 0"
    using e7(5) e6(5) k5 sok m(2) by (auto simp: ss sentinel_ok_def)
  then have "sentinel_ok s7" using sok m7(5) by (simp add: sentinel_ok_def)
  then have "zip_at s7 fs (Node l m cx r) m px"
    using c7 l7 e7(2) m7 m x(4) d ms by (simp add: zip_at_def)
  moreover have "rb_frame (insert m (ctx_set fs \<union> set (inorder l) \<union> set (inorder r))) s s7"
    using f5 e6(3) e7(3) by (auto simp: rb_frame_def ss)
  ultimately show ?thesis using run by blast
qed

text \<open>Clearing a node that has left the tree.\<close>

definition cleared :: "rbtree \<Rightarrow> addr \<Rightarrow> rbtree" where
  "cleared s x = s\<lparr>rb_left := (rb_left s)(x := NULL), rb_right := (rb_right s)(x := NULL),
     rb_parent := (rb_parent s)(x := NULL), rb_key := (rb_key s)(x := 0)\<rparr>"

lemma clear_node_eq: "x \<noteq> NULL \<Longrightarrow> rbtree_clear_node s x = Some (cleared s x)"
  by (simp add: rbtree_clear_node_def rb_access cleared_def)

lemma zip_at_cleared:
  "zip_at s fs t q par \<Longrightarrow> x \<notin> zip_set fs t \<Longrightarrow> zip_at (cleared s x) fs t q par"
  by (simp add: zip_at_def cleared_def sentinel_ok_def)

lemma cleared_parent: "x \<noteq> q \<Longrightarrow> rb_parent (cleared s x) q = rb_parent s q"
  by (simp add: cleared_def)

lemma cleared_sentinel [simp]: "rb_sentinel (cleared s x) = rb_sentinel s"
  by (simp add: cleared_def)

text \<open>What a deletion changes: \<open>rb_frame\<close>, but for the key of the deleted node.\<close>

definition del_frame :: "addr set \<Rightarrow> addr \<Rightarrow> rbtree \<Rightarrow> rbtree \<Rightarrow> bool" where
  "del_frame A x s s' \<longleftrightarrow> rb_frame A (s\<lparr>rb_key := (rb_key s)(x := 0)\<rparr>) s'"

lemma del_frame_cleared: "rb_frame A s s' \<Longrightarrow> x \<in> A \<Longrightarrow> del_frame A x s (cleared s' x)"
  by (auto simp: del_frame_def rb_frame_def cleared_def)

lemma del_frame_trans: "del_frame A x s t \<Longrightarrow> rb_frame A t u \<Longrightarrow> del_frame A x s u"
  unfolding del_frame_def by (rule rb_frame_trans_same)

section \<open>rbtree\_delete\<close>

lemma delete_fold: "rbtree_delete s node = do {
     let sentinel = rb_sentinel s;
     (subst, temp) \<leftarrow> rbtree_delete_choose s sentinel node;
     if subst = rb_root s
     then do {
       s \<leftarrow> rbt_black (set_root s temp) temp;
       rbtree_clear_node s node }
     else do {
       red \<leftarrow> rbt_is_red s subst;
       s \<leftarrow> unlink s subst temp;
       s \<leftarrow> (if subst = node
            then do { sp \<leftarrow> get_parent s subst; set_parent s temp sp }
            else rbtree_delete_replace s sentinel node subst temp);
       s \<leftarrow> rbtree_clear_node s node;
       if red then Some s
       else do {
         (s, temp) \<leftarrow> rbtree_delete_fixup s sentinel temp;
         rbt_black s temp } } }"
  by (simp add: rbtree_delete_def unlink_def Let_def cong: if_cong)

definition delete_end :: "rbtree \<Rightarrow> addr \<Rightarrow> addr \<Rightarrow> bool \<Rightarrow> rbtree option" where
  "delete_end s sentinel temp red = (if red then Some s
     else do { (s, temp) \<leftarrow> rbtree_delete_fixup s sentinel temp; rbt_black s temp })"

lemma delete_end_zip:
  assumes z: "zip_at s fs t q par" and p: "rb_parent s q = par" and ne: "fs \<noteq> []" and top: "top_black fs"
    and ok: "rb_ok t" "ctx_ok fs c (bh t + (if c then 0 else 1))" and sent: "sent = rb_sentinel s"
  shows "\<exists>s' t'. delete_end s sent q c = Some s' \<and> rbtree_ok s' t'
    \<and> inorder t' = before fs @ inorder t @ after fs \<and> rb_frame (zip_set fs t) s s'"
proof (cases c)
  case True
  with ok have "rb_ok (plug fs t)" using ctx_ok_weaken by (auto simp: rb_ok_plug)
  with True zip_at_rep [OF z] is_red_plug [OF top ne] show ?thesis
    by (auto simp: delete_end_def rbtree_ok_def inorder_plug)
next
  case False
  then have c: "ctx_ok fs False (Suc (bh t))" using ok by simp
  have b: "rb_ok (blacken t)" using ok by (simp add: rb_ok_blacken)
  from delfix_okD [OF delfix_zip [OF b c top] z _ sent] p del_fix_ok [OF b c top] False show ?thesis
    by (auto simp: delete_end_def rbtree_ok_def)
qed

lemma rbtree_min_zip:
  "zip_at s fs (Node l a c r) q par \<Longrightarrow> sent = rb_sentinel s \<Longrightarrow>
    \<exists>gs m cm rm par'. rbtree_min s q sent = Some m \<and> zip_at s (gs @ fs) (Node Leaf m cm rm) m par'
      \<and> plug gs (Node Leaf m cm rm) = Node l a c r \<and> before gs = []"
proof (induction l arbitrary: fs a c r q par)
  case Leaf
  then have "rbtree_min s q sent = Some a"
    by (subst rbtree_min.simps) (auto simp: zip_at_def rb_access)
  moreover have "q = a" using Leaf by (auto simp: zip_at_def)
  ultimately show ?case using Leaf by (intro exI [of _ "[]"]) auto
next
  case (Node l1 b cb r1)
  from Node.prems have "zip_at s (InL a c r # fs) (Node l1 b cb r1) b a"
    unfolding zip_at_InL by (auto simp: zip_at_def)
  from Node.IH(1) [OF this Node.prems(2)] obtain gs m cm rm par' where
    m: "rbtree_min s b sent = Some m" "zip_at s (gs @ InL a c r # fs) (Node Leaf m cm rm) m par'"
       "plug gs (Node Leaf m cm rm) = Node l1 b cb r1" "before gs = []" by blast
  have "rbtree_min s q sent = rbtree_min s b sent"
    using Node.prems by (subst rbtree_min.simps) (auto simp: zip_at_def rb_access)
  with m show ?case
    by (intro exI [of _ "gs @ [InL a c r]"]) (auto simp: plug_append before_append)
qed

lemma zip_at_plug:
  "zip_at s fs (plug gs t) q par \<Longrightarrow> \<exists>q' par'. zip_at s (gs @ fs) t q' par'"
proof (induction gs t arbitrary: q par rule: plug.induct)
  case (2 a c r gs t)
  have "zip_at s fs (plug gs (Node t a c r)) q par" using 2(2) by simp
  from 2(1) [OF this] obtain q' par' where "zip_at s (gs @ fs) (Node t a c r) q' par'" by blast
  then have "zip_at s (InL a c r # gs @ fs) t (rb_left s a) a" unfolding zip_at_InL by (auto simp: zip_at_def)
  then show ?case by auto
next
  case (3 l a c gs t)
  have "zip_at s fs (plug gs (Node l a c t)) q par" using 3(2) by simp
  from 3(1) [OF this] obtain q' par' where "zip_at s (gs @ fs) (Node l a c t) q' par'" by blast
  then have "zip_at s (InR l a c # gs @ fs) t (rb_right s a) a" unfolding zip_at_InR by (auto simp: zip_at_def)
  then show ?case by auto
qed auto

lemma zip_at_par: "zip_at s fs t q par \<Longrightarrow> fs \<noteq> [] \<Longrightarrow> par = frame_addr (hd fs)"
  by (cases fs rule: before.cases) (auto simp: zip_at_def)

lemma member_plug: "x \<in> set (inorder t) \<Longrightarrow> \<exists>fs l c r. t = plug fs (Node l x c r)"
proof (induction t)
  case (Node l a c r)
  then consider "x = a" | "x \<in> set (inorder l)" | "x \<in> set (inorder r)" by auto
  then show ?case
  proof cases
    case 1
    then show ?thesis by (metis plug.simps(1))
  next
    case 2
    then obtain fs l' c' r' where "l = plug fs (Node l' x c' r')" using Node by blast
    then have "Node l a c r = plug (fs @ [InL a c r]) (Node l' x c' r')" by (simp add: plug_append)
    then show ?thesis by blast
  next
    case 3
    then obtain fs l' c' r' where "r = plug fs (Node l' x c' r')" using Node by blast
    then have "Node l a c r = plug (fs @ [InR l a c]) (Node l' x c' r')" by (simp add: plug_append)
    then show ?thesis by blast
  qed
qed simp

text \<open>The conclusion of the deletion, at the hole.\<close>

definition deleted :: "rbtree \<Rightarrow> frame list \<Rightarrow> rbt \<Rightarrow> addr \<Rightarrow> rbt \<Rightarrow> bool" where
  "deleted s fs l x r \<longleftrightarrow> (\<exists>s' t'. rbtree_delete s x = Some s' \<and> rbtree_ok s' t'
     \<and> inorder t' = before fs @ inorder l @ inorder r @ after fs
     \<and> del_frame (insert (rb_sentinel s) (zip_set fs (Node l x False r))) x s s')"

text \<open>A node with at most one child, below the root.\<close>

lemma delete_one_child:
  assumes z: "zip_at s fs (Node l x c r) x par" and ne: "fs \<noteq> []"
    and ok: "rb_ok (plug fs (Node l x c r))" and top: "top_black fs" and lr: "l = Leaf \<or> r = Leaf"
  shows "deleted s fs l x r"
proof -
  define t where "t = (if l = Leaf then r else l)"
  define temp where "temp = (if l = Leaf then rb_right s x else rb_left s x)"
  have x: "x \<noteq> NULL" and red: "rbt_is_red s x = Some c"
    using z by (auto simp: zip_at_def rb_access)
  have not_root: "x \<noteq> rb_root s"
    using z ne focus_not_root [of s "hd fs" "tl fs"] by simp
  have lS: "rb_left s x = rb_sentinel s \<longleftrightarrow> l = Leaf"
    using z by (cases l) (auto simp: zip_at_def)
  have rS: "rb_right s x = rb_sentinel s \<longleftrightarrow> r = Leaf"
    using z by (cases r) (auto simp: zip_at_def)
  have choose: "rbtree_delete_choose s (rb_sentinel s) x = Some (x, temp)"
    using x lr lS rS by (auto simp: rbtree_delete_choose_def get_left_def get_right_def temp_def)
  have t_temp: "t = l \<and> temp = rb_left s x \<and> r = Leaf \<or> t = r \<and> temp = rb_right s x \<and> l = Leaf"
    using lr by (auto simp: t_def temp_def)
  obtain s1 s2 where s: "unlink s x temp = Some s1" "get_parent s1 x = Some par" "set_parent s1 temp par = Some s2"
      "zip_at s2 fs t temp par" "rb_parent s2 temp = par"
      "rb_frame (insert (rb_sentinel s) (ctx_set fs \<union> set (inorder t))) s s2"
    using unlink_zip [OF z ne t_temp] by blast
  have xt: "x \<notin> zip_set fs t" using z by (auto simp: zip_at_def t_def)
  have "x \<noteq> temp" using s(4) xt zip_at_NodeD [OF z] s(6) by (cases t) (auto simp: zip_at_def rb_frame_def)
  note z3 = zip_at_cleared [OF s(4) xt] and p3 = cleared_parent [OF this, of s2, unfolded s(5)]
  have sent: "rb_sentinel s = rb_sentinel (cleared s2 x)" using s(6) by (simp add: rb_frame_def)
  have ok3: "rb_ok t" "ctx_ok fs c (bh t + (if c then 0 else 1))"
    using ok lr by (auto simp: rb_ok_plug t_def)
  have run: "rbtree_delete s x = delete_end (cleared s2 x) (rb_sentinel s) temp c"
    unfolding delete_fold by (simp add: Let_def choose not_root red s(1-3) clear_node_eq [OF x] delete_end_def)
  obtain s4 t' where s4: "delete_end (cleared s2 x) (rb_sentinel s) temp c = Some s4" "rbtree_ok s4 t'"
      "inorder t' = before fs @ inorder t @ after fs" "rb_frame (zip_set fs t) (cleared s2 x) s4"
    using delete_end_zip [OF z3 p3 ne top ok3 sent] by blast
  let ?A = "insert (rb_sentinel s) (zip_set fs (Node l x False r))"
  have "rb_frame ?A s s2" using s(6) by (rule rb_frame_mono) (auto simp: t_def)
  then have "del_frame ?A x s (cleared s2 x)" by (rule del_frame_cleared) simp
  moreover have "rb_frame ?A (cleared s2 x) s4" using s4(4) by (rule rb_frame_mono) (auto simp: t_def)
  ultimately have "del_frame ?A x s s4" by (rule del_frame_trans)
  moreover have "inorder t = inorder l @ inorder r" using lr by (auto simp: t_def)
  ultimately show ?thesis unfolding deleted_def using run s4(1-3) by auto
qed

lemma zip_at_unplug:
  "zip_at s (gs @ fs) t q par \<Longrightarrow> \<exists>q' par'. zip_at s fs (plug gs t) q' par'"
proof (induction gs t arbitrary: q par rule: plug.induct)
  case (2 a c r gs t)
  then have "zip_at s (gs @ fs) (Node t a c r) a (rb_parent s a)" using zip_at_InL by simp
  from 2(1) [OF this] show ?case by simp
next
  case (3 l a c gs t)
  then have "zip_at s (gs @ fs) (Node l a c t) a (rb_parent s a)" using zip_at_InR by simp
  from 3(1) [OF this] show ?case by simp
qed auto

text \<open>The successor \<open>m\<close> of \<open>x\<close> moves up: the state in front of the repair loop.\<close>

definition moved_up :: "rbtree \<Rightarrow> frame list \<Rightarrow> frame list \<Rightarrow> rbt \<Rightarrow> addr \<Rightarrow> bool \<Rightarrow> addr \<Rightarrow> rbt \<Rightarrow> addr set \<Rightarrow> bool" where
  "moved_up s gs fs l x c m rm A \<longleftrightarrow> (\<exists>s1 s3 p. unlink s m (rb_right s m) = Some s1
     \<and> rbtree_delete_replace s1 (rb_sentinel s) x m (rb_right s m) = Some s3
     \<and> zip_at s3 (gs @ InR l m c # fs) rm (rb_right s m) p \<and> rb_parent s3 (rb_right s m) = p
     \<and> rb_frame (insert (rb_sentinel s) A) s s3)"

lemma moved_up_far:
  assumes zm: "zip_at s (gs @ InR l x c # fs) (Node Leaf m cm rm) m par" and gs: "gs \<noteq> []"
  shows "moved_up s gs fs l x c m rm (zip_set (gs @ InR l x c # fs) (Node Leaf m cm rm))"
proof -
  let ?FS = "gs @ InR l x c # fs"
  let ?A = "zip_set ?FS (Node Leaf m cm rm)"
  define temp where "temp = rb_right s m"
  obtain s1 s2 where s: "unlink s m temp = Some s1" "get_parent s1 m = Some par" "set_parent s1 temp par = Some s2"
      "zip_at s2 ?FS rm temp par" "rb_parent s2 temp = par"
      "rb_frame (insert (rb_sentinel s) (ctx_set ?FS \<union> set (inorder rm))) s s2"
    using unlink_zip [OF zm, of rm temp] unfolding temp_def by blast
  have sent: "rb_sentinel s2 = rb_sentinel s" using s(6) by (simp add: rb_frame_def)
  have par: "par = frame_addr (hd gs)" using zip_at_par [OF zm] gs by simp
  then have "par \<in> ctx_set gs" using gs by (cases gs rule: before.cases) auto
  then have px: "par \<noteq> x" using zip_at_distinct [OF zm] by (auto simp: before_append after_append)
  have up: "zip_at s2 fs (Node l x c (plug gs rm)) x (rb_parent s2 x)"
    using zip_at_unplug [of s2 "gs @ [InR l x c]" fs] s(4) by (fastforce simp: plug_append zip_at_def)
  have io: "set (inorder (plug gs rm)) = zip_set gs rm" by (auto simp: inorder_plug)
  have mn: "m \<notin> zip_set ?FS rm" "m \<noteq> NULL" "m \<noteq> rb_sentinel s2"
    using zm sent by (auto simp: zip_at_def)
  then have m2: "m \<notin> insert x (ctx_set fs \<union> set (inorder l) \<union> set (inorder (plug gs rm)))"
    by (auto simp: before_append after_append io)
  obtain s3 where s3: "take_place s2 (rb_sentinel s2) x m = Some s3" "zip_at s3 fs (Node l m c (plug gs rm)) m (rb_parent s2 x)"
      "rb_frame (insert m (ctx_set fs \<union> set (inorder l) \<union> set (inorder (plug gs rm)))) s2 s3"
    using take_place_zip [of s2 fs x "rb_parent s2 x" l "plug gs rm" x c m] up mn m2 by (auto simp: zip_at_def)
  then have "zip_at s3 (InR l m c # fs) (plug gs rm) (rb_right s3 m) m"
    unfolding zip_at_InR by (auto simp: zip_at_def)
  then obtain q' p' where z3: "zip_at s3 (gs @ InR l m c # fs) rm q' p'" using zip_at_plug by blast
  have "rb_sentinel s3 = rb_sentinel s2" using s3(3) by (simp add: rb_frame_def)
  from zip_at_focus [OF s(4) z3 this] zip_at_par [OF z3] gs par
  have z3: "zip_at s3 (gs @ InR l m c # fs) rm temp par" using z3 by simp
  have "rb_sentinel s2 \<notin> insert m (ctx_set fs \<union> set (inorder l) \<union> set (inorder (plug gs rm)))"
    using zip_at_notin [OF up] mn by auto
  with hole_parent [OF z3 s(5) s3(3)] have p3: "rb_parent s3 temp = par" .
  have run: "rbtree_delete_replace s1 (rb_sentinel s) x m temp = Some s3"
    unfolding delete_replace_fold using s(2,3) px s3(1) sent by simp
  have "rb_frame (insert (rb_sentinel s) ?A) s s2" using s(6) by (rule rb_frame_mono) auto
  moreover have "rb_frame (insert (rb_sentinel s) ?A) s2 s3"
    using s3(3) by (rule rb_frame_mono) (auto simp: io before_append after_append)
  ultimately have "rb_frame (insert (rb_sentinel s) ?A) s s3" by (rule rb_frame_trans_same)
  with s(1) run z3 p3 show ?thesis unfolding moved_up_def temp_def by blast
qed

lemma moved_up_near:
  assumes zm: "zip_at s (InR l x c # fs) (Node Leaf m cm rm) m par"
  shows "moved_up s [] fs l x c m rm (zip_set (InR l x c # fs) (Node Leaf m cm rm))"
proof -
  let ?FS = "InR l x c # fs"
  let ?A = "zip_set ?FS (Node Leaf m cm rm)"
  define temp where "temp = rb_right s m"
  have par: "par = x" using zm by (simp add: zip_at_def)
  obtain s1 where s1: "unlink s m temp = Some s1" "ctx_at s1 ?FS temp x" "rb_frame {x} s s1"
    "rb_parent s1 = rb_parent s" "rb_color s1 = rb_color s" "rb_root s1 = rb_root s"
    using unlink_ctx [OF zm] unfolding par by blast
  have d: "distinct (before ?FS @ m # inorder rm @ after ?FS)" and m: "m \<noteq> NULL" "m \<noteq> rb_sentinel s" "rb_parent s m = x"
    and sok: "sentinel_ok s" and rm: "tree_at s rm temp m"
    using zm par by (auto simp: zip_at_def temp_def)
  have sent: "rb_sentinel s1 = rb_sentinel s" using s1(3) by (simp add: rb_frame_def)
  have "tree_at s1 rm temp m" using tree_at_frame [OF s1(3), of rm temp m] rm d by auto
  define s2 where "s2 = s1\<lparr>rb_parent := (rb_parent s1)(temp := m)\<rparr>"
  have temp: "temp \<noteq> NULL" using rm sok by (cases rm) (auto simp: sentinel_ok_def)
  have tn: "temp \<notin> ctx_set ?FS" "temp \<in> insert (rb_sentinel s) (set (inorder rm))"
    using tree_on_root [OF rm] zip_at_notin [OF zm] d by auto
  have rm2: "tree_at s2 rm temp m" using \<open>tree_at s1 rm temp m\<close> d by (cases rm) (auto simp: s2_def)
  have c2: "ctx_at s2 ?FS temp x" using s1(2) tn by (simp add: s2_def)
  then have c2': "ctx_at s2 fs x (rb_parent s2 x)" "tree_at s2 l (rb_left s2 x) x" "rb_right s2 x = temp"
    "x \<noteq> NULL" "x \<noteq> rb_sentinel s2" "(rb_color s2 x \<noteq> 0) = c" by simp_all
  have sok2: "sentinel_ok s2" using sok sent s1(5) by (simp add: sentinel_ok_def s2_def)
  have sent2: "rb_sentinel s2 = rb_sentinel s" using sent by (simp add: s2_def)
  have d2: "distinct (before fs @ inorder l @ x # inorder rm @ after fs)"
    and m2: "m \<notin> insert x (ctx_set fs \<union> set (inorder l) \<union> set (inorder rm))" using d by auto
  obtain s3 where s3: "take_place s2 (rb_sentinel s2) x m = Some s3" "zip_at s3 fs (Node l m c rm) m (rb_parent s2 x)"
      "rb_frame (insert m (ctx_set fs \<union> set (inorder l) \<union> set (inorder rm))) s2 s3"
    using take_place_zip [OF c2'(1,2) _ c2'(4,5) refl c2'(6) m(1) _ m2 d2 sok2, of m] rm2 c2'(3) m sent2 by auto
  then have "zip_at s3 (InR l m c # fs) rm (rb_right s3 m) m" unfolding zip_at_InR by (auto simp: zip_at_def)
  moreover have "rb_right s3 m = temp"
    using \<open>zip_at s3 (InR l m c # fs) rm (rb_right s3 m) m\<close> rm2 s3(3)
    by (cases rm) (auto simp: zip_at_def rb_frame_def)
  ultimately have z3: "zip_at s3 (InR l m c # fs) rm temp m" by simp
  have "rb_sentinel s2 \<notin> insert m (ctx_set fs \<union> set (inorder l) \<union> set (inorder rm))"
    using zip_at_notin [OF zm] m sent2 by auto
  with hole_parent [OF z3 _ s3(3)] have p3: "rb_parent s3 temp = m" by (simp add: s2_def)
  have "get_parent s1 m = Some x" using m s1(4) by (simp add: get_parent_def)
  moreover have "set_parent s1 temp m = Some s2" using temp by (simp add: set_parent_def s2_def)
  ultimately have run: "rbtree_delete_replace s1 (rb_sentinel s) x m temp = Some s3"
    unfolding delete_replace_fold using s3(1) sent2 by simp
  have "rb_frame (insert (rb_sentinel s) ?A) s s2"
    using s1(3-6) tn(2) by (auto simp: rb_frame_def s2_def)
  moreover have "rb_frame (insert (rb_sentinel s) ?A) s2 s3"
    using s3(3) by (rule rb_frame_mono) auto
  ultimately have "rb_frame (insert (rb_sentinel s) ?A) s s3" by (rule rb_frame_trans_same)
  with s1(1) run z3 p3 show ?thesis unfolding moved_up_def temp_def by auto
qed

text \<open>A node with two children.\<close>

lemma delete_two_children:
  assumes z: "zip_at s fs (Node l x c r) x par" and l: "l \<noteq> Leaf" and r: "r \<noteq> Leaf"
    and ok: "rb_ok (plug fs (Node l x c r))" and root: "\<not> is_red (plug fs (Node l x c r))"
  shows "deleted s fs l x r"
proof -
  have x: "x \<noteq> NULL" "rb_left s x \<noteq> rb_sentinel s" "rb_right s x \<noteq> rb_sentinel s"
    using z l r by (cases l; cases r; auto simp: zip_at_def)+
  obtain rl ra rc rr where rn: "r = Node rl ra rc rr" using r by (cases r) auto
  have zr: "zip_at s (InR l x c # fs) (Node rl ra rc rr) (rb_right s x) x"
    using z unfolding rn zip_at_InR by (auto simp: zip_at_def)
  from rbtree_min_zip [OF zr refl] obtain gs m cm rm pm where
    m: "rbtree_min s (rb_right s x) (rb_sentinel s) = Some m"
       "zip_at s (gs @ InR l x c # fs) (Node Leaf m cm rm) m pm"
       "plug gs (Node Leaf m cm rm) = r" "before gs = []" unfolding rn by blast
  let ?FS = "gs @ InR l x c # fs" let ?FS' = "gs @ InR l m c # fs"
  let ?A = "zip_set ?FS (Node Leaf m cm rm)"
  have A: "?A = zip_set fs (Node l x False r)"
    using m(3) by (auto simp: before_append after_append inorder_plug)
  have mm: "m \<noteq> NULL" "rb_left s m = rb_sentinel s" "rbt_is_red s m = Some cm" "m \<noteq> x"
    using m(2) by (auto simp: zip_at_def rb_access before_append)
  have choose: "rbtree_delete_choose s (rb_sentinel s) x = Some (m, rb_right s m)"
    using x mm m(1) by (simp add: rbtree_delete_choose_def get_left_def get_right_def)
  have not_root: "m \<noteq> rb_root s"
    using focus_not_root [of s "hd ?FS" "tl ?FS"] m(2) by simp
  have "moved_up s gs fs l x c m rm ?A"
    using moved_up_far [OF m(2)] moved_up_near [of s l x c fs m cm rm pm] m(2) by (cases "gs = []") auto
  then obtain s1 s3 p where s: "unlink s m (rb_right s m) = Some s1"
     "rbtree_delete_replace s1 (rb_sentinel s) x m (rb_right s m) = Some s3"
     "zip_at s3 ?FS' rm (rb_right s m) p" "rb_parent s3 (rb_right s m) = p"
     "rb_frame (insert (rb_sentinel s) ?A) s s3" unfolding moved_up_def by blast
  have sent: "rb_sentinel s3 = rb_sentinel s" using s(5) by (simp add: rb_frame_def)
  have xn: "x \<notin> zip_set ?FS' rm" using m(2) mm(4) by (auto simp: zip_at_def before_append after_append)
  have xs: "x \<noteq> rb_sentinel s" using zip_at_NodeD [OF z] by blast
  have "x \<noteq> rb_right s m" using s(3) xn xs sent tree_on_root [of _ _ _ _ _ rm "rb_right s m" p]
    by (auto simp: zip_at_def)
  note z4 = zip_at_cleared [OF s(3) xn] and p4 = cleared_parent [OF this, of s3, unfolded s(4)]
  have pl: "plug ?FS t = plug fs (Node l x c (plug gs t))" "plug ?FS' t = plug fs (Node l m c (plug gs t))" for t
    by (simp_all add: plug_append)
  have top: "top_black ?FS'"
    using top_black_plug [of ?FS] root m(3) by (auto simp: pl top_black_def)
  have "rb_ok (plug ?FS (Node Leaf m cm rm))" using ok m(3) by (simp add: pl)
  then have "rb_ok (plug ?FS' (Node Leaf m cm rm))" by (auto simp: pl rb_ok_plug [of fs])
  then have ok4: "rb_ok rm" "ctx_ok ?FS' cm (bh rm + (if cm then 0 else 1))" by (auto simp: rb_ok_plug)
  have run: "rbtree_delete s x = delete_end (cleared s3 x) (rb_sentinel s) (rb_right s m) cm"
    unfolding delete_fold
    by (simp add: Let_def choose not_root mm s(1,2) clear_node_eq [OF x(1)] delete_end_def)
  have "?FS' \<noteq> []" by simp
  obtain s5 t' where s5: "delete_end (cleared s3 x) (rb_sentinel s) (rb_right s m) cm = Some s5" "rbtree_ok s5 t'"
      "inorder t' = before ?FS' @ inorder rm @ after ?FS'" "rb_frame (zip_set ?FS' rm) (cleared s3 x) s5"
    using delete_end_zip [OF z4 p4 \<open>?FS' \<noteq> []\<close> top ok4] sent by auto
  have "del_frame (insert (rb_sentinel s) ?A) x s (cleared s3 x)"
    using s(5) by (rule del_frame_cleared) (simp add: before_append)
  moreover have "rb_frame (insert (rb_sentinel s) ?A) (cleared s3 x) s5"
    using s5(4) by (rule rb_frame_mono) (auto simp: before_append after_append)
  ultimately have "del_frame (insert (rb_sentinel s) ?A) x s s5" by (rule del_frame_trans)
  moreover have "inorder t' = before fs @ inorder l @ inorder r @ after fs"
    using s5(3) m(4) by (simp add: m(3) [symmetric] before_append after_append inorder_plug)
  ultimately show ?thesis unfolding deleted_def using run s5(1,2) A by auto
qed

text \<open>The root, with at most one child.\<close>

lemma delete_root:
  assumes z: "zip_at s [] (Node l x c r) x par" and ok: "rb_ok (Node l x c r)" and lr: "l = Leaf \<or> r = Leaf"
  shows "deleted s [] l x r"
proof -
  define t where "t = (if l = Leaf then r else l)"
  define temp where "temp = (if l = Leaf then rb_right s x else rb_left s x)"
  have x: "x \<noteq> NULL" "rb_root s = x" using z by (auto simp: zip_at_def)
  have "rb_left s x = rb_sentinel s \<longleftrightarrow> l = Leaf" "rb_right s x = rb_sentinel s \<longleftrightarrow> r = Leaf"
    using z by (cases l; cases r; auto simp: zip_at_def)+
  then have choose: "rbtree_delete_choose s (rb_sentinel s) x = Some (x, temp)"
    using x lr by (auto simp: rbtree_delete_choose_def get_left_def get_right_def temp_def)
  have z1: "zip_at (set_root s temp) [] t temp x"
    using z lr by (auto simp: zip_at_def set_root_def t_def temp_def sentinel_ok_def)
  from delete_finish_zip [OF z1] obtain s2 where s2: "rbt_black (set_root s temp) temp = Some s2"
    "rep s2 (blacken t)" "rb_frame (set (inorder t)) (set_root s temp) s2" by auto
  have run: "rbtree_delete s x = Some (cleared s2 x)"
    unfolding delete_fold by (simp add: Let_def choose x s2(1) clear_node_eq)
  have xt: "x \<notin> set (inorder t)" using z by (auto simp: zip_at_def t_def)
  then have xr: "x \<noteq> rb_root s2"
    using s2(2,3) z tree_on_root [of _ _ _ _ _ "blacken t" "rb_root s2"]
    by (auto simp: rep_def zip_at_def rb_frame_def set_root_def)
  have "rep (cleared s2 x) (blacken t)"
    using s2(2) xt xr by (simp add: rep_def cleared_def sentinel_ok_def)
  then have "rbtree_ok (cleared s2 x) (blacken t)"
    using ok by (auto simp: rbtree_ok_def rb_ok_blacken t_def)
  moreover have "rb_frame (insert (rb_sentinel s) (zip_set [] (Node l x False r))) s s2"
    using s2(3) by (auto simp: rb_frame_def set_root_def t_def split: if_splits)
  then have "del_frame (insert (rb_sentinel s) (zip_set [] (Node l x False r))) x s (cleared s2 x)"
    by (rule del_frame_cleared) simp
  moreover have "inorder (blacken t) = inorder l @ inorder r" using lr by (auto simp: t_def)
  ultimately show ?thesis unfolding deleted_def using run by auto
qed

text \<open>
  Deleting a node of a red-black tree ends, faults nowhere, leaves a red-black tree of the other
  nodes in the same order, and writes only nodes of the tree and the sentinel.
\<close>

lemma rbtree_delete_rep:
  assumes ok: "rbtree_ok s t" and x: "x \<in> set (inorder t)"
  shows "\<exists>s' t'. rbtree_delete s x = Some s' \<and> rbtree_ok s' t' \<and> inorder t' = remove1 x (inorder t)
    \<and> del_frame (insert (rb_sentinel s) (set (inorder t))) x s s'"
proof -
  obtain fs l c r where t: "t = plug fs (Node l x c r)" using member_plug [OF x] by blast
  from ok t obtain q par where "zip_at s fs (Node l x c r) q par" by (auto simp: rbtree_ok_def rep_iff_zip)
  then have z: "zip_at s fs (Node l x c r) x par" using zip_at_NodeD by blast
  have rb: "rb_ok (plug fs (Node l x c r))" "\<not> is_red (plug fs (Node l x c r))"
    using ok t by (auto simp: rbtree_ok_def)
  consider "l \<noteq> Leaf" "r \<noteq> Leaf" | "l = Leaf \<or> r = Leaf" "fs \<noteq> []" | "l = Leaf \<or> r = Leaf" "fs = []" by blast
  then have "deleted s fs l x r"
  proof cases
    case 1
    with delete_two_children [OF z _ _ rb] show ?thesis by blast
  next
    case 2
    with delete_one_child [OF z _ rb(1) top_black_plug [OF rb(2)]] show ?thesis by blast
  next
    case 3
    with delete_root [of s l x c r par] z rb show ?thesis by simp
  qed
  moreover have "x \<notin> set (before fs)" "x \<notin> set (inorder l)" using z by (auto simp: zip_at_def)
  then have "remove1 x (inorder t) = before fs @ inorder l @ inorder r @ after fs"
    by (simp add: t inorder_plug remove1_append)
  moreover have "zip_set fs (Node l x False r) = set (inorder t)" by (auto simp: t inorder_plug)
  ultimately show ?thesis unfolding deleted_def by simp
qed

end
