(* ===== verification/Rbtree_Order.thy ===== *)
theory Rbtree_Order
  imports Rbtree_Delete
begin

text \<open>
  What the users of \<^verbatim>\<open>src/rbtree.c\<close> rely on: \<open>rbtree_holds s xs\<close> says that memory holds a
  red-black tree whose nodes are \<open>xs\<close> from the leftmost to the rightmost. Insertion puts a node
  behind the nodes whose key is not greater, deletion takes it out, \<open>rbtree_min\<close> is the first
  and \<open>rbtree_next\<close> the following node. The timer comparison is an order only on keys that lie
  within half of the 64-bit circle.
\<close>

section \<open>The contract of the key comparisons\<close>

text \<open>
  A comparison of keys that is a linear preorder on the admissible keys, given by a rank.
\<close>

locale key_order =
  fixes less :: "u64 \<Rightarrow> u64 \<Rightarrow> bool" and admissible :: "u64 \<Rightarrow> bool" and rank :: "u64 \<Rightarrow> nat"
  assumes less_rank: "admissible a \<Longrightarrow> admissible b \<Longrightarrow> less a b \<longleftrightarrow> rank a < rank b"
begin

lemma go_split:
  assumes "\<forall>a \<in> set ks. admissible a" and "admissible k" and "sorted (map rank ks)"
  shows "sorted_wrt (\<lambda>a b. less k a \<longrightarrow> less k b) ks"
  using assms by (induction ks) (auto simp: less_rank)

lemma insert_sorted:
  assumes "\<forall>a \<in> set xs. admissible (f a)" and "admissible (f x)" and "sorted (map (\<lambda>a. rank (f a)) xs)"
  shows "sorted (map (\<lambda>a. rank (f a)) (filter (\<lambda>a. \<not> less (f x) (f a)) xs @ x # filter (\<lambda>a. less (f x) (f a)) xs))"
  using assms by (auto simp: sorted_append sorted_filter less_rank)

end

text \<open>Timer keys: admissible when they are less than \<open>2 ^ 63\<close> ahead of \<open>base\<close>.\<close>

definition timer_window :: "u64 \<Rightarrow> u64 \<Rightarrow> bool" where
  "timer_window base k \<longleftrightarrow> unat (k - base) < 2 ^ 63"

lemma key_less_timer_rank:
  assumes "timer_window base a" and "timer_window base b"
  shows "key_less_timer a b \<longleftrightarrow> unat (a - base) < unat (b - base)"
proof -
  have "a - b = (a - base) - (b - base)" by simp
  then show ?thesis
    using assms unfolding key_less_timer_def sint_u64_neg timer_window_def
    by (simp only: unat_sub_if' [of "a - base" "b - base"]) (auto split: if_splits)
qed

interpretation value_order: key_order key_less_value "\<lambda>_. True" unat
  by unfold_locales (simp add: key_less_value_def word_less_nat_alt)

interpretation timer_order: key_order key_less_timer "timer_window base" "\<lambda>k. unat (k - base)" for base
  by unfold_locales (rule key_less_timer_rank)

text \<open>The order that the tree's \<open>insert\<close> pointer selects; \<open>base\<close> matters for timers only.\<close>

fun key_admissible :: "rbtree_insert_pt \<Rightarrow> u64 \<Rightarrow> u64 \<Rightarrow> bool" where
  "key_admissible Rbtree_insert_value base k \<longleftrightarrow> True"
| "key_admissible Rbtree_insert_timer_value base k \<longleftrightarrow> timer_window base k"

fun key_rank :: "rbtree_insert_pt \<Rightarrow> u64 \<Rightarrow> u64 \<Rightarrow> nat" where
  "key_rank Rbtree_insert_value base k = unat k"
| "key_rank Rbtree_insert_timer_value base k = unat (k - base)"

interpretation tree_order: key_order "key_less i" "key_admissible i base" "key_rank i base" for i base
  using value_order.less_rank timer_order.less_rank by (cases i; unfold_locales; simp)

section \<open>Minimum and successor\<close>

lemma rbtree_min_subtree:
  assumes z: "zip_at s fs t q par" and "t \<noteq> Leaf"
  shows "rbtree_min s q (rb_sentinel s) = Some (hd (inorder t))"
proof -
  obtain l a c r where t: "t = Node l a c r" using assms(2) by (cases t) auto
  obtain gs m cm rm where m: "rbtree_min s q (rb_sentinel s) = Some m"
    "plug gs (Node Leaf m cm rm) = t" "before gs = []"
    using rbtree_min_zip [OF z [unfolded t] refl] t by blast
  have "inorder t = m # inorder rm @ after gs"
    unfolding m(2) [symmetric] by (simp add: inorder_plug m(3))
  with m(1) show ?thesis by simp
qed

lemma rbtree_min_rep:
  "rep s t \<Longrightarrow> t \<noteq> Leaf \<Longrightarrow> rbtree_min s (rb_root s) (rb_sentinel s) = Some (hd (inorder t))"
  using rbtree_min_subtree rep_zip_root by blast

text \<open>The walk up ends at the first ancestor on whose left side the node lies.\<close>

lemma rbtree_next_up_zip:
  "zip_at s fs (Node l x c r) q par \<Longrightarrow>
    rbtree_next_up s (rb_root s) x = Some (case after fs of [] \<Rightarrow> NULL | a # _ \<Rightarrow> a)"
proof (induction fs arbitrary: l x c r q par rule: before.induct)
  case 1
  then show ?case by (subst rbtree_next_up.simps) (auto simp: zip_at_def rb_access)
next
  case (2 a c' r' fs)
  from focus_not_root [OF 2(2)] zip_at_NodeD [OF 2(2)] have "x \<noteq> rb_root s" by simp
  with 2(2) show ?case by (subst rbtree_next_up.simps) (auto simp: zip_at_def rb_access)
next
  case (3 l' a c' fs)
  from focus_not_root [OF 3(2)] zip_at_NodeD [OF 3(2)] have "x \<noteq> rb_root s" by simp
  moreover have "x \<noteq> rb_left s a" using frame_InR_left [OF 3(2)] .
  moreover have "get_parent s x = Some a" "get_left s a = Some (rb_left s a)"
    using 3(2) by (auto simp: zip_at_def rb_access)
  ultimately have "rbtree_next_up s (rb_root s) x = rbtree_next_up s (rb_root s) a"
    by (subst rbtree_next_up.simps) simp
  moreover have "zip_at s fs (Node l' a c' (Node l x c r)) a (rb_parent s a)"
    using 3(2) zip_at_InR by blast
  ultimately show ?case using "3.IH" by simp
qed

lemma rbtree_next_zip:
  assumes z: "zip_at s fs (Node l x c r) q par"
  shows "rbtree_next s x = Some (case inorder r @ after fs of [] \<Rightarrow> NULL | a # _ \<Rightarrow> a)"
proof -
  have x: "x \<noteq> NULL" using z by (auto simp: zip_at_def)
  have zr: "zip_at s (InR l x c # fs) r (rb_right s x) x"
    using z unfolding zip_at_InR by (auto simp: zip_at_def)
  show ?thesis
  proof (cases r)
    case Leaf
    with zr have "rb_right s x = rb_sentinel s" by (simp add: zip_at_def)
    with Leaf rbtree_next_up_zip [OF z] x show ?thesis
      by (simp add: rbtree_next_def Let_def get_right_def)
  next
    case (Node rl a rc rr)
    with zr have "rb_right s x \<noteq> rb_sentinel s" by (auto simp: zip_at_def)
    moreover have "rbtree_min s (rb_right s x) (rb_sentinel s) = Some (hd (inorder r))"
      using rbtree_min_subtree [OF zr] Node by simp
    moreover have "inorder r \<noteq> []" using Node by simp
    ultimately show ?thesis using x
      by (cases "inorder r") (simp_all add: rbtree_next_def Let_def get_right_def)
  qed
qed

section \<open>The tree as a sequence of nodes\<close>

definition rbtree_holds :: "rbtree \<Rightarrow> addr list \<Rightarrow> bool" where
  "rbtree_holds s xs \<longleftrightarrow> (\<exists>t. rbtree_ok s t \<and> inorder t = xs)"

definition rbtree_sorted :: "u64 \<Rightarrow> rbtree \<Rightarrow> addr list \<Rightarrow> bool" where
  "rbtree_sorted base s xs \<longleftrightarrow> (\<forall>a \<in> set xs. key_admissible (rb_insert s) base (rb_key s a))
     \<and> sorted (map (\<lambda>a. key_rank (rb_insert s) base (rb_key s a)) xs)"

lemma rbtree_holds_distinct: "rbtree_holds s xs \<Longrightarrow> distinct xs"
  by (auto simp: rbtree_holds_def rbtree_ok_def rep_def)

lemma rbtree_holds_nodes: "rbtree_holds s xs \<Longrightarrow> NULL \<notin> set xs \<and> rb_sentinel s \<notin> set xs"
  by (auto simp: rbtree_holds_def rbtree_ok_def rep_def dest: tree_on_notin)

lemma rbtree_holds_empty: "rbtree_holds s [] \<longleftrightarrow> rb_root s = rb_sentinel s \<and> sentinel_ok s"
proof
  assume "rbtree_holds s []"
  then obtain t where "rbtree_ok s t" "inorder t = []" by (auto simp: rbtree_holds_def)
  then show "rb_root s = rb_sentinel s \<and> sentinel_ok s"
    by (cases t) (auto simp: rbtree_ok_def rep_def)
next
  assume "rb_root s = rb_sentinel s \<and> sentinel_ok s"
  then have "rbtree_ok s Leaf" by (simp add: rbtree_ok_def rep_def)
  then show "rbtree_holds s []" unfolding rbtree_holds_def by (metis inorder.simps(1))
qed

lemma rbtree_holds_root: "rbtree_holds s xs \<Longrightarrow> rb_root s = rb_sentinel s \<longleftrightarrow> xs = []"
proof -
  assume "rbtree_holds s xs"
  then obtain t where "rbtree_ok s t" "inorder t = xs" by (auto simp: rbtree_holds_def)
  then show ?thesis by (cases t) (auto simp: rbtree_ok_def rep_def)
qed

lemma rbtree_init_holds:
  assumes "sentinel \<noteq> NULL"
  shows "\<exists>s'. rbtree_init s sentinel i = Some s' \<and> rbtree_holds s' [] \<and> rb_sentinel s' = sentinel \<and> rb_insert s' = i"
  using assms by (simp add: rbtree_init_def rbt_black_def rbtree_holds_empty sentinel_ok_def)

lemma rbtree_min_holds:
  assumes "rbtree_holds s xs" and "xs \<noteq> []"
  shows "rbtree_min s (rb_root s) (rb_sentinel s) = Some (hd xs)"
  using assms rbtree_min_rep by (fastforce simp: rbtree_holds_def rbtree_ok_def)

lemma rbtree_next_holds:
  assumes "rbtree_holds s (xs @ x # ys)"
  shows "rbtree_next s x = Some (case ys of [] \<Rightarrow> NULL | y # _ \<Rightarrow> y)"
proof -
  from assms obtain t where t: "rbtree_ok s t" "inorder t = xs @ x # ys" by (auto simp: rbtree_holds_def)
  from t(2) have "x \<in> set (inorder t)" by simp
  then obtain fs l c r where p: "t = plug fs (Node l x c r)" using member_plug by blast
  with t(1) obtain q par where z: "zip_at s fs (Node l x c r) q par" by (auto simp: rbtree_ok_def rep_iff_zip)
  have d: "distinct (xs @ x # ys)" using assms by (rule rbtree_holds_distinct)
  have "xs @ x # ys = (before fs @ inorder l) @ x # (inorder r @ after fs)"
    using t(2) p by (simp add: inorder_plug)
  from distinct_split [OF this d] have "ys = inorder r @ after fs" by simp
  with rbtree_next_zip [OF z] show ?thesis by simp
qed

section \<open>Insertion and deletion\<close>

abbreviation rank_of :: "u64 \<Rightarrow> rbtree \<Rightarrow> addr \<Rightarrow> nat" where
  "rank_of base s a \<equiv> key_rank (rb_insert s) base (rb_key s a)"

text \<open>Where a node goes: behind every node whose key is not greater.\<close>

definition insert_by_rank :: "u64 \<Rightarrow> rbtree \<Rightarrow> addr \<Rightarrow> addr list \<Rightarrow> addr list" where
  "insert_by_rank base s x xs =
     filter (\<lambda>a. rank_of base s a \<le> rank_of base s x) xs @ x # filter (\<lambda>a. rank_of base s x < rank_of base s a) xs"

lemma set_insert_by_rank [simp]: "set (insert_by_rank base s x xs) = insert x (set xs)"
  by (auto simp: insert_by_rank_def)

lemma length_insert_by_rank [simp]: "length (insert_by_rank base s x xs) = Suc (length xs)"
  using sum_length_filter_compl [of "\<lambda>a. rank_of base s a \<le> rank_of base s x" xs]
  by (simp add: insert_by_rank_def not_le)

lemma rb_frame_keys: "rb_frame A s s' \<Longrightarrow> rb_key s' = rb_key s \<and> rb_insert s' = rb_insert s \<and> rb_sentinel s' = rb_sentinel s"
  by (simp add: rb_frame_def)

lemma rbtree_sorted_frame: "rb_frame A s s' \<Longrightarrow> rbtree_sorted base s' xs = rbtree_sorted base s xs"
  by (simp add: rbtree_sorted_def rb_frame_def)

lemma insert_by_rank_less:
  assumes "rbtree_sorted base s xs" and "key_admissible (rb_insert s) base (rb_key s x)"
  shows "insert_by_rank base s x xs = filter (\<lambda>a. \<not> key_less (rb_insert s) (rb_key s x) (rb_key s a)) xs
    @ x # filter (\<lambda>a. key_less (rb_insert s) (rb_key s x) (rb_key s a)) xs"
proof -
  have "\<forall>a \<in> set xs. key_less (rb_insert s) (rb_key s x) (rb_key s a) \<longleftrightarrow> rank_of base s x < rank_of base s a"
    using assms tree_order.less_rank [where i = "rb_insert s" and base = base] by (auto simp: rbtree_sorted_def)
  then show ?thesis unfolding insert_by_rank_def by (simp add: not_less cong: filter_cong)
qed

lemma rbtree_sorted_insert:
  assumes "rbtree_sorted base s xs" and "key_admissible (rb_insert s) base (rb_key s x)"
  shows "rbtree_sorted base s (insert_by_rank base s x xs)"
  using assms tree_order.insert_sorted [where i = "rb_insert s" and base = base and f = "rb_key s" and xs = xs and x = x]
  unfolding insert_by_rank_less [OF assms] by (auto simp: rbtree_sorted_def)

lemma rbtree_insert_holds:
  assumes h: "rbtree_holds s xs" and srt: "rbtree_sorted base s xs"
    and adm: "key_admissible (rb_insert s) base (rb_key s x)"
    and x: "x \<notin> set xs" "x \<noteq> NULL" "x \<noteq> rb_sentinel s"
  shows "\<exists>s'. rbtree_insert s x = Some s' \<and> rbtree_holds s' (insert_by_rank base s x xs)
    \<and> rbtree_sorted base s' (insert_by_rank base s x xs) \<and> rb_frame (insert x (set xs)) s s'"
proof -
  let ?go = "\<lambda>a. key_less (rb_insert s) (rb_key s x) (rb_key s a)"
  obtain t where t: "rbtree_ok s t" "inorder t = xs" using h by (auto simp: rbtree_holds_def)
  then obtain s' where s': "rbtree_insert s x = Some s'" "rep s' (ins_tree ?go x t)" "rb_frame (insert x (set xs)) s s'"
    using rbtree_insert_rep [of s t x] x by auto
  have "sorted_wrt (\<lambda>a b. ?go a \<longrightarrow> ?go b) xs"
    using tree_order.go_split [where i = "rb_insert s" and base = base and ks = "map (rb_key s) xs" and k = "rb_key s x"]
      srt adm by (simp add: rbtree_sorted_def sorted_wrt_map comp_def)
  then have "inorder (ins_tree ?go x t) = insert_by_rank base s x xs"
    unfolding insert_by_rank_less [OF srt adm] using inorder_ins_tree [of ?go t x] t(2) by simp
  moreover have "rbtree_ok s' (ins_tree ?go x t)"
    using ins_tree_ok [of t ?go x] t(1) s'(2) by (simp add: rbtree_ok_def)
  ultimately have "rbtree_holds s' (insert_by_rank base s x xs)" unfolding rbtree_holds_def by blast
  then show ?thesis
    using s'(1,3) rbtree_sorted_frame [OF s'(3)] rbtree_sorted_insert [OF srt adm] by blast
qed

lemma rbtree_sorted_remove1: "rbtree_sorted base s xs \<Longrightarrow> rbtree_sorted base s (remove1 x xs)"
  unfolding rbtree_sorted_def by (auto dest: notin_set_remove1) (meson set_remove1_subset sorted_map_remove1 subsetD)+

lemma rbtree_sorted_cong:
  "rb_insert s' = rb_insert s \<Longrightarrow> (\<And>a. a \<in> set xs \<Longrightarrow> rb_key s' a = rb_key s a) \<Longrightarrow>
    rbtree_sorted base s' xs = rbtree_sorted base s xs"
  by (auto simp: rbtree_sorted_def cong: map_cong)

lemma rbtree_sorted_del_frame:
  "del_frame A x s s' \<Longrightarrow> x \<notin> set xs \<Longrightarrow> rbtree_sorted base s' xs = rbtree_sorted base s xs"
  by (rule rbtree_sorted_cong) (auto simp: del_frame_def rb_frame_def)

lemma rbtree_delete_holds:
  assumes h: "rbtree_holds s xs" and x: "x \<in> set xs"
  shows "\<exists>s'. rbtree_delete s x = Some s' \<and> rbtree_holds s' (remove1 x xs)
    \<and> (rbtree_sorted base s xs \<longrightarrow> rbtree_sorted base s' (remove1 x xs))
    \<and> del_frame (insert (rb_sentinel s) (set xs)) x s s'"
proof -
  obtain t where t: "rbtree_ok s t" "inorder t = xs" using h by (auto simp: rbtree_holds_def)
  with rbtree_delete_rep [OF t(1)] x obtain s' where s': "rbtree_delete s x = Some s'"
    "rbtree_holds s' (remove1 x xs)" "del_frame (insert (rb_sentinel s) (set xs)) x s s'"
    unfolding rbtree_holds_def by metis
  have "x \<notin> set (remove1 x xs)" using rbtree_holds_distinct [OF h] by simp
  from rbtree_sorted_del_frame [OF s'(3) this] s' rbtree_sorted_remove1 show ?thesis by blast
qed

section \<open>Depth\<close>

fun rbt_height :: "rbt \<Rightarrow> nat" where
  "rbt_height Leaf = 0"
| "rbt_height (Node l a c r) = Suc (max (rbt_height l) (rbt_height r))"

lemma height_bh: "rb_ok t \<Longrightarrow> rbt_height t \<le> 2 * bh t + (if is_red t then 1 else 0)"
  by (induction t) (auto simp: max_def split: if_splits)

lemma bh_size: "rb_ok t \<Longrightarrow> 2 ^ bh t \<le> length (inorder t) + 1"
proof (induction t)
  case (Node l a c r)
  then show ?case by (cases c) auto
qed simp

text \<open>Following child pointers, \<open>True\<close> for left; no step leads below the sentinel.\<close>

fun walk :: "rbtree \<Rightarrow> bool list \<Rightarrow> addr \<Rightarrow> addr option" where
  "walk s [] p = Some p"
| "walk s (d # ds) p = (if p = rb_sentinel s then None
     else do { p \<leftarrow> (if d then get_left s p else get_right s p); walk s ds p })"

lemma walk_height: "tree_at s t q par \<Longrightarrow> walk s ds q = Some p \<Longrightarrow> length ds \<le> rbt_height t"
proof (induction t arbitrary: ds q par)
  case Leaf
  then show ?case by (cases ds) auto
next
  case (Node l a c r)
  then show ?case by (cases ds) (fastforce simp: rb_access split: if_splits)+
qed

lemma walk_bound:
  assumes "rbtree_holds s xs" and "walk s ds (rb_root s) = Some p"
  shows "2 ^ (length ds div 2) \<le> length xs + 1"
proof -
  obtain t where t: "rbtree_ok s t" "inorder t = xs" using assms(1) by (auto simp: rbtree_holds_def)
  then have "length ds \<le> 2 * bh t"
    using walk_height [of s t "rb_root s" _ ds p] assms(2) height_bh [of t]
    by (fastforce simp: rbtree_ok_def rep_def)
  then have "(2 :: nat) ^ (length ds div 2) \<le> 2 ^ bh t" by (intro power_increasing) simp_all
  also have "\<dots> \<le> length xs + 1" using bh_size [of t] t by (simp add: rbtree_ok_def)
  finally show ?thesis .
qed

section \<open>A concrete tree\<close>

text \<open>Three nodes at 2, 3 and 4 with the keys 10, 20 and 30, sentinel at 9, a spare node at 5.\<close>

definition tree3 :: rbtree where
  "tree3 = \<lparr>rb_left = (\<lambda>_. 9)(3 := 2), rb_right = (\<lambda>_. 9)(3 := 4), rb_parent = (\<lambda>_. 0)(2 := 3, 4 := 3),
     rb_key = (\<lambda>_. 0)(2 := 10, 3 := 20, 4 := 30, 5 := 25), rb_color = (\<lambda>_. 0)(2 := 1, 4 := 1),
     rb_root = 3, rb_sentinel = 9, rb_insert = Rbtree_insert_timer_value\<rparr>"

lemma tree3_holds: "rbtree_holds tree3 [2, 3, 4]"
  unfolding rbtree_holds_def
  by (rule exI [of _ "Node (Node Leaf 2 True Leaf) 3 False (Node Leaf 4 True Leaf)"])
    (simp add: rbtree_ok_def rep_def tree3_def sentinel_ok_def)

lemma tree3_sorted: "rbtree_sorted 0 tree3 [2, 3, 4]"
  by (simp add: rbtree_sorted_def tree3_def timer_window_def)

lemma tree3_fields: "rb_insert tree3 = Rbtree_insert_timer_value" "rb_sentinel tree3 = 9" "rb_key tree3 5 = 25"
  by (simp_all add: tree3_def)

lemma tree3_place: "insert_by_rank 0 tree3 5 [2, 3, 4] = [2, 3, 5, 4]"
  by (simp add: insert_by_rank_def tree3_def)

section \<open>Properties\<close>

text \<open>
  C8: \<open>rbtree_insert\<close> on a well-formed red-black tree with sorted keys returns without a bad
  access, places the new node behind all nodes whose key is not greater (so equal keys stay in
  the order of insertion) and in front of the others, keeps the red-black conditions and the
  order, and writes only nodes of the tree. For a timer tree keys are compared on the 64-bit
  circle, within a window of half its size.
\<close>

theorem rbtree_insert_correct:
  assumes "rbtree_holds s xs" and "rbtree_sorted base s xs"
    and "key_admissible (rb_insert s) base (rb_key s x)"
    and "x \<notin> set xs" and "x \<noteq> NULL" and "x \<noteq> rb_sentinel s"
  shows "\<exists>s'. rbtree_insert s x = Some s' \<and> rbtree_holds s' (insert_by_rank base s x xs)
    \<and> rbtree_sorted base s' (insert_by_rank base s x xs) \<and> rb_frame (insert x (set xs)) s s'"
  using assms by (rule rbtree_insert_holds)

theorem rbtree_insert_correct_witness:
  "\<exists>s'. rbtree_insert tree3 5 = Some s' \<and> rbtree_holds s' [2, 3, 5, 4]"
proof -
  have "\<exists>s'. rbtree_insert tree3 5 = Some s' \<and> rbtree_holds s' (insert_by_rank 0 tree3 5 [2, 3, 4])
    \<and> rbtree_sorted 0 s' (insert_by_rank 0 tree3 5 [2, 3, 4]) \<and> rb_frame (insert 5 (set [2, 3, 4])) tree3 s'"
    by (rule rbtree_insert_correct [OF tree3_holds tree3_sorted]) (simp_all add: tree3_fields timer_window_def)
  then show ?thesis unfolding tree3_place by blast
qed

text \<open>
  C9: \<open>rbtree_delete\<close> of a node of a well-formed red-black tree returns without a bad access,
  the repair loop ends, and the tree that is left is red-black and holds the other nodes in the
  same order; only nodes of the tree and the sentinel are written, and no key but that of the
  deleted node, which is cleared.
\<close>

theorem rbtree_delete_correct:
  assumes "rbtree_holds s xs" and "x \<in> set xs"
  shows "\<exists>s'. rbtree_delete s x = Some s' \<and> rbtree_holds s' (remove1 x xs)
    \<and> (rbtree_sorted base s xs \<longrightarrow> rbtree_sorted base s' (remove1 x xs))
    \<and> del_frame (insert (rb_sentinel s) (set xs)) x s s'"
  using assms by (rule rbtree_delete_holds)

theorem rbtree_delete_correct_witness:
  "\<exists>s'. rbtree_delete tree3 3 = Some s' \<and> rbtree_holds s' [2, 4] \<and> rbtree_sorted 0 s' [2, 4]"
proof -
  have "(3 :: nat) \<in> set [2, 3, 4]" by simp
  from rbtree_delete_correct [OF tree3_holds this, of 0] tree3_sorted show ?thesis by auto
qed

text \<open>
  C23: In a well-formed tree \<open>rbtree_min\<close> returns the first node, and \<open>rbtree_next\<close> steps through
  the nodes in order: from each node to the one behind it, and from the last one to \<open>NULL\<close>.
\<close>

theorem rbtree_traverse:
  assumes "rbtree_holds s (xs @ x # ys)"
  shows "rbtree_min s (rb_root s) (rb_sentinel s) = Some (hd (xs @ [x]))
    \<and> rbtree_next s x = Some (if ys = [] then NULL else hd ys)"
  using rbtree_min_holds [OF assms] rbtree_next_holds [OF assms]
  by (simp add: hd_append split: list.splits)

theorem rbtree_traverse_witness:
  "rbtree_min tree3 3 9 = Some 2 \<and> rbtree_next tree3 2 = Some 3"
  using rbtree_traverse [of tree3 "[]" 2 "[3, 4]"] tree3_holds by (simp add: tree3_def)

text \<open>
  C26: The tree stays balanced: after an insertion into a tree of \<open>n\<close> nodes, every path of child
  pointers that starts at the root, whatever its directions, has at most \<open>2 * log (n + 2)\<close> nodes
  before it meets the sentinel, which bounds every later descent.
\<close>

theorem rbtree_insert_balanced:
  assumes "rbtree_holds s xs" and "rbtree_sorted base s xs"
    and "key_admissible (rb_insert s) base (rb_key s x)"
    and "x \<notin> set xs" and "x \<noteq> NULL" and "x \<noteq> rb_sentinel s"
  shows "\<exists>s'. rbtree_insert s x = Some s'
    \<and> (\<forall>ds p. walk s' ds (rb_root s') = Some p \<longrightarrow> 2 ^ (length ds div 2) \<le> length xs + 2)"
proof -
  obtain s' where s': "rbtree_insert s x = Some s'" "rbtree_holds s' (insert_by_rank base s x xs)"
    using rbtree_insert_holds [OF assms] by blast
  from s'(1) walk_bound [OF s'(2)] show ?thesis by fastforce
qed

theorem rbtree_insert_balanced_witness:
  "\<exists>s'. rbtree_insert tree3 5 = Some s'
     \<and> (\<forall>ds p. walk s' ds (rb_root s') = Some p \<longrightarrow> 2 ^ (length ds div 2) \<le> length [2 :: addr, 3, 4] + 2)"
  by (rule rbtree_insert_balanced [OF tree3_holds tree3_sorted])
    (simp_all add: tree3_fields timer_window_def)

end
