(* ===== verification/Times.thy ===== *)
theory Times
  imports Prelude
begin

text \<open>
  The cached clock of \<^verbatim>\<open>src/times.c\<close>: a ring of 64 time slots behind a try-lock, the
  millisecond clock of the timers, and \<open>sgmtime\<close>, the conversion of seconds since the epoch to a
  calendar date by Gauss' formula. \<open>sgmtime\<close> is proved against a calendar that counts the days
  of years and months one by one.
\<close>

section \<open>Integers of the C program\<close>

text \<open>Values of \<open>uint64_t\<close> and \<open>int64_t\<close> variables as integers: every assignment wraps.\<close>

definition wrap64 :: "int \<Rightarrow> int" where "wrap64 x = x mod 2 ^ 64"
definition swrap64 :: "int \<Rightarrow> int" where "swrap64 x = (x + 2 ^ 63) mod 2 ^ 64 - 2 ^ 63"

lemma wrap64_id: "0 \<le> x \<Longrightarrow> x < 2 ^ 64 \<Longrightarrow> wrap64 x = x"
  by (simp add: wrap64_def)

lemma swrap64_id: "- (2 ^ 63) \<le> x \<Longrightarrow> x < 2 ^ 63 \<Longrightarrow> swrap64 x = x"
  by (simp add: swrap64_def)

lemma swrap64_wrap64: "swrap64 (wrap64 x) = swrap64 x"
  by (simp add: swrap64_def wrap64_def mod_simps)

lemma wrap64_wrap64: "wrap64 (wrap64 x + y) = wrap64 (x + y)" "wrap64 (y + wrap64 x) = wrap64 (y + x)"
  "wrap64 (wrap64 x - y) = wrap64 (x - y)" "wrap64 (y - wrap64 x) = wrap64 (y - x)"
  by (simp_all add: wrap64_def mod_simps)

section \<open>sgmtime\<close>

record tm =
  tm_sec :: int
  tm_min :: int
  tm_hour :: int
  tm_mday :: int
  tm_mon :: int
  tm_year :: int
  tm_wday :: int

text \<open>Gauss' formula: year, month and day of the month from the days since the epoch.\<close>

definition sgmtime_date :: "int \<Rightarrow> int \<times> int \<times> int" where
  "sgmtime_date days =
    (let days = wrap64 (days - (31 + 28) + 719527);
         year = wrap64 ((days + 2) * 400) div (365 * 400 + 100 - 4 + 1);
         yday = swrap64 (days - wrap64 (365 * year + year div 4 - year div 100 + year div 400));
         leap = (if year mod 4 = 0 \<and> (year mod 100 \<noteq> 0 \<or> year mod 400 = 0) then 1 else 0);
         (yday, year) = (if yday < 0 then (swrap64 (365 + leap + yday), wrap64 (year - 1)) else (yday, year));
         mon = (yday + 31) * 10 div 306;
         mday = wrap64 (yday - (wrap64 (367 * mon) div 12 - 30) + 1);
         (year, mon) = (if yday \<ge> 306 then (wrap64 (year + 1), wrap64 (mon - 10)) else (year, wrap64 (mon + 2)))
     in (year, mon, mday))"

definition sgmtime :: "int \<Rightarrow> tm" where
  "sgmtime t =
    (let t = (if t < 0 then 0 else t);
         days = t div 86400;
         sec = t mod 86400;
         (days, sec) = (if days > 2932896 then (2932896, 86399) else (days, sec));
         wday = wrap64 (4 + days) mod 7;
         hour = sec div 3600;
         sec = sec mod 3600;
         mn = sec div 60;
         sec = sec mod 60;
         (year, mon, mday) = sgmtime_date days
     in \<lparr>tm_sec = sec, tm_min = mn, tm_hour = hour, tm_mday = mday, tm_mon = mon, tm_year = year, tm_wday = wday\<rparr>)"

section \<open>The calendar\<close>

definition leap_year :: "int \<Rightarrow> bool" where
  "leap_year y \<longleftrightarrow> 4 dvd y \<and> (\<not> 100 dvd y \<or> 400 dvd y)"

definition year_days :: "int \<Rightarrow> int" where
  "year_days y = (if leap_year y then 366 else 365)"

definition month_days :: "int \<Rightarrow> int \<Rightarrow> int" where
  "month_days y m = (if m = 2 then if leap_year y then 29 else 28 else if m \<in> {4, 6, 9, 11} then 30 else 31)"

definition valid_date :: "int \<Rightarrow> int \<Rightarrow> int \<Rightarrow> bool" where
  "valid_date y m d \<longleftrightarrow> 1970 \<le> y \<and> 1 \<le> m \<and> m \<le> 12 \<and> 1 \<le> d \<and> d \<le> month_days y m"

text \<open>Days since January 1, 1970: whole years, whole months, days.\<close>

definition day_number :: "int \<Rightarrow> int \<Rightarrow> int \<Rightarrow> int" where
  "day_number y m d = (\<Sum>i \<in> {1970 ..< y}. year_days i) + (\<Sum>i \<leftarrow> [1 .. m - 1]. month_days y i) + (d - 1)"

section \<open>Gauss' formula\<close>

text \<open>Days before March 1 of the year \<open>y\<close>, counted from March 1, 1 BC.\<close>

definition gauss :: "int \<Rightarrow> int" where
  "gauss y = 365 * y + y div 4 - y div 100 + y div 400"

lemma gauss_bounds: "146097 * y - 699 \<le> 400 * gauss y" "400 * gauss y \<le> 146097 * y + 396"
  unfolding gauss_def by simp_all

lemma div_step:
  fixes y k :: int
  assumes "0 < k"
  shows "(y + 1) div k = y div k + (if k dvd (y + 1) then 1 else 0)"
proof -
  define q r where "q = y div k" and "r = y mod k"
  have y: "y = k * q + r" and r: "0 \<le> r" "r < k" using assms by (simp_all add: q_def r_def)
  show ?thesis
  proof (cases "r = k - 1")
    case True
    with y have "y + 1 = k * (q + 1)" by (simp add: algebra_simps)
    then show ?thesis using assms by (simp add: q_def)
  next
    case False
    with r have r1: "0 \<le> r + 1" "r + 1 < k" by simp_all
    have e: "y + 1 = k * q + (r + 1)" using y by simp
    have "(y + 1) div k = q" using int_div_pos_eq [OF e r1] .
    moreover have "(y + 1) mod k = r + 1" using int_mod_pos_eq [OF e r1] .
    then have "\<not> k dvd (y + 1)" using r by (simp add: dvd_eq_mod_eq_0)
    ultimately show ?thesis by (simp add: q_def)
  qed
qed

lemma leap_bool:
  "(c \<Longrightarrow> b) \<Longrightarrow> (b \<Longrightarrow> a) \<Longrightarrow>
    (365 :: int) + (if a then 1 else 0) - (if b then 1 else 0) + (if c then 1 else 0)
      = (if a \<and> (\<not> b \<or> c) then 366 else 365)"
  by (cases a; cases b; cases c) simp_all

lemma gauss_Suc: "gauss (y + 1) = gauss y + year_days (y + 1)"
proof -
  note div_step [of 4 y, simplified] div_step [of 100 y, simplified] div_step [of 400 y, simplified]
  note d = this
  have t: "400 dvd (y + 1) \<Longrightarrow> 100 dvd (y + 1)" "100 dvd (y + 1) \<Longrightarrow> 4 dvd (y + 1)"
    using dvd_trans [of 100 400 "y + 1"] dvd_trans [of 4 100 "y + 1"] by simp_all
  have e: "gauss (y + 1) = gauss y + 365 + (if 4 dvd (y + 1) then 1 else 0) - (if 100 dvd (y + 1) then 1 else 0)
      + (if 400 dvd (y + 1) then 1 else 0)"
    unfolding gauss_def d by (simp add: algebra_simps)
  have "365 + (if 4 dvd (y + 1) then 1 else 0) - (if 100 dvd (y + 1) then 1 else 0)
      + (if 400 dvd (y + 1) then 1 else 0) = year_days (y + 1)"
    unfolding year_days_def leap_year_def by (rule leap_bool [OF t])
  with e show ?thesis by linarith
qed

lemma sum_year_days: "1970 \<le> y \<Longrightarrow> (\<Sum>i \<in> {1970 ..< y}. year_days i) = gauss (y - 1) - gauss 1969"
proof (induction y rule: int_ge_induct)
  case (step y)
  have "{1970 ..< y + 1} = insert y {1970 ..< y}" using step.hyps by auto
  then show ?case using step gauss_Suc [of "y - 1"] by simp
qed simp

lemma gauss_year:
  assumes "0 \<le> n" and y: "y = (n + 2) * 400 div 146097"
  shows "gauss (y - 1) \<le> n" and "n < gauss (y + 1)"
proof -
  have "146097 * y \<le> (n + 2) * 400" "(n + 2) * 400 < 146097 * (y + 1)" unfolding y by simp_all
  with gauss_bounds [of "y - 1"] gauss_bounds [of "y + 1"] show "gauss (y - 1) \<le> n" "n < gauss (y + 1)"
    by (simp_all add: algebra_simps)
qed

text \<open>Month and day from the number of the day in a year that starts on March 1.\<close>

definition month_of :: "int \<Rightarrow> int" where
  "month_of yday = (let mon = (yday + 31) * 10 div 306 in if yday \<ge> 306 then mon - 10 else mon + 2)"

definition mday_of :: "int \<Rightarrow> int" where
  "mday_of yday = yday - (367 * ((yday + 31) * 10 div 306) div 12 - 30) + 1"

text \<open>Days of the year that lie before the month, from March to February.\<close>

definition days_before :: "int \<Rightarrow> int" where
  "days_before m = (if m = 1 then 306 else if m = 2 then 337 else if m = 3 then 0 else if m = 4 then 31
     else if m = 5 then 61 else if m = 6 then 92 else if m = 7 then 122 else if m = 8 then 153
     else if m = 9 then 184 else if m = 10 then 214 else if m = 11 then 245 else 275)"

definition month_check :: "nat \<Rightarrow> bool" where
  "month_check n = (let y = int n; m = month_of y; d = mday_of y in
     1 \<le> m \<and> m \<le> 12 \<and> 1 \<le> d \<and> d \<le> (if m = 2 then 29 else if m \<in> {4, 6, 9, 11} then 30 else 31)
     \<and> days_before m + d - 1 = y \<and> (m \<le> 2 \<longleftrightarrow> 306 \<le> y))"

lemma month_check_all: "\<forall>n \<in> set [0 ..< 366]. month_check n"
  by code_simp

lemma month_of_ok:
  assumes "0 \<le> yday" and "yday < 366"
  shows "1 \<le> month_of yday" "month_of yday \<le> 12" "1 \<le> mday_of yday"
    "mday_of yday \<le> (if month_of yday = 2 then 29 else if month_of yday \<in> {4, 6, 9, 11} then 30 else 31)"
    "days_before (month_of yday) + mday_of yday - 1 = yday" "month_of yday \<le> 2 \<longleftrightarrow> 306 \<le> yday"
proof -
  have "nat yday \<in> set [0 ..< 366]" using assms by auto
  from bspec [OF month_check_all this] assms
  show "1 \<le> month_of yday" "month_of yday \<le> 12" "1 \<le> mday_of yday"
    "mday_of yday \<le> (if month_of yday = 2 then 29 else if month_of yday \<in> {4, 6, 9, 11} then 30 else 31)"
    "days_before (month_of yday) + mday_of yday - 1 = yday" "month_of yday \<le> 2 \<longleftrightarrow> 306 \<le> yday"
    by (simp_all only: month_check_def Let_def nat_0_le)
qed

lemma month_sum:
  assumes "1 \<le> m" and "m \<le> 12"
  shows "(\<Sum>i \<leftarrow> [1 .. m - 1]. month_days y i)
    = (if m = 1 then 0 else if m = 2 then 31 else 59 + (if leap_year y then 1 else 0) + days_before m)"
proof -
  have "m = 1 \<or> m = 2 \<or> m = 3 \<or> m = 4 \<or> m = 5 \<or> m = 6 \<or> m = 7 \<or> m = 8 \<or> m = 9 \<or> m = 10 \<or> m = 11 \<or> m = 12"
    using assms by presburger
  then show ?thesis by (elim disjE) (simp_all add: month_days_def days_before_def upto.simps)
qed

text \<open>The day and the year, from the number \<open>n\<close> of days since March 1, 1 BC.\<close>

definition gauss_split :: "int \<Rightarrow> int \<times> int" where
  "gauss_split n = (let y = (n + 2) * 400 div 146097; yday = n - gauss y
     in if yday < 0 then (y - 1, 365 + (if leap_year y then 1 else 0) + yday) else (y, yday))"

lemma gauss_split_ok:
  assumes "0 \<le> n" and s: "gauss_split n = (y, yday)"
  shows "gauss y + yday = n" and "0 \<le> yday" and "yday < year_days (y + 1)"
proof -
  define g where "g = (n + 2) * 400 div 146097"
  have b: "gauss (g - 1) \<le> n" "n < gauss (g + 1)" using gauss_year [OF assms(1)] by (simp_all add: g_def)
  have "gauss g = gauss (g - 1) + year_days g" "gauss (g + 1) = gauss g + year_days (g + 1)"
    using gauss_Suc [of "g - 1"] gauss_Suc [of g] by simp_all
  with b s show "gauss y + yday = n" "0 \<le> yday" "yday < year_days (y + 1)"
    unfolding gauss_split_def Let_def g_def [symmetric] by (auto simp: year_days_def split: if_splits)
qed

definition civil :: "int \<Rightarrow> int \<times> int \<times> int" where
  "civil n = (case gauss_split n of (y, yday) \<Rightarrow>
     (if yday \<ge> 306 then y + 1 else y, month_of yday, mday_of yday))"

lemma civil_ok:
  assumes "719468 \<le> n" and c: "civil n = (y, m, d)"
  shows "valid_date y m d" and "day_number y m d = n - 719468"
proof -
  obtain y0 yday where s: "gauss_split n = (y0, yday)" by fastforce
  with c have y: "y = (if yday \<ge> 306 then y0 + 1 else y0)" "m = month_of yday" "d = mday_of yday"
    by (auto simp: civil_def)
  note g = gauss_split_ok [OF _ s]
  have n: "gauss y0 + yday = n" "0 \<le> yday" "yday < year_days (y0 + 1)" using g assms(1) by auto
  then have yd: "0 \<le> yday" "yday < 366" by (auto simp: year_days_def split: if_splits)
  note mo = month_of_ok [OF yd, folded y(2,3)]
  have "1969 \<le> y0"
  proof (rule ccontr)
    assume "\<not> 1969 \<le> y0"
    with gauss_bounds(2) [of y0] n(1) yd assms(1) show False by simp
  qed
  moreover have "y0 \<noteq> 1969" if "yday < 306"
    using that n(1) assms(1) by (auto simp: gauss_def)
  ultimately have y70: "1970 \<le> y" using y(1) by auto
  have d28: "mday_of yday \<le> 28" if "m = 2" "yday < 365" using that mo(5) by (simp add: days_before_def y)
  have "d \<le> month_days y m"
  proof (cases "m = 2 \<and> \<not> leap_year y")
    case True
    then have "yday \<ge> 306" using mo(6) by simp
    then have "y = y0 + 1" using y(1) by simp
    with True n(3) have "yday < 365" by (simp add: year_days_def)
    with d28 True y(3) show ?thesis by (simp add: month_days_def)
  next
    case False
    with mo(4) show ?thesis by (auto simp: month_days_def split: if_splits)
  qed
  then show "valid_date y m d"
    unfolding valid_date_def using mo(1-3) y70 by blast
  have "(\<Sum>i \<in> {1970 ..< y}. year_days i) = gauss (y - 1) - 719162"
    unfolding sum_year_days [OF y70] by (simp add: gauss_def)
  moreover have "gauss y = gauss (y - 1) + year_days y" using gauss_Suc [of "y - 1"] by simp
  ultimately have years: "(\<Sum>i \<in> {1970 ..< y}. year_days i) = gauss y - year_days y - 719162" by simp
  show "day_number y m d = n - 719468"
  proof (cases "m \<le> 2")
    case True
    with mo(1) have m: "m = 1 \<or> m = 2" by arith
    from True mo(6) y(1) have "y = y0 + 1" by simp
    with gauss_Suc [of y0] have "gauss y - year_days y = gauss y0" by simp
    with m mo(5) n(1) y(3) show ?thesis
      unfolding day_number_def month_sum [OF mo(1,2)] years by (auto simp: days_before_def)
  next
    case False
    with mo(6) y(1) have "y = y0" by simp
    with False mo(5) n(1) y(3) show ?thesis
      unfolding day_number_def month_sum [OF mo(1,2)] years by (simp add: year_days_def)
  qed
qed

section \<open>The code computes the calendar\<close>

lemma gauss_range:
  assumes "0 \<le> n" and "n \<le> 4000000" and y: "y = (n + 2) * 400 div 146097"
  shows "0 \<le> y" "y \<le> 11000" "- 400 \<le> gauss y" "gauss y \<le> 5000000" "- 1000 \<le> n - gauss y" "n - gauss y < 1000"
proof -
  have m: "146097 * y \<le> (n + 2) * 400" "(n + 2) * 400 < 146097 * (y + 1)" unfolding y by simp_all
  then show b: "0 \<le> y" "y \<le> 11000" using assms by simp_all
  from gauss_bounds [of y] m b show "- 400 \<le> gauss y" "gauss y \<le> 5000000" "- 1000 \<le> n - gauss y" "n - gauss y < 1000"
    by simp_all
qed

lemma sgmtime_date_civil:
  assumes "0 \<le> days" and "days \<le> 2932896"
  shows "sgmtime_date days = civil (days + 719468)"
proof -
  define n where "n = days + 719468"
  have n: "719468 \<le> n" "n \<le> 3652364" using assms by (simp_all add: n_def)
  define y where "y = (n + 2) * 400 div 146097"
  have r: "0 \<le> y" "y \<le> 11000" "- 400 \<le> gauss y" "gauss y \<le> 5000000" "- 1000 \<le> n - gauss y" "n - gauss y < 1000"
    using gauss_range [of n y] n by (simp_all add: y_def)
  have y1: "1 \<le> y" using n by (simp add: y_def)
  have g0: "0 \<le> gauss y" using gauss_bounds [of y] y1 by simp
  have w1: "wrap64 (days - (31 + 28) + 719527) = n" using n by (simp add: n_def wrap64_id)
  have w2: "wrap64 ((n + 2) * 400) div (365 * 400 + 100 - 4 + 1) = y" using n by (simp add: wrap64_id y_def)
  have w3: "swrap64 (n - wrap64 (365 * y + y div 4 - y div 100 + y div 400)) = n - gauss y"
    using r g0 by (simp add: gauss_def [symmetric] wrap64_id swrap64_id)
  have lp: "(y mod 4 = 0 \<and> (y mod 100 \<noteq> 0 \<or> y mod 400 = 0)) = leap_year y"
    by (simp add: leap_year_def dvd_eq_mod_eq_0)
  obtain y' yday where s: "gauss_split n = (y', yday)" by fastforce
  have s': "(if n - gauss y < 0 then (swrap64 (365 + (if leap_year y then 1 else 0) + (n - gauss y)), wrap64 (y - 1))
      else (n - gauss y, y)) = (yday, y')"
    using s r y1 unfolding gauss_split_def Let_def y_def [symmetric]
    by (auto simp: swrap64_id wrap64_id split: if_splits)
  have yd: "0 \<le> yday" "yday < 366"
    using gauss_split_ok [OF _ s] n by (auto simp: year_days_def split: if_splits)
  have y': "0 \<le> y'" "y' \<le> 11000" using s r y1 unfolding gauss_split_def Let_def y_def [symmetric] by (auto split: if_splits)
  have mo: "1 \<le> month_of yday" "month_of yday \<le> 12" "1 \<le> mday_of yday" "mday_of yday \<le> 31"
    using month_of_ok [OF yd] by (auto split: if_splits)
  have m: "0 \<le> (yday + 31) * 10 div 306" "(yday + 31) * 10 div 306 \<le> 13" using yd by simp_all
  have w4: "wrap64 (yday - (wrap64 (367 * ((yday + 31) * 10 div 306)) div 12 - 30) + 1) = mday_of yday"
    using m mo by (simp add: wrap64_id mday_of_def)
  have w5: "(if yday \<ge> 306 then (wrap64 (y' + 1), wrap64 ((yday + 31) * 10 div 306 - 10)) else (y', wrap64 ((yday + 31) * 10 div 306 + 2)))
    = (if yday \<ge> 306 then y' + 1 else y', month_of yday)"
    using m mo y' by (simp add: wrap64_id month_of_def Let_def split: if_splits)
  have "sgmtime_date days = (if yday \<ge> 306 then y' + 1 else y', month_of yday, mday_of yday)"
    unfolding sgmtime_date_def by (simp only: Let_def w1 w2 w3 lp s' w4 w5 prod.case)
  then show ?thesis by (simp add: civil_def s n_def [symmetric])
qed

definition tm_day :: "tm \<Rightarrow> int" where
  "tm_day r = day_number (tm_year r) (tm_mon r) (tm_mday r)"

lemma sgmtime_ok:
  assumes t: "0 \<le> t" "t < 253402300800"
  shows "valid_date (tm_year (sgmtime t)) (tm_mon (sgmtime t)) (tm_mday (sgmtime t))"
    and "t = tm_day (sgmtime t) * 86400 + tm_hour (sgmtime t) * 3600 + tm_min (sgmtime t) * 60 + tm_sec (sgmtime t)"
    and "tm_hour (sgmtime t) \<in> {0 ..< 24}" "tm_min (sgmtime t) \<in> {0 ..< 60}" "tm_sec (sgmtime t) \<in> {0 ..< 60}"
    and "tm_wday (sgmtime t) = (tm_day (sgmtime t) + 4) mod 7"
proof -
  define days sec where "days = t div 86400" and "sec = t mod 86400"
  have d: "0 \<le> days" "days \<le> 2932896" using t by (simp_all add: days_def)
  have s: "0 \<le> sec" "sec < 86400" "t = days * 86400 + sec" by (simp_all add: days_def sec_def)
  obtain y m md where c: "civil (days + 719468) = (y, m, md)" by (metis prod_cases3)
  have ok: "valid_date y m md" "day_number y m md = days" using civil_ok [OF _ c] d by simp_all
  have e: "sgmtime t = \<lparr>tm_sec = sec mod 3600 mod 60, tm_min = sec mod 3600 div 60, tm_hour = sec div 3600,
      tm_mday = md, tm_mon = m, tm_year = y, tm_wday = (4 + days) mod 7\<rparr>"
    using t d by (simp add: sgmtime_def Let_def days_def [symmetric] sec_def [symmetric]
      sgmtime_date_civil [OF d] c wrap64_id)
  have w: "wrap64 (4 + days) mod 7 = (4 + days) mod 7" using d by (simp add: wrap64_id)
  show "valid_date (tm_year (sgmtime t)) (tm_mon (sgmtime t)) (tm_mday (sgmtime t))" using ok by (simp add: e)
  have day: "tm_day (sgmtime t) = days" using ok by (simp add: e tm_day_def)
  have "sec = sec div 3600 * 3600 + sec mod 3600" "sec mod 3600 = sec mod 3600 div 60 * 60 + sec mod 3600 mod 60"
    by (simp_all only: div_mult_mod_eq)
  then have "sec = tm_hour (sgmtime t) * 3600 + tm_min (sgmtime t) * 60 + tm_sec (sgmtime t)"
    unfolding e tm.simps by linarith
  then show "t = tm_day (sgmtime t) * 86400 + tm_hour (sgmtime t) * 3600 + tm_min (sgmtime t) * 60 + tm_sec (sgmtime t)"
    using s(3) day by linarith
  show "tm_wday (sgmtime t) = (tm_day (sgmtime t) + 4) mod 7" unfolding day by (simp add: e add.commute)
  have "sec div 3600 < 24" "0 \<le> sec div 3600" using s by simp_all
  moreover have "sec mod 3600 div 60 < 60" "0 \<le> sec mod 3600 div 60"
    using pos_mod_bound [of 3600 sec] pos_mod_sign [of 3600 sec] by simp_all
  ultimately show "tm_hour (sgmtime t) \<in> {0 ..< 24}" "tm_min (sgmtime t) \<in> {0 ..< 60}" "tm_sec (sgmtime t) \<in> {0 ..< 60}"
    by (simp_all add: e)
qed

lemma sgmtime_clamp: "t < 0 \<Longrightarrow> sgmtime t = sgmtime 0" "253402300800 \<le> t \<Longrightarrow> sgmtime t = sgmtime 253402300799"
proof -
  assume "253402300800 \<le> t"
  then have "2932896 < t div 86400" "\<not> t < 0" by simp_all
  then show "sgmtime t = sgmtime 253402300799" by (simp add: sgmtime_def Let_def)
qed (simp add: sgmtime_def)

section \<open>The slots\<close>

definition TIME_SLOTS :: nat where "TIME_SLOTS = 64"

record stime =
  st_sec :: int
  st_msec :: u64

text \<open>
  The static state of times.c. \<open>cached_time\<close> is the index of the published slot, \<open>None\<close> is \<open>NULL\<close>;
  \<open>gmtoff\<close> of a slot is written nowhere and left out.
\<close>

record times =
  slot :: nat
  time_lock :: u64
  current_msec :: u64
  cached_time :: "nat option"
  scached_time :: "nat \<Rightarrow> stime"

text \<open>
  \<open>gettimeofday\<close> and \<open>clock_gettime\<close> are system calls: what they return is an argument
  (\<open>tv_sec\<close>, \<open>tv_usec\<close>, then \<open>tv_sec\<close>, \<open>tv_nsec\<close> of the monotonic clock).
\<close>

record clocks =
  tv_sec :: int
  tv_usec :: int
  ts_sec :: int
  ts_nsec :: int

definition monotonic_time :: "clocks \<Rightarrow> u64" where
  "monotonic_time c = word_of_int (ts_sec c) * 1000 + word_of_int (ts_nsec c div 1000000)"

text \<open>\<open>trylock\<close> and \<open>unlock\<close> of atomic.h, as atomic steps on a lock word.\<close>

definition trylock :: "u64 \<Rightarrow> (u64 \<times> bool)" where
  "trylock l = (if l = 0 then (1, True) else (l, False))"

definition unlock :: "u64 \<Rightarrow> u64" where
  "unlock l = 0"

definition stime_update :: "clocks \<Rightarrow> 'a times_scheme \<Rightarrow> 'a times_scheme" where
  "stime_update c w =
    (let (l, got) = trylock (time_lock w); w = w\<lparr>time_lock := l\<rparr>
     in if \<not> got then w
     else let sec = tv_sec c;
              msec = word_of_int (tv_usec c div 1000);
              w = w\<lparr>current_msec := monotonic_time c\<rparr>;
              tp = slot w
          in if st_sec (scached_time w tp) = sec
             then let w = w\<lparr>scached_time := (scached_time w)(tp := (scached_time w tp)\<lparr>st_msec := msec\<rparr>)\<rparr>
                  in w\<lparr>time_lock := unlock (time_lock w)\<rparr>
             else let w = (if slot w = TIME_SLOTS - 1 then w\<lparr>slot := 0\<rparr> else w\<lparr>slot := slot w + 1\<rparr>);
                      tp = slot w;
                      w = w\<lparr>scached_time := (scached_time w)(tp := (scached_time w tp)\<lparr>st_sec := sec\<rparr>)\<rparr>;
                      w = w\<lparr>scached_time := (scached_time w)(tp := (scached_time w tp)\<lparr>st_msec := msec\<rparr>)\<rparr>;
                      w = w\<lparr>cached_time := Some tp\<rparr>
                  in w\<lparr>time_lock := unlock (time_lock w)\<rparr>)"

definition stime_init :: "clocks \<Rightarrow> 'a times_scheme \<Rightarrow> 'a times_scheme" where
  "stime_init c w = stime_update c (w\<lparr>cached_time := Some 0\<rparr>)"

text \<open>Readers find the published slot: \<open>stime()\<close> is the seconds in it.\<close>

definition times_ok :: "'a times_scheme \<Rightarrow> bool" where
  "times_ok w \<longleftrightarrow> slot w < TIME_SLOTS \<and> cached_time w = Some (slot w)"

lemma stime_update_busy: "time_lock w \<noteq> 0 \<Longrightarrow> stime_update c w = w"
  by (simp add: stime_update_def trylock_def Let_def)

text \<open>The slot that an update writes, with the lock free.\<close>

definition next_slot :: "clocks \<Rightarrow> 'a times_scheme \<Rightarrow> nat" where
  "next_slot c w = (if st_sec (scached_time w (slot w)) = tv_sec c then slot w
     else if slot w = TIME_SLOTS - 1 then 0 else slot w + 1)"

lemma stime_update_free:
  assumes "time_lock w = 0"
  shows "slot (stime_update c w) = next_slot c w"
    "time_lock (stime_update c w) = 0"
    "current_msec (stime_update c w) = monotonic_time c"
    "scached_time (stime_update c w) = (scached_time w)(next_slot c w := \<lparr>st_sec = tv_sec c, st_msec = word_of_int (tv_usec c div 1000)\<rparr>)"
    "cached_time (stime_update c w) = (if st_sec (scached_time w (slot w)) = tv_sec c then cached_time w else Some (next_slot c w))"
  using assms by (auto simp: stime_update_def trylock_def unlock_def next_slot_def Let_def)

lemma stime_updates_slot:
  assumes "slot w < TIME_SLOTS" and "time_lock w = 0" and "length cs < TIME_SLOTS"
  shows "let w' = foldl (\<lambda>w c. stime_update c w) w cs in
    time_lock w' = 0 \<and> (\<exists>k \<le> length cs. slot w' = (slot w + k) mod TIME_SLOTS)
    \<and> st_sec (scached_time w' (slot w)) = st_sec (scached_time w (slot w))"
  using assms(3)
proof (induction cs rule: rev_induct)
  case Nil
  show ?case using assms(1,2) by (simp add: Let_def)
next
  case (snoc c cs)
  define v where "v = foldl (\<lambda>w c. stime_update c w) w cs"
  from snoc have v: "time_lock v = 0" "st_sec (scached_time v (slot w)) = st_sec (scached_time w (slot w))"
    and "\<exists>k \<le> length cs. slot v = (slot w + k) mod TIME_SLOTS"
    by (simp_all add: v_def Let_def)
  then obtain k where k: "k \<le> length cs" "slot v = (slot w + k) mod TIME_SLOTS" by blast
  note u = stime_update_free [OF v(1), of c]
  show ?case
  proof (cases "st_sec (scached_time v (slot v)) = tv_sec c")
    case True
    then have n: "next_slot c v = slot v" by (simp add: next_slot_def)
    have "k \<le> length (cs @ [c])" using k(1) by simp
    with True k(2) v(2) show ?thesis by (auto simp: Let_def v_def [symmetric] u n)
  next
    case False
    then have n: "next_slot c v = (slot w + Suc k) mod TIME_SLOTS"
      using k(2) by (auto simp: next_slot_def TIME_SLOTS_def mod_Suc)
    have "(slot w + Suc k) mod TIME_SLOTS \<noteq> slot w"
      using assms(1) k(1) snoc.prems unfolding TIME_SLOTS_def by (cases "slot w + Suc k < 64") (auto simp: mod_if)
    moreover have "Suc k \<le> length (cs @ [c])" using k(1) by simp
    ultimately show ?thesis using v(2) by (auto simp: Let_def v_def [symmetric] u n)
  qed
qed

section \<open>Properties\<close>

text \<open>
  C17: For every time from the epoch to the end of the year 9999, \<open>sgmtime\<close> yields the calendar
  date, the clock time and the weekday: a valid Gregorian date whose number of days since January
  1, 1970, counted year by year and month by month, together with hours, minutes and seconds
  gives back exactly \<open>t\<close>. The month is numbered from 1 and the year is the full year.
\<close>

theorem sgmtime_correct:
  assumes "0 \<le> t" and "t < 253402300800"
  shows "valid_date (tm_year (sgmtime t)) (tm_mon (sgmtime t)) (tm_mday (sgmtime t))
    \<and> t = tm_day (sgmtime t) * 86400 + tm_hour (sgmtime t) * 3600 + tm_min (sgmtime t) * 60 + tm_sec (sgmtime t)
    \<and> tm_hour (sgmtime t) \<in> {0 ..< 24} \<and> tm_min (sgmtime t) \<in> {0 ..< 60} \<and> tm_sec (sgmtime t) \<in> {0 ..< 60}
    \<and> tm_wday (sgmtime t) = (tm_day (sgmtime t) + 4) mod 7"
  using sgmtime_ok [OF assms] by blast

theorem sgmtime_correct_witness:
  "sgmtime 951868799 = \<lparr>tm_sec = 59, tm_min = 59, tm_hour = 23, tm_mday = 29, tm_mon = 2, tm_year = 2000, tm_wday = 2\<rparr>
    \<and> valid_date 2000 2 29"
proof -
  have "sgmtime 951868799 = \<lparr>tm_sec = 59, tm_min = 59, tm_hour = 23, tm_mday = 29, tm_mon = 2, tm_year = 2000, tm_wday = 2\<rparr>"
    by code_simp
  with sgmtime_correct [of 951868799] show ?thesis by simp
qed

text \<open>
  Times outside that range are clamped to its ends: negative times to the epoch, later ones to
  23:59:59 on December 31, 9999.
\<close>

theorem sgmtime_clamped:
  "sgmtime (- 1 - int n) = \<lparr>tm_sec = 0, tm_min = 0, tm_hour = 0, tm_mday = 1, tm_mon = 1, tm_year = 1970, tm_wday = 4\<rparr>
   \<and> sgmtime (253402300800 + int n) = \<lparr>tm_sec = 59, tm_min = 59, tm_hour = 23, tm_mday = 31, tm_mon = 12, tm_year = 9999, tm_wday = 5\<rparr>"
proof -
  have "sgmtime 0 = \<lparr>tm_sec = 0, tm_min = 0, tm_hour = 0, tm_mday = 1, tm_mon = 1, tm_year = 1970, tm_wday = 4\<rparr>"
    by code_simp
  moreover have "sgmtime 253402300799 = \<lparr>tm_sec = 59, tm_min = 59, tm_hour = 23, tm_mday = 31, tm_mon = 12, tm_year = 9999, tm_wday = 5\<rparr>"
    by code_simp
  ultimately show ?thesis
    using sgmtime_clamp(1) [of "- 1 - int n"] sgmtime_clamp(2) [of "253402300800 + int n"] by simp
qed

text \<open>
  C28: An update with the lock free publishes the new time. Within the second of the published slot that slot is
  written, in a new second the next one of the ring, after the last one the first; the slot written is the one published
  then, it holds the seconds and milliseconds of the clock, and no other slot is written. \<open>current_msec\<close> is the
  monotonic clock in milliseconds and the lock is free again. While another one holds the lock nothing changes.
\<close>

theorem stime_update_correct:
  assumes "times_ok w"
  shows "if time_lock w = 0
    then let k = (if st_sec (scached_time w (slot w)) = tv_sec c then slot w else (slot w + 1) mod TIME_SLOTS) in
      times_ok (stime_update c w) \<and> slot (stime_update c w) = k \<and> cached_time (stime_update c w) = Some k
      \<and> scached_time (stime_update c w) = (scached_time w)(k := \<lparr>st_sec = tv_sec c, st_msec = word_of_int (tv_usec c div 1000)\<rparr>)
      \<and> current_msec (stime_update c w) = word_of_int (ts_sec c) * 1000 + word_of_int (ts_nsec c div 1000000)
      \<and> time_lock (stime_update c w) = 0
    else stime_update c w = w"
proof (cases "time_lock w = 0")
  case True
  moreover have "next_slot c w = (if st_sec (scached_time w (slot w)) = tv_sec c then slot w else (slot w + 1) mod TIME_SLOTS)"
    using assms by (auto simp: next_slot_def times_ok_def TIME_SLOTS_def)
  ultimately show ?thesis
    using assms stime_update_free [OF True, of c]
    by (simp add: times_ok_def monotonic_time_def Let_def TIME_SLOTS_def)
next
  case False
  then show ?thesis by (simp add: stime_update_busy)
qed

definition times0 :: times where
  "times0 = \<lparr>slot = 63, time_lock = 0, current_msec = 0, cached_time = Some 63, scached_time = \<lambda>_. \<lparr>st_sec = 5, st_msec = 0\<rparr>\<rparr>"

definition clocks0 :: clocks where
  "clocks0 = \<lparr>tv_sec = 6, tv_usec = 250000, ts_sec = 1, ts_nsec = 7000000\<rparr>"

theorem stime_update_correct_witness:
  "slot (stime_update clocks0 times0) = 0 \<and> st_msec (scached_time (stime_update clocks0 times0) 0) = 250
    \<and> st_sec (scached_time (stime_update clocks0 times0) 63) = 5 \<and> current_msec (stime_update clocks0 times0) = 1007"
proof -
  have "times_ok times0" by (simp add: times_ok_def times0_def TIME_SLOTS_def)
  from stime_update_correct [OF this, of clocks0] show ?thesis
    by (simp add: times0_def clocks0_def TIME_SLOTS_def Let_def)
qed

text \<open>
  A reader that took the published slot keeps consistent seconds through up to 63 further
  updates, because the ring of slots has not come round.
\<close>

theorem stime_slot_stable:
  assumes "times_ok w" and "time_lock w = 0" and "length cs < TIME_SLOTS"
  shows "st_sec (scached_time (foldl (\<lambda>w c. stime_update c w) w cs) (slot w)) = st_sec (scached_time w (slot w))"
  using stime_updates_slot [of w cs] assms by (simp add: times_ok_def Let_def)

theorem stime_slot_stable_witness:
  "st_sec (scached_time (foldl (\<lambda>w c. stime_update c w) times0 [clocks0, clocks0\<lparr>tv_sec := 7\<rparr>]) 63) = 5"
  using stime_slot_stable [of times0 "[clocks0, clocks0\<lparr>tv_sec := 7\<rparr>]"]
  by (simp add: times_ok_def times0_def TIME_SLOTS_def)

end
