(* ===== verification/Event.thy ===== *)
theory Event
  imports Queue Rbtree_Order Times
begin

text \<open>
  The \<open>event_t\<close> structure of \<^verbatim>\<open>src/event.h\<close> and the state that every part of the event loop
  shares: the clock of times.c, the events by address, the timer tree and the links of the posted
  queues. An event embeds a tree node and a queue node; their addresses are the address of the
  event plus the offsets of the C structure (LP64), and \<open>offsetof\<close> arithmetic goes back.

  A handler is a function pointer of the program. The functions that call handlers take the
  meaning of the calls as a parameter.
\<close>

section \<open>Events\<close>

type_synonym handler = nat

record event =
  ev_data :: addr
  ev_write :: bool
  ev_accept :: bool
  ev_instance :: bool
  ev_active :: bool
  ev_disabled :: bool
  ev_ready :: bool
  ev_oneshot :: bool
  ev_complete :: bool
  ev_eof :: bool
  ev_error :: bool
  ev_timedout :: bool
  ev_timer_set :: bool
  ev_delayed :: bool
  ev_deferred_accept :: bool
  ev_pending_eof :: bool
  ev_posted :: bool
  ev_closed :: bool
  ev_channel :: bool
  ev_resolver :: bool
  ev_cancelable :: bool
  ev_available :: bool
  ev_handler :: handler
  ev_index :: u64

definition timer_offset :: nat where "timer_offset = 32"
definition queue_offset :: nat where "queue_offset = 72"

text \<open>\<open>&ev->timer\<close>, \<open>&ev->queue\<close> and the way back.\<close>

definition ev_timer :: "addr \<Rightarrow> addr" where "ev_timer ev = ev + timer_offset"
definition ev_queue :: "addr \<Rightarrow> addr" where "ev_queue ev = ev + queue_offset"
definition timer_event :: "addr \<Rightarrow> addr" where "timer_event node = node - timer_offset"
definition queue_event :: "addr \<Rightarrow> addr" where "queue_event q = q - queue_offset"

lemma timer_event_ev_timer [simp]: "timer_event (ev_timer ev) = ev"
  by (simp add: timer_event_def ev_timer_def)

lemma queue_event_ev_queue [simp]: "queue_event (ev_queue ev) = ev"
  by (simp add: queue_event_def ev_queue_def)

lemma ev_timer_inj [simp]: "ev_timer a = ev_timer b \<longleftrightarrow> a = b"
  by (simp add: ev_timer_def)

lemma ev_queue_inj [simp]: "ev_queue a = ev_queue b \<longleftrightarrow> a = b"
  by (simp add: ev_queue_def)

lemma ev_timer_nonnull [simp]: "ev_timer a \<noteq> NULL"
  by (simp add: ev_timer_def timer_offset_def)

lemma ev_queue_nonnull [simp]: "ev_queue a \<noteq> NULL"
  by (simp add: ev_queue_def queue_offset_def)

section \<open>The shared state\<close>

text \<open>\<open>event_timer_sentinel\<close> is the address of the static sentinel node of event\_timer.c.\<close>

record events = times +
  evs :: "addr \<Rightarrow> event"
  event_timer_rbtree :: rbtree
  event_timer_sentinel :: addr
  equeues :: qheap

definition get_event :: "'a events_scheme \<Rightarrow> addr \<Rightarrow> event option" where
  "get_event w ev = deref ev (evs w ev)"

definition upd_event :: "'a events_scheme \<Rightarrow> addr \<Rightarrow> (event \<Rightarrow> event) \<Rightarrow> 'a events_scheme option" where
  "upd_event w ev f = deref ev (w\<lparr>evs := (evs w)(ev := f (evs w ev))\<rparr>)"

type_synonym 'a caller = "handler \<Rightarrow> addr \<Rightarrow> 'a events_scheme \<Rightarrow> 'a events_scheme option"

end
