(* ===== verification/Event_Timer.thy ===== *)
theory Event_Timer
  imports Event
begin

text \<open>
  The timers of \<^verbatim>\<open>src/event_timer.c\<close>: a red-black tree of event nodes keyed by the expiry time
  in milliseconds, on the 64-bit circle.
\<close>

section \<open>The operations\<close>

definition TIMER_INFINITE :: u64 where "TIMER_INFINITE = - 1"
definition TIMER_LAZY_DELAY :: int where "TIMER_LAZY_DELAY = 300"

definition event_timer_init :: "'a events_scheme \<Rightarrow> ('a events_scheme \<times> int) option" where
  "event_timer_init w = do {
     t \<leftarrow> rbtree_init (event_timer_rbtree w) (event_timer_sentinel w) Rbtree_insert_timer_value;
     Some (w\<lparr>event_timer_rbtree := t\<rparr>, 0) }"

definition event_find_timer :: "'a events_scheme \<Rightarrow> u64 option" where
  "event_find_timer w = do {
     let t = event_timer_rbtree w;
     if rb_root t = event_timer_sentinel w then Some TIMER_INFINITE
     else do {
       node \<leftarrow> rbtree_min t (rb_root t) (rb_sentinel t);
       k \<leftarrow> get_key t node;
       let timer = sint (k - current_msec w);
       Some (if timer > 0 then word_of_int timer else 0) } }"

partial_function (option) event_expire_timers ::
    "'a caller \<Rightarrow> 'a events_scheme \<Rightarrow> 'a events_scheme option" where
  "event_expire_timers call w = do {
     let t = event_timer_rbtree w;
     if rb_root t = rb_sentinel t then Some w
     else do {
       node \<leftarrow> rbtree_min t (rb_root t) (rb_sentinel t);
       k \<leftarrow> get_key t node;
       if sint (k - current_msec w) > 0 then Some w
       else do {
         let ev = timer_event node;
         t \<leftarrow> rbtree_delete t (ev_timer ev);
         let w = w\<lparr>event_timer_rbtree := t\<rparr>;
         w \<leftarrow> upd_event w ev (\<lambda>e. e\<lparr>ev_timer_set := False\<rparr>);
         w \<leftarrow> upd_event w ev (\<lambda>e. e\<lparr>ev_timedout := True\<rparr>);
         e \<leftarrow> get_event w ev;
         w \<leftarrow> call (ev_handler e) ev w;
         event_expire_timers call w } } }"

partial_function (option) no_timers_left_loop :: "'a events_scheme \<Rightarrow> addr \<Rightarrow> int option" where
  "no_timers_left_loop w node =
     (if node = NULL then Some 0
      else do {
        e \<leftarrow> get_event w (timer_event node);
        if \<not> ev_cancelable e then Some (- 2)
        else do {
          nxt \<leftarrow> rbtree_next (event_timer_rbtree w) node;
          no_timers_left_loop w nxt } })"

definition event_no_timers_left :: "'a events_scheme \<Rightarrow> int option" where
  "event_no_timers_left w = do {
     let t = event_timer_rbtree w;
     if rb_root t = rb_sentinel t then Some 0
     else do {
       node \<leftarrow> rbtree_min t (rb_root t) (rb_sentinel t);
       no_timers_left_loop w node } }"

text \<open>The \<^verbatim>\<open>#if (DEBUG)\<close> lines repeat what \<open>rbtree_delete\<close> does to the node; the build does not set \<open>DEBUG\<close>.\<close>

definition event_del_timer :: "'a events_scheme \<Rightarrow> addr \<Rightarrow> 'a events_scheme option" where
  "event_del_timer w ev = do {
     t \<leftarrow> rbtree_delete (event_timer_rbtree w) (ev_timer ev);
     upd_event (w\<lparr>event_timer_rbtree := t\<rparr>) ev (\<lambda>e. e\<lparr>ev_timer_set := False\<rparr>) }"

text \<open>\<open>c_abs\<close> of an \<open>int64_t\<close>: the negation of the least value overflows.\<close>

definition c_abs :: "int \<Rightarrow> int option" where
  "c_abs v = (if v \<ge> 0 then Some v else if v = - (2 ^ 63) then None else Some (- v))"

definition event_add_timer :: "'a events_scheme \<Rightarrow> addr \<Rightarrow> u64 \<Rightarrow> 'a events_scheme option" where
  "event_add_timer w ev timer = do {
     let key = current_msec w + timer;
     e \<leftarrow> get_event w ev;
     lazy \<leftarrow> (if ev_timer_set e
       then do {
         k \<leftarrow> get_key (event_timer_rbtree w) (ev_timer ev);
         d \<leftarrow> c_abs (sint (key - k));
         Some (d < TIMER_LAZY_DELAY) }
       else Some False);
     if lazy then Some w
     else do {
       w \<leftarrow> (if ev_timer_set e then event_del_timer w ev else Some w);
       t \<leftarrow> set_key (event_timer_rbtree w) (ev_timer ev) key;
       t \<leftarrow> rbtree_insert t (ev_timer ev);
       upd_event (w\<lparr>event_timer_rbtree := t\<rparr>) ev (\<lambda>e. e\<lparr>ev_timer_set := True\<rparr>) } }"

lemma rbtree_holds_key: "rbtree_holds (s\<lparr>rb_key := f\<rparr>) xs = rbtree_holds s xs"
  by (simp add: rbtree_holds_def rbtree_ok_def rep_def sentinel_ok_def)

section \<open>The timer store\<close>

text \<open>
  \<open>timers base w evl\<close>: the pending events are \<open>evl\<close>, soonest first, and all keys and the clock
  lie within half of the circle behind \<open>base\<close>. An event has \<open>timer_set\<close> exactly when it is
  in the tree.
\<close>

definition timers :: "u64 \<Rightarrow> 'a events_scheme \<Rightarrow> addr list \<Rightarrow> bool" where
  "timers base w evl \<longleftrightarrow> rbtree_holds (event_timer_rbtree w) (map ev_timer evl)
     \<and> rbtree_sorted base (event_timer_rbtree w) (map ev_timer evl)
     \<and> rb_sentinel (event_timer_rbtree w) = event_timer_sentinel w
     \<and> rb_insert (event_timer_rbtree w) = Rbtree_insert_timer_value
     \<and> timer_window base (current_msec w) \<and> NULL \<notin> set evl
     \<and> (\<forall>ev. ev_timer_set (evs w ev) \<longleftrightarrow> ev \<in> set evl)"

text \<open>The remaining time of an event, as seen from \<open>base\<close>.\<close>

definition expiry :: "u64 \<Rightarrow> 'a events_scheme \<Rightarrow> addr \<Rightarrow> nat" where
  "expiry base w ev = unat (rb_key (event_timer_rbtree w) (ev_timer ev) - base)"

definition clock :: "u64 \<Rightarrow> 'a events_scheme \<Rightarrow> nat" where
  "clock base w = unat (current_msec w - base)"

lemma sint_window:
  assumes "unat (x :: u64) < 2 ^ 63"
  shows "sint x = int (unat x)" and "0 \<le> sint x" and "sint x < 2 ^ 63"
proof -
  have b: "int (unat x) < int (2 ^ 63)" using assms by (subst of_nat_less_iff)
  have "sint x = signed_take_bit 63 (uint x)" by (simp add: sint_uint)
  also have "\<dots> = uint x"
  proof (rule signed_take_bit_int_eq_self)
    show "uint x < 2 ^ 63" using b by simp
    have "- (2 ^ 63) \<le> (0 :: int)" by simp
    also have "0 \<le> uint x" by simp
    finally show "- (2 ^ 63) \<le> uint x" .
  qed
  finally show e: "sint x = int (unat x)" by simp
  then show "0 \<le> sint x" "sint x < 2 ^ 63" using b by simp_all
qed

lemma window_diff:
  fixes a b base :: u64
  assumes "timer_window base a" and "timer_window base b"
  shows "sint (a - b) = int (unat (a - base)) - int (unat (b - base))"
proof -
  note sa = sint_window [OF assms(1) [unfolded timer_window_def]]
    and sb = sint_window [OF assms(2) [unfolded timer_window_def]]
  have "a - b = (a - base) - (b - base)" by simp
  then have "sint (a - b) = signed_take_bit 63 (sint (a - base) - sint (b - base))"
    by (simp only: sint_word_ariths) simp
  also have "\<dots> = sint (a - base) - sint (b - base)"
    using sa(2,3) sb(2,3) by (intro signed_take_bit_int_eq_self) linarith+
  finally show ?thesis unfolding sa(1) sb(1) .
qed

lemma timers_expiry:
  assumes "timers base w evl" and "ev \<in> set evl"
  shows "sint (rb_key (event_timer_rbtree w) (ev_timer ev) - current_msec w)
    = int (expiry base w ev) - int (clock base w)"
  using assms window_diff [of base] unfolding timers_def expiry_def clock_def rbtree_sorted_def by auto

lemma timers_min:
  assumes "timers base w evl" and "evl \<noteq> []"
  shows "rb_root (event_timer_rbtree w) \<noteq> rb_sentinel (event_timer_rbtree w)"
    "rbtree_min (event_timer_rbtree w) (rb_root (event_timer_rbtree w)) (rb_sentinel (event_timer_rbtree w))
      = Some (ev_timer (hd evl))"
proof -
  let ?t = "event_timer_rbtree w"
  from assms have h: "rbtree_holds ?t (map ev_timer evl)" "map ev_timer evl \<noteq> []" by (simp_all add: timers_def)
  from rbtree_min_holds [OF h] assms(2) show "rbtree_min ?t (rb_root ?t) (rb_sentinel ?t) = Some (ev_timer (hd evl))"
    by (simp add: hd_map)
  show "rb_root ?t \<noteq> rb_sentinel ?t" using rbtree_holds_root [OF h(1)] assms(2) by simp
qed

lemma timers_distinct: "timers base w evl \<Longrightarrow> distinct evl"
  using rbtree_holds_distinct by (fastforce simp: timers_def distinct_map)

lemma timers_sorted: "timers base w evl \<Longrightarrow> sorted (map (expiry base w) evl)"
  by (auto simp: timers_def rbtree_sorted_def expiry_def [abs_def] comp_def)

lemma timers_sentinel: "timers base w evl \<Longrightarrow> rb_sentinel (event_timer_rbtree w) = event_timer_sentinel w"
  by (simp add: timers_def)

lemma timers_not_sentinel: "timers base w evl \<Longrightarrow> ev \<in> set evl \<Longrightarrow> ev_timer ev \<noteq> event_timer_sentinel w"
  using rbtree_holds_nodes [of "event_timer_rbtree w" "map ev_timer evl"] imageI [of ev "set evl" ev_timer]
  unfolding timers_def by (metis set_map)

text \<open>Taking an event out of the tree: shared by \<open>event_del_timer\<close> and \<open>event_expire_timers\<close>.\<close>

lemma timer_delete:
  assumes tm: "timers base w evl" and ev: "ev \<in> set evl" and f: "\<not> ev_timer_set e'"
  shows "\<exists>t. rbtree_delete (event_timer_rbtree w) (ev_timer ev) = Some t
    \<and> timers base (w\<lparr>event_timer_rbtree := t, evs := (evs w)(ev := e')\<rparr>) (remove1 ev evl)
    \<and> (\<forall>a. a \<noteq> ev \<longrightarrow> rb_key t (ev_timer a) = rb_key (event_timer_rbtree w) (ev_timer a))"
proof -
  let ?t = "event_timer_rbtree w"
  have h: "rbtree_holds ?t (map ev_timer evl)" "rbtree_sorted base ?t (map ev_timer evl)"
    using tm by (simp_all add: timers_def)
  have "ev_timer ev \<in> set (map ev_timer evl)" using ev by simp
  from rbtree_delete_holds [OF h(1) this] h(2) obtain t where
    t: "rbtree_delete ?t (ev_timer ev) = Some t" "rbtree_holds t (remove1 (ev_timer ev) (map ev_timer evl))"
      "rbtree_sorted base t (remove1 (ev_timer ev) (map ev_timer evl))"
      "del_frame (insert (rb_sentinel ?t) (set (map ev_timer evl))) (ev_timer ev) ?t t" by blast
  have m: "remove1 (ev_timer ev) (map ev_timer evl) = map ev_timer (remove1 ev evl)"
    using timers_distinct [OF tm] by (induction evl) auto
  have k: "rb_sentinel t = rb_sentinel ?t" "rb_insert t = rb_insert ?t"
    "\<forall>a. a \<noteq> ev \<longrightarrow> rb_key t (ev_timer a) = rb_key ?t (ev_timer a)"
    using t(4) by (simp_all add: del_frame_def rb_frame_def)
  have "timers base (w\<lparr>event_timer_rbtree := t, evs := (evs w)(ev := e')\<rparr>) (remove1 ev evl)"
    using tm t(2,3) k f timers_distinct [OF tm] unfolding m by (auto simp: timers_def dest: notin_set_remove1)
  with t(1) k(3) show ?thesis by blast
qed

text \<open>The list of pending events after \<open>ev\<close> was given the expiry \<open>k\<close>.\<close>

definition schedule :: "u64 \<Rightarrow> 'a events_scheme \<Rightarrow> addr \<Rightarrow> nat \<Rightarrow> addr list \<Rightarrow> addr list" where
  "schedule base w ev k evl = filter (\<lambda>a. expiry base w a \<le> k) evl @ ev # filter (\<lambda>a. k < expiry base w a) evl"

lemma timer_insert:
  assumes tm: "timers base w evl" and ev: "ev \<notin> set evl" "ev \<noteq> NULL" "ev_timer ev \<noteq> event_timer_sentinel w"
    and k: "timer_window base key"
    and f: "ev_timer_set e'"
  shows "\<exists>t0 t. set_key (event_timer_rbtree w) (ev_timer ev) key = Some t0
    \<and> rbtree_insert t0 (ev_timer ev) = Some t
    \<and> timers base (w\<lparr>event_timer_rbtree := t, evs := (evs w)(ev := e')\<rparr>) (schedule base w ev (unat (key - base)) evl)
    \<and> rb_key t = (rb_key (event_timer_rbtree w))(ev_timer ev := key)"
proof -
  let ?t = "event_timer_rbtree w"
  define t0 where "t0 = ?t\<lparr>rb_key := (rb_key ?t)(ev_timer ev := key)\<rparr>"
  let ?xs = "map ev_timer evl"
  have out: "ev_timer ev \<notin> set ?xs" using ev by auto
  have h: "rbtree_holds t0 ?xs" using tm by (simp add: timers_def t0_def rbtree_holds_key)
  have "rbtree_sorted base t0 ?xs = rbtree_sorted base ?t ?xs"
    using out by (intro rbtree_sorted_cong) (auto simp: t0_def)
  then have s: "rbtree_sorted base t0 ?xs" using tm by (simp add: timers_def)
  have i: "rb_insert t0 = Rbtree_insert_timer_value" "rb_sentinel t0 = event_timer_sentinel w"
    "rb_key t0 (ev_timer ev) = key" "ev_timer ev \<noteq> event_timer_sentinel w"
    using tm ev(3) by (simp_all add: timers_def t0_def)
  obtain t where t: "rbtree_insert t0 (ev_timer ev) = Some t" "rbtree_holds t (insert_by_rank base t0 (ev_timer ev) ?xs)"
      "rbtree_sorted base t (insert_by_rank base t0 (ev_timer ev) ?xs)" "rb_frame (insert (ev_timer ev) (set ?xs)) t0 t"
    using rbtree_insert_holds [OF h s _ out] i k by auto
  have "rank_of base t0 (ev_timer a) = expiry base w a" if "a \<in> set evl" for a
    using that ev i by (auto simp: expiry_def t0_def)
  then have m: "insert_by_rank base t0 (ev_timer ev) ?xs = map ev_timer (schedule base w ev (unat (key - base)) evl)"
    using i by (simp add: insert_by_rank_def schedule_def filter_map comp_def cong: filter_cong)
  have sc: "set (schedule base w ev (unat (key - base)) evl) = insert ev (set evl)"
    by (auto simp: schedule_def)
  have "timers base (w\<lparr>event_timer_rbtree := t, evs := (evs w)(ev := e')\<rparr>) (schedule base w ev (unat (key - base)) evl)"
    using tm t i f ev unfolding m by (auto simp: timers_def sc rb_frame_def)
  moreover have "rb_key t = (rb_key ?t)(ev_timer ev := key)" using t(4) by (simp add: rb_frame_def t0_def)
  moreover have "set_key ?t (ev_timer ev) key = Some t0" by (simp add: set_key_def t0_def)
  ultimately show ?thesis using t(1) by blast
qed

lemma event_del_timer_ok:
  assumes tm: "timers base w evl" and ev: "ev \<in> set evl"
  shows "\<exists>t. event_del_timer w ev = Some (w\<lparr>event_timer_rbtree := t, evs := (evs w)(ev := (evs w ev)\<lparr>ev_timer_set := False\<rparr>)\<rparr>)
    \<and> timers base (w\<lparr>event_timer_rbtree := t, evs := (evs w)(ev := (evs w ev)\<lparr>ev_timer_set := False\<rparr>)\<rparr>) (remove1 ev evl)
    \<and> (\<forall>a. a \<noteq> ev \<longrightarrow> rb_key t (ev_timer a) = rb_key (event_timer_rbtree w) (ev_timer a))"
proof -
  have "ev \<noteq> NULL" using tm ev unfolding timers_def by metis
  moreover obtain t where "rbtree_delete (event_timer_rbtree w) (ev_timer ev) = Some t"
    "timers base (w\<lparr>event_timer_rbtree := t, evs := (evs w)(ev := (evs w ev)\<lparr>ev_timer_set := False\<rparr>)\<rparr>) (remove1 ev evl)"
    "\<forall>a. a \<noteq> ev \<longrightarrow> rb_key t (ev_timer a) = rb_key (event_timer_rbtree w) (ev_timer a)"
    using timer_delete [OF tm ev, of "(evs w ev)\<lparr>ev_timer_set := False\<rparr>"] by auto
  ultimately show ?thesis by (auto simp: event_del_timer_def upd_event_def)
qed

lemma event_find_timer_ok:
  assumes tm: "timers base w evl"
  shows "event_find_timer w = Some (if evl = [] then TIMER_INFINITE
    else of_nat (expiry base w (hd evl) - clock base w))"
proof (cases "evl = []")
  case True
  with tm have "rb_root (event_timer_rbtree w) = event_timer_sentinel w"
    using rbtree_holds_root by (fastforce simp: timers_def)
  with True show ?thesis by (simp add: event_find_timer_def Let_def)
next
  case False
  let ?t = "event_timer_rbtree w"
  have k: "get_key ?t (ev_timer (hd evl)) = Some (rb_key ?t (ev_timer (hd evl)))" by (simp add: get_key_def)
  have "(if 0 < sint (rb_key ?t (ev_timer (hd evl)) - current_msec w)
      then word_of_int (sint (rb_key ?t (ev_timer (hd evl)) - current_msec w)) else 0)
    = (of_nat (expiry base w (hd evl) - clock base w) :: u64)"
    unfolding timers_expiry [OF tm hd_in_set [OF False]]
    by (auto simp: of_nat_diff)
  then show ?thesis
    using False timers_min [OF tm False] timers_sentinel [OF tm] k
    by (simp add: event_find_timer_def Let_def)
qed

lemma expiry_cong:
  "rb_key (event_timer_rbtree w') (ev_timer a) = rb_key (event_timer_rbtree w) (ev_timer a) \<Longrightarrow> expiry base w' a = expiry base w a"
  by (simp add: expiry_def)

lemma schedule_cong:
  "(\<And>a. a \<in> set evl \<Longrightarrow> expiry base w' a = expiry base w a) \<Longrightarrow> schedule base w' ev k evl = schedule base w ev k evl"
  by (simp add: schedule_def cong: filter_cong)

lemma c_abs_window: "- (2 ^ 63) < v \<Longrightarrow> c_abs v = Some \<bar>v\<bar>"
  by (simp add: c_abs_def)

text \<open>A pending timer that would move by less than \<open>TIMER_LAZY_DELAY\<close> is left alone.\<close>

lemma event_add_timer_lazy:
  assumes tm: "timers base w evl" and ev: "ev \<in> set evl" and win: "timer_window base (current_msec w + timer)"
  shows "c_abs (sint (current_msec w + timer - rb_key (event_timer_rbtree w) (ev_timer ev)))
    = Some \<bar>int (unat (current_msec w + timer - base)) - int (expiry base w ev)\<bar>"
proof -
  have kw: "timer_window base (rb_key (event_timer_rbtree w) (ev_timer ev))"
    using tm ev by (auto simp: timers_def rbtree_sorted_def)
  note w63 = sint_window [OF kw [unfolded timer_window_def], folded expiry_def]
  have "- (2 ^ 63) < int (unat (current_msec w + timer - base)) - int (expiry base w ev)"
    using w63 by linarith
  from c_abs_window [OF this] window_diff [OF win kw]
  show ?thesis by (simp only: expiry_def)
qed

lemma event_add_timer_ok:
  assumes tm: "timers base w evl" and ev: "ev \<noteq> NULL" "ev_timer ev \<noteq> event_timer_sentinel w" and win: "timer_window base (current_msec w + timer)"
    and k: "k = unat (current_msec w + timer - base)"
  shows "if ev \<in> set evl \<and> \<bar>int k - int (expiry base w ev)\<bar> < TIMER_LAZY_DELAY
    then event_add_timer w ev timer = Some w
    else \<exists>t w'. event_add_timer w ev timer = Some w'
      \<and> w' = w\<lparr>event_timer_rbtree := t, evs := (evs w)(ev := (evs w ev)\<lparr>ev_timer_set := True\<rparr>)\<rparr>
      \<and> timers base w' (schedule base w ev k (remove1 ev evl))
      \<and> rb_key t (ev_timer ev) = current_msec w + timer
      \<and> (\<forall>a. a \<noteq> ev \<longrightarrow> rb_key t (ev_timer a) = rb_key (event_timer_rbtree w) (ev_timer a))"
proof -
  let ?key = "current_msec w + timer"
  have get: "get_event w ev = Some (evs w ev)" using ev by (simp add: get_event_def)
  have set: "ev_timer_set (evs w ev) \<longleftrightarrow> ev \<in> set evl" using tm by (simp add: timers_def)
  show ?thesis
  proof (cases "ev \<in> set evl")
    case False
    from timer_insert [OF tm False ev win, of "(evs w ev)\<lparr>ev_timer_set := True\<rparr>"]
    obtain t0 t where t: "set_key (event_timer_rbtree w) (ev_timer ev) ?key = Some t0" "rbtree_insert t0 (ev_timer ev) = Some t"
      "timers base (w\<lparr>event_timer_rbtree := t, evs := (evs w)(ev := (evs w ev)\<lparr>ev_timer_set := True\<rparr>)\<rparr>) (schedule base w ev k evl)"
      "rb_key t = (rb_key (event_timer_rbtree w))(ev_timer ev := ?key)" unfolding k by auto
    have "event_add_timer w ev timer = Some (w\<lparr>event_timer_rbtree := t, evs := (evs w)(ev := (evs w ev)\<lparr>ev_timer_set := True\<rparr>)\<rparr>)"
      using False set ev by (simp add: event_add_timer_def Let_def get t(1,2) upd_event_def)
    with False t(3,4) show ?thesis by (simp add: remove1_idem) (rule exI [of _ t], simp)
  next
    case True
    note lazy = event_add_timer_lazy [OF tm True win, folded k]
    show ?thesis
    proof (cases "\<bar>int k - int (expiry base w ev)\<bar> < TIMER_LAZY_DELAY")
      case l: True
      with True lazy set show ?thesis by (simp add: event_add_timer_def Let_def get get_key_def)
    next
      case l: False
      obtain t1 where t1: "event_del_timer w ev = Some (w\<lparr>event_timer_rbtree := t1, evs := (evs w)(ev := (evs w ev)\<lparr>ev_timer_set := False\<rparr>)\<rparr>)"
        "timers base (w\<lparr>event_timer_rbtree := t1, evs := (evs w)(ev := (evs w ev)\<lparr>ev_timer_set := False\<rparr>)\<rparr>) (remove1 ev evl)"
        "\<forall>a. a \<noteq> ev \<longrightarrow> rb_key t1 (ev_timer a) = rb_key (event_timer_rbtree w) (ev_timer a)"
        using event_del_timer_ok [OF tm True] by blast
      define w1 where "w1 = w\<lparr>event_timer_rbtree := t1, evs := (evs w)(ev := (evs w ev)\<lparr>ev_timer_set := False\<rparr>)\<rparr>"
      have out: "ev \<notin> set (remove1 ev evl)" using timers_distinct [OF tm] by simp
      have tm1: "timers base w1 (remove1 ev evl)" and s1: "ev_timer ev \<noteq> event_timer_sentinel w1"
        using t1(2) ev(2) by (simp_all add: w1_def)
      from timer_insert [OF tm1 out ev(1) s1 win, of "(evs w ev)\<lparr>ev_timer_set := True\<rparr>"]
      obtain t0 t where t: "set_key t1 (ev_timer ev) ?key = Some t0" "rbtree_insert t0 (ev_timer ev) = Some t"
        "timers base (w\<lparr>event_timer_rbtree := t, evs := (evs w)(ev := (evs w ev)\<lparr>ev_timer_set := True\<rparr>)\<rparr>) (schedule base w1 ev k (remove1 ev evl))"
        "rb_key t = (rb_key t1)(ev_timer ev := ?key)" unfolding k by (auto simp: w1_def)
      have "event_add_timer w ev timer = Some (w\<lparr>event_timer_rbtree := t, evs := (evs w)(ev := (evs w ev)\<lparr>ev_timer_set := True\<rparr>)\<rparr>)"
        using True set ev l lazy by (simp add: event_add_timer_def Let_def get get_key_def t1(1) t(1,2) upd_event_def)
      moreover have "schedule base w1 ev k (remove1 ev evl) = schedule base w ev k (remove1 ev evl)"
        using t1(3) out by (intro schedule_cong expiry_cong) (auto simp: w1_def)
      ultimately show ?thesis using True l t(3,4) t1(3) by simp (rule exI [of _ t], simp)
    qed
  qed
qed

text \<open>One round of the expiry loop.\<close>

abbreviation expired :: "u64 \<Rightarrow> 'a events_scheme \<Rightarrow> addr \<Rightarrow> bool" where
  "expired base w ev \<equiv> expiry base w ev \<le> clock base w"

definition fired :: "'a events_scheme \<Rightarrow> addr \<Rightarrow> rbtree \<Rightarrow> 'a events_scheme" where
  "fired w ev t = w\<lparr>event_timer_rbtree := t,
     evs := (evs w)(ev := (evs w ev)\<lparr>ev_timer_set := False, ev_timedout := True\<rparr>)\<rparr>"

lemma expire_stop:
  assumes tm: "timers base w evl" and stop: "evl = [] \<or> \<not> expired base w (hd evl)"
  shows "event_expire_timers call w = Some w"
proof (cases "evl = []")
  case True
  with tm have "rb_root (event_timer_rbtree w) = rb_sentinel (event_timer_rbtree w)"
    using rbtree_holds_root by (fastforce simp: timers_def)
  then show ?thesis by (subst event_expire_timers.simps) (simp add: Let_def)
next
  case False
  from timers_expiry [OF tm hd_in_set [OF False]] stop False
  have "sint (rb_key (event_timer_rbtree w) (ev_timer (hd evl)) - current_msec w) > 0" by simp
  then show ?thesis
    using timers_min [OF tm False] by (subst event_expire_timers.simps) (simp add: Let_def get_key_def)
qed

lemma expire_step:
  assumes tm: "timers base w (ev # evl)" and ex: "expired base w ev"
  shows "\<exists>t. event_expire_timers call w
      = do { w \<leftarrow> call (ev_handler (evs w ev)) ev (fired w ev t); event_expire_timers call w }
    \<and> timers base (fired w ev t) evl
    \<and> (\<forall>a. a \<noteq> ev \<longrightarrow> expiry base (fired w ev t) a = expiry base w a)"
proof -
  have ev: "ev \<noteq> NULL" using tm by (simp add: timers_def)
  obtain t where t: "rbtree_delete (event_timer_rbtree w) (ev_timer ev) = Some t" "timers base (fired w ev t) evl"
      "\<forall>a. a \<noteq> ev \<longrightarrow> rb_key t (ev_timer a) = rb_key (event_timer_rbtree w) (ev_timer a)"
    using timer_delete [OF tm, of ev "(evs w ev)\<lparr>ev_timer_set := False, ev_timedout := True\<rparr>"]
    by (auto simp: fired_def)
  have "\<not> sint (rb_key (event_timer_rbtree w) (ev_timer ev) - current_msec w) > 0"
    using timers_expiry [OF tm, of ev] ex by simp
  then have "event_expire_timers call w
      = do { w \<leftarrow> call (ev_handler (evs w ev)) ev (fired w ev t); event_expire_timers call w }"
    using timers_min [OF tm] ev t(1)
    by (subst event_expire_timers.simps)
      (simp add: Let_def get_key_def upd_event_def get_event_def fired_def)
  with t show ?thesis by (auto simp: expiry_def fired_def)
qed

text \<open>
  Two contracts for handlers. \<open>quiet\<close>: the handler, when it is called for an event that has left the timer store and
  is marked as timed out, leaves the timers, the clock and the handlers of the events alone, and \<open>obs\<close>
  records the call; of a call in any other state nothing is assumed, it may crash. \<open>future_only\<close>: it may add and delete timers while the clock shows \<open>now\<close>, but
  none of those it leaves pending is newly expired.
\<close>

definition quiet :: "u64 \<Rightarrow> 'a caller \<Rightarrow> ('a events_scheme \<Rightarrow> (handler \<times> addr) list) \<Rightarrow> bool" where
  "quiet base call obs \<longleftrightarrow>
     (\<forall>h ev w evl. timers base w evl \<and> ev \<notin> set evl \<and> ev_timedout (evs w ev) \<longrightarrow>
       (\<exists>w'. call h ev w = Some w' \<and> event_timer_rbtree w' = event_timer_rbtree w
        \<and> event_timer_sentinel w' = event_timer_sentinel w \<and> current_msec w' = current_msec w
        \<and> (\<forall>a. ev_timer_set (evs w' a) = ev_timer_set (evs w a) \<and> ev_handler (evs w' a) = ev_handler (evs w a))
        \<and> obs w' = obs w @ [(h, ev)]))
     \<and> (\<forall>w t e. obs (w\<lparr>event_timer_rbtree := t, evs := e\<rparr>) = obs w)"

definition future_only :: "u64 \<Rightarrow> u64 \<Rightarrow> 'a caller \<Rightarrow> bool" where
  "future_only base now call \<longleftrightarrow> (\<forall>h ev w evl. timers base w evl \<and> ev \<noteq> NULL
       \<and> ev_timer ev \<noteq> event_timer_sentinel w \<and> current_msec w = now \<longrightarrow>
     (\<exists>w' evl'. call h ev w = Some w' \<and> timers base w' evl' \<and> current_msec w' = now
        \<and> (\<forall>a \<in> set evl'. expired base w' a \<longrightarrow> a \<in> set evl \<and> expired base w a)))"

lemma expire_quiet:
  assumes q: "quiet base call obs"
  shows "timers base w evl \<Longrightarrow> \<exists>w'. event_expire_timers call w = Some w'
    \<and> timers base w' (dropWhile (expired base w) evl)
    \<and> obs w' = obs w @ map (\<lambda>ev. (ev_handler (evs w ev), ev)) (takeWhile (expired base w) evl)"
proof (induction evl arbitrary: w)
  case Nil
  with expire_stop [of base w "[]"] show ?case by simp
next
  case (Cons ev evl)
  show ?case
  proof (cases "expired base w ev")
    case False
    with expire_stop [OF Cons.prems] Cons.prems show ?thesis by simp
  next
    case True
    obtain t where t: "event_expire_timers call w
        = do { w \<leftarrow> call (ev_handler (evs w ev)) ev (fired w ev t); event_expire_timers call w }"
      "timers base (fired w ev t) evl" "\<forall>a. a \<noteq> ev \<longrightarrow> expiry base (fired w ev t) a = expiry base w a"
      using expire_step [OF Cons.prems True] by blast
    have out: "ev \<notin> set evl" using timers_distinct [OF Cons.prems] by simp
    moreover have "ev_timedout (evs (fired w ev t) ev)" by (simp add: fired_def)
    ultimately obtain w1 where w1: "call (ev_handler (evs w ev)) ev (fired w ev t) = Some w1"
      "event_timer_rbtree w1 = event_timer_rbtree (fired w ev t)"
      "event_timer_sentinel w1 = event_timer_sentinel (fired w ev t)"
      "current_msec w1 = current_msec (fired w ev t)"
      "\<forall>a. ev_timer_set (evs w1 a) = ev_timer_set (evs (fired w ev t) a) \<and> ev_handler (evs w1 a) = ev_handler (evs (fired w ev t) a)"
      "obs w1 = obs (fired w ev t) @ [(ev_handler (evs w ev), ev)]"
      using q t(2) unfolding quiet_def by blast
    have "timers base w1 evl" using t(2) w1(2-5) unfolding timers_def by simp
    from Cons.IH [OF this] obtain w' where w': "event_expire_timers call w1 = Some w'"
      "timers base w' (dropWhile (expired base w1) evl)" "obs w' = obs w1 @ map (\<lambda>ev. (ev_handler (evs w1 ev), ev)) (takeWhile (expired base w1) evl)" by blast
    have h: "ev_handler (evs w1 a) = ev_handler (evs w a)" for a using w1(5) by (simp add: fired_def)
    from out have e: "expired base w1 a \<longleftrightarrow> expired base w a" if "a \<in> set evl" for a
      using that t(3) w1(2,4) expiry_cong [of w1 a "fired w ev t" base] by (auto simp: clock_def fired_def)
    have "obs (fired w ev t) = obs w" using q by (simp add: quiet_def fired_def)
    moreover have "dropWhile (expired base w1) evl = dropWhile (expired base w) evl"
      "takeWhile (expired base w1) evl = takeWhile (expired base w) evl"
      using e by (auto intro: dropWhile_cong takeWhile_cong)
    ultimately show ?thesis using True t(1) w1(1,6) w' by (simp add: h)
  qed
qed

lemma expire_future:
  assumes f: "future_only base now call"
  shows "timers base w evl \<Longrightarrow> current_msec w = now \<Longrightarrow> \<exists>w' evl'. event_expire_timers call w = Some w' \<and> timers base w' evl'
    \<and> (\<forall>a \<in> set evl'. \<not> expired base w' a)"
proof (induction "card {a \<in> set evl. expired base w a}" arbitrary: w evl rule: less_induct)
  case less
  show ?case
  proof (cases "evl = [] \<or> \<not> expired base w (hd evl)")
    case True
    have "\<not> expired base w a" if "a \<in> set evl" for a
      using True that timers_sorted [OF less.prems(1)] by (cases evl) auto
    with expire_stop [OF less.prems(1) True] less.prems show ?thesis by blast
  next
    case False
    then obtain ev evs' where l: "evl = ev # evs'" "expired base w ev" by (cases evl) auto
    note tm = less.prems(1) [unfolded l(1)]
    obtain t where t: "event_expire_timers call w
        = do { w \<leftarrow> call (ev_handler (evs w ev)) ev (fired w ev t); event_expire_timers call w }"
      "timers base (fired w ev t) evs'" "\<forall>a. a \<noteq> ev \<longrightarrow> expiry base (fired w ev t) a = expiry base w a"
      using expire_step [OF tm l(2)] by blast
    have "ev \<noteq> NULL" "current_msec (fired w ev t) = now" "ev_timer ev \<noteq> event_timer_sentinel (fired w ev t)"
      using tm less.prems(2) timers_not_sentinel [OF tm, of ev] by (simp_all add: timers_def fired_def)
    with f t(2) obtain w1 evl1 where w1: "call (ev_handler (evs w ev)) ev (fired w ev t) = Some w1" "timers base w1 evl1" "current_msec w1 = now"
      "\<forall>a \<in> set evl1. expired base w1 a \<longrightarrow> a \<in> set evs' \<and> expired base (fired w ev t) a"
      unfolding future_only_def by blast
    have out: "ev \<notin> set evs'" using timers_distinct [OF tm] by simp
    have c: "clock base (fired w ev t) = clock base w" by (simp add: clock_def fired_def)
    have "a \<in> set evs' \<and> expired base w a" if "a \<in> set evl1" "expired base w1 a" for a
      using that w1(4) t(3) out unfolding c by metis
    then have "{a \<in> set evl1. expired base w1 a} \<subset> {a \<in> set evl. expired base w a}"
      using l out by auto
    then have "card {a \<in> set evl1. expired base w1 a} < card {a \<in> set evl. expired base w a}"
      by (intro psubset_card_mono) auto
    from less.hyps [OF this w1(2,3)] t(1) w1(1) show ?thesis by simp
  qed
qed

lemma no_timers_left_loop_ok:
  assumes tm: "timers base w (as @ evl)"
  shows "no_timers_left_loop w (case evl of [] \<Rightarrow> NULL | ev # _ \<Rightarrow> ev_timer ev)
    = Some (if \<forall>ev \<in> set evl. ev_cancelable (evs w ev) then 0 else - 2)"
  using tm
proof (induction evl arbitrary: as)
  case Nil
  show ?case by (subst no_timers_left_loop.simps) simp
next
  case (Cons ev evl)
  have ev: "get_event w ev = Some (evs w ev)" using Cons.prems by (simp add: timers_def get_event_def)
  have "rbtree_holds (event_timer_rbtree w) (map ev_timer as @ ev_timer ev # map ev_timer evl)"
    using Cons.prems by (simp add: timers_def)
  from rbtree_next_holds [OF this]
  have n: "rbtree_next (event_timer_rbtree w) (ev_timer ev) = Some (case evl of [] \<Rightarrow> NULL | e # _ \<Rightarrow> ev_timer e)"
    by (cases evl) simp_all
  from Cons.IH [of "as @ [ev]"] Cons.prems have
    "no_timers_left_loop w (case evl of [] \<Rightarrow> NULL | e # _ \<Rightarrow> ev_timer e)
      = Some (if \<forall>ev \<in> set evl. ev_cancelable (evs w ev) then 0 else - 2)" by simp
  with ev n show ?case by (subst no_timers_left_loop.simps) simp
qed

lemma event_no_timers_left_ok:
  assumes tm: "timers base w evl"
  shows "event_no_timers_left w = Some (if \<forall>ev \<in> set evl. ev_cancelable (evs w ev) then 0 else - 2)"
proof (cases "evl = []")
  case True
  with tm have "rb_root (event_timer_rbtree w) = rb_sentinel (event_timer_rbtree w)"
    using rbtree_holds_root by (fastforce simp: timers_def)
  with True show ?thesis by (simp add: event_no_timers_left_def Let_def)
next
  case False
  with no_timers_left_loop_ok [of base w "[]" evl] tm timers_min [OF tm False] show ?thesis
    by (cases evl) (simp_all add: event_no_timers_left_def Let_def)
qed

section \<open>A concrete state\<close>

text \<open>Events at 100, 200 and 300 that expire at 10, 20 and 30; the clock shows 20.\<close>

definition event0 :: event where
  "event0 = \<lparr>ev_data = 0, ev_write = False, ev_accept = False, ev_instance = False, ev_active = False,
     ev_disabled = False, ev_ready = False, ev_oneshot = False, ev_complete = False, ev_eof = False,
     ev_error = False, ev_timedout = False, ev_timer_set = False, ev_delayed = False,
     ev_deferred_accept = False, ev_pending_eof = False, ev_posted = False, ev_closed = False,
     ev_channel = False, ev_resolver = False, ev_cancelable = False, ev_available = False,
     ev_handler = 0, ev_index = 0\<rparr>"

definition timers3 :: "'a \<Rightarrow> 'a events_scheme" where
  "timers3 x = \<lparr>slot = 0, time_lock = 0, current_msec = 20, cached_time = Some 0,
     scached_time = \<lambda>_. \<lparr>st_sec = 0, st_msec = 0\<rparr>, evs = (\<lambda>_. event0)(100 := event0\<lparr>ev_timer_set := True\<rparr>,
       200 := event0\<lparr>ev_timer_set := True\<rparr>, 300 := event0\<lparr>ev_timer_set := True\<rparr>),
     event_timer_rbtree = \<lparr>rb_left = (\<lambda>_. 9)(232 := 132), rb_right = (\<lambda>_. 9)(232 := 332),
       rb_parent = (\<lambda>_. 0)(132 := 232, 332 := 232), rb_key = (\<lambda>_. 0)(132 := 10, 232 := 20, 332 := 30),
       rb_color = (\<lambda>_. 0)(132 := 1, 332 := 1), rb_root = 232, rb_sentinel = 9,
       rb_insert = Rbtree_insert_timer_value\<rparr>,
     event_timer_sentinel = 9,
     equeues = \<lparr>q_prev = \<lambda>_. 0, q_next = \<lambda>_. 0\<rparr>, \<dots> = x\<rparr>"

lemma timers3_ok: "timers 0 (timers3 x) [100, 200, 300]"
proof -
  have "rbtree_holds (event_timer_rbtree (timers3 x)) [132, 232, 332]"
    unfolding rbtree_holds_def
    by (rule exI [of _ "Node (Node Leaf 132 True Leaf) 232 False (Node Leaf 332 True Leaf)"])
      (simp add: rbtree_ok_def rep_def timers3_def sentinel_ok_def)
  then show ?thesis
    unfolding timers_def by (simp add: ev_timer_def timer_offset_def rbtree_sorted_def timers3_def timer_window_def event0_def)
qed

lemma timers3_values:
  "expiry 0 (timers3 x) 100 = 10" "expiry 0 (timers3 x) 200 = 20" "expiry 0 (timers3 x) 300 = 30"
  "clock 0 (timers3 x) = 20" "current_msec (timers3 x) = 20" "event_timer_sentinel (timers3 x) = 9" "ev_timer 200 \<noteq> 9" "ev_timer 400 \<noteq> 9"
  by (simp_all add: expiry_def clock_def timers3_def ev_timer_def timer_offset_def)

section \<open>Properties\<close>

text \<open>
  C10: \<open>event_add_timer\<close> arms a timer \<open>timer\<close> milliseconds from the cached clock. On a timer store
  whose keys lie in one half of the circle it returns without a bad access or an overflow. A
  pending timer that would move by less than \<open>TIMER_LAZY_DELAY\<close> keeps its old expiry and nothing
  changes; otherwise the event is in the store exactly once, at the place of its new expiry and
  behind those that expire at the same time, \<open>timer_set\<close> is set, and no other timer moves.
\<close>

theorem event_add_timer_correct:
  assumes "timers base w evl" and "ev \<noteq> NULL" and "ev_timer ev \<noteq> event_timer_sentinel w"
    and "timer_window base (current_msec w + timer)"
    and "k = unat (current_msec w + timer - base)"
  shows "if ev \<in> set evl \<and> \<bar>int k - int (expiry base w ev)\<bar> < TIMER_LAZY_DELAY
    then event_add_timer w ev timer = Some w
    else \<exists>t w'. event_add_timer w ev timer = Some w'
      \<and> w' = w\<lparr>event_timer_rbtree := t, evs := (evs w)(ev := (evs w ev)\<lparr>ev_timer_set := True\<rparr>)\<rparr>
      \<and> timers base w' (schedule base w ev k (remove1 ev evl))
      \<and> rb_key t (ev_timer ev) = current_msec w + timer
      \<and> (\<forall>a. a \<noteq> ev \<longrightarrow> rb_key t (ev_timer a) = rb_key (event_timer_rbtree w) (ev_timer a))"
  using assms by (rule event_add_timer_ok)

theorem event_add_timer_correct_witness:
  "event_add_timer (timers3 ()) 200 5 = Some (timers3 ())
   \<and> (\<exists>w'. event_add_timer (timers3 ()) 200 500 = Some w' \<and> timers 0 w' [100, 300, 200])
   \<and> (\<exists>w'. event_add_timer (timers3 ()) 400 5 = Some w' \<and> timers 0 w' [100, 200, 400, 300])"
proof -
  note c = event_add_timer_correct [OF timers3_ok, where x1 = "()", OF _ _ _ refl, unfolded timers3_values]
  have "event_add_timer (timers3 ()) 200 5 = Some (timers3 ())"
    using c [of 200 5] by (simp add: timer_window_def timers3_values TIMER_LAZY_DELAY_def)
  moreover have "\<exists>w'. event_add_timer (timers3 ()) 200 500 = Some w' \<and> timers 0 w' [100, 300, 200]"
    using c [of 200 500] by (auto simp: timer_window_def timers3_values TIMER_LAZY_DELAY_def schedule_def)
  moreover have "\<exists>w'. event_add_timer (timers3 ()) 400 5 = Some w' \<and> timers 0 w' [100, 200, 400, 300]"
    using c [of 400 5] by (auto simp: timer_window_def timers3_values TIMER_LAZY_DELAY_def schedule_def)
  ultimately show ?thesis by blast
qed

text \<open>
  C11: \<open>event_expire_timers\<close> fires exactly the timers that are due, each once, the soonest first,
  and leaves the others pending, whenever the handlers themselves leave the timers alone. Each
  fired event has left the tree, and is marked as timed out, before its handler runs: of a handler called
  earlier nothing is assumed, it may crash. The handler is the one that the event had when the call began.
\<close>

theorem event_expire_timers_order:
  assumes "quiet base call obs" and "timers base w evl"
  shows "\<exists>w'. event_expire_timers call w = Some w'
    \<and> timers base w' (dropWhile (expired base w) evl)
    \<and> obs w' = obs w @ map (\<lambda>ev. (ev_handler (evs w ev), ev)) (takeWhile (expired base w) evl)"
  using assms by (rule expire_quiet)

text \<open>A handler that logs its calls, and crashes when its event is still in the store or not marked.\<close>

definition logging :: "((handler \<times> addr) list) caller" where
  "logging h ev w = (if ev_timer_set (evs w ev) \<or> \<not> ev_timedout (evs w ev) then None
     else Some (w\<lparr>events.more := events.more w @ [(h, ev)]\<rparr>))"

lemma logging_quiet: "quiet base logging events.more"
  by (auto simp: quiet_def logging_def timers_def)

theorem event_expire_timers_order_witness:
  "\<exists>w'. event_expire_timers logging (timers3 []) = Some w' \<and> timers 0 w' [300] \<and> events.more w' = [(0, 100), (0, 200)]"
  using event_expire_timers_order [OF logging_quiet timers3_ok [of "[]"]]
  by (simp add: timers3_values) (simp add: timers3_def event0_def)

text \<open>
  C12: \<open>event_expire_timers\<close> always returns when handlers arm only timers that are not due yet,
  even if they add and delete timers, and then no pending timer is due.
\<close>

theorem event_expire_timers_returns:
  assumes "future_only base now call" and "timers base w evl" and "current_msec w = now"
  shows "\<exists>w' evl'. event_expire_timers call w = Some w' \<and> timers base w' evl'
    \<and> (\<forall>a \<in> set evl'. \<not> expired base w' a)"
  using assms by (rule expire_future)

text \<open>A handler that arms the timer of its event again, one second ahead.\<close>

lemma rearm_future: "future_only 0 20 (\<lambda>h ev w. event_add_timer w ev 1000)"
  unfolding future_only_def
proof (intro allI impI, elim conjE)
  fix ev :: addr and w :: "'a events_scheme" and evl
  assume tm: "timers 0 w evl" and ev: "ev \<noteq> NULL" "ev_timer ev \<noteq> event_timer_sentinel w" and now: "current_msec w = 20"
  have k: "1020 = unat (current_msec w + 1000 - 0)" and win: "timer_window 0 (current_msec w + 1000)"
    by (simp_all add: now timer_window_def)
  note add = event_add_timer_ok [OF tm ev(1,2) win k]
  show "\<exists>w' evl'. event_add_timer w ev 1000 = Some w' \<and> timers 0 w' evl' \<and> current_msec w' = 20
    \<and> (\<forall>a \<in> set evl'. expired 0 w' a \<longrightarrow> a \<in> set evl \<and> expired 0 w a)"
  proof (cases "ev \<in> set evl \<and> \<bar>int 1020 - int (expiry 0 w ev)\<bar> < TIMER_LAZY_DELAY")
    case True
    with add tm now show ?thesis by auto
  next
    case False
    with add obtain t w' where w': "event_add_timer w ev 1000 = Some w'"
      "w' = w\<lparr>event_timer_rbtree := t, evs := (evs w)(ev := (evs w ev)\<lparr>ev_timer_set := True\<rparr>)\<rparr>"
      "timers 0 w' (schedule 0 w ev 1020 (remove1 ev evl))"
      "rb_key t (ev_timer ev) = current_msec w + 1000"
      "\<forall>a. a \<noteq> ev \<longrightarrow> rb_key t (ev_timer a) = rb_key (event_timer_rbtree w) (ev_timer a)"
      unfolding if_not_P [OF False] by blast
    have e: "expiry 0 w' ev = 1020" "clock 0 w' = 20" "clock 0 w = 20"
      using w'(2,4) now by (simp_all add: expiry_def clock_def)
    have o: "expiry 0 w' a = expiry 0 w a" if "a \<noteq> ev" for a
      using that w'(2,5) by (intro expiry_cong) simp
    have "a \<in> set evl \<and> expired 0 w a"
      if "a \<in> set (schedule 0 w ev 1020 (remove1 ev evl))" "expired 0 w' a" for a
      using that e o by (cases "a = ev") (auto simp: schedule_def dest: notin_set_remove1)
    with w'(1,3) show ?thesis using w'(2) now by auto
  qed
qed

theorem event_expire_timers_returns_witness:
  "\<exists>w' evl'. event_expire_timers (\<lambda>h ev w. event_add_timer w ev 1000) (timers3 ()) = Some w'
    \<and> timers 0 w' evl' \<and> (\<forall>a \<in> set evl'. \<not> expired 0 w' a)"
  by (rule event_expire_timers_returns [OF rearm_future timers3_ok]) (simp add: timers3_values)

text \<open>
  C27: \<open>event_find_timer\<close> tells how long to wait: the time until the first pending timer is due, 0
  when it is due already, and \<open>TIMER_INFINITE\<close> when no timer is pending.
\<close>

theorem event_find_timer_correct:
  assumes "timers base w evl"
  shows "event_find_timer w = Some (if evl = [] then TIMER_INFINITE
    else of_nat (expiry base w (hd evl) - clock base w))"
  using assms by (rule event_find_timer_ok)

theorem event_find_timer_correct_witness:
  "event_find_timer (timers3 ()) = Some 0"
  using event_find_timer_correct [OF timers3_ok] by (simp add: timers3_values)

text \<open>
  \<open>event_no_timers_left\<close> walks all pending timers in order and returns 0 when every one of them
  is cancelable, -2 as soon as one is not.
\<close>

theorem event_no_timers_left_correct:
  assumes "timers base w evl"
  shows "event_no_timers_left w = Some (if \<forall>ev \<in> set evl. ev_cancelable (evs w ev) then 0 else - 2)"
  using assms by (rule event_no_timers_left_ok)

theorem event_no_timers_left_correct_witness:
  "event_no_timers_left (timers3 ()) = Some (- 2)"
  using event_no_timers_left_correct [OF timers3_ok [of "()"]] by (simp add: timers3_def event0_def)

end
