(* ===== verification/Posted.thy ===== *)
theory Posted
  imports Event_Timer
begin

text \<open>
  The queues of posted events of \<^verbatim>\<open>src/event_posted.h\<close> and \<^verbatim>\<open>src/event_posted.c\<close>: events that
  \<open>epoll_process_events\<close> found ready and put off until the accept mutex is released. The two queues of the
  program, for accepting and for all other events, share the links that are embedded in the events.
\<close>

section \<open>The operations\<close>

definition post_event :: "'a events_scheme \<Rightarrow> addr \<Rightarrow> addr \<Rightarrow> 'a events_scheme option" where
  "post_event w ev q = do {
     e \<leftarrow> get_event w ev;
     if \<not> ev_posted e then do {
       w \<leftarrow> upd_event w ev (\<lambda>e. e\<lparr>ev_posted := True\<rparr>);
       qs \<leftarrow> queue_insert_tail (equeues w) q (ev_queue ev);
       Some (w\<lparr>equeues := qs\<rparr>) }
     else Some w }"

definition delete_posted_event :: "'a events_scheme \<Rightarrow> addr \<Rightarrow> 'a events_scheme option" where
  "delete_posted_event w ev = do {
     w \<leftarrow> upd_event w ev (\<lambda>e. e\<lparr>ev_posted := False\<rparr>);
     qs \<leftarrow> queue_remove (equeues w) (ev_queue ev);
     Some (w\<lparr>equeues := qs\<rparr>) }"

partial_function (option) event_process_posted :: "'a caller \<Rightarrow> 'a events_scheme \<Rightarrow> addr \<Rightarrow> 'a events_scheme option" where
  "event_process_posted call w posted = do {
     empty \<leftarrow> queue_empty (equeues w) posted;
     if empty then Some w
     else do {
       q \<leftarrow> queue_head (equeues w) posted;
       let ev = queue_event q;
       w \<leftarrow> delete_posted_event w ev;
       e \<leftarrow> get_event w ev;
       w \<leftarrow> call (ev_handler e) ev w;
       event_process_posted call w posted } }"

section \<open>What the queues hold\<close>

text \<open>
  The queue with head \<open>q\<close> holds the events \<open>xs\<close>, the one with head \<open>q'\<close> the events \<open>ys\<close>; an event has \<open>posted\<close>
  exactly when it is in one of them.
\<close>

definition posted :: "'a events_scheme \<Rightarrow> addr \<Rightarrow> addr list \<Rightarrow> addr \<Rightarrow> addr list \<Rightarrow> bool" where
  "posted w q xs q' ys \<longleftrightarrow> queue_list (equeues w) q (map ev_queue xs) \<and> queue_list (equeues w) q' (map ev_queue ys)
     \<and> q \<noteq> q' \<and> set xs \<inter> set ys = {} \<and> q \<notin> ev_queue ` set ys \<and> q' \<notin> ev_queue ` set xs \<and> NULL \<notin> set xs \<union> set ys
     \<and> (\<forall>ev. ev_posted (evs w ev) \<longleftrightarrow> ev \<in> set xs \<union> set ys)"

lemma posted_sym: "posted w q xs q' ys = posted w q' ys q xs"
  by (auto simp: posted_def)

lemma posted_apart: "posted w q xs q' ys \<Longrightarrow> set (q # map ev_queue xs) \<inter> set (q' # map ev_queue ys) = {}"
  by (force simp: posted_def)

lemma posted_distinct: "posted w q xs q' ys \<Longrightarrow> distinct xs"
  by (auto simp: posted_def queue_list_def distinct_map)

lemma posted_cong:
  "equeues w' = equeues w \<Longrightarrow> (\<And>ev. ev_posted (evs w' ev) = ev_posted (evs w ev)) \<Longrightarrow> posted w' q xs q' ys = posted w q xs q' ys"
  by (simp add: posted_def)

lemma event_posted_idem: "ev_posted e \<Longrightarrow> e\<lparr>ev_posted := True\<rparr> = e"
  by (cases e) simp

lemma post_event_ok:
  assumes p: "posted w q xs q' ys" and ev: "ev \<noteq> NULL" "ev_queue ev \<noteq> q" "ev_queue ev \<noteq> q'"
  shows "\<exists>w'. post_event w ev q = Some w' \<and> posted w' q (if ev \<in> set xs \<union> set ys then xs else xs @ [ev]) q' ys
    \<and> (\<exists>qs. w' = w\<lparr>evs := (evs w)(ev := (evs w ev)\<lparr>ev_posted := True\<rparr>), equeues := qs\<rparr>)"
proof (cases "ev \<in> set xs \<union> set ys")
  case True
  then have "ev_posted (evs w ev)" using p by (simp add: posted_def)
  then have "w\<lparr>evs := (evs w)(ev := (evs w ev)\<lparr>ev_posted := True\<rparr>), equeues := equeues w\<rparr> = w"
    by (simp add: event_posted_idem)
  moreover have "post_event w ev q = Some w" using \<open>ev_posted (evs w ev)\<close> ev by (simp add: post_event_def get_event_def)
  ultimately show ?thesis using p True by (intro exI [of _ w] conjI exI [of _ "equeues w"]) simp_all
next
  case False
  then have np: "\<not> ev_posted (evs w ev)" using p by (simp add: posted_def)
  have q: "queue_list (equeues w) q (map ev_queue xs)" "queue_list (equeues w) q' (map ev_queue ys)"
    using p by (simp_all add: posted_def)
  have "ev_queue ev \<notin> set (q # map ev_queue xs)" using False ev by auto
  from queue_insert_tail_ring [OF q(1) this] obtain qs where qs: "queue_insert_tail (equeues w) q (ev_queue ev) = Some qs"
    "queue_list qs q (map ev_queue xs @ [ev_queue ev])" "same_outside (set (q # ev_queue ev # map ev_queue xs)) (equeues w) qs" by auto
  have "set (q' # map ev_queue ys) \<inter> set (q # ev_queue ev # map ev_queue xs) = {}"
    using posted_apart [OF p] False ev by auto
  with queue_list_frame [OF qs(3)] q(2) have q': "queue_list qs q' (map ev_queue ys)" by blast
  let ?w = "w\<lparr>evs := (evs w)(ev := (evs w ev)\<lparr>ev_posted := True\<rparr>), equeues := qs\<rparr>"
  have "post_event w ev q = Some ?w" using np ev qs(1) by (simp add: post_event_def get_event_def upd_event_def)
  moreover have "posted ?w q (xs @ [ev]) q' ys" using p qs(2) q' ev False by (auto simp: posted_def)
  ultimately show ?thesis using False by auto
qed

lemma delete_posted_ok:
  assumes p: "posted w q xs q' ys" and ev: "ev \<in> set xs"
  shows "\<exists>w'. delete_posted_event w ev = Some w' \<and> posted w' q (remove1 ev xs) q' ys
    \<and> (\<exists>qs. w' = w\<lparr>evs := (evs w)(ev := (evs w ev)\<lparr>ev_posted := False\<rparr>), equeues := qs\<rparr>)"
proof -
  from ev obtain as bs where xs: "xs = as @ ev # bs" "ev \<notin> set as" by (meson split_list_first)
  have q: "queue_list (equeues w) q (map ev_queue as @ ev_queue ev # map ev_queue bs)" "queue_list (equeues w) q' (map ev_queue ys)"
    and nn: "ev \<noteq> NULL" using p xs by (auto simp: posted_def)
  from queue_remove_ring [OF q(1)] obtain qs where qs: "queue_remove (equeues w) (ev_queue ev) = Some qs"
    "queue_list qs q (map ev_queue as @ map ev_queue bs)" "same_outside (set (q # map ev_queue as @ map ev_queue bs)) (equeues w) qs" by auto
  have "set (q' # map ev_queue ys) \<inter> set (q # map ev_queue as @ map ev_queue bs) = {}"
    using posted_apart [OF p] xs by auto
  with queue_list_frame [OF qs(3)] q(2) have q': "queue_list qs q' (map ev_queue ys)" by blast
  let ?w = "w\<lparr>evs := (evs w)(ev := (evs w ev)\<lparr>ev_posted := False\<rparr>), equeues := qs\<rparr>"
  have d: "distinct xs" using posted_distinct [OF p] .
  have "delete_posted_event w ev = Some ?w" using nn qs(1) by (simp add: delete_posted_event_def upd_event_def)
  moreover have "remove1 ev xs = as @ bs" using xs by (simp add: remove1_append)
  moreover have "posted ?w q (as @ bs) q' ys" using p qs(2) q' xs d by (auto simp: posted_def)
  ultimately show ?thesis by auto
qed

lemma process_posted_step:
  assumes p: "posted w q xs q' ys"
  shows "xs = [] \<Longrightarrow> event_process_posted call w q = Some w"
    and "xs = ev # xs' \<Longrightarrow> \<exists>w'. delete_posted_event w ev = Some w' \<and> posted w' q xs' q' ys
      \<and> (\<exists>qs. w' = w\<lparr>evs := (evs w)(ev := (evs w ev)\<lparr>ev_posted := False\<rparr>), equeues := qs\<rparr>)
      \<and> event_process_posted call w q = do { w \<leftarrow> call (ev_handler (evs w ev)) ev w'; event_process_posted call w q }"
proof -
  have ql: "queue_list (equeues w) q (map ev_queue xs)" using p by (simp add: posted_def)
  note e = queue_list_ends [OF ql]
  show "event_process_posted call w q = Some w" if "xs = []"
    using e that by (subst event_process_posted.simps) (simp add: queue_empty_def q_access)
  show "\<exists>w'. delete_posted_event w ev = Some w' \<and> posted w' q xs' q' ys
      \<and> (\<exists>qs. w' = w\<lparr>evs := (evs w)(ev := (evs w ev)\<lparr>ev_posted := False\<rparr>), equeues := qs\<rparr>)
      \<and> event_process_posted call w q = do { w \<leftarrow> call (ev_handler (evs w ev)) ev w'; event_process_posted call w q }"
    if xs: "xs = ev # xs'"
  proof -
    from delete_posted_ok [OF p, of ev] xs obtain w' qs where w': "delete_posted_event w ev = Some w'" "posted w' q xs' q' ys"
      "w' = w\<lparr>evs := (evs w)(ev := (evs w ev)\<lparr>ev_posted := False\<rparr>), equeues := qs\<rparr>" by auto
    have "last (q # map ev_queue xs) \<noteq> q" using ql xs unfolding queue_list_def
      by (metis distinct.simps(2) last_ConsR last_in_set list.distinct(1) list.simps(9))
    then have ne: "queue_empty (equeues w) q = Some False" using e by (auto simp: queue_empty_def q_access)
    have hd: "queue_head (equeues w) q = Some (ev_queue ev)" using e xs by (simp add: queue_head_def q_access)
    have "get_event w' ev = Some (evs w' ev)" using p xs by (auto simp: get_event_def posted_def)
    then have "event_process_posted call w q = do { w \<leftarrow> call (ev_handler (evs w ev)) ev w'; event_process_posted call w q }"
      using ne hd w'(1) by (subst event_process_posted.simps) (simp add: Let_def w'(3))
    with w' show ?thesis by blast
  qed
qed

section \<open>Processing a queue\<close>

text \<open>
  Two contracts of handlers. \<open>calm\<close>: the handler, when it is called for an event that is on neither queue, leaves the
  queues and the handlers of the events alone, and \<open>obs\<close> records the call; of a call for an event that is still posted
  nothing is assumed, it may crash.
  \<open>no_posting\<close>: it may delete posted events (as \<open>close_connection\<close> does) but posts none on the queue processed.
\<close>

definition calm :: "'a caller \<Rightarrow> addr \<Rightarrow> addr \<Rightarrow> ('a events_scheme \<Rightarrow> (handler \<times> addr) list) \<Rightarrow> bool" where
  "calm call q q' obs \<longleftrightarrow> (\<forall>h ev w xs ys. posted w q xs q' ys \<and> ev \<notin> set xs \<union> set ys \<longrightarrow>
       (\<exists>w'. call h ev w = Some w' \<and> equeues w' = equeues w
         \<and> (\<forall>a. ev_posted (evs w' a) = ev_posted (evs w a) \<and> ev_handler (evs w' a) = ev_handler (evs w a))
         \<and> obs w' = obs w @ [(h, ev)]))
     \<and> (\<forall>w e qs. obs (w\<lparr>evs := e, equeues := qs\<rparr>) = obs w)"

definition no_posting :: "'a caller \<Rightarrow> addr \<Rightarrow> addr \<Rightarrow> bool" where
  "no_posting call q q' \<longleftrightarrow> (\<forall>h ev w xs ys. posted w q xs q' ys \<and> ev \<noteq> NULL \<longrightarrow>
     (\<exists>w' xs' ys'. call h ev w = Some w' \<and> posted w' q xs' q' ys' \<and> set xs' \<subseteq> set xs))"

lemma process_posted_calm:
  assumes c: "calm call q q' obs"
  shows "posted w q xs q' ys \<Longrightarrow>
    \<exists>w'. event_process_posted call w q = Some w' \<and> posted w' q [] q' ys \<and> obs w' = obs w @ map (\<lambda>ev. (ev_handler (evs w ev), ev)) xs"
proof (induction xs arbitrary: w)
  case Nil
  with process_posted_step(1) [OF Nil, where call = call] show ?case by simp
next
  case (Cons ev xs)
  from process_posted_step(2) [OF Cons.prems refl, where call = call] obtain w1 qs where w1: "posted w1 q xs q' ys"
    "w1 = w\<lparr>evs := (evs w)(ev := (evs w ev)\<lparr>ev_posted := False\<rparr>), equeues := qs\<rparr>"
    "event_process_posted call w q = do { w \<leftarrow> call (ev_handler (evs w ev)) ev w1; event_process_posted call w q }" by blast
  have "ev \<notin> set xs \<union> set ys" using Cons.prems posted_distinct [OF Cons.prems] by (auto simp: posted_def)
  with c w1(1) obtain w2 where w2: "call (ev_handler (evs w ev)) ev w1 = Some w2" "equeues w2 = equeues w1"
    "\<forall>a. ev_posted (evs w2 a) = ev_posted (evs w1 a) \<and> ev_handler (evs w2 a) = ev_handler (evs w1 a)"
    "obs w2 = obs w1 @ [(ev_handler (evs w ev), ev)]" unfolding calm_def by blast
  have "obs w1 = obs w" using c by (simp add: calm_def w1(2))
  moreover have "posted w2 q xs q' ys" using w1(1) w2(3) by (subst posted_cong [OF w2(2)]) simp_all
  from Cons.IH [OF this] obtain w3 where "event_process_posted call w2 q = Some w3" "posted w3 q [] q' ys" "obs w3 = obs w2 @ map (\<lambda>ev. (ev_handler (evs w2 ev), ev)) xs" by blast
  moreover have "ev_handler (evs w2 a) = ev_handler (evs w a)" for a using w2(3) by (simp add: w1(2))
  ultimately show ?case using w1(3) w2(1,4) by simp
qed

lemma process_posted_returns:
  assumes c: "no_posting call q q'"
  shows "posted w q xs q' ys \<Longrightarrow> \<exists>w' ys'. event_process_posted call w q = Some w' \<and> posted w' q [] q' ys'"
proof (induction "card (set xs)" arbitrary: w xs ys rule: less_induct)
  case less
  show ?case
  proof (cases xs)
    case Nil
    with less.prems process_posted_step(1) [OF less.prems, where call = call] show ?thesis by auto
  next
    case (Cons ev xs1)
    from process_posted_step(2) [OF less.prems Cons, where call = call] obtain w1 where w1: "posted w1 q xs1 q' ys"
      "event_process_posted call w q = do { w \<leftarrow> call (ev_handler (evs w ev)) ev w1; event_process_posted call w q }" by blast
    have "ev \<noteq> NULL" using less.prems Cons by (auto simp: posted_def)
    with c w1(1) obtain w2 xs2 ys2 where w2: "call (ev_handler (evs w ev)) ev w1 = Some w2" "posted w2 q xs2 q' ys2" "set xs2 \<subseteq> set xs1"
      unfolding no_posting_def by blast
    have "ev \<notin> set xs1" using posted_distinct [OF less.prems] Cons by simp
    then have "card (set xs2) < card (set xs)" using w2(3) Cons
      by (metis List.finite_set card_insert_disjoint card_mono le_imp_less_Suc list.simps(15))
    from less.hyps [OF this w2(2)] w1(2) w2(1) show ?thesis by simp
  qed
qed

section \<open>Properties\<close>

text \<open>
  The events at 100 and 200 are posted, in this order, on the queue at 1000; the queue at 2000 is empty.
\<close>

definition posted2 :: "'a \<Rightarrow> 'a events_scheme" where
  "posted2 x = (timers3 x)\<lparr>
     evs := (\<lambda>_. event0)(100 := event0\<lparr>ev_posted := True\<rparr>, 200 := event0\<lparr>ev_posted := True\<rparr>),
     equeues := \<lparr>q_prev = (\<lambda>_. 0)(1000 := 272, 172 := 1000, 272 := 172, 2000 := 2000),
       q_next = (\<lambda>_. 0)(1000 := 172, 172 := 272, 272 := 1000, 2000 := 2000)\<rparr>\<rparr>"

lemma posted2_ok: "posted (posted2 x) 1000 [100, 200] 2000 []"
  by (simp add: posted_def posted2_def queue_list_def ev_queue_def queue_offset_def event0_def)

text \<open>A handler that logs its calls, and crashes when its event is still posted.\<close>

definition posted_logging :: "((handler \<times> addr) list) caller" where
  "posted_logging h ev w = (if ev_posted (evs w ev) then None else Some (w\<lparr>events.more := events.more w @ [(h, ev)]\<rparr>))"

lemma posted_logging_calm: "calm posted_logging q q' events.more"
  by (auto simp: calm_def posted_logging_def posted_def)

text \<open>C19: \<open>event_process_posted\<close> calls the handler of every event of its queue exactly once, in the order of posting, and leaves the
  queue empty and the other queue as it was, when the handlers leave the posted events alone. Each event is
  already off the queue, and no longer marked, when its handler runs: of a handler called earlier nothing is
  assumed, it may crash.\<close>

theorem event_process_posted_order:
  assumes "calm call q q' obs" and "posted w q xs q' ys"
  shows "\<exists>w'. event_process_posted call w q = Some w' \<and> posted w' q [] q' ys
    \<and> obs w' = obs w @ map (\<lambda>ev. (ev_handler (evs w ev), ev)) xs"
  using assms by (rule process_posted_calm)

theorem event_process_posted_order_witness:
  "\<exists>w'. event_process_posted posted_logging (posted2 []) 1000 = Some w' \<and> posted w' 1000 [] 2000 []
    \<and> events.more w' = [(0, 100), (0, 200)]"
proof -
  have "events.more (posted2 ([] :: (handler \<times> addr) list)) = []" "ev_handler (evs (posted2 ([] :: (handler \<times> addr) list)) a) = 0" for a
    by (simp_all add: posted2_def timers3_def event0_def)
  with event_process_posted_order [OF posted_logging_calm posted2_ok, of "[]"] show ?thesis by simp
qed

text \<open>C32: \<open>event_process_posted\<close> returns, with its queue empty, also when handlers take other events off the queues, as
  \<open>close_connection\<close> does, or post on the other queue, as long as they post nothing on the queue that is processed.\<close>

theorem event_process_posted_returns:
  assumes "no_posting call q q'" and "posted w q xs q' ys"
  shows "\<exists>w' ys'. event_process_posted call w q = Some w' \<and> posted w' q [] q' ys'"
  using assms by (rule process_posted_returns)

text \<open>A handler that deletes the event at 200 if it is posted.\<close>

definition cancelling :: "'a caller" where
  "cancelling h ev w = (if ev_posted (evs w 200) then delete_posted_event w 200 else Some w)"

lemma cancelling_no_posting: "no_posting cancelling q q'"
  unfolding no_posting_def
proof (intro allI impI, elim conjE)
  fix ev :: addr and w :: "'a events_scheme" and xs ys
  assume p: "posted w q xs q' ys"
  consider "200 \<in> set xs" | "200 \<in> set ys" | "200 \<notin> set xs \<union> set ys" by blast
  then show "\<exists>w' xs' ys'. cancelling h ev w = Some w' \<and> posted w' q xs' q' ys' \<and> set xs' \<subseteq> set xs" for h
  proof cases
    case 1
    then have "ev_posted (evs w 200)" using p by (simp add: posted_def)
    with delete_posted_ok [OF p 1] show ?thesis using set_remove1_subset by (fastforce simp: cancelling_def)
  next
    case 2
    then have "ev_posted (evs w 200)" using p by (simp add: posted_def)
    with delete_posted_ok [OF p [unfolded posted_sym [of w q]] 2] show ?thesis
      by (fastforce simp: cancelling_def posted_sym [of _ q'])
  next
    case 3
    then have "\<not> ev_posted (evs w 200)" using p by (simp add: posted_def)
    with p show ?thesis by (auto simp: cancelling_def)
  qed
qed

theorem event_process_posted_returns_witness:
  "\<exists>w' ys'. event_process_posted cancelling (posted2 ()) 1000 = Some w' \<and> posted w' 1000 [] 2000 ys'"
  by (rule event_process_posted_returns [OF cancelling_no_posting posted2_ok])

end
