(* ===== verification/Shmtx.thy ===== *)
theory Shmtx
  imports Prelude
begin

unbundle bit_operations_syntax

text \<open>
  Locks between processes: \<^verbatim>\<open>src/shmtx.c\<close> and \<^verbatim>\<open>src/spinlock.c\<close> over the atomic operations of
  \<^verbatim>\<open>src/atomic.h\<close>. The functions that make one attempt are functions on the shared words; the loops of
  \<open>shmtx_lock\<close> and \<open>spinlock\<close> are machines whose steps (a load, a compare-and-set, a pause, a yield) interleave
  with those of the other processes.
\<close>

section \<open>One attempt\<close>

text \<open>The shared words, by address.\<close>

type_synonym words = "addr \<Rightarrow> u64"

definition atomic_cmp_set :: "words \<Rightarrow> addr \<Rightarrow> u64 \<Rightarrow> u64 \<Rightarrow> words \<times> bool" where
  "atomic_cmp_set m lock old new = (if m lock = old then (m(lock := new), True) else (m, False))"

definition atomic_fetch_add :: "words \<Rightarrow> addr \<Rightarrow> u64 \<Rightarrow> words \<times> u64" where
  "atomic_fetch_add m value add = (m(value := m value + add), m value)"

record shmtx =
  mtx_lock :: addr
  mtx_spin :: u64

text \<open>\<open>addr\<close> is the address of a \<open>shmtx_sh_t\<close>, whose first field is the lock word.\<close>

definition shmtx_create :: "shmtx \<Rightarrow> addr \<Rightarrow> shmtx \<times> int" where
  "shmtx_create mtx addr =
    (let mtx = mtx\<lparr>mtx_lock := addr\<rparr>
     in if mtx_spin mtx = - 1 then (mtx, 0) else (mtx\<lparr>mtx_spin := 2048\<rparr>, 0))"

definition shmtx_destroy :: "shmtx \<Rightarrow> shmtx" where
  "shmtx_destroy mtx = mtx"

definition shmtx_trylock :: "words \<Rightarrow> shmtx \<Rightarrow> u64 \<Rightarrow> words \<times> bool" where
  "shmtx_trylock m mtx pid = (if m (mtx_lock mtx) = 0 then atomic_cmp_set m (mtx_lock mtx) 0 pid else (m, False))"

definition shmtx_unlock :: "words \<Rightarrow> shmtx \<Rightarrow> u64 \<Rightarrow> words" where
  "shmtx_unlock m mtx pid = fst (atomic_cmp_set m (mtx_lock mtx) pid 0)"

definition shmtx_force_unlock :: "words \<Rightarrow> shmtx \<Rightarrow> u64 \<Rightarrow> words \<times> u32" where
  "shmtx_force_unlock m mtx pid =
    (let (m, ok) = atomic_cmp_set m (mtx_lock mtx) pid 0 in if ok then (m, 1) else (m, 0))"

text \<open>
  \<open>shm_alloc\<close> stores what \<open>mmap\<close> returns (a parameter) in the variable at \<open>addr\<close>; \<open>MAP_FAILED\<close> is the last address.
  The comparison is the source's: of \<open>addr\<close>, not of the value stored.
\<close>

definition MAP_FAILED :: addr where "MAP_FAILED = 2 ^ 64 - 1"

definition shm_alloc :: "addr \<Rightarrow> addr \<Rightarrow> addr \<times> int" where
  "shm_alloc mapped addr = (mapped, if addr = MAP_FAILED then - 1 else 0)"

section \<open>The loops\<close>

text \<open>
  Where a process is in the code: not in it, before the load or the compare-and-set of the outer loop, at
  the head of the spinning loop, pausing, before the load or the compare-and-set in it, before \<open>sched_yield\<close>,
  and past the \<open>return\<close>. The counter \<open>n\<close> is \<open>uint32_t\<close> in \<open>shmtx_lock\<close> and \<open>uint64_t\<close> in \<open>spinlock\<close>.
\<close>

datatype 'c pc = Out | Load | Cas | Spin 'c | Pause 'c 'c | Spin_Load 'c | Spin_Cas 'c | Yield | Held

text \<open>After a failed attempt in the outer loop.\<close>

definition failed :: "int \<Rightarrow> 'n::len word pc" where
  "failed ncpu = (if ncpu > 1 then Spin 1 else Yield)"

fun lock_exec :: "int \<Rightarrow> u64 \<Rightarrow> u64 \<Rightarrow> u64 \<times> 'n::len word pc \<Rightarrow> u64 \<times> 'n word pc" where
  "lock_exec ncpu spin v (w, Load) = (w, if w = 0 then Cas else failed ncpu)"
| "lock_exec ncpu spin v (w, Cas) = (if w = 0 then (v, Held) else (w, failed ncpu))"
| "lock_exec ncpu spin v (w, Spin n) = (w, if ucast n < spin then Pause n 0 else Yield)"
| "lock_exec ncpu spin v (w, Pause n i) = (w, if i < n then Pause n (i + 1) else Spin_Load n)"
| "lock_exec ncpu spin v (w, Spin_Load n) = (w, if w = 0 then Spin_Cas n else Spin (push_bit 1 n))"
| "lock_exec ncpu spin v (w, Spin_Cas n) = (if w = 0 then (v, Held) else (w, Spin (push_bit 1 n)))"
| "lock_exec ncpu spin v (w, Yield) = (w, Load)"
| "lock_exec ncpu spin v (w, Out) = (w, Out)"
| "lock_exec ncpu spin v (w, Held) = (w, Held)"

text \<open>The two functions: the lock word is shared, the pc the caller's.\<close>

definition shmtx_lock :: "shmtx \<Rightarrow> int \<Rightarrow> u64 \<Rightarrow> u64 \<times> u32 pc \<Rightarrow> u64 \<times> u32 pc" where
  "shmtx_lock mtx ncpu pid = lock_exec ncpu (mtx_spin mtx) pid"

definition spinlock :: "u64 \<Rightarrow> u64 \<Rightarrow> int \<Rightarrow> u64 \<times> u64 pc \<Rightarrow> u64 \<times> u64 pc" where
  "spinlock value spin ncpu = lock_exec ncpu spin value"

section \<open>Many processes\<close>

text \<open>
  A system: the lock word and the pc of every process, named by what it stores in the word. A process
  outside may call a locking function, give up after an attempt of \<open>shmtx_trylock\<close> (whose load and
  compare-and-set are those of the outer loop), or call an unlocking function without holding the lock; the
  holder may try again, which fails at the load, and leaves by the unlocking function.
\<close>

definition unlock_word :: "u64 \<Rightarrow> u64 \<Rightarrow> u64" where
  "unlock_word w p = shmtx_unlock (\<lambda>_. w) \<lparr>mtx_lock = 0, mtx_spin = 0\<rparr> p 0"

lemma unlock_word_eq [simp]: "unlock_word w p = (if w = p then 0 else w)"
  by (simp add: unlock_word_def shmtx_unlock_def atomic_cmp_set_def)

type_synonym 'n system = "u64 \<times> (u64 \<Rightarrow> 'n word pc)"

inductive sys_step :: "int \<Rightarrow> u64 \<Rightarrow> 'n::len system \<Rightarrow> 'n system \<Rightarrow> bool" for ncpu spin where
  call: "p \<noteq> 0 \<Longrightarrow> pc p = Out \<Longrightarrow> sys_step ncpu spin (w, pc) (w, pc(p := Load))"
| exec: "p \<noteq> 0 \<Longrightarrow> pc p \<noteq> Out \<Longrightarrow> pc p \<noteq> Held \<Longrightarrow> lock_exec ncpu spin p (w, pc p) = (w', c) \<Longrightarrow>
    sys_step ncpu spin (w, pc) (w', pc(p := c))"
| give_up: "p \<noteq> 0 \<Longrightarrow> pc p = Load \<Longrightarrow> w \<noteq> 0 \<Longrightarrow> sys_step ncpu spin (w, pc) (w, pc(p := Out))"
| give_up_cas: "p \<noteq> 0 \<Longrightarrow> pc p = Cas \<Longrightarrow> w \<noteq> 0 \<Longrightarrow> sys_step ncpu spin (w, pc) (w, pc(p := Out))"
| unlock_other: "p \<noteq> 0 \<Longrightarrow> pc p = Out \<Longrightarrow> sys_step ncpu spin (w, pc) (unlock_word w p, pc)"
| unlock: "p \<noteq> 0 \<Longrightarrow> pc p = Held \<Longrightarrow> sys_step ncpu spin (w, pc) (unlock_word w p, pc(p := Out))"
| try_held: "p \<noteq> 0 \<Longrightarrow> pc p = Held \<Longrightarrow> w \<noteq> 0 \<Longrightarrow> sys_step ncpu spin (w, pc) (w, pc)"

inductive_cases sys_stepE: "sys_step ncpu spin (w, pc) (w', pc')"

definition initial :: "'n::len system" where
  "initial = (0, \<lambda>_. Out)"

abbreviation reachable :: "int \<Rightarrow> u64 \<Rightarrow> 'n::len system \<Rightarrow> bool" where
  "reachable ncpu spin \<equiv> (sys_step ncpu spin)\<^sup>*\<^sup>* initial"

section \<open>Mutual exclusion\<close>

text \<open>
  What makes a step relation a lock: an invariant, kept by all steps, under which a process that is past
  its locking call is the one the shared state names as the owner.
\<close>

locale lock_protocol =
  fixes init :: 's and step :: "'s \<Rightarrow> 's \<Rightarrow> bool" and holds :: "'s \<Rightarrow> 'p \<Rightarrow> bool"
    and owner :: "'s \<Rightarrow> 'p option" and inv :: "'s \<Rightarrow> bool"
  assumes inv_init: "inv init"
    and inv_step: "inv s \<Longrightarrow> step s s' \<Longrightarrow> inv s'"
    and inv_owner: "inv s \<Longrightarrow> holds s p \<Longrightarrow> owner s = Some p"
begin

lemma inv_reachable: "step\<^sup>*\<^sup>* init s \<Longrightarrow> inv s"
  by (induction rule: rtranclp_induct) (auto intro: inv_init inv_step)

lemma exclusive: "step\<^sup>*\<^sup>* init s \<Longrightarrow> holds s p \<Longrightarrow> holds s q \<Longrightarrow> p = q"
  by (metis inv_owner inv_reachable option.inject)

lemma not_taken: "step\<^sup>*\<^sup>* init s \<Longrightarrow> step s s' \<Longrightarrow> holds s p \<Longrightarrow> holds s' p \<Longrightarrow> q \<noteq> p \<Longrightarrow> \<not> holds s' q"
  using exclusive by (meson rtranclp.rtrancl_into_rtrancl)

end

definition sys_inv :: "'n::len system \<Rightarrow> bool" where
  "sys_inv s \<longleftrightarrow> snd s 0 = Out \<and> (\<forall>p. p \<noteq> 0 \<longrightarrow> (snd s p = Held \<longleftrightarrow> fst s = p))"

lemma failed_not_held [simp]: "failed ncpu \<noteq> Held"
  by (simp add: failed_def)

lemma lock_exec_held:
  "c \<noteq> Held \<Longrightarrow> lock_exec ncpu spin v (w, c) = (w', c') \<Longrightarrow> (c' = Held \<and> w = 0 \<and> w' = v) \<or> (c' \<noteq> Held \<and> w' = w)"
  by (cases c) (auto split: if_splits)

lemma sys_inv_step:
  assumes "sys_inv s" and "sys_step ncpu spin s s'"
  shows "sys_inv s'"
proof -
  from assms(1) have i: "snd s 0 = Out" "\<And>p. p \<noteq> 0 \<Longrightarrow> snd s p = Held \<longleftrightarrow> fst s = p" by (simp_all add: sys_inv_def)
  from assms(2) show ?thesis
  proof (cases rule: sys_step.cases)
    case (exec p pc w w' c)
    from lock_exec_held [OF exec(5,6)] show ?thesis using exec i by (auto simp: sys_inv_def)
  next
    case (call p pc w)
    then show ?thesis using i i(2) [of p] by (auto simp: sys_inv_def)
  next
    case (give_up p pc w)
    then show ?thesis using i i(2) [of p] by (auto simp: sys_inv_def)
  next
    case (give_up_cas p pc w)
    then show ?thesis using i i(2) [of p] by (auto simp: sys_inv_def)
  next
    case (unlock_other p pc w)
    then show ?thesis using i i(2) [of p] by (auto simp: sys_inv_def)
  next
    case (unlock p pc w)
    then show ?thesis using i i(2) [of p] by (auto simp: sys_inv_def)
  next
    case (try_held p pc w)
    then show ?thesis using assms(1) by simp
  qed
qed

interpretation sl: lock_protocol initial "sys_step ncpu spin" "\<lambda>s p. p \<noteq> 0 \<and> snd s p = Held"
    "\<lambda>s. if fst s = 0 then None else Some (fst s)" sys_inv
  for ncpu spin
proof
  show "sys_inv initial" by (simp add: sys_inv_def initial_def)
  show "sys_inv s'" if "sys_inv s" "sys_step ncpu spin s s'" for s s' :: "'a::len system"
    using that by (rule sys_inv_step)
qed (auto simp: sys_inv_def)

section \<open>Progress\<close>

text \<open>With the lock free, a process that runs alone gets it, wherever in the loops it is.\<close>

lemma funpow_front: "(f ^^ Suc k) x = (f ^^ k) (f x)"
  by (simp add: funpow_swap1)

lemma alone_cas: "(lock_exec ncpu spin v ^^ 1) (0, Cas) = (v, Held)" "(lock_exec ncpu spin v ^^ 1) (0, Spin_Cas n) = (v, Held)"
  "(lock_exec ncpu spin v ^^ 2) (0, Load) = (v, Held)" "(lock_exec ncpu spin v ^^ 2) (0, Spin_Load n) = (v, Held)"
  "(lock_exec ncpu spin v ^^ 3) (0, Yield) = (v, Held)"
  by (simp_all add: eval_nat_numeral)

lemma alone_pause:
  fixes n i :: "'n::len word"
  shows "(lock_exec ncpu spin v ^^ (unat n - unat i + 3)) (0, Pause n i) = (v, Held)"
proof (induction "unat n - unat i" arbitrary: i)
  case 0
  then have "\<not> i < n" by (simp add: word_less_nat_alt)
  then show ?case using 0 alone_cas(4) [of ncpu spin v n] by (simp add: eval_nat_numeral)
next
  case (Suc d)
  then have lt: "i < n" by (simp add: word_less_nat_alt)
  then have "unat i + 1 < 2 ^ LENGTH('n)" using unsigned_less [of n, where 'a = nat]
    unfolding word_less_nat_alt by linarith
  then have un: "unat (i + 1) = unat i + 1" using unat_add_lem [of i 1] by (cases "LENGTH('n)") simp_all
  have d: "d = unat n - unat (i + 1)" using Suc(2) un by simp
  have "unat n - unat i + 3 = Suc (unat n - unat (i + 1) + 3)" using Suc(2) un by simp
  then show ?case using Suc(1) [OF d] lt by (simp only: funpow_front) (simp add: lock_exec.simps)
qed

lemma alone_spin:
  fixes n :: "'n::len word"
  shows "\<exists>k \<le> unat n + 4. (lock_exec ncpu spin v ^^ k) (0, Spin n) = (v, Held)"
proof (cases "ucast n < spin")
  case True
  then have "(lock_exec ncpu spin v ^^ Suc (unat n - unat (0 :: 'n word) + 3)) (0, Spin n) = (v, Held)"
    using alone_pause [where n = n and i = 0 and v = v and ncpu = ncpu and spin = spin] by (simp only: funpow_front) simp
  then show ?thesis by (intro exI [of _ "Suc (unat n - unat (0 :: 'n word) + 3)"]) simp
next
  case False
  then have "(lock_exec ncpu spin v ^^ Suc 3) (0, Spin n) = (v, Held)"
    using alone_cas(5) [of ncpu spin v] by (simp only: funpow_front) simp
  then show ?thesis by (intro exI [of _ "Suc 3"]) simp
qed

lemma alone:
  fixes c :: "'n::len word pc"
  assumes "c \<noteq> Out" and "c \<noteq> Held"
  shows "\<exists>k \<le> 2 ^ LENGTH('n) + 4. (lock_exec ncpu spin v ^^ k) (0, c) = (v, Held)"
proof (cases c)
  case (Spin n)
  have "unat n + 4 \<le> 2 ^ LENGTH('n) + 4" using unsigned_less [of n, where 'a = nat] by linarith
  with alone_spin [where n = n and v = v] show ?thesis unfolding Spin by (meson le_trans)
next
  case (Pause n i)
  have "unat n - unat i + 3 \<le> 2 ^ LENGTH('n) + 4" using unsigned_less [of n, where 'a = nat] by linarith
  with alone_pause [where n = n and i = i and v = v] show ?thesis unfolding Pause by blast
next
  case Load
  then show ?thesis using alone_cas(3) by (intro exI [of _ 2]) simp
next
  case Cas
  then show ?thesis using alone_cas(1) by (intro exI [of _ 1]) simp
next
  case (Spin_Load n)
  then show ?thesis using alone_cas(4) by (intro exI [of _ 2]) simp
next
  case (Spin_Cas n)
  then show ?thesis using alone_cas(2) by (intro exI [of _ 1]) simp
next
  case Yield
  then show ?thesis using alone_cas(5) by (intro exI [of _ 3]) simp
qed (use assms in simp_all)

section \<open>A spin count of -1\<close>

text \<open>
  The states of the spinning part of \<open>shmtx_lock\<close> with the lock taken. A 32-bit \<open>n\<close> never reaches a 64-bit
  spin count of \<open>2 ^ 64 - 1\<close>, also not after it has been shifted out to 0.
\<close>

definition spinning :: "u32 pc \<Rightarrow> bool" where
  "spinning c \<longleftrightarrow> (case c of Load \<Rightarrow> True | Spin _ \<Rightarrow> True | Pause _ _ \<Rightarrow> True | Spin_Load _ \<Rightarrow> True | _ \<Rightarrow> False)"

lemma ucast_below_minus_one: "(ucast (n :: u32) :: u64) < - 1"
proof -
  have "unat (ucast n :: u64) < 2 ^ 32"
    using unsigned_less [of n, where 'a = nat] by (simp add: unsigned_ucast_eq take_bit_nat_eq_self)
  moreover have "unat (- 1 :: u64) = 2 ^ 64 - 1" by (simp add: unsigned_minus_1_eq_mask mask_eq_exp_minus_1)
  ultimately show ?thesis unfolding word_less_nat_alt by simp
qed

lemma spinning_step:
  assumes "spinning c" and "w \<noteq> 0" and "1 < ncpu"
  shows "\<exists>c'. lock_exec ncpu (- 1) v (w, c) = (w, c') \<and> spinning c'"
  using assms ucast_below_minus_one by (cases c) (auto simp: spinning_def failed_def)

lemma spinning_forever:
  assumes "w \<noteq> 0" and "1 < ncpu"
  shows "\<exists>c. (lock_exec ncpu (- 1) v ^^ k) (w, Load) = (w, c) \<and> spinning c"
proof (induction k)
  case (Suc k)
  then obtain c where c: "(lock_exec ncpu (- 1) v ^^ k) (w, Load) = (w, c)" "spinning c" by blast
  from spinning_step [OF c(2) assms, of v] c(1) show ?case by auto
qed (simp add: spinning_def)

section \<open>Properties\<close>

text \<open>C21: Mutual exclusion. However the loads, compare-and-sets, pauses and yields of any number of processes in
  \<open>shmtx_lock\<close>, \<open>shmtx_trylock\<close>, \<open>shmtx_unlock\<close> and \<open>shmtx_force_unlock\<close> interleave, two processes are never past their locking
  call at once, the word then holds the owner's process id, and unlocking by others has no effect on it.\<close>

theorem shmtx_mutual_exclusion:
  assumes "(sys_step ncpu spin)\<^sup>*\<^sup>* initial s" and "p \<noteq> 0" and "q \<noteq> 0" and "snd s p = Held" and "snd s q = Held"
  shows "p = q \<and> fst s = p"
proof
  show "p = q" using sl.exclusive [OF assms(1), of p q] assms by blast
  show "fst s = p" using sl.inv_reachable [OF assms(1)] assms by (simp add: sys_inv_def)
qed

text \<open>Process 5 takes the lock while process 7 spins.\<close>

theorem shmtx_mutual_exclusion_witness:
  "\<exists>s :: 32 system. (sys_step 2 2048)\<^sup>*\<^sup>* initial s \<and> snd s 5 = Held \<and> snd s 7 = Spin 1 \<and> fst s = 5"
proof -
  define f0 :: "u64 \<Rightarrow> u32 pc" where "f0 = (\<lambda>_. Out)"
  have "sys_step 2 2048 (0, f0) (0, f0(5 := Load))" by (rule call) (simp_all add: f0_def)
  moreover have "sys_step 2 2048 (0, f0(5 := Load)) (0, f0(5 := Load, 7 := Load))" by (rule call) (simp_all add: f0_def)
  moreover have "sys_step 2 2048 (0, f0(5 := Load, 7 := Load)) (0, (f0(5 := Load, 7 := Load))(5 := Cas))" by (rule exec) simp_all
  moreover have "sys_step 2 2048 (0, (f0(5 := Load, 7 := Load))(5 := Cas)) (5, ((f0(5 := Load, 7 := Load))(5 := Cas))(5 := Held))" by (rule exec) simp_all
  moreover have "sys_step 2 2048 (5, ((f0(5 := Load, 7 := Load))(5 := Cas))(5 := Held))
      (5, (((f0(5 := Load, 7 := Load))(5 := Cas))(5 := Held))(7 := Spin 1))" by (rule exec) (simp_all add: failed_def)
  ultimately have r: "(sys_step 2 2048)\<^sup>*\<^sup>* initial (5, (((f0(5 := Load, 7 := Load))(5 := Cas))(5 := Held))(7 := Spin 1))"
    unfolding initial_def f0_def by (meson rtranclp.rtrancl_refl rtranclp.rtrancl_into_rtrancl)
  from shmtx_mutual_exclusion [OF r, of 5 5] r show ?thesis
    by (intro exI [of _ "(5, (((f0(5 := Load, 7 := Load))(5 := Cas))(5 := Held))(7 := Spin 1))"]) simp
qed

text \<open>C22: Progress. When the lock is free, a process inside \<open>shmtx_lock\<close> or \<open>spinlock\<close> that runs alone returns with the lock
  after a bounded number of its steps, from every point of the loops and for every spin count.\<close>

theorem lock_progress:
  assumes "c \<noteq> Out" and "c \<noteq> Held" and "d \<noteq> Out" and "d \<noteq> Held"
  shows "(\<exists>k \<le> 2 ^ 32 + 4. (shmtx_lock mtx ncpu pid ^^ k) (0, c) = (pid, Held))
    \<and> (\<exists>k \<le> 2 ^ 64 + 4. (spinlock pid spin ncpu ^^ k) (0, d) = (pid, Held))"
  using alone [OF assms(1,2), of ncpu "mtx_spin mtx" pid] alone [OF assms(3,4), of ncpu spin pid]
  by (simp add: shmtx_lock_def spinlock_def)

theorem lock_progress_witness:
  "(\<exists>k \<le> 2 ^ 32 + 4. (shmtx_lock \<lparr>mtx_lock = 64, mtx_spin = 2048\<rparr> 4 77 ^^ k) (0, Spin 8) = (77, Held))
    \<and> (\<exists>k \<le> 2 ^ 64 + 4. (spinlock 77 2048 4 ^^ k) (0, Load) = (77, Held))"
  by (rule lock_progress) simp_all

text \<open>C37: With the spin count \<open>-1\<close> that \<open>event_master_init\<close> sets, \<open>shmtx_lock\<close> on a machine with several processors never calls
  \<open>sched_yield\<close> while another process holds the lock: after any number of steps it is in the outer load or still in the
  first spinning loop.\<close>

theorem shmtx_lock_never_yields:
  assumes "w \<noteq> 0" and "1 < ncpu" and "mtx_spin (fst (shmtx_create \<lparr>mtx_lock = a, mtx_spin = - 1\<rparr> addr)) = spin"
  shows "fst ((shmtx_lock \<lparr>mtx_lock = addr, mtx_spin = spin\<rparr> ncpu pid ^^ k) (w, Load)) = w
    \<and> spinning (snd ((shmtx_lock \<lparr>mtx_lock = addr, mtx_spin = spin\<rparr> ncpu pid ^^ k) (w, Load)))"
proof -
  have "spin = - 1" using assms(3) by (simp add: shmtx_create_def Let_def)
  then show ?thesis using spinning_forever [OF assms(1,2), of k pid] by (auto simp: shmtx_lock_def)
qed

theorem shmtx_lock_never_yields_witness:
  "spinning (snd ((shmtx_lock \<lparr>mtx_lock = 64, mtx_spin = - 1\<rparr> 4 77 ^^ 1000000) (5, Load)))"
  using shmtx_lock_never_yields [of 5 4 0 64 "- 1" 1000000 77] by (simp add: shmtx_create_def Let_def)

text \<open>One attempt. \<open>shmtx_trylock\<close> succeeds exactly if the word is 0 and then stores the caller's process id, changing no
  other word; \<open>shmtx_force_unlock\<close> by the same process then frees it again, by any other process reports failure
  and changes nothing, and so does \<open>shmtx_unlock\<close>.\<close>

theorem shmtx_trylock_correct:
  assumes "pid \<noteq> 0" and "shmtx_trylock m mtx pid = (m', ok)"
  shows "(ok \<longleftrightarrow> m (mtx_lock mtx) = 0) \<and> m' = (if ok then m(mtx_lock mtx := pid) else m)
    \<and> (ok \<longrightarrow> shmtx_trylock m' mtx q = (m', False) \<and> shmtx_force_unlock m' mtx pid = (m, 1) \<and> shmtx_unlock m' mtx pid = m
        \<and> (q \<noteq> pid \<longrightarrow> shmtx_force_unlock m' mtx q = (m', 0) \<and> shmtx_unlock m' mtx q = m'))"
  using assms by (auto simp: shmtx_trylock_def atomic_cmp_set_def shmtx_force_unlock_def shmtx_unlock_def fun_eq_iff split: if_splits)

theorem shmtx_trylock_correct_witness:
  "shmtx_trylock (\<lambda>_. 0) \<lparr>mtx_lock = 64, mtx_spin = 2048\<rparr> 7 = ((\<lambda>_. 0)(64 := 7), True)
    \<and> shmtx_force_unlock ((\<lambda>_. 0)(64 := 7)) \<lparr>mtx_lock = 64, mtx_spin = 2048\<rparr> 7 = (\<lambda>_. 0, 1)"
proof -
  have "shmtx_trylock (\<lambda>_. 0) \<lparr>mtx_lock = 64, mtx_spin = 2048\<rparr> 7 = ((\<lambda>_. 0)(64 := 7), True)"
    by (simp add: shmtx_trylock_def atomic_cmp_set_def)
  from shmtx_trylock_correct [OF _ this] this show ?thesis by simp
qed

end
