(* ===== verification/Buf.thy ===== *)
theory Buf
  imports Pool
begin

text \<open>
  The buffers of \<^verbatim>\<open>src/buf.c\<close> and the macros of \<^verbatim>\<open>src/buf.h\<close> on their flags and ends. Bit fields are
  booleans, \<open>off_t\<close> is a 64-bit word.
\<close>

section \<open>buf.h and buf.c\<close>

record bmem = pmem +
  b_pos :: "addr \<Rightarrow> addr"
  b_last :: "addr \<Rightarrow> addr"
  b_file_pos :: "addr \<Rightarrow> u64"
  b_file_last :: "addr \<Rightarrow> u64"
  b_start :: "addr \<Rightarrow> addr"
  b_end :: "addr \<Rightarrow> addr"
  b_temporary :: "addr \<Rightarrow> bool"
  b_memory :: "addr \<Rightarrow> bool"
  b_mmap :: "addr \<Rightarrow> bool"
  b_in_file :: "addr \<Rightarrow> bool"
  b_flush :: "addr \<Rightarrow> bool"
  b_sync :: "addr \<Rightarrow> bool"
  b_last_buf :: "addr \<Rightarrow> bool"

definition sizeof_buf :: nat where "sizeof_buf = 72"

definition buf_in_memory :: "'a bmem_scheme \<Rightarrow> addr \<Rightarrow> bool" where
  "buf_in_memory s b \<longleftrightarrow> b_temporary s b \<or> b_memory s b \<or> b_mmap s b"

definition buf_in_memory_only :: "'a bmem_scheme \<Rightarrow> addr \<Rightarrow> bool" where
  "buf_in_memory_only s b \<longleftrightarrow> buf_in_memory s b \<and> \<not> b_in_file s b"

definition buf_special :: "'a bmem_scheme \<Rightarrow> addr \<Rightarrow> bool" where
  "buf_special s b \<longleftrightarrow> (b_flush s b \<or> b_last_buf s b \<or> b_sync s b) \<and> \<not> buf_in_memory s b \<and> \<not> b_in_file s b"

definition buf_sync_only :: "'a bmem_scheme \<Rightarrow> addr \<Rightarrow> bool" where
  "buf_sync_only s b \<longleftrightarrow> b_sync s b \<and> \<not> buf_in_memory s b \<and> \<not> b_in_file s b \<and> \<not> b_flush s b \<and> \<not> b_last_buf s b"

definition buf_size :: "'a bmem_scheme \<Rightarrow> addr \<Rightarrow> int" where
  "buf_size s b = (if buf_in_memory s b then int (b_last s b) - int (b_pos s b)
     else sint (b_file_last s b - b_file_pos s b))"

text \<open>\<open>pcalloc\<close> of a \<open>buf_t\<close> clears all its fields.\<close>

definition clear_buf :: "'a bmem_scheme \<Rightarrow> addr \<Rightarrow> 'a bmem_scheme" where
  "clear_buf s b = s\<lparr>b_pos := (b_pos s)(b := NULL), b_last := (b_last s)(b := NULL),
     b_file_pos := (b_file_pos s)(b := 0), b_file_last := (b_file_last s)(b := 0),
     b_start := (b_start s)(b := NULL), b_end := (b_end s)(b := NULL),
     b_temporary := (b_temporary s)(b := False), b_memory := (b_memory s)(b := False), b_mmap := (b_mmap s)(b := False),
     b_in_file := (b_in_file s)(b := False), b_flush := (b_flush s)(b := False), b_sync := (b_sync s)(b := False),
     b_last_buf := (b_last_buf s)(b := False)\<rparr>"

definition calloc_buf :: "libc \<Rightarrow> 'a bmem_scheme \<Rightarrow> addr \<Rightarrow> ('a bmem_scheme \<times> addr) option" where
  "calloc_buf libc s pool = do {
     (s, b) \<leftarrow> pcalloc libc s pool sizeof_buf;
     Some (if b \<noteq> NULL then clear_buf s b else s, b) }"

definition create_temp_buf :: "libc \<Rightarrow> 'a bmem_scheme \<Rightarrow> addr \<Rightarrow> nat \<Rightarrow> ('a bmem_scheme \<times> addr) option" where
  "create_temp_buf libc s pool sz = do {
     (s, b) \<leftarrow> calloc_buf libc s pool;
     if b = NULL then Some (s, NULL)
     else do {
       (s, st) \<leftarrow> palloc libc s pool sz;
       let s = s\<lparr>b_start := (b_start s)(b := st)\<rparr>;
       if st = NULL then Some (s, NULL)
       else do {
         let s = s\<lparr>b_pos := (b_pos s)(b := b_start s b)\<rparr>;
         let s = s\<lparr>b_last := (b_last s)(b := b_start s b)\<rparr>;
         let s = s\<lparr>b_end := (b_end s)(b := b_last s b + sz)\<rparr>;
         Some (s\<lparr>b_temporary := (b_temporary s)(b := True)\<rparr>, b) } } }"

section \<open>A new buffer\<close>

lemma bmore_fields:
  fixes s s' :: "'a bmem_scheme"
  assumes "pmem.more s' = pmem.more s"
  shows "b_pos s' = b_pos s" "b_last s' = b_last s" "b_file_pos s' = b_file_pos s" "b_file_last s' = b_file_last s"
    "b_start s' = b_start s" "b_end s' = b_end s" "b_temporary s' = b_temporary s" "b_memory s' = b_memory s"
    "b_mmap s' = b_mmap s" "b_in_file s' = b_in_file s" "b_flush s' = b_flush s" "b_sync s' = b_sync s" "b_last_buf s' = b_last_buf s"
  using assms by (cases s; cases s'; simp)+

lemma clear_buf_views [simp]:
  "pool_ok (clear_buf s b) pool psize bs ls = pool_ok s pool psize bs ls" "given (clear_buf s b) bs ls = given s bs ls"
  "foreign (clear_buf s b) bs ls = foreign s bs ls" "bytes (clear_buf s b) = bytes s"
  by (simp_all add: clear_buf_def pool_ok_def mem_ok_def blocks_ok_def larges_ok_def given_def used_def large_bytes_def
    larges_def foreign_def)

text \<open>What \<open>create_temp_buf\<close> promises: no fault; \<open>NULL\<close> only if the C library refused the structure or
  the \<open>sz\<close> bytes; otherwise an empty buffer
  in memory with room for \<open>sz\<close> bytes of its own. Nothing in use is overwritten in either case.\<close>

definition temp_buf_result :: "libc \<Rightarrow> 'a bmem_scheme \<Rightarrow> addr \<Rightarrow> nat \<Rightarrow> addr list \<Rightarrow> addr list \<Rightarrow> nat \<Rightarrow> 'a bmem_scheme \<times> addr \<Rightarrow> bool" where
  "temp_buf_result libc s pool psize bs ls sz r = (case r of (s', b) \<Rightarrow>
     \<exists>bs' ls'. pool_ok s' pool psize bs' ls' \<and> given s bs ls \<subseteq> given s' bs' ls'
       \<and> (\<forall>x \<in> given s bs ls. bytes s' x = bytes s x) \<and> foreign s' bs' ls' = foreign s bs ls \<and>
      (if b = NULL then denied_either libc s pool psize sizeof_buf sz (mcalls s')
       else buf_in_memory_only s' b \<and> \<not> buf_special s' b \<and> \<not> buf_sync_only s' b \<and> buf_size s' b = 0
         \<and> b_pos s' b = b_start s' b \<and> b_last s' b = b_start s' b \<and> b_end s' b = b_start s' b + sz
         \<and> {b ..< b + sizeof_buf} \<union> {b_start s' b ..< b_end s' b} \<subseteq> given s' bs' ls'
         \<and> ({b ..< b + sizeof_buf} \<union> {b_start s' b ..< b_end s' b}) \<inter> given s bs ls = {}
         \<and> {b ..< b + sizeof_buf} \<inter> {b_start s' b ..< b_end s' b} = {}))"

lemma create_temp_buf_ok:
  assumes lok: "libc_ok libc" and po: "pool_ok s pool psize bs ls"
  shows "\<exists>r. create_temp_buf libc s pool sz = Some r \<and> temp_buf_result libc s pool psize bs ls sz r"
  using pcalloc_result [OF lok po, of sizeof_buf]
proof (elim disjE conjE exE)
  fix k assume f: "pcalloc libc s pool sizeof_buf = Some (s\<lparr>mcalls := k\<rparr>, NULL)" "denied libc s 16 psize sizeof_buf k"
  then have "create_temp_buf libc s pool sz = Some (s\<lparr>mcalls := k\<rparr>, NULL)" by (simp add: create_temp_buf_def calloc_buf_def)
  moreover have "temp_buf_result libc s pool psize bs ls sz (s\<lparr>mcalls := k\<rparr>, NULL)"
    unfolding temp_buf_result_def using denied_first [OF f(2)] po
    by (simp only: prod.case) (intro exI [of _ bs] exI [of _ ls], simp add: same_pool)
  ultimately show ?thesis by blast
next
  fix s0 bs1 ls1 b
  assume f: "pcalloc libc s pool sizeof_buf = Some (memset0 s0 b sizeof_buf, b)"
    and g: "gives s pool psize bs ls s0 bs1 ls1 b sizeof_buf"
  define s1 where "s1 = clear_buf (memset0 s0 b sizeof_buf) b"
  note gm = gives_memset0 [OF g]
  have g1: "b \<noteq> NULL" "pool_ok s1 pool psize bs1 ls1" "given s bs ls \<subseteq> given s1 bs1 ls1" "foreign s1 bs1 ls1 = foreign s bs ls"
    "{b ..< b + sizeof_buf} \<inter> given s bs ls = {}" "{b ..< b + sizeof_buf} \<subseteq> given s1 bs1 ls1"
    using gm by (simp_all add: s1_def)
  have by1: "bytes s1 x = bytes s x" if "x \<in> given s bs ls" for x
  proof -
    have "bytes s0 = bytes s" using g by (simp add: gives_def)
    moreover have "\<not> (b \<le> x \<and> x < b + sizeof_buf)" using that g1(5) by auto
    ultimately show ?thesis by (auto simp: s1_def memset0_def)
  qed
  have cb: "create_temp_buf libc s pool sz = do {
       (s, st) \<leftarrow> palloc libc s1 pool sz;
       let s = s\<lparr>b_start := (b_start s)(b := st)\<rparr>;
       if st = NULL then Some (s, NULL)
       else do {
         let s = s\<lparr>b_pos := (b_pos s)(b := b_start s b)\<rparr>;
         let s = s\<lparr>b_last := (b_last s)(b := b_start s b)\<rparr>;
         let s = s\<lparr>b_end := (b_end s)(b := b_last s b + sz)\<rparr>;
         Some (s\<lparr>b_temporary := (b_temporary s)(b := True)\<rparr>, b) } }"
    using f g1(1) by (simp add: create_temp_buf_def calloc_buf_def s1_def)
  from palloc_result [OF lok g1(2), of sz] show ?thesis
  proof (cases rule: alloc_resultE)
    case (fail k)
    from f g1(1) obtain a where a: "palloc libc s pool sizeof_buf = Some (a, b)" "memset0 a b sizeof_buf = memset0 s0 b sizeof_buf"
      by (auto simp: pcalloc_def split: Option.bind_splits if_splits)
    from arg_cong [OF a(2), of live] arg_cong [OF a(2), of mcalls] have "live a = live s1" "mcalls a = mcalls s1"
      by (simp_all add: memset0_def s1_def clear_buf_def)
    then have "denied libc a 16 psize sz k" using fail(2) denied_cong [of s1 a] by simp
    then have den: "denied_either libc s pool psize sizeof_buf sz k" by (rule denied_second [OF a(1) g1(1)])
    let ?t = "(s1\<lparr>mcalls := k\<rparr>)\<lparr>b_start := (b_start s1)(b := NULL)\<rparr>"
    have "create_temp_buf libc s pool sz = Some (?t, NULL)" unfolding cb using fail(1) by (simp add: Let_def)
    moreover have "pool_ok ?t pool psize bs1 ls1" "given ?t bs1 ls1 = given s1 bs1 ls1" "foreign ?t bs1 ls1 = foreign s1 bs1 ls1"
      using g1(2) by (simp_all add: pool_ok_def mem_ok_def blocks_ok_def larges_ok_def given_def used_def large_bytes_def larges_def foreign_def)
    then have "temp_buf_result libc s pool psize bs ls sz (?t, NULL)"
      unfolding temp_buf_result_def using den g1 by1
      by (simp only: prod.case) (intro exI [of _ bs1] exI [of _ ls1], simp)
    ultimately show ?thesis by blast
  next
    case (ok s2 bs2 ls2 st)
    have g2: "st \<noteq> NULL" "pool_ok s2 pool psize bs2 ls2" "given s1 bs1 ls1 \<subseteq> given s2 bs2 ls2" "bytes s2 = bytes s1" "pmem.more s2 = pmem.more s1"
      "{st ..< st + sz} \<inter> given s1 bs1 ls1 = {}" "{st ..< st + sz} \<subseteq> given s2 bs2 ls2"
      using ok(3) by (simp_all add: gives_def)
    note fe = bmore_fields [OF g2(5)]
    let ?t = "s2\<lparr>b_start := (b_start s2)(b := st), b_pos := (b_pos s2)(b := st), b_last := (b_last s2)(b := st),
      b_end := (b_end s2)(b := st + sz), b_temporary := (b_temporary s2)(b := True)\<rparr>"
    have cr: "create_temp_buf libc s pool sz = Some (?t, b)" unfolding cb using ok(1) g2(1) by (simp add: Let_def)
    have v: "pool_ok ?t pool psize bs2 ls2" "given ?t bs2 ls2 = given s2 bs2 ls2" "foreign ?t bs2 ls2 = foreign s2 bs2 ls2"
      using g2(2) by (simp_all add: pool_ok_def mem_ok_def blocks_ok_def larges_ok_def given_def used_def large_bytes_def larges_def foreign_def)
    have fl: "b_start ?t b = st" "b_pos ?t b = st" "b_last ?t b = st" "b_end ?t b = st + sz" "buf_in_memory ?t b" "\<not> b_in_file ?t b" "bytes ?t = bytes s1"
      by (simp_all add: buf_in_memory_def fe g2(4)) (simp add: s1_def clear_buf_def)
    have m: "buf_in_memory_only ?t b" "\<not> buf_special ?t b" "\<not> buf_sync_only ?t b" "buf_size ?t b = 0"
      using fl by (simp_all add: buf_in_memory_only_def buf_special_def buf_sync_only_def buf_size_def)
    have d: "{b ..< b + sizeof_buf} \<union> {st ..< st + sz} \<subseteq> given s2 bs2 ls2" "({b ..< b + sizeof_buf} \<union> {st ..< st + sz}) \<inter> given s bs ls = {}"
      "{b ..< b + sizeof_buf} \<inter> {st ..< st + sz} = {}" "given s bs ls \<subseteq> given s2 bs2 ls2"
      using g1(3,5,6) g2(3,6,7) by blast+
    have "temp_buf_result libc s pool psize bs ls sz (?t, b)"
      unfolding temp_buf_result_def prod.case
    proof (rule exI [of _ bs2], rule exI [of _ ls2], intro conjI)
      show "\<forall>x \<in> given s bs ls. bytes ?t x = bytes s x" using by1 fl(7) by simp
      show "foreign ?t bs2 ls2 = foreign s bs ls" using v(3) gives_foreign [OF ok(3)] g1(4) by simp
      show "if b = NULL then denied_either libc s pool psize sizeof_buf sz (mcalls ?t)
       else buf_in_memory_only ?t b \<and> \<not> buf_special ?t b \<and> \<not> buf_sync_only ?t b \<and> buf_size ?t b = 0
         \<and> b_pos ?t b = b_start ?t b \<and> b_last ?t b = b_start ?t b \<and> b_end ?t b = b_start ?t b + sz
         \<and> {b ..< b + sizeof_buf} \<union> {b_start ?t b ..< b_end ?t b} \<subseteq> given ?t bs2 ls2
         \<and> ({b ..< b + sizeof_buf} \<union> {b_start ?t b ..< b_end ?t b}) \<inter> given s bs ls = {}
         \<and> {b ..< b + sizeof_buf} \<inter> {b_start ?t b ..< b_end ?t b} = {}"
        unfolding fl v(2) if_not_P [OF g1(1)] using m d by blast
    qed (use v d in simp_all)
    with cr show ?thesis by blast
  qed
qed

section \<open>Properties\<close>

definition buf_ex :: bmem where
  "buf_ex = pmem.extend pool_ex (bmem.fields (\<lambda>_. 0) (\<lambda>_. 0) (\<lambda>_. 9) (\<lambda>_. 9) (\<lambda>_. 0) (\<lambda>_. 0) (\<lambda>_. False) (\<lambda>_. True)
     (\<lambda>_. True) (\<lambda>_. True) (\<lambda>_. True) (\<lambda>_. True) (\<lambda>_. True))"

lemma buf_ex_pool: "pool_ok buf_ex 4096 256 [4096] [4152]"
  using pool_ex_ok
  by (simp add: pool_ok_def mem_ok_def blocks_ok_def larges_ok_def buf_ex_def pool_ex_def pmem.defs bmem.defs)

text \<open>C31: \<open>create_temp_buf\<close> never faults. It returns \<open>NULL\<close> only if the C library refused the
  memory of the structure or of the \<open>sz\<close> bytes; otherwise a cleared buffer that
  counts as in memory only, is empty and owns exactly \<open>sz\<close> new bytes between \<open>start\<close> and \<open>end\<close>, apart from its own
  structure. No byte in use changes and the pool stays well formed, also on the error paths.\<close>

theorem create_temp_buf_correct:
  assumes "libc_ok libc" and "pool_ok s pool psize bs ls"
  shows "\<exists>r. create_temp_buf libc s pool sz = Some r \<and> temp_buf_result libc s pool psize bs ls sz r"
  using assms by (rule create_temp_buf_ok)

lemma buf_ex_create: "\<exists>s'. create_temp_buf slot_libc buf_ex 4096 1024 = Some (s', 4168)"
  by (simp add: create_temp_buf_def calloc_buf_def pcalloc_def palloc_def palloc_small_def palloc_large_def alloc_def libc_alloc_def slot_libc_def
    hdr_def buf_ex_def pool_ex_def pmem.defs bmem.defs palloc_small_loop.simps find_free_large.simps add_large_def align_ptr_def
    ALIGNMENT_def usub_def sizeof_buf_def sizeof_pool_large_def clear_buf_def memset0_def Let_def)

theorem create_temp_buf_correct_witness:
  "\<exists>s'. create_temp_buf slot_libc buf_ex 4096 1024 = Some (s', 4168)
    \<and> temp_buf_result slot_libc buf_ex 4096 256 [4096] [4152] 1024 (s', 4168)"
  using create_temp_buf_correct [OF slot_libc_ok buf_ex_pool, of 1024] buf_ex_create by auto

end
