(* ===== verification/Arrays.thy ===== *)
theory Arrays
  imports Pool
begin

text \<open>
  The growing arrays of \<^verbatim>\<open>src/array.c\<close>, which live in a pool. An array grows in place when it is the
  last piece of the pool's first block, and otherwise moves to a new piece of twice the size. Sizes
  and counts keep their C types: \<open>size_t\<close> is \<open>u64\<close>, \<open>uint32_t\<close> is \<open>u32\<close>, and their arithmetic wraps.
\<close>

section \<open>array.c\<close>

record amem = pmem +
  a_elts :: "addr \<Rightarrow> addr"
  a_nelts :: "addr \<Rightarrow> u32"
  a_size :: "addr \<Rightarrow> u64"
  a_nalloc :: "addr \<Rightarrow> u32"
  a_pool :: "addr \<Rightarrow> addr"

definition sizeof_array :: nat where "sizeof_array = 40"

text \<open>\<open>memcpy\<close> of \<open>n\<close> bytes.\<close>

definition memcpy :: "'a pmem_scheme \<Rightarrow> addr \<Rightarrow> addr \<Rightarrow> nat \<Rightarrow> 'a pmem_scheme" where
  "memcpy s dst src n = s\<lparr>bytes := (\<lambda>x. if dst \<le> x \<and> x < dst + n then bytes s (src + (x - dst)) else bytes s x)\<rparr>"

definition array_init :: "libc \<Rightarrow> 'a amem_scheme \<Rightarrow> addr \<Rightarrow> addr \<Rightarrow> u32 \<Rightarrow> u64 \<Rightarrow> ('a amem_scheme \<times> int) option" where
  "array_init libc s array pool n sz = do {
     let s = s\<lparr>a_nelts := (a_nelts s)(array := 0)\<rparr>;
     let s = s\<lparr>a_size := (a_size s)(array := sz)\<rparr>;
     let s = s\<lparr>a_nalloc := (a_nalloc s)(array := n)\<rparr>;
     let s = s\<lparr>a_pool := (a_pool s)(array := pool)\<rparr>;
     (s, e) \<leftarrow> palloc libc s pool (unat (ucast n * sz));
     let s = s\<lparr>a_elts := (a_elts s)(array := e)\<rparr>;
     Some (s, if e = NULL then - 1 else 0) }"

definition array_create :: "libc \<Rightarrow> 'a amem_scheme \<Rightarrow> addr \<Rightarrow> u32 \<Rightarrow> u64 \<Rightarrow> ('a amem_scheme \<times> addr) option" where
  "array_create libc s p n sz = do {
     (s, a) \<leftarrow> palloc libc s p sizeof_array;
     if a = NULL then Some (s, NULL)
     else do {
       (s, rc) \<leftarrow> array_init libc s a p n sz;
       Some (s, if rc \<noteq> 0 then NULL else a) } }"

definition array_destroy :: "'a amem_scheme \<Rightarrow> addr \<Rightarrow> 'a amem_scheme option" where
  "array_destroy s a = do {
     let p = a_pool s a;
     let sz = unat (a_size s a * ucast (a_nalloc s a));
     l \<leftarrow> hdr s p (d_last s p);
     let s = (if a_elts s a + sz = l then s\<lparr>d_last := (d_last s)(p := l - sz)\<rparr> else s);
     Some (if a + sizeof_array = d_last s p then s\<lparr>d_last := (d_last s)(p := a)\<rparr> else s) }"

text \<open>The part of \<open>array_push\<close> for a full array; \<open>False\<close> stands for the early \<open>return NULL\<close>.\<close>

definition array_grow :: "libc \<Rightarrow> 'a amem_scheme \<Rightarrow> addr \<Rightarrow> ('a amem_scheme \<times> bool) option" where
  "array_grow libc s a = do {
     let sz = a_size s a * ucast (a_nalloc s a);
     let p = a_pool s a;
     l \<leftarrow> hdr s p (d_last s p);
     e \<leftarrow> hdr s p (d_end s p);
     if a_elts s a + unat sz = l \<and> l + unat (a_size s a) \<le> e then do {
       let s = s\<lparr>d_last := (d_last s)(p := l + unat (a_size s a))\<rparr>;
       Some (s\<lparr>a_nalloc := (a_nalloc s)(a := a_nalloc s a + 1)\<rparr>, True)
     } else do {
       (s, new) \<leftarrow> palloc libc s p (unat (2 * sz));
       if new = NULL then Some (s, False)
       else do {
         let s = memcpy s new (a_elts s a) (unat sz);
         let s = s\<lparr>a_elts := (a_elts s)(a := new)\<rparr>;
         Some (s\<lparr>a_nalloc := (a_nalloc s)(a := a_nalloc s a * 2)\<rparr>, True) } } }"

definition array_push :: "libc \<Rightarrow> 'a amem_scheme \<Rightarrow> addr \<Rightarrow> ('a amem_scheme \<times> addr) option" where
  "array_push libc s a = do {
     (s, room) \<leftarrow> (if a_nelts s a = a_nalloc s a then array_grow libc s a else Some (s, True));
     if \<not> room then Some (s, NULL)
     else do {
       let elt = a_elts s a + unat (a_size s a * ucast (a_nelts s a));
       Some (s\<lparr>a_nelts := (a_nelts s)(a := a_nelts s a + 1)\<rparr>, elt) } }"

definition array_grow_n :: "libc \<Rightarrow> 'a amem_scheme \<Rightarrow> addr \<Rightarrow> u32 \<Rightarrow> ('a amem_scheme \<times> bool) option" where
  "array_grow_n libc s a n = do {
     let sz = ucast n * a_size s a;
     let p = a_pool s a;
     l \<leftarrow> hdr s p (d_last s p);
     e \<leftarrow> hdr s p (d_end s p);
     if a_elts s a + unat (a_size s a * ucast (a_nalloc s a)) = l \<and> l + unat sz \<le> e then do {
       let s = s\<lparr>d_last := (d_last s)(p := l + unat sz)\<rparr>;
       Some (s\<lparr>a_nalloc := (a_nalloc s)(a := a_nalloc s a + n)\<rparr>, True)
     } else do {
       let nalloc = 2 * (if n \<ge> a_nalloc s a then n else a_nalloc s a);
       (s, new) \<leftarrow> palloc libc s p (unat (ucast nalloc * a_size s a));
       if new = NULL then Some (s, False)
       else do {
         let s = memcpy s new (a_elts s a) (unat (ucast (a_nelts s a) * a_size s a));
         let s = s\<lparr>a_elts := (a_elts s)(a := new)\<rparr>;
         Some (s\<lparr>a_nalloc := (a_nalloc s)(a := nalloc)\<rparr>, True) } } }"

definition array_push_n :: "libc \<Rightarrow> 'a amem_scheme \<Rightarrow> addr \<Rightarrow> u32 \<Rightarrow> ('a amem_scheme \<times> addr) option" where
  "array_push_n libc s a n = do {
     (s, room) \<leftarrow> (if a_nelts s a + n > a_nalloc s a then array_grow_n libc s a n else Some (s, True));
     if \<not> room then Some (s, NULL)
     else do {
       let elt = a_elts s a + unat (a_size s a * ucast (a_nelts s a));
       Some (s\<lparr>a_nelts := (a_nelts s)(a := a_nelts s a + n)\<rparr>, elt) } }"

section \<open>What an array is\<close>

text \<open>The allocation of an array keeps its fields.\<close>

lemma more_fields:
  fixes s s' :: "'a amem_scheme"
  assumes "pmem.more s' = pmem.more s"
  shows "a_elts s' = a_elts s" "a_nelts s' = a_nelts s" "a_size s' = a_size s" "a_nalloc s' = a_nalloc s" "a_pool s' = a_pool s"
  using assms by (cases s; cases s'; simp)+

text \<open>Bytes in use by the elements, and by the whole piece.\<close>

definition a_len :: "'a amem_scheme \<Rightarrow> addr \<Rightarrow> nat" where
  "a_len s a = unat (a_size s a) * unat (a_nelts s a)"

definition a_cap :: "'a amem_scheme \<Rightarrow> addr \<Rightarrow> nat" where
  "a_cap s a = unat (a_size s a) * unat (a_nalloc s a)"

definition contents :: "'a amem_scheme \<Rightarrow> addr \<Rightarrow> u8 list" where
  "contents s a = map (\<lambda>i. bytes s (a_elts s a + i)) [0 ..< a_len s a]"

text \<open>
  A well-formed array: its elements fit in its piece, which the pool has given away, and neither the
  size of an element nor the number of allocated elements is zero.
\<close>

definition array_ok :: "'a amem_scheme \<Rightarrow> addr \<Rightarrow> nat \<Rightarrow> addr list \<Rightarrow> addr list \<Rightarrow> bool" where
  "array_ok s a psize bs ls \<longleftrightarrow> pool_ok s (a_pool s a) psize bs ls \<and> a_nelts s a \<le> a_nalloc s a
     \<and> 0 < unat (a_size s a) \<and> 0 < unat (a_nalloc s a)
     \<and> {a_elts s a ..< a_elts s a + a_cap s a} \<subseteq> given s bs ls"

lemma pool_views [simp]:
  fixes s :: "'a amem_scheme"
  shows "pool_ok (s\<lparr>a_elts := f\<rparr>) pool psize bs ls = pool_ok s pool psize bs ls"
    "pool_ok (s\<lparr>a_nelts := g\<rparr>) pool psize bs ls = pool_ok s pool psize bs ls"
    "pool_ok (s\<lparr>a_nalloc := g\<rparr>) pool psize bs ls = pool_ok s pool psize bs ls"
    "pool_ok (s\<lparr>a_size := h\<rparr>) pool psize bs ls = pool_ok s pool psize bs ls"
    "pool_ok (s\<lparr>a_pool := f\<rparr>) pool psize bs ls = pool_ok s pool psize bs ls"
    "pool_ok (memcpy t d sr n) pool psize bs ls = pool_ok t pool psize bs ls"
  by (simp_all add: pool_ok_def mem_ok_def blocks_ok_def larges_ok_def memcpy_def)

lemma given_views [simp]:
  fixes s :: "'a amem_scheme"
  shows "given (s\<lparr>a_elts := f\<rparr>) bs ls = given s bs ls" "given (s\<lparr>a_nelts := g\<rparr>) bs ls = given s bs ls"
    "given (s\<lparr>a_nalloc := g\<rparr>) bs ls = given s bs ls" "given (s\<lparr>a_size := h\<rparr>) bs ls = given s bs ls"
    "given (s\<lparr>a_pool := f\<rparr>) bs ls = given s bs ls" "given (memcpy t d sr n) bs ls = given t bs ls"
  by (simp_all add: given_def used_def large_bytes_def larges_def memcpy_def)

lemma foreign_views [simp]:
  fixes s :: "'a amem_scheme"
  shows "foreign (s\<lparr>a_elts := f\<rparr>) bs ls = foreign s bs ls" "foreign (s\<lparr>a_nelts := g\<rparr>) bs ls = foreign s bs ls"
    "foreign (s\<lparr>a_nalloc := g\<rparr>) bs ls = foreign s bs ls" "foreign (s\<lparr>a_size := h\<rparr>) bs ls = foreign s bs ls"
    "foreign (s\<lparr>a_pool := f\<rparr>) bs ls = foreign s bs ls" "foreign (memcpy t d sr n) bs ls = foreign t bs ls"
  by (simp_all add: foreign_def larges_def memcpy_def)

lemma array_okD:
  assumes "array_ok s a psize bs ls"
  shows "a_elts s a \<noteq> NULL" "a_elts s a + a_cap s a \<le> 2 ^ 63" "a_len s a \<le> a_cap s a"
    "unat (a_size s a * ucast (a_nalloc s a)) = a_cap s a" "unat (a_size s a * ucast (a_nelts s a)) = a_len s a"
    "a_cap s a < 2 ^ 63"
proof -
  from assms have ok: "pool_ok s (a_pool s a) psize bs ls" and c: "0 < a_cap s a"
    and g: "{a_elts s a ..< a_elts s a + a_cap s a} \<subseteq> given s bs ls" by (simp_all add: array_ok_def a_cap_def)
  from c g have "a_elts s a \<in> given s bs ls" "a_elts s a + a_cap s a - 1 \<in> given s bs ls" by auto
  from given_bound [OF ok this(1)] given_bound [OF ok this(2)] show b: "a_elts s a \<noteq> NULL" "a_elts s a + a_cap s a \<le> 2 ^ 63"
    by simp_all
  then show "a_cap s a < 2 ^ 63" by simp
  have "unat (a_nelts s a) \<le> unat (a_nalloc s a)" using assms by (simp add: array_ok_def word_le_nat_alt)
  then show l: "a_len s a \<le> a_cap s a" by (simp add: a_len_def a_cap_def)
  show "unat (a_size s a * ucast (a_nalloc s a)) = a_cap s a" unfolding a_cap_def
    using b(2) by (intro unat_times) (simp add: a_cap_def)
  show "unat (a_size s a * ucast (a_nelts s a)) = a_len s a" unfolding a_len_def
    using b(2) l by (intro unat_times) (simp add: a_len_def)
qed

section \<open>Growth\<close>

definition grown :: "'a amem_scheme \<Rightarrow> addr \<Rightarrow> nat \<Rightarrow> addr list \<Rightarrow> addr list \<Rightarrow> 'a amem_scheme \<Rightarrow> addr list \<Rightarrow> addr list \<Rightarrow> bool" where
  "grown s a psize bs ls s' bs' ls' \<longleftrightarrow> array_ok s' a psize bs' ls'
     \<and> a_nelts s' = a_nelts s \<and> a_size s' = a_size s \<and> a_pool s' = a_pool s
     \<and> (\<forall>b. b \<noteq> a \<longrightarrow> a_elts s' b = a_elts s b \<and> a_nalloc s' b = a_nalloc s b)
     \<and> given s bs ls \<subseteq> given s' bs' ls' \<and> (\<forall>x \<in> given s bs ls. bytes s' x = bytes s x)
     \<and> contents s' a = contents s a \<and> foreign s' bs' ls' = foreign s bs ls"

lemma grow_in_place:
  assumes ok: "array_ok s a psize bs ls" and l: "a_elts s a + a_cap s a = d_last s (a_pool s a)"
    and room: "d_last s (a_pool s a) + unat (a_size s a) * unat n \<le> d_end s (a_pool s a)"
    and n: "unat (a_nalloc s a) + unat n < 2 ^ 32"
  shows "grown s a psize bs ls (s\<lparr>d_last := (d_last s)(a_pool s a := d_last s (a_pool s a) + unat (a_size s a) * unat n),
      a_nalloc := (a_nalloc s)(a := a_nalloc s a + n)\<rparr>) bs ls"
proof -
  define p k where "p = a_pool s a" and "k = d_last s p + unat (a_size s a) * unat n"
  let ?s = "s\<lparr>d_last := (d_last s)(p := k)\<rparr>"
  let ?t = "?s\<lparr>a_nalloc := (a_nalloc s)(a := a_nalloc s a + n)\<rparr>"
  from ok have po: "pool_ok s p psize bs ls" and reg: "{a_elts s a ..< a_elts s a + a_cap s a} \<subseteq> given s bs ls"
    by (simp_all add: array_ok_def p_def)
  from po have bo: "blocks_ok s p psize bs" by (simp add: pool_ok_def)
  note pb = pool_live [OF bo]
  have le: "k \<le> p + psize" using room blocks_okD(3) [OF bo pb] by (simp add: p_def k_def)
  have po': "pool_ok ?s p psize bs ls" using le by (intro bump_ok [OF po pb]) (simp add: k_def)
  have us: "used ?s bs = used s bs \<union> {d_last s p ..< k}"
    using pb blocks_okD(4) [OF bo pb] by (intro used_bump) (simp_all add: k_def sizeof_pool_data_def)
  then have gv: "given ?s bs ls = given s bs ls \<union> {d_last s p ..< k}"
    by (auto simp: given_def large_bytes_def larges_def)
  have na: "unat (a_nalloc s a + n) = unat (a_nalloc s a) + unat n" using n unat_add_lem by fastforce
  have cap: "a_elts s a + a_cap ?t a = k" using l by (simp add: a_cap_def k_def na p_def distrib_left)
  have "array_ok ?t a psize bs ls"
    unfolding array_ok_def
  proof (intro conjI)
    show "pool_ok ?t (a_pool ?t a) psize bs ls" using po' by (simp add: p_def)
    show "a_nelts ?t a \<le> a_nalloc ?t a" using ok na by (simp add: array_ok_def word_le_nat_alt)
    show "{a_elts ?t a ..< a_elts ?t a + a_cap ?t a} \<subseteq> given ?t bs ls"
      using reg cap l gv by (auto simp: p_def)
    show "0 < unat (a_size ?t a)" using ok by (simp add: array_ok_def)
    show "0 < unat (a_nalloc ?t a)" using ok na by (simp add: array_ok_def)
  qed
  moreover have "contents ?t a = contents s a" by (simp add: contents_def a_len_def)
  moreover have "foreign ?t bs ls = foreign s bs ls" by (simp add: foreign_def larges_def)
  moreover have "given ?t bs ls = given ?s bs ls" by simp
  ultimately have "grown s a psize bs ls ?t bs ls" using gv by (simp add: grown_def)
  then show ?thesis by (simp add: k_def p_def)
qed

lemma grow_by_moving:
  fixes s s1 :: "'a amem_scheme"
  assumes ok: "array_ok s a psize bs ls" and g: "gives s (a_pool s a) psize bs ls s1 bs' ls' new m"
    and m: "m = unat (a_size s a) * unat nalloc'" "a_nelts s a \<le> nalloc'" "0 < unat nalloc'"
    and k: "a_len s a \<le> k" "k \<le> a_cap s a" "k \<le> m"
  shows "grown s a psize bs ls ((memcpy s1 new (a_elts s a) k)\<lparr>a_elts := (a_elts s)(a := new), a_nalloc := (a_nalloc s)(a := nalloc')\<rparr>) bs' ls'"
proof -
  let ?t = "(memcpy s1 new (a_elts s a) k)\<lparr>a_elts := (a_elts s)(a := new), a_nalloc := (a_nalloc s)(a := nalloc')\<rparr>"
  have mf: "pmem.more s1 = pmem.more s" using g by (simp add: gives_def)
  note fd = more_fields [OF mf]
  have eq: "a_nelts ?t = a_nelts s" "a_size ?t = a_size s" "a_pool ?t = a_pool s" "a_elts ?t = (a_elts s)(a := new)"
    "a_nalloc ?t = (a_nalloc s)(a := nalloc')" by (simp_all add: memcpy_def fd)
  have by1: "bytes s1 = bytes s" using g by (simp add: gives_def)
  have bt: "bytes ?t = (\<lambda>x. if new \<le> x \<and> x < new + k then bytes s (a_elts s a + (x - new)) else bytes s x)"
    by (simp add: memcpy_def by1 fun_eq_iff)
  have gt: "given ?t bs' ls' = given s1 bs' ls'" by simp
  have new: "{new ..< new + m} \<inter> given s bs ls = {}" "given s bs ls \<union> {new ..< new + m} \<subseteq> given s1 bs' ls'"
    using g by (simp_all add: gives_def)
  have "array_ok ?t a psize bs' ls'"
    unfolding array_ok_def
  proof (intro conjI)
    show "pool_ok ?t (a_pool ?t a) psize bs' ls'" using g unfolding eq by (simp add: gives_def)
    show "{a_elts ?t a ..< a_elts ?t a + a_cap ?t a} \<subseteq> given ?t bs' ls'"
      using new(2) unfolding gt by (simp add: a_cap_def memcpy_def fd m(1))
    show "a_nelts ?t a \<le> a_nalloc ?t a" "0 < unat (a_nalloc ?t a)" using m unfolding eq by simp_all
    show "0 < unat (a_size ?t a)" using ok unfolding eq by (simp add: array_ok_def)
  qed
  moreover have "contents ?t a = contents s a"
    using k(1) by (simp add: contents_def a_len_def eq bt)
  moreover have "\<forall>x \<in> given s bs ls. bytes ?t x = bytes s x"
  proof
    fix x assume "x \<in> given s bs ls"
    then have "\<not> (new \<le> x \<and> x < new + m)" using new(1) by auto
    then show "bytes ?t x = bytes s x" using k(3) unfolding bt by auto
  qed
  moreover have "foreign ?t bs' ls' = foreign s bs ls" using gives_foreign [OF g] by simp
  ultimately show ?thesis using new(2) unfolding grown_def gt eq by simp
qed

text \<open>Growing fails only when the C library refused the request for the \<open>m\<close> bytes of the new piece (or for a block
  to take them from), and then only its call counter has moved.\<close>

definition grow_result :: "libc \<Rightarrow> 'a amem_scheme \<Rightarrow> addr \<Rightarrow> nat \<Rightarrow> addr list \<Rightarrow> addr list \<Rightarrow> nat \<Rightarrow> nat \<Rightarrow> ('a amem_scheme \<times> bool) option \<Rightarrow> bool" where
  "grow_result libc s a psize bs ls m need r \<longleftrightarrow>
     (\<exists>k. r = Some (s\<lparr>mcalls := k\<rparr>, False) \<and> denied libc s 16 psize m k)
     \<or> (\<exists>s' bs' ls'. r = Some (s', True) \<and> grown s a psize bs ls s' bs' ls' \<and> need \<le> unat (a_nalloc s' a))"

lemma grow_resultI:
  "grown s a psize bs ls s' bs' ls' \<Longrightarrow> need \<le> unat (a_nalloc s' a) \<Longrightarrow> grow_result libc s a psize bs ls m need (Some (s', True))"
  unfolding grow_result_def by blast

lemma grow_result_fail: "denied libc s 16 psize m k \<Longrightarrow> grow_result libc s a psize bs ls m need (Some (s\<lparr>mcalls := k\<rparr>, False))"
  unfolding grow_result_def by blast

lemma array_pool_hdr: "array_ok s a psize bs ls \<Longrightarrow> hdr s (a_pool s a) v = Some v"
  unfolding array_ok_def by (blast intro: pool_hdr)

lemma array_grow_ok:
  assumes lok: "libc_ok libc" and ok: "array_ok s a psize bs ls" and n: "unat (a_nalloc s a) < 2 ^ 31"
  shows "grow_result libc s a psize bs ls (2 * a_cap s a) (unat (a_nalloc s a) + 1) (array_grow libc s a)"
proof -
  note ad = array_okD [OF ok]
  have po: "pool_ok s (a_pool s a) psize bs ls" using ok by (simp add: array_ok_def)
  show ?thesis
  proof (cases "a_elts s a + a_cap s a = d_last s (a_pool s a) \<and> d_last s (a_pool s a) + unat (a_size s a) \<le> d_end s (a_pool s a)")
    case True
    have one: "unat (a_nalloc s a + 1) = unat (a_nalloc s a) + 1" using n unat_add_lem [of "a_nalloc s a" 1] by simp
    from True have "array_grow libc s a = Some (s\<lparr>d_last := (d_last s)(a_pool s a := d_last s (a_pool s a) + unat (a_size s a) * unat (1 :: u32)),
      a_nalloc := (a_nalloc s)(a := a_nalloc s a + 1)\<rparr>, True)"
      by (simp add: array_grow_def array_pool_hdr [OF ok] Let_def ad(4))
    moreover have "grown s a psize bs ls (s\<lparr>d_last := (d_last s)(a_pool s a := d_last s (a_pool s a) + unat (a_size s a) * unat (1 :: u32)),
      a_nalloc := (a_nalloc s)(a := a_nalloc s a + 1)\<rparr>) bs ls"
      using True n by (intro grow_in_place [OF ok]) simp_all
    ultimately show ?thesis using one by (simp add: grow_resultI)
  next
    case False
    have nz: "0 < unat (a_nalloc s a)" using ok by (simp add: array_ok_def)
    have d: "unat (2 * (a_size s a * ucast (a_nalloc s a))) = 2 * a_cap s a"
      using unat_mult_lem [of 2 "a_size s a * ucast (a_nalloc s a)"] ad(6) by (simp add: ad(4))
    have e: "unat (a_nalloc s a * 2) = 2 * unat (a_nalloc s a)"
      using unat_mult_lem [of "a_nalloc s a" 2] n by (simp add: mult.commute)
    from False have ag: "array_grow libc s a = do {
       (s', new) \<leftarrow> palloc libc s (a_pool s a) (2 * a_cap s a);
       if new = NULL then Some (s', False)
       else do {
         let s2 = memcpy s' new (a_elts s' a) (a_cap s a);
         let s3 = s2\<lparr>a_elts := (a_elts s2)(a := new)\<rparr>;
         Some (s3\<lparr>a_nalloc := (a_nalloc s3)(a := a_nalloc s3 a * 2)\<rparr>, True) } }"
      unfolding array_grow_def by (simp add: array_pool_hdr [OF ok] Let_def ad(4) d if_not_P [OF False] cong: if_cong)
    from palloc_result [OF lok po, of "2 * a_cap s a"] show ?thesis
    proof (cases rule: alloc_resultE)
      case (fail k)
      then show ?thesis unfolding ag by (simp add: grow_result_fail)
    next
      case (ok s1 bs' ls' new)
      have "pmem.more s1 = pmem.more s" using ok(3) by (simp add: gives_def)
      note fd = more_fields [OF this]
      have nn: "new \<noteq> NULL" using ok(3) by (simp add: gives_def)
      let ?t = "(memcpy s1 new (a_elts s a) (a_cap s a))\<lparr>a_elts := (a_elts s)(a := new), a_nalloc := (a_nalloc s)(a := a_nalloc s a * 2)\<rparr>"
      have "array_grow libc s a = Some (?t, True)"
        unfolding ag using nn by (simp add: ok(1) fd Let_def) (simp add: memcpy_def fd)
      moreover have "a_nelts s a \<le> a_nalloc s a * 2"
        using \<open>array_ok s a psize bs ls\<close> e unfolding array_ok_def word_le_nat_alt by simp
      then have "grown s a psize bs ls ?t bs' ls'"
        using ad(3) nz e by (intro grow_by_moving [OF \<open>array_ok s a psize bs ls\<close> ok(3)]) (simp_all add: a_cap_def)
      moreover have "unat (a_nalloc s a) + 1 \<le> unat (a_nalloc ?t a)" using e nz by simp
      ultimately show ?thesis by (simp add: grow_resultI)
    qed
  qed
qed

lemma array_grow_n_ok:
  assumes lok: "libc_ok libc" and ok: "array_ok s a psize bs ls"
    and n: "unat (a_nalloc s a) < 2 ^ 31" "unat n < 2 ^ 31" "0 < n"
    and big: "unat (a_size s a) * (2 * unat n) < 2 ^ 64"
  shows "grow_result libc s a psize bs ls (unat (a_size s a) * (2 * max (unat n) (unat (a_nalloc s a)))) (unat (a_nelts s a) + unat n) (array_grow_n libc s a n)"
proof -
  note ad = array_okD [OF ok]
  have po: "pool_ok s (a_pool s a) psize bs ls" using ok by (simp add: array_ok_def)
  have ne: "unat (a_nelts s a) \<le> unat (a_nalloc s a)" using ok by (simp add: array_ok_def word_le_nat_alt)
  have sn: "unat (ucast n * a_size s a) = unat (a_size s a) * unat n"
    using unat_times [of "a_size s a" n] big by (simp add: mult.commute)
  show ?thesis
  proof (cases "a_elts s a + a_cap s a = d_last s (a_pool s a) \<and> d_last s (a_pool s a) + unat (a_size s a) * unat n \<le> d_end s (a_pool s a)")
    case True
    have sum: "unat (a_nalloc s a + n) = unat (a_nalloc s a) + unat n"
      using n unat_add_lem [of "a_nalloc s a" n] by simp
    let ?t = "s\<lparr>d_last := (d_last s)(a_pool s a := d_last s (a_pool s a) + unat (a_size s a) * unat n),
      a_nalloc := (a_nalloc s)(a := a_nalloc s a + n)\<rparr>"
    from True have "array_grow_n libc s a n = Some (?t, True)"
      by (simp add: array_grow_n_def array_pool_hdr [OF ok] Let_def ad(4) sn)
    moreover have "grown s a psize bs ls ?t bs ls" using True n by (intro grow_in_place [OF ok]) simp_all
    moreover have "unat (a_nelts s a) + unat n \<le> unat (a_nalloc ?t a)" using sum ne by simp
    ultimately show ?thesis by (simp add: grow_resultI)
  next
    case False
    define M where "M = (if n \<ge> a_nalloc s a then n else a_nalloc s a)"
    have M: "unat n \<le> unat M" "unat (a_nalloc s a) \<le> unat M" "unat M < 2 ^ 31" "unat M = unat n \<or> unat M = unat (a_nalloc s a)"
      using n by (auto simp: M_def word_le_nat_alt)
    have e: "unat (2 * M) = 2 * unat M" using unat_mult_lem [of 2 M] M by simp
    have mx: "unat (2 * M) = 2 * max (unat n) (unat (a_nalloc s a))"
      unfolding e using M by linarith
    have "unat (a_size s a) * (2 * unat M) < 2 ^ 64" using M(4) big ad(6) by (auto simp: a_cap_def mult.commute)
    then have sz: "unat (ucast (2 * M) * a_size s a) = unat (a_size s a) * unat (2 * M)"
      using unat_times [of "a_size s a" "2 * M"] unfolding e mult.commute [of "ucast (2 * M)"] by simp
    have ln: "unat (ucast (a_nelts s a) * a_size s a) = a_len s a" using ad(5) by (simp add: mult.commute)
    from False have ag: "array_grow_n libc s a n = do {
       (s', new) \<leftarrow> palloc libc s (a_pool s a) (unat (a_size s a) * unat (2 * M));
       if new = NULL then Some (s', False)
       else do {
         let s2 = memcpy s' new (a_elts s' a) (unat (ucast (a_nelts s' a) * a_size s' a));
         let s3 = s2\<lparr>a_elts := (a_elts s2)(a := new)\<rparr>;
         Some (s3\<lparr>a_nalloc := (a_nalloc s3)(a := 2 * M)\<rparr>, True) } }"
      unfolding array_grow_n_def by (simp add: array_pool_hdr [OF ok] Let_def ad(4) sn M_def [symmetric] sz if_not_P [OF False] cong: if_cong)
    from palloc_result [OF lok po, of "unat (a_size s a) * unat (2 * M)"] show ?thesis
    proof (cases rule: alloc_resultE)
      case (fail k)
      then show ?thesis unfolding ag by (simp add: grow_result_fail mx)
    next
      case (ok s1 bs' ls' new)
      have "pmem.more s1 = pmem.more s" using ok(3) by (simp add: gives_def)
      note fd = more_fields [OF this]
      have nn: "new \<noteq> NULL" using ok(3) by (simp add: gives_def)
      let ?t = "(memcpy s1 new (a_elts s a) (a_len s a))\<lparr>a_elts := (a_elts s)(a := new), a_nalloc := (a_nalloc s)(a := 2 * M)\<rparr>"
      have "array_grow_n libc s a n = Some (?t, True)"
        unfolding ag using nn by (simp add: ok(1) fd ln Let_def) (simp add: memcpy_def fd)
      moreover have "a_nelts s a \<le> 2 * M" using ne M(2) e by (simp add: word_le_nat_alt)
      moreover have "0 < unat n" using n(3) by (simp add: unat_gt_0 word_gt_0)
      then have "0 < unat (2 * M)" using e M(1) by linarith
      moreover have "a_len s a \<le> unat (a_size s a) * unat (2 * M)"
        unfolding a_len_def using ne M(2) e by (intro mult_le_mono) simp_all
      then have "grown s a psize bs ls ?t bs' ls'"
        using ad(3) calculation by (intro grow_by_moving [OF \<open>array_ok s a psize bs ls\<close> ok(3) refl]) simp_all
      moreover have "unat (a_nelts s a) + unat n \<le> unat (a_nalloc ?t a)" using e ne M(1,2) by simp
      ultimately show ?thesis by (simp add: grow_resultI)
    qed
  qed
qed

section \<open>Pushing\<close>

text \<open>
  What a push of \<open>n\<close> elements promises: \<open>NULL\<close> only if the C library refused a request for the \<open>m\<close> bytes of the
  larger piece or for the pool block to hold them, with the array as it was; otherwise the old elements followed by room for \<open>n\<close> new ones, at the returned address, and no byte
  that was in use is overwritten.
\<close>

definition push_result :: "libc \<Rightarrow> 'a amem_scheme \<Rightarrow> addr \<Rightarrow> nat \<Rightarrow> addr list \<Rightarrow> addr list \<Rightarrow> nat \<Rightarrow> nat \<Rightarrow> ('a amem_scheme \<times> addr) option \<Rightarrow> bool" where
  "push_result libc s a psize bs ls m n r \<longleftrightarrow>
     (\<exists>k. r = Some (s\<lparr>mcalls := k\<rparr>, NULL) \<and> unat (a_nalloc s a) < unat (a_nelts s a) + n \<and> denied libc s 16 psize m k)
     \<or> (\<exists>s' bs' ls'. r = Some (s', a_elts s' a + a_len s a) \<and> array_ok s' a psize bs' ls' \<and> a_elts s' a \<noteq> NULL
          \<and> unat (a_nelts s' a) = unat (a_nelts s a) + n \<and> a_size s' = a_size s
          \<and> take (a_len s a) (contents s' a) = contents s a
          \<and> (\<forall>x \<in> given s bs ls. bytes s' x = bytes s x) \<and> given s bs ls \<subseteq> given s' bs' ls'
          \<and> foreign s' bs' ls' = foreign s bs ls
          \<and> (\<forall>b. b \<noteq> a \<and> a_pool s b = a_pool s a \<and> array_ok s b psize bs ls
                \<longrightarrow> array_ok s' b psize bs' ls' \<and> contents s' b = contents s b))"

text \<open>A second array in the same pool is not disturbed.\<close>

lemma other_array:
  assumes b: "array_ok s b psize bs ls" and p: "pool_ok s' (a_pool s b) psize bs' ls'"
    and f: "a_elts s' b = a_elts s b" "a_nelts s' b = a_nelts s b" "a_size s' b = a_size s b" "a_nalloc s' b = a_nalloc s b" "a_pool s' b = a_pool s b"
    and g: "given s bs ls \<subseteq> given s' bs' ls'" "\<forall>x \<in> given s bs ls. bytes s' x = bytes s x"
  shows "array_ok s' b psize bs' ls'" "contents s' b = contents s b"
proof -
  from b have reg: "{a_elts s b ..< a_elts s b + a_cap s b} \<subseteq> given s bs ls" by (simp add: array_ok_def)
  with g(1) have "{a_elts s b ..< a_elts s b + a_cap s b} \<subseteq> given s' bs' ls'" by blast
  then show "array_ok s' b psize bs' ls'" using b p by (simp add: array_ok_def a_cap_def f)
  have "a_elts s b + i \<in> given s bs ls" if "i < a_len s b" for i
    using that reg array_okD(3) [OF b] by auto
  then show "contents s' b = contents s b" using g(2) by (simp add: contents_def a_len_def f)
qed

text \<open>Counting the new elements, once there is room.\<close>

lemma push_tail:
  assumes ok: "array_ok s a psize bs ls" and g: "grown s a psize bs ls s1 bs' ls'"
    and n: "unat (a_nelts s a) + unat n \<le> unat (a_nalloc s1 a)"
  shows "push_result libc s a psize bs ls m (unat n)
    (Some (s1\<lparr>a_nelts := (a_nelts s1)(a := a_nelts s1 a + n)\<rparr>, a_elts s1 a + unat (a_size s1 a * ucast (a_nelts s1 a))))"
proof -
  let ?t = "s1\<lparr>a_nelts := (a_nelts s1)(a := a_nelts s1 a + n)\<rparr>"
  from g have ok1: "array_ok s1 a psize bs' ls'" and eq: "a_nelts s1 = a_nelts s" "a_size s1 = a_size s" "a_pool s1 = a_pool s"
    and oth: "\<forall>b. b \<noteq> a \<longrightarrow> a_elts s1 b = a_elts s b \<and> a_nalloc s1 b = a_nalloc s b"
    and gv: "given s bs ls \<subseteq> given s1 bs' ls'" "\<forall>x \<in> given s bs ls. bytes s1 x = bytes s x"
    and c: "contents s1 a = contents s a" and fo: "foreign s1 bs' ls' = foreign s bs ls" by (simp_all add: grown_def)
  have "unat (a_nalloc s1 a) < 2 ^ 32" using unsigned_less [of "a_nalloc s1 a", where 'a=nat] by simp
  then have un: "unat (a_nelts s a + n) = unat (a_nelts s a) + unat n" using n unat_add_lem [of "a_nelts s a" n] by simp
  have tl: "a_len ?t a = a_len s a + unat (a_size s a) * unat n" by (simp add: a_len_def eq un distrib_left)
  have ln: "a_len s1 a = a_len s a" by (simp add: a_len_def eq)
  have "array_ok ?t a psize bs' ls'"
    using ok1 n by (simp add: array_ok_def a_cap_def word_le_nat_alt eq un)
  moreover have "take (a_len s a) (contents ?t a) = contents s a"
  proof -
    have "take (a_len s a) (contents ?t a) = map (\<lambda>i. bytes s1 (a_elts s1 a + i)) (take (a_len s a) [0 ..< a_len ?t a])"
      by (simp add: contents_def take_map)
    also have "\<dots> = contents s1 a" by (simp add: contents_def tl ln)
    finally show ?thesis using c by simp
  qed
  moreover have "array_ok ?t b psize bs' ls' \<and> contents ?t b = contents s b"
    if b: "b \<noteq> a" "a_pool s b = a_pool s a" "array_ok s b psize bs ls" for b
  proof -
    have p: "pool_ok ?t (a_pool s b) psize bs' ls'" using ok1 b(2) by (simp add: array_ok_def eq)
    have "given s bs ls \<subseteq> given ?t bs' ls'" "\<forall>x \<in> given s bs ls. bytes ?t x = bytes s x" using gv by simp_all
    from other_array [OF b(3) p _ _ _ _ _ this] b(1) oth show ?thesis by (simp add: eq)
  qed
  moreover have "a_elts s1 a \<noteq> NULL" using array_okD(1) [OF ok1] .
  moreover have "unat (a_size s1 a * ucast (a_nelts s1 a)) = a_len s a" using array_okD(5) [OF ok1] ln by simp
  ultimately show ?thesis
    unfolding push_result_def using gv fo un
    by (intro disjI2 exI [of _ ?t] exI [of _ bs'] exI [of _ ls']) (simp add: eq)
qed

lemma grown_refl: "array_ok s a psize bs ls \<Longrightarrow> grown s a psize bs ls s bs ls"
  by (simp add: grown_def)

lemma push_result_fail:
  "denied libc s 16 psize m k \<Longrightarrow> unat (a_nalloc s a) < unat (a_nelts s a) + n \<Longrightarrow> push_result libc s a psize bs ls m n (Some (s\<lparr>mcalls := k\<rparr>, NULL))"
  unfolding push_result_def by blast

lemma array_push_ok:
  assumes lok: "libc_ok libc" and ok: "array_ok s a psize bs ls" and n: "unat (a_nalloc s a) < 2 ^ 31"
  shows "push_result libc s a psize bs ls (2 * a_cap s a) 1 (array_push libc s a)"
proof (cases "a_nelts s a = a_nalloc s a")
  case True
  from array_grow_ok [OF lok ok n, unfolded grow_result_def] show ?thesis
  proof (elim disjE conjE exE)
    fix k assume "array_grow libc s a = Some (s\<lparr>mcalls := k\<rparr>, False)" "denied libc s 16 psize (2 * a_cap s a) k"
    then show ?thesis using True by (simp add: array_push_def push_result_fail)
  next
    fix s1 bs' ls' assume g: "array_grow libc s a = Some (s1, True)" "grown s a psize bs ls s1 bs' ls'" "unat (a_nalloc s a) + 1 \<le> unat (a_nalloc s1 a)"
    from push_tail [OF ok g(2), of 1 libc "2 * a_cap s a"] g(1,3) True show ?thesis by (simp add: array_push_def Let_def)
  qed
next
  case False
  moreover have "a_nelts s a \<le> a_nalloc s a" using ok by (simp add: array_ok_def)
  ultimately have "a_nelts s a < a_nalloc s a" by (simp add: order.strict_iff_order)
  then have "unat (a_nelts s a) + 1 \<le> unat (a_nalloc s a)" by (simp add: word_less_nat_alt)
  then show ?thesis using push_tail [OF ok grown_refl [OF ok], of 1 libc "2 * a_cap s a"] False by (simp add: array_push_def Let_def)
qed

lemma array_push_n_ok:
  assumes lok: "libc_ok libc" and ok: "array_ok s a psize bs ls"
    and n: "unat (a_nalloc s a) < 2 ^ 31" "unat n < 2 ^ 31" and big: "unat (a_size s a) * (2 * unat n) < 2 ^ 64"
  shows "push_result libc s a psize bs ls (unat (a_size s a) * (2 * max (unat n) (unat (a_nalloc s a)))) (unat n) (array_push_n libc s a n)"
proof (cases "a_nelts s a + n > a_nalloc s a")
  case True
  have "a_nelts s a \<le> a_nalloc s a" using ok by (simp add: array_ok_def)
  then have "0 < n" using True by (cases "n = 0") (simp_all add: word_neq_0_conv)
  from array_grow_n_ok [OF lok ok n this big, unfolded grow_result_def] show ?thesis
  proof (elim disjE conjE exE)
    fix k assume "array_grow_n libc s a n = Some (s\<lparr>mcalls := k\<rparr>, False)"
      "denied libc s 16 psize (unat (a_size s a) * (2 * max (unat n) (unat (a_nalloc s a)))) k"
    moreover have "unat (a_nalloc s a) < unat (a_nelts s a) + unat n"
      using True by (simp add: word_less_nat_alt unat_word_ariths)
    ultimately show ?thesis using True by (simp add: array_push_n_def push_result_fail)
  next
    fix s1 bs' ls' assume g: "array_grow_n libc s a n = Some (s1, True)" "grown s a psize bs ls s1 bs' ls'"
      "unat (a_nelts s a) + unat n \<le> unat (a_nalloc s1 a)"
    from push_tail [OF ok g(2,3), of libc "unat (a_size s a) * (2 * max (unat n) (unat (a_nalloc s a)))"] g(1) True show ?thesis by (simp add: array_push_n_def Let_def)
  qed
next
  case False
  have "unat (a_nelts s a) \<le> unat (a_nalloc s a)" using ok by (simp add: array_ok_def word_le_nat_alt)
  then have "unat (a_nelts s a + n) = unat (a_nelts s a) + unat n" using n unat_add_lem [of "a_nelts s a" n] by simp
  then have "unat (a_nelts s a) + unat n \<le> unat (a_nalloc s a)" using False by (simp add: word_less_nat_alt)
  then show ?thesis using push_tail [OF ok grown_refl [OF ok], of n libc "unat (a_size s a) * (2 * max (unat n) (unat (a_nalloc s a)))"] False by (simp add: array_push_n_def Let_def)
qed

section \<open>Creation and release\<close>

lemma array_create_eq:
  fixes s s1 :: "'a amem_scheme"
  assumes p: "palloc libc s pool sizeof_array = Some (s1, a)" "a \<noteq> NULL" and m: "pmem.more s1 = pmem.more s"
    and n: "unat sz * unat n < 2 ^ 64"
  shows "array_create libc s pool n sz = do {
       (s3, e) \<leftarrow> palloc libc (s1\<lparr>a_nelts := (a_nelts s)(a := 0), a_size := (a_size s)(a := sz),
           a_nalloc := (a_nalloc s)(a := n), a_pool := (a_pool s)(a := pool)\<rparr>) pool (unat sz * unat n);
       Some (s3\<lparr>a_elts := (a_elts s3)(a := e)\<rparr>, if e = NULL then NULL else a) }"
proof -
  have un: "unat (ucast n * sz) = unat sz * unat n" using unat_times [of sz n] n by (simp add: mult.commute)
  show ?thesis
    using p by (simp add: array_create_def array_init_def Let_def more_fields [OF m] un) (auto simp: split: Option.bind_splits)
qed

lemma array_create_ok:
  assumes lok: "libc_ok libc" and ok: "pool_ok s pool psize bs ls" and n: "0 < n" "0 < sz" "unat sz * unat n < 2 ^ 64"
  shows "\<exists>s' bs' ls' a. array_create libc s pool n sz = Some (s', a) \<and> pool_ok s' pool psize bs' ls'
    \<and> given s bs ls \<subseteq> given s' bs' ls' \<and> foreign s' bs' ls' = foreign s bs ls \<and> bytes s' = bytes s
    \<and> (if a = NULL then denied_either libc s pool psize sizeof_array (unat sz * unat n) (mcalls s')
       else array_ok s' a psize bs' ls' \<and> a_pool s' a = pool \<and> a_size s' a = sz \<and> a_nalloc s' a = n \<and> contents s' a = []
         \<and> {a ..< a + sizeof_array} \<subseteq> given s' bs' ls' \<and> {a ..< a + sizeof_array} \<inter> given s bs ls = {}
         \<and> {a ..< a + sizeof_array} \<inter> {a_elts s' a ..< a_elts s' a + a_cap s' a} = {}
         \<and> (\<forall>b. b \<noteq> a \<longrightarrow> a_elts s' b = a_elts s b \<and> a_nelts s' b = a_nelts s b \<and> a_size s' b = a_size s b
               \<and> a_nalloc s' b = a_nalloc s b \<and> a_pool s' b = a_pool s b))"
  using palloc_result [OF lok ok, of sizeof_array]
proof (cases rule: alloc_resultE)
  case (fail k)
  then have "array_create libc s pool n sz = Some (s\<lparr>mcalls := k\<rparr>, NULL)" by (simp add: array_create_def)
  with fail(2) ok show ?thesis
    by (intro exI [of _ "s\<lparr>mcalls := k\<rparr>"] exI [of _ bs] exI [of _ ls] exI [of _ NULL]) (simp add: same_pool denied_first)
next
  case (ok s1 bs1 ls1 a)
  from ok(3) have g1: "a \<noteq> NULL" "pool_ok s1 pool psize bs1 ls1" "{a ..< a + sizeof_array} \<inter> given s bs ls = {}"
    "given s bs ls \<union> {a ..< a + sizeof_array} \<subseteq> given s1 bs1 ls1" "bytes s1 = bytes s" "pmem.more s1 = pmem.more s" by (simp_all add: gives_def)
  note fd = more_fields [OF g1(6)]
  define s2 where "s2 = s1\<lparr>a_nelts := (a_nelts s)(a := 0), a_size := (a_size s)(a := sz), a_nalloc := (a_nalloc s)(a := n), a_pool := (a_pool s)(a := pool)\<rparr>"
  have ok2: "pool_ok s2 pool psize bs1 ls1" using g1(2) by (simp add: s2_def)
  have gv2: "given s2 bs1 ls1 = given s1 bs1 ls1" "foreign s2 bs1 ls1 = foreign s bs ls" "bytes s2 = bytes s"
    using gives_foreign [OF ok(3)] g1(5) by (simp_all add: s2_def)
  have ac: "array_create libc s pool n sz = do {
       (s3, e) \<leftarrow> palloc libc s2 pool (unat sz * unat n);
       Some (s3\<lparr>a_elts := (a_elts s3)(a := e)\<rparr>, if e = NULL then NULL else a) }"
    unfolding s2_def using ok(1) g1(1,6) n(3) by (rule array_create_eq)
  from palloc_result [OF lok ok2, of "unat sz * unat n"] show ?thesis
  proof (cases rule: alloc_resultE)
    case (fail k)
    then have e: "array_create libc s pool n sz = Some (s2\<lparr>mcalls := k, a_elts := (a_elts s2)(a := NULL)\<rparr>, NULL)" by (simp add: ac)
    moreover have "pool_ok (s2\<lparr>mcalls := k, a_elts := (a_elts s2)(a := NULL)\<rparr>) pool psize bs1 ls1"
      "given (s2\<lparr>mcalls := k, a_elts := (a_elts s2)(a := NULL)\<rparr>) bs1 ls1 = given s2 bs1 ls1"
      "foreign (s2\<lparr>mcalls := k, a_elts := (a_elts s2)(a := NULL)\<rparr>) bs1 ls1 = foreign s2 bs1 ls1"
      using ok2 by (simp_all add: same_pool)
    moreover have "denied_either libc s pool psize sizeof_array (unat sz * unat n) k"
      using denied_second [OF ok(1) g1(1)] fail(2) denied_cong [of s2 s1] by (simp add: s2_def)
    ultimately show ?thesis using gv2 g1(4)
      by (intro exI [of _ "s2\<lparr>mcalls := k, a_elts := (a_elts s2)(a := NULL)\<rparr>"] exI [of _ bs1] exI [of _ ls1] exI [of _ NULL]) simp
  next
    case (ok s3 bs3 ls3 e)
    from ok(3) have g3: "e \<noteq> NULL" "pool_ok s3 pool psize bs3 ls3" "{e ..< e + unat sz * unat n} \<inter> given s2 bs1 ls1 = {}"
      "given s2 bs1 ls1 \<union> {e ..< e + unat sz * unat n} \<subseteq> given s3 bs3 ls3" "bytes s3 = bytes s2" "pmem.more s3 = pmem.more s2" by (simp_all add: gives_def)
    note fe = more_fields [OF g3(6)]
    let ?t = "s3\<lparr>a_elts := (a_elts s3)(a := e)\<rparr>"
    have "array_create libc s pool n sz = Some (?t, a)" using ok(1) g3(1) by (simp add: ac)
    moreover have "array_ok ?t a psize bs3 ls3"
      using g3(2,4) n by (simp add: array_ok_def fe s2_def a_cap_def unat_gt_0 word_neq_0_conv)
    moreover have "contents ?t a = []" by (simp add: contents_def a_len_def fe s2_def)
    moreover have "foreign ?t bs3 ls3 = foreign s bs ls" using gives_foreign [OF ok(3)] gv2 by simp
    moreover have "{a ..< a + sizeof_array} \<inter> {a_elts ?t a ..< a_elts ?t a + a_cap ?t a} = {}"
    proof -
      have e: "a_elts ?t a = e" "a_cap ?t a = unat sz * unat n" by (simp_all add: a_cap_def fe s2_def)
      have "{a ..< a + sizeof_array} \<subseteq> given s1 bs1 ls1" using g1(4) by (rule Un_subset_iff [THEN iffD1, THEN conjunct2])
      then show ?thesis using g3(3) unfolding gv2(1) e by (metis disjoint_iff subsetD)
    qed
    moreover have "given s bs ls \<union> {a ..< a + sizeof_array} \<subseteq> given ?t bs3 ls3" using g1(4) g3(4) gv2(1) by auto
    moreover have "bytes ?t = bytes s" using g3(5) gv2(3) by simp
    moreover have "\<forall>b. b \<noteq> a \<longrightarrow> a_elts ?t b = a_elts s b \<and> a_nelts ?t b = a_nelts s b \<and> a_size ?t b = a_size s b
               \<and> a_nalloc ?t b = a_nalloc s b \<and> a_pool ?t b = a_pool s b" by (simp add: fe s2_def fd)
    moreover have "a_pool ?t a = pool" "a_size ?t a = sz" "a_nalloc ?t a = n" by (simp_all add: fe s2_def)
    ultimately show ?thesis using g1(1,3) g3(2)
      by (intro exI [of _ ?t] exI [of _ bs3] exI [of _ ls3] exI [of _ a]) simp
  qed
qed

text \<open>
  \<open>array_destroy\<close> gives the piece of the elements back if it is the last one of the pool's first block,
  and then the array itself if that is the last one.
\<close>

lemma array_destroy_last:
  assumes ok: "array_ok s a psize bs ls"
    and e: "a_elts s a = a + sizeof_array" "a_elts s a + a_cap s a = d_last s (a_pool s a)"
  shows "array_destroy s a = Some (s\<lparr>d_last := (d_last s)(a_pool s a := a)\<rparr>)"
  using e array_okD(4) [OF ok] by (simp add: array_destroy_def array_pool_hdr [OF ok] Let_def)

section \<open>Properties\<close>

text \<open>
  An array of two 4-byte elements, one of them in use, at 4168 in the pool of the example; its elements
  are the last piece of the block.
\<close>

definition array_ex :: amem where
  "array_ex = \<lparr>live = [64 \<mapsto> 16, 4096 \<mapsto> 256, 8192 \<mapsto> 1000], mcalls = 2, bytes = (\<lambda>_. 7), d_last = (\<lambda>_. 4216),
     d_end = (\<lambda>_. 4352), d_next = (\<lambda>_. NULL), d_failed = (\<lambda>_. 0), p_max = (\<lambda>_. 200), p_current = (\<lambda>_. 4096),
     p_large = (\<lambda>_. 4152), l_next = (\<lambda>_. NULL), l_alloc = (\<lambda>_. 8192),
     a_elts = (\<lambda>_. 4208), a_nelts = (\<lambda>_. 2), a_size = (\<lambda>_. 4), a_nalloc = (\<lambda>_. 2), a_pool = (\<lambda>_. 4096)\<rparr>"

lemma array_ex_pool: "pool_ok array_ex 4096 256 [4096] [4152]"
proof -
  have "mem_ok array_ex" by (auto simp: mem_ok_def array_ex_def split: if_splits)
  moreover have "blocks_ok array_ex 4096 256 [4096]"
    by (simp add: blocks_ok_def array_ex_def sizeof_pool_def sizeof_pool_data_def)
  moreover have "larges_ok array_ex 4096 [4096] [4152]"
    by (simp add: larges_ok_def array_ex_def sizeof_pool_large_def sizeof_pool_data_def)
  ultimately show ?thesis by (simp add: pool_ok_def MIN_POOL_SIZE_eq sizeof_pool_def MAX_ALLOC_FROM_POOL_def array_ex_def)
qed

lemma array_ex_ok: "array_ok array_ex 4168 256 [4096] [4152]"
proof -
  have "{4208 ..< 4216} \<subseteq> given array_ex [4096] [4152]" by (auto simp: given_def used_def array_ex_def)
  then show ?thesis using array_ex_pool by (simp add: array_ok_def a_cap_def) (simp add: array_ex_def)
qed

text \<open>C24: \<open>array_push\<close>, with fewer than \<open>2 ^ 31\<close> allocated elements: it returns \<open>NULL\<close> only if the
  array was full and the C library refused the request for twice its bytes, or for the pool block to hold them, and
  the array is then as before; otherwise the array is well formed again, one element longer, its old
  elements are unchanged (also when they moved), and the address returned is that of the new element. No
  byte in use in the pool is overwritten, so every other array of the pool is as before.\<close>

theorem array_push_correct:
  assumes "libc_ok libc" and "array_ok s a psize bs ls" and "unat (a_nalloc s a) < 2 ^ 31"
  shows "push_result libc s a psize bs ls (2 * a_cap s a) 1 (array_push libc s a)"
  using assms by (rule array_push_ok)

theorem array_push_correct_witness:
  "push_result slot_libc array_ex 4168 256 [4096] [4152] (2 * a_cap array_ex 4168) 1 (array_push slot_libc array_ex 4168)
    \<and> map_option snd (array_push slot_libc array_ex 4168) = Some 4216"
  using array_push_correct [OF slot_libc_ok array_ex_ok]
  by (simp add: array_push_def array_grow_def array_ex_def hdr_def Let_def)

text \<open>\<open>array_push_n\<close>, likewise for \<open>n\<close> elements at once, as long as the sizes stay in the range of their
  types.\<close>

theorem array_push_n_correct:
  assumes "libc_ok libc" and "array_ok s a psize bs ls" and "unat (a_nalloc s a) < 2 ^ 31" and "unat n < 2 ^ 31"
    and "unat (a_size s a) * (2 * unat n) < 2 ^ 64"
  shows "push_result libc s a psize bs ls (unat (a_size s a) * (2 * max (unat n) (unat (a_nalloc s a)))) (unat n) (array_push_n libc s a n)"
  using assms by (rule array_push_n_ok)

theorem array_push_n_correct_witness:
  "push_result slot_libc array_ex 4168 256 [4096] [4152] 320 40 (array_push_n slot_libc array_ex 4168 40)"
  using array_push_n_correct [OF slot_libc_ok array_ex_ok, of 40] by (simp add: array_ex_def)

text \<open>\<open>array_destroy\<close> undoes \<open>array_create\<close>. When the pool's first block is current and has room for both pieces, the
  array created is well formed and empty, and destroying it puts the block's \<open>last\<close> back where it was.\<close>

theorem array_destroy_create:
  fixes n :: u32 and sz :: u64
  assumes "pool_ok s pool psize bs ls" and "p_current s pool = pool" and "8 dvd d_last s pool"
    and "0 < n" and "0 < sz" and "unat sz * unat n \<le> p_max s pool" and "40 \<le> p_max s pool"
    and "d_last s pool + 40 + unat sz * unat n \<le> d_end s pool"
  shows "\<exists>s1 s2. array_create libc s pool n sz = Some (s1, d_last s pool) \<and> array_ok s1 (d_last s pool) psize bs ls
    \<and> contents s1 (d_last s pool) = [] \<and> array_destroy s1 (d_last s pool) = Some s2 \<and> d_last s2 = d_last s \<and> live s2 = live s"
proof -
  define a where "a = d_last s pool"
  from assms(1) have bo: "blocks_ok s pool psize bs" by (simp add: pool_ok_def)
  note pb = pool_live [OF bo]
  note bb = blocks_okD [OF bo pb]
  define s1 where "s1 = s\<lparr>d_last := (d_last s)(pool := a + 40)\<rparr>"
  define s2 where "s2 = s1\<lparr>a_nelts := (a_nelts s)(a := 0), a_size := (a_size s)(a := sz), a_nalloc := (a_nalloc s)(a := n), a_pool := (a_pool s)(a := pool)\<rparr>"
  define t where "t = s2\<lparr>d_last := (d_last s2)(pool := a + 40 + unat sz * unat n), a_elts := (a_elts s)(a := a + 40)\<rparr>"
  have ok1: "pool_ok s1 pool psize bs ls" unfolding s1_def
    using assms(8) bb(3) by (intro bump_ok [OF assms(1) pb]) (simp_all add: a_def)
  then have ok2: "pool_ok s2 pool psize bs ls" by (simp add: s2_def)
  have ca: "p_current s1 pool = pool" "p_current s2 pool = pool" "p_max s2 pool = p_max s pool" "d_last s2 pool = a + 40" "d_end s2 pool = d_end s pool"
    using assms(2) by (simp_all add: s1_def s2_def)
  have an: "a \<noteq> NULL" using bb(4) by (simp add: a_def sizeof_pool_data_def)
  have lt: "unat sz * unat n < 2 ^ 64" using assms(6) assms(1) by (simp add: pool_ok_def MAX_ALLOC_FROM_POOL_def split: if_splits)
  have p1: "palloc libc s pool sizeof_array = Some (s1, a)"
    using palloc_here [OF assms(1-2) _ assms(3), of 40 libc] assms(7,8) by (simp add: sizeof_array_def s1_def a_def)
  have "8 dvd a + 40" using assms(3) by (simp add: a_def)
  then have p2: "palloc libc s2 pool (unat sz * unat n) = Some (s2\<lparr>d_last := (d_last s2)(pool := a + 40 + unat sz * unat n)\<rparr>, a + 40)"
    using palloc_here [OF ok2 ca(2), of "unat sz * unat n" libc] assms(6,8) unfolding ca(3-5) by (simp add: a_def)
  have "array_create libc s pool n sz = do {
       (s3, e) \<leftarrow> palloc libc s2 pool (unat sz * unat n);
       Some (s3\<lparr>a_elts := (a_elts s3)(a := e)\<rparr>, if e = NULL then NULL else a) }"
    unfolding s2_def using p1 an _ lt by (rule array_create_eq) (simp add: s1_def)
  moreover have "a_elts s2 = a_elts s" by (simp add: s2_def s1_def)
  ultimately have cr: "array_create libc s pool n sz = Some (t, a)" by (simp add: p2 t_def)
  have us: "used (s2\<lparr>d_last := (d_last s2)(pool := a + 40 + unat sz * unat n)\<rparr>) bs = used s2 bs \<union> {a + 40 ..< a + 40 + unat sz * unat n}"
    using used_bump [OF pb, of s2 "a + 40 + unat sz * unat n"] bb(4) by (simp add: ca(4) a_def)
  have okt: "pool_ok t pool psize bs ls"
    unfolding t_def using assms(8) bb(3) bump_ok [OF ok2 pb, of "a + 40 + unat sz * unat n"] by (simp add: ca(4) a_def)
  have fl: "a_elts t a = a + 40" "a_nelts t a = 0" "a_size t a = sz" "a_nalloc t a = n" "a_pool t a = pool" "d_last t pool = a + 40 + unat sz * unat n"
    by (simp_all add: t_def s2_def s1_def)
  have "used t bs = used (s2\<lparr>d_last := (d_last s2)(pool := a + 40 + unat sz * unat n)\<rparr>) bs" by (simp add: t_def used_def)
  then have "{a + 40 ..< a + 40 + unat sz * unat n} \<subseteq> given t bs ls" using us by (auto simp: given_def)
  then have ao: "array_ok t a psize bs ls"
    using okt assms(4,5) by (simp add: array_ok_def a_cap_def fl unat_gt_0 word_neq_0_conv)
  have "array_destroy t a = Some (t\<lparr>d_last := (d_last t)(a_pool t a := a)\<rparr>)"
    using fl by (intro array_destroy_last [OF ao]) (simp_all add: a_cap_def sizeof_array_def)
  moreover have "d_last t = (d_last s)(pool := a + 40 + unat sz * unat n)" by (simp add: t_def s2_def s1_def)
  then have "d_last (t\<lparr>d_last := (d_last t)(a_pool t a := a)\<rparr>) = d_last s" unfolding fl(5) by (simp add: a_def)
  moreover have "live (t\<lparr>d_last := (d_last t)(a_pool t a := a)\<rparr>) = live s" by (simp add: t_def s2_def s1_def)
  moreover have "contents t a = []" by (simp add: contents_def a_len_def fl)
  ultimately show ?thesis unfolding a_def [symmetric] using cr ao by blast
qed

theorem array_destroy_create_witness:
  "\<exists>s1 s2. array_create slot_libc array_ex 4096 4 8 = Some (s1, 4216) \<and> array_ok s1 4216 256 [4096] [4152]
    \<and> contents s1 4216 = [] \<and> array_destroy s1 4216 = Some s2 \<and> d_last s2 = (\<lambda>_. 4216) \<and> live s2 = [64 \<mapsto> 16, 4096 \<mapsto> 256, 8192 \<mapsto> 1000]"
proof -
  have "d_last array_ex = (\<lambda>_. 4216)" "live array_ex = [64 \<mapsto> 16, 4096 \<mapsto> 256, 8192 \<mapsto> 1000]" "p_current array_ex 4096 = 4096"
    "p_max array_ex 4096 = 200" "d_end array_ex 4096 = 4352" by (simp_all add: array_ex_def)
  note f = this
  have "\<exists>s1 s2. array_create slot_libc array_ex 4096 4 8 = Some (s1, d_last array_ex 4096)
    \<and> array_ok s1 (d_last array_ex 4096) 256 [4096] [4152] \<and> contents s1 (d_last array_ex 4096) = []
    \<and> array_destroy s1 (d_last array_ex 4096) = Some s2 \<and> d_last s2 = d_last array_ex \<and> live s2 = live array_ex"
    by (rule array_destroy_create [OF array_ex_pool]) (simp_all add: f)
  then show ?thesis unfolding f .
qed

text \<open>C36: An array created for zero elements is overrun by a push after something else was taken from the pool.
  Let an array be created for 0 elements in a pool whose first block is current, let a piece of \<open>x > 0\<close> bytes be taken
  next (a multiple of 8, and all sizes below the limit of the pool and the room of the block), so that
  the empty piece of the array is no longer the last one of the block. The push then allocates \<open>2 * 0\<close> bytes,
  \<open>nalloc\<close> stays 0, and the address that it returns and counts as an element is the one that the next
  allocation of any \<open>y\<close> bytes returns too: the element and that piece overlap.\<close>

theorem array_push_zero:
  fixes sz :: u64
  assumes "pool_ok s pool psize bs ls" and "p_current s pool = pool" and "8 dvd d_last s pool"
    and "0 < x" and "8 dvd x" and "x \<le> p_max s pool" and "y \<le> p_max s pool" and "40 \<le> p_max s pool"
    and "d_last s pool + 40 + x + y \<le> d_end s pool"
  shows "\<exists>s1 s2 s3 s4. array_create libc s pool 0 sz = Some (s1, d_last s pool)
    \<and> palloc libc s1 pool x = Some (s2, d_last s pool + 40)
    \<and> array_push libc s2 (d_last s pool) = Some (s3, d_last s pool + 40 + x)
    \<and> a_nelts s3 (d_last s pool) = 1 \<and> a_nalloc s3 (d_last s pool) = 0
    \<and> palloc libc s3 pool y = Some (s4, d_last s pool + 40 + x)"
proof -
  define a where "a = d_last s pool"
  from assms(1) have bo: "blocks_ok s pool psize bs" by (simp add: pool_ok_def)
  note pb = pool_live [OF bo]
  note bb = blocks_okD [OF bo pb]
  define s0 where "s0 = s\<lparr>d_last := (d_last s)(pool := a + 40)\<rparr>"
  define s1 where "s1 = s0\<lparr>a_nelts := (a_nelts s)(a := 0), a_size := (a_size s)(a := sz), a_nalloc := (a_nalloc s)(a := 0),
    a_pool := (a_pool s)(a := pool), a_elts := (a_elts s)(a := a + 40)\<rparr>"
  define s2 where "s2 = s1\<lparr>d_last := (d_last s1)(pool := a + 40 + x)\<rparr>"
  define s3 where "s3 = s2\<lparr>a_elts := (a_elts s2)(a := a + 40 + x), a_nelts := (a_nelts s2)(a := 1)\<rparr>"
  have ok0: "pool_ok s0 pool psize bs ls" unfolding s0_def
    using assms(9) bb(3) by (intro bump_ok [OF assms(1) pb]) (simp_all add: a_def)
  have ok1: "pool_ok s1 pool psize bs ls" using ok0 by (simp add: s1_def)
  have ok2: "pool_ok s2 pool psize bs ls" unfolding s2_def
    using assms(9) bb(3) by (intro bump_ok [OF ok1 pb]) (simp_all add: s1_def s0_def a_def)
  have ok3: "pool_ok s3 pool psize bs ls" using ok2 by (simp add: s3_def)
  have f0: "p_current s0 pool = pool" "p_max s0 pool = p_max s pool" "d_last s0 pool = a + 40" "d_end s0 pool = d_end s pool"
    using assms(2) by (simp_all add: s0_def)
  have f1: "p_current s1 pool = pool" "p_max s1 pool = p_max s pool" "d_last s1 pool = a + 40" "d_end s1 pool = d_end s pool"
    using f0 by (simp_all add: s1_def)
  have f2: "p_current s2 pool = pool" "p_max s2 pool = p_max s pool" "d_last s2 pool = a + 40 + x" "d_end s2 pool = d_end s pool"
    "a_elts s2 a = a + 40" "a_nelts s2 a = 0" "a_nalloc s2 a = 0" "a_pool s2 a = pool"
    using f1 by (simp_all add: s2_def) (simp_all add: s1_def)
  have f3: "p_current s3 pool = pool" "p_max s3 pool = p_max s pool" "d_last s3 pool = a + 40 + x" "d_end s3 pool = d_end s pool"
    using f2 by (simp_all add: s3_def)
  have an: "a \<noteq> NULL" using bb(4) by (simp add: a_def sizeof_pool_data_def)
  have d8: "8 dvd a + 40" "8 dvd a + 40 + x" using assms(3,5) by (simp_all add: a_def)
  have "palloc libc s pool sizeof_array = Some (s0, a)"
    using palloc_here [OF assms(1,2) _ assms(3), of 40 libc] assms(8,9) by (simp add: sizeof_array_def s0_def a_def)
  moreover have "palloc libc (s0\<lparr>a_nelts := g, a_size := h, a_nalloc := g', a_pool := f\<rparr>) pool 0
      = Some ((s0\<lparr>a_nelts := g, a_size := h, a_nalloc := g', a_pool := f\<rparr>)\<lparr>d_last := (d_last s0)(pool := a + 40)\<rparr>, a + 40)" for g h g' f
    using palloc_here [of "s0\<lparr>a_nelts := g, a_size := h, a_nalloc := g', a_pool := f\<rparr>" pool psize bs ls 0 libc]
      ok0 f0 d8(1) assms(9) by (simp add: a_def)
  moreover have "d_last s0 = (d_last s)(pool := a + 40)" by (simp add: s0_def)
  ultimately have cr: "array_create libc s pool 0 sz = Some (s1, a)"
    using an by (simp add: array_create_def array_init_def Let_def) (simp add: s1_def s0_def)
  have pa: "palloc libc s1 pool x = Some (s2, a + 40)"
    using palloc_here [OF ok1 f1(1), of x libc] f1 d8(1) assms(6,9) by (simp add: s2_def a_def)
  have "palloc libc s2 pool 0 = Some (s2\<lparr>d_last := (d_last s2)(pool := a + 40 + x)\<rparr>, a + 40 + x)"
    using palloc_here [OF ok2 f2(1), of 0 libc] f2 d8(2) assms(9) by (simp add: a_def)
  moreover have "s2\<lparr>d_last := (d_last s2)(pool := a + 40 + x)\<rparr> = s2" using f2(3) by (simp add: s2_def)
  moreover have "memcpy s2 (a + 40 + x) (a + 40) 0 = s2"
  proof -
    have "(\<lambda>xa. if a + 40 + x \<le> xa \<and> xa < a + 40 + x + 0 then bytes s2 (a + 40 + (xa - (a + 40 + x))) else bytes s2 xa) = bytes s2"
      by (auto simp: fun_eq_iff)
    then show ?thesis unfolding memcpy_def by simp
  qed
  ultimately have "array_grow libc s2 a = Some (s2\<lparr>a_elts := (a_elts s2)(a := a + 40 + x), a_nalloc := (a_nalloc s2)(a := 0)\<rparr>, True)"
    using f2 assms(4) by (simp add: array_grow_def pool_hdr [OF ok2] Let_def)
  moreover have "(a_nalloc s2)(a := 0) = a_nalloc s2" using f2(7) by (simp add: fun_upd_idem)
  ultimately have pu: "array_push libc s2 a = Some (s3, a + 40 + x)"
    using f2 by (simp add: array_push_def s3_def Let_def)
  have "palloc libc s3 pool y = Some (s3\<lparr>d_last := (d_last s3)(pool := a + 40 + x + y)\<rparr>, a + 40 + x)"
    using palloc_here [OF ok3 f3(1), of y libc] f3 d8(2) assms(7,9) by (simp add: a_def)
  moreover have "a_nelts s3 a = 1" "a_nalloc s3 a = 0" using f2(7) by (simp_all add: s3_def)
  ultimately show ?thesis unfolding a_def [symmetric] using cr pa pu by blast
qed

theorem array_push_zero_witness:
  "\<exists>s1 s2 s3 s4. array_create slot_libc array_ex 4096 0 8 = Some (s1, 4216) \<and> palloc slot_libc s1 4096 16 = Some (s2, 4256)
    \<and> array_push slot_libc s2 4216 = Some (s3, 4272) \<and> a_nelts s3 4216 = 1 \<and> a_nalloc s3 4216 = 0
    \<and> palloc slot_libc s3 4096 24 = Some (s4, 4272)"
  using array_push_zero [OF array_ex_pool, of 16 24 slot_libc 8] by (simp add: array_ex_def)

end
