(* ===== verification/Server.thy ===== *)
theory Server
  imports Posted Shmtx Buf Arrays
begin

text \<open>
  The state that the server code shares (\<^verbatim>\<open>connection.h\<close>, \<^verbatim>\<open>cycle.h\<close>, \<^verbatim>\<open>event.h\<close>, \<^verbatim>\<open>epoll_event.h\<close>) and the system
  calls.

  The operating system is the parameter \<open>os\<close>: what it answers to a system call is a function of the calls made so
  far, the newest first. The state keeps these calls, so that a theorem can speak of what the program
  asked for, and in what order. \<open>interest\<close> computes from them what \<open>epoll_ctl(2)\<close> says the kernel
  has registered: nothing here depends on it except statements.
\<close>

section \<open>System calls\<close>

datatype errno = EAGAIN | EINTR | ECONNABORTED | EMFILE | ENFILE | EADDRINUSE | Other_errno nat

datatype epoll_op = EPOLL_CTL_ADD | EPOLL_CTL_DEL | EPOLL_CTL_MOD

datatype sockopt = SO_REUSEPORT | SO_REUSEADDR | SO_RCVBUF | SO_SNDBUF | SO_KEEPALIVE | SO_SNDLOWAT
  | TCP_KEEPIDLE | TCP_KEEPINTVL | TCP_KEEPCNT | TCP_FASTOPEN | TCP_DEFER_ACCEPT

text \<open>
  A descriptor is a 32-bit word, \<open>NOFD\<close> is -1 (the code keeps it in \<open>int\<close> and \<open>socklen_t\<close> variables). The calls
  carry the arguments the code varies.
\<close>

datatype syscall =
    Sys_epoll_create u32
  | Sys_epoll_ctl u32 epoll_op u32 u32 u64 \<comment> \<open>instance, operation, descriptor, events, data\<close>
  | Sys_epoll_wait u32 int
  | Sys_socketpair
  | Sys_socket nat int \<comment> \<open>family, type\<close>
  | Sys_setsockopt u32 sockopt int \<comment> \<open>descriptor, option, value\<close>
  | Sys_ioctl_nonblocking u32
  | Sys_bind u32 addr u32
  | Sys_listen u32 int
  | Sys_accept u32
  | Sys_close u32
  | Sys_fcntl_getfl u32
  | Sys_fcntl_setfl u32 u32
  | Sys_send u32 addr nat
  | Sys_recv u32 addr nat
  | Sys_getrlimit
  | Sys_mmap nat
  | Sys_sigaction
  | Sys_setitimer u64

text \<open>
  \<open>ans_ret\<close> and \<open>ans_errno\<close> are the result and \<open>errno\<close>; \<open>ans_fd\<close> and \<open>ans_fd2\<close> new descriptors; \<open>ans_events\<close> the array that
  \<open>epoll_wait\<close> fills; \<open>ans_alarm\<close> says that \<open>SIGALRM\<close> arrived during the call, so that its handler ran;
  \<open>ans_clocks\<close> is what the clocks show after it; \<open>ans_socklen\<close> and \<open>ans_bytes\<close> are the address length and
  the bytes stored by \<open>accept\<close> and \<open>recv\<close>; \<open>ans_addr\<close> is what \<open>mmap\<close> returns.
\<close>

record answer =
  ans_ret :: int
  ans_errno :: errno
  ans_fd :: u32
  ans_fd2 :: u32
  ans_events :: "nat \<Rightarrow> u32 \<times> u64"
  ans_alarm :: bool
  ans_clocks :: clocks
  ans_socklen :: u32
  ans_bytes :: "nat \<Rightarrow> u8"
  ans_addr :: addr

type_synonym os = "syscall list \<Rightarrow> answer"

definition NOFD :: u32 where "NOFD = - 1"

text \<open>
  What the epoll instance \<open>e\<close> watches, from the calls and their answers: \<open>epoll_ctl\<close> registers events and data for a
  descriptor, and \<open>close\<close> of a descriptor ends its registration.
\<close>

fun interest :: "os \<Rightarrow> u32 \<Rightarrow> syscall list \<Rightarrow> u32 \<Rightarrow> (u32 \<times> u64) option" where
  "interest os e [] = (\<lambda>_. None)"
| "interest os e (Sys_epoll_ctl e' op fd events data # cs) =
     (if e' \<noteq> e \<or> ans_ret (os (Sys_epoll_ctl e' op fd events data # cs)) = - 1 then interest os e cs
      else if op = EPOLL_CTL_DEL then (interest os e cs)(fd := None)
      else (interest os e cs)(fd := Some (events, data)))"
| "interest os e (Sys_close fd # cs) = (if fd = e then (\<lambda>_. None) else (interest os e cs)(fd := None))"
| "interest os e (c # cs) = interest os e cs"

section \<open>Connections and listening sockets\<close>

record connection =
  c_data :: addr
  c_read :: addr
  c_write :: addr
  c_fd :: u32
  c_recv :: nat
  c_send :: nat
  c_listening :: addr
  c_sent :: u64
  c_pool :: addr
  c_type :: int
  c_sockaddr :: addr
  c_socklen :: u32
  c_udp :: addr
  c_local_sockaddr :: addr
  c_local_socklen :: u32
  c_buffer :: addr
  c_number :: u64
  c_requests :: u64
  c_buffered :: u8
  c_timedout :: bool
  c_error :: bool
  c_destroyed :: bool
  c_idle :: bool
  c_reusable :: bool
  c_close :: bool
  c_shared :: bool
  c_sendfile :: bool
  c_sndlowat :: bool
  c_tcp_nodelay :: nat
  c_tcp_nopush :: nat
  c_need_last_buf :: bool

definition conn_queue_offset :: nat where "conn_queue_offset = 128"
definition sizeof_connection :: nat where "sizeof_connection = 168"
definition sizeof_event :: nat where "sizeof_event = 88"

text \<open>\<open>&c->queue\<close> and the way back.\<close>

definition conn_queue :: "addr \<Rightarrow> addr" where "conn_queue c = c + conn_queue_offset"
definition queue_conn :: "addr \<Rightarrow> addr" where "queue_conn q = q - conn_queue_offset"

lemma queue_conn_conn_queue [simp]: "queue_conn (conn_queue c) = c"
  by (simp add: queue_conn_def conn_queue_def)

lemma conn_queue_inj [simp]: "conn_queue a = conn_queue b \<longleftrightarrow> a = b"
  by (simp add: conn_queue_def)

lemma conn_queue_nonnull [simp]: "conn_queue a \<noteq> NULL"
  by (simp add: conn_queue_def conn_queue_offset_def)

text \<open>The \<open>rbtree\<close> and \<open>sentinel\<close> fields of \<open>listening_t\<close> are used by no function and left out.\<close>

record listening =
  ls_fd :: u32
  ls_sockaddr :: addr
  ls_socklen :: u32
  ls_type :: int
  ls_backlog :: int
  ls_rcvbuf :: int
  ls_sndbuf :: int
  ls_keepidle :: int
  ls_keepintvl :: int
  ls_keepcnt :: int
  ls_handler :: nat
  ls_servers :: addr
  ls_pool_size :: u64
  ls_post_accept_buffer_size :: u64
  ls_post_accept_timeout :: u64
  ls_previous :: addr
  ls_connection :: addr
  ls_worker :: u32
  ls_open :: bool
  ls_remain :: bool
  ls_ignore :: bool
  ls_nonblocking_accept :: bool
  ls_listen :: bool
  ls_nonblocking :: bool
  ls_shared :: bool
  ls_reuseport :: bool
  ls_add_reuseport :: bool
  ls_keepalive :: nat
  ls_deferred_accept :: bool
  ls_delete_deferred :: bool
  ls_add_deferred :: bool
  ls_fastopen :: int

section \<open>The state\<close>

text \<open>
  The fields of \<open>cycle_t\<close> (there is one, behind the global \<open>cycle\<close>), the globals of event.c and event\_posted.c, the
  static variables of epoll\_event.c, the shared counters and the memory pools. \<open>files\<close> is \<open>None\<close>
  for \<open>NULL\<close>. \<open>posted_accept_events\<close>, \<open>posted_events\<close> and \<open>reusable_queue\<close> are the addresses of the queue heads.
  \<open>accept_disabled\<close> is an \<open>int32_t\<close>, read with \<open>sint\<close>. \<open>use_epoll_rdhup\<close> is the copy of epoll\_event.c.
\<close>

record server = events +
  conns :: "addr \<Rightarrow> connection"
  cqueues :: qheap
  listens :: "addr \<Rightarrow> listening"
  cycle_pool :: addr
  files :: "(u32 \<Rightarrow> addr) option"
  files_n :: u32
  free_connections :: addr
  free_connection_n :: u32
  reusable_queue :: addr
  reusable_connections_n :: u32
  cycle_listening :: addr
  connection_n :: u32
  connections :: addr
  read_events :: addr
  write_events :: addr
  posted_accept_events :: addr
  posted_events :: addr
  timer_resolution :: u64
  event_timer_alarm :: bool
  accept_mutex :: shmtx
  accept_mutex_ptr :: addr
  use_accept_mutex :: bool
  accept_events :: u32
  accept_mutex_held :: bool
  accept_mutex_delay :: u64
  accept_disabled :: u32
  connection_counter :: addr
  stat_accepted :: addr
  stat_handled :: addr
  stat_requests :: addr
  stat_active :: addr
  stat_reading :: addr
  stat_writing :: addr
  stat_waiting :: addr
  words :: words
  pid :: u64
  ep :: u32
  event_list :: addr
  nevents :: u32
  use_epoll_rdhup :: u32
  mem :: bmem
  calls :: "syscall list"

definition get_conn :: "'a server_scheme \<Rightarrow> addr \<Rightarrow> connection option" where
  "get_conn w c = deref c (conns w c)"

definition upd_conn :: "'a server_scheme \<Rightarrow> addr \<Rightarrow> (connection \<Rightarrow> connection) \<Rightarrow> 'a server_scheme option" where
  "upd_conn w c f = deref c (w\<lparr>conns := (conns w)(c := f (conns w c))\<rparr>)"

definition get_ls :: "'a server_scheme \<Rightarrow> addr \<Rightarrow> listening option" where
  "get_ls w l = deref l (listens w l)"

definition upd_ls :: "'a server_scheme \<Rightarrow> addr \<Rightarrow> (listening \<Rightarrow> listening) \<Rightarrow> 'a server_scheme option" where
  "upd_ls w l f = deref l (w\<lparr>listens := (listens w)(l := f (listens w l))\<rparr>)"

text \<open>A system call: it is recorded and the kernel answers.\<close>

definition sys :: "os \<Rightarrow> syscall \<Rightarrow> 'a server_scheme \<Rightarrow> 'a server_scheme \<times> answer" where
  "sys os c w = (w\<lparr>calls := c # calls w\<rparr>, os (c # calls w))"

text \<open>The memory that \<open>memset\<close> clears includes the nodes embedded in an event and in a connection.\<close>

definition event_zero :: event where
  "event_zero = \<lparr>ev_data = 0, ev_write = False, ev_accept = False, ev_instance = False, ev_active = False,
     ev_disabled = False, ev_ready = False, ev_oneshot = False, ev_complete = False, ev_eof = False,
     ev_error = False, ev_timedout = False, ev_timer_set = False, ev_delayed = False,
     ev_deferred_accept = False, ev_pending_eof = False, ev_posted = False, ev_closed = False,
     ev_channel = False, ev_resolver = False, ev_cancelable = False, ev_available = False,
     ev_handler = 0, ev_index = 0\<rparr>"

definition connection_zero :: connection where
  "connection_zero = \<lparr>c_data = 0, c_read = 0, c_write = 0, c_fd = 0, c_recv = 0, c_send = 0, c_listening = 0, c_sent = 0,
     c_pool = 0, c_type = 0, c_sockaddr = 0, c_socklen = 0, c_udp = 0, c_local_sockaddr = 0, c_local_socklen = 0,
     c_buffer = 0, c_number = 0, c_requests = 0, c_buffered = 0, c_timedout = False, c_error = False,
     c_destroyed = False, c_idle = False, c_reusable = False, c_close = False, c_shared = False, c_sendfile = False,
     c_sndlowat = False, c_tcp_nodelay = 0, c_tcp_nopush = 0, c_need_last_buf = False\<rparr>"

definition clear_node :: "qheap \<Rightarrow> addr \<Rightarrow> qheap" where
  "clear_node s q = s\<lparr>q_prev := (q_prev s)(q := NULL), q_next := (q_next s)(q := NULL)\<rparr>"

definition clear_tree_node :: "rbtree \<Rightarrow> addr \<Rightarrow> rbtree" where
  "clear_tree_node t n = t\<lparr>rb_left := (rb_left t)(n := NULL), rb_right := (rb_right t)(n := NULL),
     rb_parent := (rb_parent t)(n := NULL), rb_key := (rb_key t)(n := 0), rb_color := (rb_color t)(n := 0)\<rparr>"

definition memset_event :: "'a events_scheme \<Rightarrow> addr \<Rightarrow> 'a events_scheme option" where
  "memset_event w ev = deref ev (w\<lparr>evs := (evs w)(ev := event_zero),
     event_timer_rbtree := clear_tree_node (event_timer_rbtree w) (ev_timer ev),
     equeues := clear_node (equeues w) (ev_queue ev)\<rparr>)"

definition memset_connection :: "'a server_scheme \<Rightarrow> addr \<Rightarrow> 'a server_scheme option" where
  "memset_connection w c = deref c (w\<lparr>conns := (conns w)(c := connection_zero),
     cqueues := clear_node (cqueues w) (conn_queue c)\<rparr>)"

text \<open>A call whose result the code does not use.\<close>

definition sys_ignore :: "os \<Rightarrow> syscall \<Rightarrow> 'a server_scheme \<Rightarrow> 'a server_scheme" where
  "sys_ignore os c w = fst (sys os c w)"

section \<open>Clearing memory that no structure uses\<close>

lemma clear_node_same: "same_outside {q} s (clear_node s q)"
  by (auto simp: same_outside_def clear_node_def)

lemma clear_node_list: "queue_list s h xs \<Longrightarrow> q \<notin> set (h # xs) \<Longrightarrow> queue_list (clear_node s q) h xs"
  using queue_list_frame [OF clear_node_same [of q s], of h xs] by auto

lemma tree_at_clear: "n \<notin> set (inorder t) \<Longrightarrow> tree_at (clear_tree_node s n) t q par = tree_at s t q par"
  by (induction t arbitrary: q par) (auto simp: clear_tree_node_def)

lemma rbtree_holds_clear:
  assumes "rbtree_holds s xs" and "n \<notin> set xs" and "n \<noteq> rb_sentinel s"
  shows "rbtree_holds (clear_tree_node s n) xs"
proof -
  from assms(1) obtain t where t: "rbtree_ok s t" "inorder t = xs" by (auto simp: rbtree_holds_def)
  have "rb_root s \<noteq> n"
  proof (cases t)
    case Leaf
    then show ?thesis using t(1) assms(3) by (auto simp: rbtree_ok_def rep_def)
  next
    case (Node l a c r)
    then show ?thesis using t assms(2) by (auto simp: rbtree_ok_def rep_def)
  qed
  then have "rep (clear_tree_node s n) t"
    using t assms by (simp add: rbtree_ok_def rep_def sentinel_ok_def tree_at_clear) (auto simp: clear_tree_node_def tree_at_clear)
  then show ?thesis using t by (auto simp: rbtree_holds_def rbtree_ok_def)
qed

lemma rbtree_sorted_clear: "n \<notin> set xs \<Longrightarrow> rbtree_sorted b (clear_tree_node s n) xs = rbtree_sorted b s xs"
  by (intro rbtree_sorted_cong) (auto simp: clear_tree_node_def)

lemma timers_memset:
  assumes tm: "timers base w evl" and ev: "ev \<notin> set evl" "ev_timer ev \<noteq> event_timer_sentinel w"
  shows "timers base (w\<lparr>evs := (evs w)(ev := event_zero), event_timer_rbtree := clear_tree_node (event_timer_rbtree w) (ev_timer ev),
    equeues := qs\<rparr>) evl"
proof -
  have n: "ev_timer ev \<notin> set (map ev_timer evl)" using ev by auto
  have "rbtree_holds (clear_tree_node (event_timer_rbtree w) (ev_timer ev)) (map ev_timer evl)"
    using rbtree_holds_clear [OF _ n] tm ev by (simp add: timers_def)
  then show ?thesis using tm ev rbtree_sorted_clear [OF n]
    by (simp add: timers_def event_zero_def) (simp add: clear_tree_node_def)
qed

lemma posted_memset:
  assumes p: "posted w q xs q' ys" and ev: "ev \<notin> set xs \<union> set ys" "ev_queue ev \<noteq> q" "ev_queue ev \<noteq> q'"
  shows "posted (w\<lparr>evs := (evs w)(ev := event_zero), event_timer_rbtree := t, equeues := clear_node (equeues w) (ev_queue ev)\<rparr>) q xs q' ys"
proof -
  have "queue_list (clear_node (equeues w) (ev_queue ev)) q (map ev_queue xs)"
    "queue_list (clear_node (equeues w) (ev_queue ev)) q' (map ev_queue ys)"
    using p ev by (auto simp: posted_def intro!: clear_node_list)
  then show ?thesis using p ev by (simp add: posted_def event_zero_def)
qed

end
