(* ===== verification/Epoll.thy ===== *)
theory Epoll
  imports Server
begin

unbundle bit_operations_syntax

text \<open>
  The event module \<^verbatim>\<open>src/epoll_event.c\<close>: registering and removing events and connections with the kernel, and
  one round of \<open>epoll_wait\<close>.
\<close>

section \<open>The operations\<close>

definition EPOLLIN :: u32 where "EPOLLIN = 0x1"
definition EPOLLOUT :: u32 where "EPOLLOUT = 0x4"
definition EPOLLERR :: u32 where "EPOLLERR = 0x8"
definition EPOLLHUP :: u32 where "EPOLLHUP = 0x10"
definition EPOLLRDHUP :: u32 where "EPOLLRDHUP = 0x2000"
definition EPOLLET :: u32 where "EPOLLET = 0x80000000"
definition READ_EVENT :: u32 where "READ_EVENT = EPOLLIN OR EPOLLRDHUP"
definition WRITE_EVENT :: u32 where "WRITE_EVENT = EPOLLOUT"
definition CLEAR_EVENT :: u32 where "CLEAR_EVENT = EPOLLET"
definition LOWAT_EVENT :: u32 where "LOWAT_EVENT = 0"
definition CLOSE_EVENT :: u32 where "CLOSE_EVENT = 1"
definition UPDATE_TIME :: u32 where "UPDATE_TIME = 1"
definition POST_EVENTS :: u32 where "POST_EVENTS = 2"
definition EPOLL_EVENTS :: u32 where "EPOLL_EVENTS = 1024"
definition sizeof_epoll_event :: nat where "sizeof_epoll_event = 12"

text \<open>\<open>(uintptr_t)c | ev->instance\<close> and the two ways to read it.\<close>

definition tag :: "addr \<Rightarrow> bool \<Rightarrow> u64" where
  "tag c i = of_nat c OR of_bool i"

definition tag_instance :: "u64 \<Rightarrow> u64" where
  "tag_instance d = d AND 1"

definition tag_conn :: "u64 \<Rightarrow> addr" where
  "tag_conn d = unat (d AND NOT 1)"

text \<open>
  The two preprocessor conditionals of \<open>epoll_add_event\<close> are not taken: \<open>EPOLLIN\<close> and its companions are macros that expand to
  themselves, so the preprocessor reads both sides of the comparisons as 0. \<open>events\<close> stays the caller's value, and
  \<open>HAVE_EPOLLEXCLUSIVE\<close> is not defined.
\<close>

definition epoll_add_event :: "os \<Rightarrow> 'a server_scheme \<Rightarrow> addr \<Rightarrow> u32 \<Rightarrow> u32 \<Rightarrow> ('a server_scheme \<times> int) option" where
  "epoll_add_event os w ev event flags = do {
     v \<leftarrow> get_event w ev;
     let c = ev_data v;
     k \<leftarrow> get_conn w c;
     let events = event;
     let (e, prev) = (if event = READ_EVENT then (c_write k, EPOLLOUT) else (c_read k, EPOLLIN OR EPOLLRDHUP));
     other \<leftarrow> get_event w e;
     let (opr, events) = (if ev_active other then (EPOLL_CTL_MOD, events OR prev) else (EPOLL_CTL_ADD, events));
     let (w, a) = sys os (Sys_epoll_ctl (ep w) opr (c_fd k) (events OR flags) (tag c (ev_instance v))) w;
     if ans_ret a = - 1 then Some (w, - 1)
     else do {
       w \<leftarrow> upd_event w ev (\<lambda>e. e\<lparr>ev_active := True\<rparr>);
       Some (w, 0) } }"

definition epoll_del_event :: "os \<Rightarrow> 'a server_scheme \<Rightarrow> addr \<Rightarrow> u32 \<Rightarrow> u32 \<Rightarrow> ('a server_scheme \<times> int) option" where
  "epoll_del_event os w ev event flags =
     (if flags AND CLOSE_EVENT \<noteq> 0 then do {
        w \<leftarrow> upd_event w ev (\<lambda>e. e\<lparr>ev_active := False\<rparr>);
        Some (w, 0) }
      else do {
        v \<leftarrow> get_event w ev;
        let c = ev_data v;
        k \<leftarrow> get_conn w c;
        let (e, prev) = (if event = READ_EVENT then (c_write k, EPOLLOUT) else (c_read k, EPOLLIN OR EPOLLRDHUP));
        other \<leftarrow> get_event w e;
        let (opr, events, data) = (if ev_active other then (EPOLL_CTL_MOD, prev OR flags, tag c (ev_instance v))
          else (EPOLL_CTL_DEL, 0, 0));
        let (w, a) = sys os (Sys_epoll_ctl (ep w) opr (c_fd k) events data) w;
        if ans_ret a = - 1 then Some (w, - 1)
        else do {
          w \<leftarrow> upd_event w ev (\<lambda>e. e\<lparr>ev_active := False\<rparr>);
          Some (w, 0) } })"

definition epoll_add_connection :: "os \<Rightarrow> 'a server_scheme \<Rightarrow> addr \<Rightarrow> ('a server_scheme \<times> int) option" where
  "epoll_add_connection os w c = do {
     k \<leftarrow> get_conn w c;
     r \<leftarrow> get_event w (c_read k);
     let (w, a) = sys os (Sys_epoll_ctl (ep w) EPOLL_CTL_ADD (c_fd k)
       (EPOLLIN OR EPOLLOUT OR EPOLLET OR EPOLLRDHUP) (tag c (ev_instance r))) w;
     if ans_ret a = - 1 then Some (w, 0)
     else do {
       w \<leftarrow> upd_event w (c_read k) (\<lambda>e. e\<lparr>ev_active := True\<rparr>);
       w \<leftarrow> upd_event w (c_write k) (\<lambda>e. e\<lparr>ev_active := True\<rparr>);
       Some (w, 0) } }"

definition epoll_del_connection :: "os \<Rightarrow> 'a server_scheme \<Rightarrow> addr \<Rightarrow> u32 \<Rightarrow> ('a server_scheme \<times> int) option" where
  "epoll_del_connection os w c flags = do {
     k \<leftarrow> get_conn w c;
     if flags AND CLOSE_EVENT \<noteq> 0 then do {
       w \<leftarrow> upd_event w (c_read k) (\<lambda>e. e\<lparr>ev_active := False\<rparr>);
       w \<leftarrow> upd_event w (c_write k) (\<lambda>e. e\<lparr>ev_active := False\<rparr>);
       Some (w, 0) }
     else do {
       let (w, a) = sys os (Sys_epoll_ctl (ep w) EPOLL_CTL_DEL (c_fd k) 0 0) w;
       if ans_ret a = - 1 then Some (w, - 1)
       else do {
         w \<leftarrow> upd_event w (c_read k) (\<lambda>e. e\<lparr>ev_active := False\<rparr>);
         w \<leftarrow> upd_event w (c_write k) (\<lambda>e. e\<lparr>ev_active := False\<rparr>);
         Some (w, 0) } } }"

text \<open>The body of the loop over the reported events: \<open>continue\<close> is the end of the computation.\<close>

definition stale :: "'a server_scheme \<Rightarrow> addr \<Rightarrow> connection \<Rightarrow> u64 \<Rightarrow> bool option" where
  "stale w ev k inst = (if c_fd k = NOFD then Some True else do { e \<leftarrow> get_event w ev; Some (of_bool (ev_instance e) \<noteq> inst) })"

definition error_events :: "u32 \<Rightarrow> u32" where
  "error_events revents = (if revents AND (EPOLLERR OR EPOLLHUP) \<noteq> 0 then revents OR (EPOLLIN OR EPOLLOUT) else revents)"

definition deliver_read :: "'a server_ext caller \<Rightarrow> u32 \<Rightarrow> addr \<Rightarrow> u32 \<Rightarrow> 'a server_scheme \<Rightarrow> 'a server_scheme option" where
  "deliver_read call flags rv revents w = do {
     r \<leftarrow> get_event w rv;
     if revents AND EPOLLIN \<noteq> 0 \<and> ev_active r then do {
       w \<leftarrow> upd_event w rv (\<lambda>e. e\<lparr>ev_ready := True\<rparr>);
       w \<leftarrow> (if revents AND EPOLLRDHUP \<noteq> 0 then upd_event w rv (\<lambda>e. e\<lparr>ev_pending_eof := True\<rparr>) else Some w);
       w \<leftarrow> upd_event w rv (\<lambda>e. e\<lparr>ev_available := True\<rparr>);
       r \<leftarrow> get_event w rv;
       if flags AND POST_EVENTS \<noteq> 0
       then post_event w rv (if ev_accept r then posted_accept_events w else posted_events w)
       else call (ev_handler r) rv w }
     else Some w }"

definition deliver_write :: "'a server_ext caller \<Rightarrow> u32 \<Rightarrow> addr \<Rightarrow> u64 \<Rightarrow> u32 \<Rightarrow> 'a server_scheme \<Rightarrow> 'a server_scheme option" where
  "deliver_write call flags c inst revents w = do {
     k \<leftarrow> get_conn w c;
     let wev = c_write k;
     if revents AND EPOLLOUT \<noteq> 0 then do {
       e \<leftarrow> get_event w wev;
       if ev_active e then do {
         st \<leftarrow> stale w wev k inst;
         if st then Some w
         else do {
           w \<leftarrow> upd_event w wev (\<lambda>e. e\<lparr>ev_ready := True\<rparr>);
           e \<leftarrow> get_event w wev;
           if flags AND POST_EVENTS \<noteq> 0 then post_event w wev (posted_events w)
           else call (ev_handler e) wev w } }
       else Some w }
     else Some w }"

definition epoll_process_event :: "'a server_ext caller \<Rightarrow> u32 \<Rightarrow> 'a server_scheme \<Rightarrow> u32 \<times> u64 \<Rightarrow> 'a server_scheme option" where
  "epoll_process_event call flags w e = do {
     let inst = tag_instance (snd e);
     let c = tag_conn (snd e);
     k \<leftarrow> get_conn w c;
     let rv = c_read k;
     st \<leftarrow> stale w rv k inst;
     if st then Some w
     else do {
       let revents = error_events (fst e);
       w \<leftarrow> deliver_read call flags rv revents w;
       deliver_write call flags c inst revents w } }"

primrec epoll_process_list :: "'a server_ext caller \<Rightarrow> u32 \<Rightarrow> (u32 \<times> u64) list \<Rightarrow> 'a server_scheme \<Rightarrow> 'a server_scheme option" where
  "epoll_process_list call flags [] w = Some w"
| "epoll_process_list call flags (e # es) w = do {
     w \<leftarrow> epoll_process_event call flags w e;
     epoll_process_list call flags es w }"

text \<open>
  One round; \<open>timer\<close> is converted to the \<open>int\<close> parameter of \<open>epoll_wait\<close>. The signal handler of event.c only sets \<open>event_timer_alarm\<close>; it runs during the wait when the
  kernel says so.
\<close>

definition timer_signal_handler :: "'a server_scheme \<Rightarrow> 'a server_scheme" where
  "timer_signal_handler w = w\<lparr>event_timer_alarm := True\<rparr>"

definition epoll_process_events :: "os \<Rightarrow> 'a server_ext caller \<Rightarrow> 'a server_scheme \<Rightarrow> u64 \<Rightarrow> u32 \<Rightarrow> ('a server_scheme \<times> int) option" where
  "epoll_process_events os call w timer flags = do {
     let (w, a) = sys os (Sys_epoll_wait (ep w) (sint (ucast timer :: u32))) w;
     let w = (if ans_alarm a then timer_signal_handler w else w);
     let events = ans_ret a;
     let w = (if flags AND UPDATE_TIME \<noteq> 0 \<or> event_timer_alarm w then stime_update (ans_clocks a) w else w);
     if events = - 1
     then (if ans_errno a = EINTR \<and> event_timer_alarm w then Some (w\<lparr>event_timer_alarm := False\<rparr>, 0) else Some (w, - 1))
     else if events = 0 then (if timer \<noteq> TIMER_INFINITE then Some (w, 0) else Some (w, - 1))
     else do {
       w \<leftarrow> epoll_process_list call flags (map (ans_events a) [0 ..< nat events]) w;
       Some (w, 0) } }"

text \<open>
  \<open>epoll_test_rdhup\<close> probes the kernel with a socket pair; the events of its variable \<open>ee\<close> are those of the first
  reported event, or its own when none is. \<open>s[1]\<close> is closed once.
\<close>

definition epoll_test_rdhup :: "os \<Rightarrow> 'a server_scheme \<Rightarrow> 'a server_scheme" where
  "epoll_test_rdhup os w =
    (let (w, a) = sys os Sys_socketpair w
     in if ans_ret a = - 1 then w
     else let s0 = ans_fd a; s1 = ans_fd2 a;
              (w, r) = sys os (Sys_epoll_ctl (ep w) EPOLL_CTL_ADD s0 (EPOLLET OR EPOLLIN OR EPOLLRDHUP) 0) w
          in if ans_ret r = - 1
             then let w = (if s1 \<noteq> NOFD then sys_ignore os (Sys_close s1) w else w)
                  in sys_ignore os (Sys_close s0) w
             else let (w, r) = sys os (Sys_close s1) w
                  in if ans_ret r = - 1 then sys_ignore os (Sys_close s0) w
                  else let (w, r) = sys os (Sys_epoll_wait (ep w) 5000) w
                       in if ans_ret r = - 1 then sys_ignore os (Sys_close s0) w
                       else let w = (if ans_ret r \<noteq> 0
                              then w\<lparr>use_epoll_rdhup := fst (ans_events r 0) AND EPOLLRDHUP\<rparr> else w)
                            in sys_ignore os (Sys_close s0) w)"

definition epoll_init :: "os \<Rightarrow> libc \<Rightarrow> 'a server_scheme \<Rightarrow> ('a server_scheme \<times> int) option" where
  "epoll_init os libc w = do {
     let (w, ok) = (if ep w = NOFD
       then let (w, a) = sys os (Sys_epoll_create (connection_n w div 2)) w;
                w = w\<lparr>ep := (if ans_ret a = - 1 then NOFD else ans_fd a)\<rparr>
            in if ep w = NOFD then (w, False) else (epoll_test_rdhup os w, True)
       else (w, True));
     if \<not> ok then Some (w, - 1)
     else do {
       r \<leftarrow> (if nevents w < EPOLL_EVENTS
         then do {
           m \<leftarrow> (if event_list w \<noteq> NULL then libc_free (mem w) (event_list w) else Some (mem w));
           let (m, p) = alloc libc m (sizeof_epoll_event * unat EPOLL_EVENTS);
           Some (w\<lparr>mem := m, event_list := p\<rparr>, p \<noteq> NULL) }
         else Some (w, True));
       let (w, ok) = r;
       if \<not> ok then Some (w, - 1) else Some (w\<lparr>nevents := EPOLL_EVENTS\<rparr>, 0) } }"

definition epoll_done :: "os \<Rightarrow> 'a server_scheme \<Rightarrow> 'a server_scheme option" where
  "epoll_done os w = do {
     let w = sys_ignore os (Sys_close (ep w)) w;
     let w = w\<lparr>ep := NOFD\<rparr>;
     m \<leftarrow> libc_free (mem w) (event_list w);
     Some (w\<lparr>mem := m, event_list := NULL, nevents := 0\<rparr>) }"

end
