(* ===== verification/Connection.thy ===== *)
theory Connection
  imports Epoll
begin

text \<open>
  Connections and listening sockets: \<^verbatim>\<open>src/connection.c\<close>. Free connections form a list through their \<open>data\<close>
  field; reusable ones a queue, the most recently used first, from whose end \<open>drain_connections\<close> takes.
\<close>

section \<open>The operations\<close>

text \<open>
  The table \<open>files\<close>: an index out of it is undefined. \<open>get_connection\<close> indexes with an \<open>int\<close>.
\<close>

definition free_connection :: "'a server_scheme \<Rightarrow> addr \<Rightarrow> 'a server_scheme option" where
  "free_connection w c = do {
     w \<leftarrow> upd_conn w c (\<lambda>k. k\<lparr>c_data := free_connections w\<rparr>);
     let w = w\<lparr>free_connections := c\<rparr>;
     let w = w\<lparr>free_connection_n := free_connection_n w + 1\<rparr>;
     k \<leftarrow> get_conn w c;
     (case files w of
        None \<Rightarrow> Some w
      | Some f \<Rightarrow> if c_fd k \<ge> files_n w then None
          else if f (c_fd k) = c then Some (w\<lparr>files := Some (f(c_fd k := NULL))\<rparr>) else Some w) }"

definition reusable_connection :: "'a server_scheme \<Rightarrow> addr \<Rightarrow> u32 \<Rightarrow> 'a server_scheme option" where
  "reusable_connection w c reusable = do {
     k \<leftarrow> get_conn w c;
     w \<leftarrow> (if c_reusable k then do {
         qs \<leftarrow> queue_remove (cqueues w) (conn_queue c);
         Some (w\<lparr>cqueues := qs, reusable_connections_n := reusable_connections_n w - 1\<rparr>) }
       else Some w);
     w \<leftarrow> upd_conn w c (\<lambda>k. k\<lparr>c_reusable := bit reusable 0\<rparr>);
     if reusable \<noteq> 0 then do {
       qs \<leftarrow> queue_insert_head (cqueues w) (reusable_queue w) (conn_queue c);
       Some (w\<lparr>cqueues := qs, reusable_connections_n := reusable_connections_n w + 1\<rparr>) }
     else Some w }"

definition close_connection :: "os \<Rightarrow> 'a server_scheme \<Rightarrow> addr \<Rightarrow> 'a server_scheme option" where
  "close_connection os w c = do {
     k \<leftarrow> get_conn w c;
     if c_fd k = NOFD then Some w
     else do {
       r \<leftarrow> get_event w (c_read k);
       w \<leftarrow> (if ev_timer_set r then event_del_timer w (c_read k) else Some w);
       e \<leftarrow> get_event w (c_write k);
       w \<leftarrow> (if ev_timer_set e then event_del_timer w (c_write k) else Some w);
       w \<leftarrow> (if \<not> c_shared k then do { (w, _) \<leftarrow> epoll_del_connection os w c CLOSE_EVENT; Some w } else Some w);
       r \<leftarrow> get_event w (c_read k);
       w \<leftarrow> (if ev_posted r then delete_posted_event w (c_read k) else Some w);
       e \<leftarrow> get_event w (c_write k);
       w \<leftarrow> (if ev_posted e then delete_posted_event w (c_write k) else Some w);
       w \<leftarrow> upd_event w (c_read k) (\<lambda>e. e\<lparr>ev_closed := True\<rparr>);
       w \<leftarrow> upd_event w (c_write k) (\<lambda>e. e\<lparr>ev_closed := True\<rparr>);
       w \<leftarrow> reusable_connection w c 0;
       w \<leftarrow> free_connection w c;
       k \<leftarrow> get_conn w c;
       let fd = c_fd k;
       w \<leftarrow> upd_conn w c (\<lambda>k. k\<lparr>c_fd := NOFD\<rparr>);
       Some (sys_ignore os (Sys_close fd) w) } }"

text \<open>The macros \<open>c_max\<close> and \<open>c_min\<close> on \<open>uint32_t\<close>.\<close>

definition c_max :: "u32 \<Rightarrow> u32 \<Rightarrow> u32" where "c_max a b = (if a < b then b else a)"
definition c_min :: "u32 \<Rightarrow> u32 \<Rightarrow> u32" where "c_min a b = (if a > b then b else a)"

primrec drain_loop :: "'a server_ext caller \<Rightarrow> nat \<Rightarrow> 'a server_scheme \<Rightarrow> 'a server_scheme option" where
  "drain_loop call 0 w = Some w"
| "drain_loop call (Suc n) w = do {
     empty \<leftarrow> queue_empty (cqueues w) (reusable_queue w);
     if empty then Some w
     else do {
       q \<leftarrow> queue_last (cqueues w) (reusable_queue w);
       let c = queue_conn q;
       w \<leftarrow> upd_conn w c (\<lambda>k. k\<lparr>c_close := True\<rparr>);
       k \<leftarrow> get_conn w c;
       r \<leftarrow> get_event w (c_read k);
       w \<leftarrow> call (ev_handler r) (c_read k) w;
       drain_loop call n w } }"

definition drain_connections :: "'a server_ext caller \<Rightarrow> 'a server_scheme \<Rightarrow> 'a server_scheme option" where
  "drain_connections call w =
    (let n = c_max (c_min 32 (reusable_connections_n w div 8)) 1 in drain_loop call (unat n) w)"

definition get_connection :: "'a server_ext caller \<Rightarrow> 'a server_scheme \<Rightarrow> u32 \<Rightarrow> ('a server_scheme \<times> addr) option" where
  "get_connection call w s =
    (if files w \<noteq> None \<and> s \<ge> files_n w then Some (w, NULL)
     else do {
       let c = free_connections w;
       w \<leftarrow> (if c = NULL then drain_connections call w else Some w);
       let c = (if c = NULL then free_connections w else c);
       if c = NULL then Some (w, NULL)
       else do {
         k \<leftarrow> get_conn w c;
         let w = w\<lparr>free_connections := c_data k\<rparr>;
         let w = w\<lparr>free_connection_n := free_connection_n w - 1\<rparr>;
         w \<leftarrow> (case files w of
             None \<Rightarrow> Some w
           | Some f \<Rightarrow> if sint s < 0 then None
               else if f s = NULL then Some (w\<lparr>files := Some (f(s := c))\<rparr>) else Some w);
         let rv = c_read k;
         let wv = c_write k;
         w \<leftarrow> memset_connection w c;
         w \<leftarrow> upd_conn w c (\<lambda>k. k\<lparr>c_read := rv\<rparr>);
         w \<leftarrow> upd_conn w c (\<lambda>k. k\<lparr>c_write := wv\<rparr>);
         w \<leftarrow> upd_conn w c (\<lambda>k. k\<lparr>c_fd := s\<rparr>);
         r \<leftarrow> get_event w rv;
         let inst = ev_instance r;
         w \<leftarrow> memset_event w rv;
         w \<leftarrow> memset_event w wv;
         w \<leftarrow> upd_event w rv (\<lambda>e. e\<lparr>ev_instance := \<not> inst\<rparr>);
         w \<leftarrow> upd_event w wv (\<lambda>e. e\<lparr>ev_instance := \<not> inst\<rparr>);
         w \<leftarrow> upd_event w rv (\<lambda>e. e\<lparr>ev_data := c\<rparr>);
         w \<leftarrow> upd_event w wv (\<lambda>e. e\<lparr>ev_data := c\<rparr>);
         w \<leftarrow> upd_event w wv (\<lambda>e. e\<lparr>ev_write := True\<rparr>);
         Some (w, c) } })"

partial_function (option) close_idle_loop :: "'a server_ext caller \<Rightarrow> addr \<Rightarrow> u32 \<Rightarrow> 'a server_scheme \<Rightarrow> 'a server_scheme option" where
  "close_idle_loop call c i w =
    (if i < connection_n w then do {
       let ci = c + unat i * sizeof_connection;
       k \<leftarrow> get_conn w ci;
       w \<leftarrow> (if c_fd k \<noteq> NOFD \<and> c_idle k then do {
           w \<leftarrow> upd_conn w ci (\<lambda>k. k\<lparr>c_close := True\<rparr>);
           k \<leftarrow> get_conn w ci;
           r \<leftarrow> get_event w (c_read k);
           call (ev_handler r) (c_read k) w }
         else Some w);
       close_idle_loop call c (i + 1) w }
     else Some w)"

definition close_idle_connections :: "'a server_ext caller \<Rightarrow> 'a server_scheme \<Rightarrow> 'a server_scheme option" where
  "close_idle_connections call w = close_idle_loop call (connections w) 0 w"

definition send_lowat :: "os \<Rightarrow> 'a server_scheme \<Rightarrow> addr \<Rightarrow> u64 \<Rightarrow> ('a server_scheme \<times> int) option" where
  "send_lowat os w c lowat =
    (if lowat = 0 then Some (w, 0)
     else do {
       k \<leftarrow> get_conn w c;
       if c_sndlowat k then Some (w, 0)
       else do {
         let sndlowat = sint (ucast lowat :: u32);
         let (w, a) = sys os (Sys_setsockopt (c_fd k) SO_SNDLOWAT sndlowat) w;
         if ans_ret a = - 1 then Some (w, - 1)
         else do {
           w \<leftarrow> upd_conn w c (\<lambda>k. k\<lparr>c_sndlowat := True\<rparr>);
           Some (w, 0) } } })"

section \<open>Listening sockets\<close>

definition SOCK_STREAM :: int where "SOCK_STREAM = 1"
definition LISTEN_BACKLOG :: int where "LISTEN_BACKLOG = 511"
definition sizeof_listening :: nat where "sizeof_listening = 184"

definition listening_zero :: listening where
  "listening_zero = \<lparr>ls_fd = 0, ls_sockaddr = 0, ls_socklen = 0, ls_type = 0, ls_backlog = 0, ls_rcvbuf = 0, ls_sndbuf = 0,
     ls_keepidle = 0, ls_keepintvl = 0, ls_keepcnt = 0, ls_handler = 0, ls_servers = 0, ls_pool_size = 0,
     ls_post_accept_buffer_size = 0, ls_post_accept_timeout = 0, ls_previous = 0, ls_connection = 0, ls_worker = 0,
     ls_open = False, ls_remain = False, ls_ignore = False, ls_nonblocking_accept = False, ls_listen = False,
     ls_nonblocking = False, ls_shared = False, ls_reuseport = False, ls_add_reuseport = False, ls_keepalive = 0,
     ls_deferred_accept = False, ls_delete_deferred = False, ls_add_deferred = False, ls_fastopen = 0\<rparr>"

definition create_listening :: "libc \<Rightarrow> 'a server_scheme \<Rightarrow> addr \<Rightarrow> u32 \<Rightarrow> ('a server_scheme \<times> addr) option" where
  "create_listening libc w sockaddr socklen = do {
     (m, ls) \<leftarrow> palloc libc (mem w) (cycle_pool w) sizeof_listening;
     let w = w\<lparr>mem := m\<rparr>;
     if ls = NULL then Some (w, NULL)
     else do {
       let w = w\<lparr>mem := memset0 (mem w) ls sizeof_listening, listens := (listens w)(ls := listening_zero)\<rparr>;
       (m, sa) \<leftarrow> palloc libc (mem w) (cycle_pool w) (unat socklen);
       let w = w\<lparr>mem := m\<rparr>;
       if sa = NULL then Some (w, NULL)
       else do {
         let w = w\<lparr>mem := memcpy (mem w) sa sockaddr (unat socklen)\<rparr>;
         let w = w\<lparr>cycle_listening := ls\<rparr>;
         w \<leftarrow> upd_ls w ls (\<lambda>l. l\<lparr>ls_pool_size := 256, ls_sockaddr := sa, ls_socklen := socklen, ls_fd := NOFD,
           ls_type := SOCK_STREAM, ls_backlog := LISTEN_BACKLOG, ls_rcvbuf := - 1, ls_sndbuf := - 1,
           ls_add_deferred := True, ls_fastopen := 1, ls_keepalive := 1, ls_keepidle := 7200, ls_keepintvl := 75,
           ls_keepcnt := 9, ls_post_accept_timeout := 300\<rparr>);
         Some (w, ls) } } }"

text \<open>\<open>sa_family\<close> is the first two bytes of the address, least significant first.\<close>

definition sa_family :: "'a pmem_scheme \<Rightarrow> addr \<Rightarrow> nat" where
  "sa_family s a = unat (bytes s a) + 256 * unat (bytes s (a + 1))"

text \<open>The result of a call that must not fail, and the error exit that closes the new socket.\<close>

definition close_and_fail :: "os \<Rightarrow> u32 \<Rightarrow> 'a server_scheme \<Rightarrow> ('a server_scheme \<times> int) option" where
  "close_and_fail os s w = Some (sys_ignore os (Sys_close s) w, - 1)"

definition open_listening_sockets :: "os \<Rightarrow> 'a server_scheme \<Rightarrow> ('a server_scheme \<times> int) option" where
  "open_listening_sockets os w = do {
     let lp = cycle_listening w;
     ls \<leftarrow> get_ls w lp;
     if ls_ignore ls then Some (w, - 1)
     else do {
       w \<leftarrow> (if ls_add_reuseport ls
         then upd_ls (sys_ignore os (Sys_setsockopt (ls_fd ls) SO_REUSEPORT 1) w) lp (\<lambda>l. l\<lparr>ls_add_reuseport := False\<rparr>)
         else Some w);
       if ls_fd ls \<noteq> NOFD then Some (w, - 1)
       else do {
         let (w, a) = sys os (Sys_socket (sa_family (mem w) (ls_sockaddr ls)) (ls_type ls)) w;
         let s = (if ans_ret a = - 1 then NOFD else ans_fd a);
         if s = NOFD then Some (w, - 1)
         else do {
           let (w, a) = sys os (Sys_setsockopt s SO_REUSEADDR 1) w;
           if ans_ret a = - 1 then close_and_fail os s w
           else do {
             let (w, a) = (if ls_reuseport ls then sys os (Sys_setsockopt s SO_REUSEPORT 1) w else (w, a));
             if ls_reuseport ls \<and> ans_ret a = - 1 then close_and_fail os s w
             else do {
               let (w, a) = sys os (Sys_ioctl_nonblocking s) w;
               if ans_ret a = - 1 then Some (w, - 1)
               else do {
                 let (w, a) = sys os (Sys_bind s (ls_sockaddr ls) (ls_socklen ls)) w;
                 if ans_ret a = - 1 then close_and_fail os s w
                 else do {
                   let (w, a) = sys os (Sys_listen s (ls_backlog ls)) w;
                   if ans_ret a = - 1 then close_and_fail os s w
                   else do {
                     w \<leftarrow> upd_ls w lp (\<lambda>l. l\<lparr>ls_listen := True\<rparr>);
                     w \<leftarrow> upd_ls w lp (\<lambda>l. l\<lparr>ls_fd := s\<rparr>);
                     Some (w, 0) } } } } } } } } }"

definition configure_listening_sockets :: "os \<Rightarrow> 'a server_scheme \<Rightarrow> 'a server_scheme option" where
  "configure_listening_sockets os w = do {
     let lp = cycle_listening w;
     ls \<leftarrow> get_ls w lp;
     let set_opt = (\<lambda>b opt v w. if b then sys_ignore os (Sys_setsockopt (ls_fd ls) opt v) w else w);
     let w = set_opt (ls_rcvbuf ls \<noteq> - 1) SO_RCVBUF (ls_rcvbuf ls) w;
     let w = set_opt (ls_sndbuf ls \<noteq> - 1) SO_SNDBUF (ls_sndbuf ls) w;
     let w = set_opt (ls_keepalive ls \<noteq> 0) SO_KEEPALIVE (if ls_keepalive ls = 1 then 1 else 0) w;
     let w = set_opt (ls_keepidle ls \<noteq> 0) TCP_KEEPIDLE (ls_keepidle ls) w;
     let w = set_opt (ls_keepintvl ls \<noteq> 0) TCP_KEEPINTVL (ls_keepintvl ls) w;
     let w = set_opt (ls_keepcnt ls \<noteq> 0) TCP_KEEPCNT (ls_keepcnt ls) w;
     let w = set_opt (ls_fastopen ls \<noteq> - 1) TCP_FASTOPEN (ls_fastopen ls) w;
     let w = (if ls_listen ls then sys_ignore os (Sys_listen (ls_fd ls) (ls_backlog ls)) w else w);
     let w = set_opt (ls_add_deferred ls \<or> ls_delete_deferred ls) TCP_DEFER_ACCEPT (if ls_add_deferred ls then 1 else 0) w;
     if ls_add_deferred ls then upd_ls w lp (\<lambda>l. l\<lparr>ls_deferred_accept := True\<rparr>) else Some w }"

definition close_listening_sockets :: "os \<Rightarrow> 'a server_scheme \<Rightarrow> 'a server_scheme option" where
  "close_listening_sockets os w = do {
     let w = w\<lparr>accept_mutex_held := False\<rparr>;
     let w = w\<lparr>use_accept_mutex := False\<rparr>;
     let lp = cycle_listening w;
     ls \<leftarrow> get_ls w lp;
     let c = ls_connection ls;
     w \<leftarrow> (if c \<noteq> NULL then do {
         k \<leftarrow> get_conn w c;
         r \<leftarrow> get_event w (c_read k);
         w \<leftarrow> (if ev_active r then do { (w, _) \<leftarrow> epoll_del_event os w (c_read k) READ_EVENT 1; Some w } else Some w);
         w \<leftarrow> free_connection w c;
         upd_conn w c (\<lambda>k. k\<lparr>c_fd := NOFD\<rparr>) }
       else Some w);
     let w = sys_ignore os (Sys_close (ls_fd ls)) w;
     upd_ls w lp (\<lambda>l. l\<lparr>ls_fd := NOFD\<rparr>) }"

end
