(* ===== verification/Conn_Store.thy ===== *)
theory Conn_Store
  imports Connection
begin

text \<open>
  The invariant of the connection table and what \<open>reusable_connection\<close>, \<open>free_connection\<close>, \<open>get_connection\<close> and
  \<open>close_connection\<close> do to it.
\<close>

section \<open>The invariant\<close>

text \<open>
  \<open>cs\<close> are the connections of the table, \<open>fl\<close> the free ones in the order of the list, \<open>rs\<close> the reusable ones, the most
  recent first. The connections in use are \<open>busy cs fl\<close>.
\<close>

abbreviation rd :: "'a server_scheme \<Rightarrow> addr \<Rightarrow> addr" where "rd w c \<equiv> c_read (conns w c)"
abbreviation wr :: "'a server_scheme \<Rightarrow> addr \<Rightarrow> addr" where "wr w c \<equiv> c_write (conns w c)"
abbreviation fd_of :: "'a server_scheme \<Rightarrow> addr \<Rightarrow> u32" where "fd_of w c \<equiv> c_fd (conns w c)"
abbreviation busy :: "addr list \<Rightarrow> addr list \<Rightarrow> addr set" where "busy cs fl \<equiv> set cs - set fl"

definition events_of :: "'a server_scheme \<Rightarrow> addr set \<Rightarrow> addr set" where
  "events_of w A = rd w ` A \<union> wr w ` A"

definition nodes_ok :: "'a server_scheme \<Rightarrow> addr list \<Rightarrow> bool" where
  "nodes_ok w cs \<longleftrightarrow> distinct cs \<and> NULL \<notin> set cs \<and> NULL \<notin> events_of w (set cs)
     \<and> (\<forall>c \<in> set cs. \<forall>d \<in> set cs. rd w c \<noteq> wr w d \<and> (c \<noteq> d \<longrightarrow> rd w c \<noteq> rd w d \<and> wr w c \<noteq> wr w d))
     \<and> reusable_queue w \<notin> conn_queue ` set cs"

definition free_ok :: "'a server_scheme \<Rightarrow> addr list \<Rightarrow> addr list \<Rightarrow> bool" where
  "free_ok w cs fl \<longleftrightarrow> chain (\<lambda>c. c_data (conns w c)) (free_connections w) fl \<and> distinct fl \<and> set fl \<subseteq> set cs
     \<and> free_connection_n w = of_nat (length fl) \<and> (\<forall>c \<in> set cs. fd_of w c = NOFD \<longleftrightarrow> c \<in> set fl)"

definition fds_ok :: "'a server_scheme \<Rightarrow> addr set \<Rightarrow> bool" where
  "fds_ok w B \<longleftrightarrow> inj_on (fd_of w) B \<and> (\<forall>f. files w = Some f \<longrightarrow>
     (\<forall>c \<in> B. fd_of w c < files_n w \<and> f (fd_of w c) = c) \<and> (\<forall>i. f i \<noteq> NULL \<longrightarrow> f i \<in> B \<and> fd_of w (f i) = i))"

definition reuse_ok :: "'a server_scheme \<Rightarrow> addr list \<Rightarrow> addr list \<Rightarrow> bool" where
  "reuse_ok w cs rs \<longleftrightarrow> queue_list (cqueues w) (reusable_queue w) (map conn_queue rs)
     \<and> (\<forall>c \<in> set cs. c_reusable (conns w c) \<longleftrightarrow> c \<in> set rs) \<and> reusable_connections_n w = of_nat (length rs)"

definition conn_store :: "'a server_scheme \<Rightarrow> addr list \<Rightarrow> addr list \<Rightarrow> addr list \<Rightarrow> bool" where
  "conn_store w cs fl rs \<longleftrightarrow> nodes_ok w cs \<and> free_ok w cs fl \<and> fds_ok w (busy cs fl) \<and> reuse_ok w cs rs
     \<and> set rs \<subseteq> busy cs fl"

lemma fds_okI: "inj_on (fd_of w) B \<Longrightarrow> files w = Some f \<Longrightarrow> \<forall>c \<in> B. fd_of w c < files_n w \<and> f (fd_of w c) = c \<Longrightarrow>
    \<forall>i. f i \<noteq> NULL \<longrightarrow> f i \<in> B \<and> fd_of w (f i) = i \<Longrightarrow> fds_ok w B"
  by (simp add: fds_ok_def)

text \<open>The invariant looks at the connection table only, and not at the sizes of other data.\<close>

definition same_table :: "'a server_scheme \<Rightarrow> 'a server_scheme \<Rightarrow> bool" where
  "same_table w w' \<longleftrightarrow> conns w' = conns w \<and> cqueues w' = cqueues w \<and> files w' = files w \<and> files_n w' = files_n w
     \<and> free_connections w' = free_connections w \<and> free_connection_n w' = free_connection_n w
     \<and> reusable_queue w' = reusable_queue w \<and> reusable_connections_n w' = reusable_connections_n w"

lemma same_table_store: "same_table w w' \<Longrightarrow> conn_store w' cs fl rs = conn_store w cs fl rs"
  by (simp add: same_table_def conn_store_def nodes_ok_def free_ok_def fds_ok_def reuse_ok_def events_of_def)

lemma same_table_events: "same_table w w' \<Longrightarrow> events_of w' A = events_of w A"
  by (simp add: same_table_def events_of_def)

lemma chain_cong: "(\<And>a. a \<in> set xs \<Longrightarrow> nx' a = nx a) \<Longrightarrow> chain nx' p xs = chain nx p xs"
  by (induction xs arbitrary: p) auto

lemma reuse_distinct: "conn_store w cs fl rs \<Longrightarrow> distinct rs"
  by (auto simp: conn_store_def reuse_ok_def queue_list_def distinct_map)

lemma store_conn: "conn_store w cs fl rs \<Longrightarrow> c \<in> set cs \<Longrightarrow> c \<noteq> NULL \<and> rd w c \<noteq> NULL \<and> wr w c \<noteq> NULL \<and> rd w c \<noteq> wr w c"
  by (auto simp: conn_store_def nodes_ok_def events_of_def)

section \<open>The reusable queue\<close>

text \<open>Taking a connection out of the queue if it is there, and putting it at the front.\<close>

lemma unreuse:
  assumes s: "conn_store w cs fl rs" and c: "c \<in> set cs"
  shows "\<exists>qs. (if c_reusable (conns w c) then do { qs \<leftarrow> queue_remove (cqueues w) (conn_queue c);
        Some (w\<lparr>cqueues := qs, reusable_connections_n := reusable_connections_n w - 1\<rparr>) } else Some w)
      = Some (w\<lparr>cqueues := qs, reusable_connections_n := of_nat (length (remove1 c rs))\<rparr>)
    \<and> queue_list qs (reusable_queue w) (map conn_queue (remove1 c rs))"
proof (cases "c \<in> set rs")
  case True
  then obtain as bs where rs: "rs = as @ c # bs" "c \<notin> set as" by (meson split_list_first)
  have "queue_list (cqueues w) (reusable_queue w) (map conn_queue as @ conn_queue c # map conn_queue bs)"
    using s rs by (simp add: conn_store_def reuse_ok_def)
  from queue_remove_ring [OF this] obtain qs where qs: "queue_remove (cqueues w) (conn_queue c) = Some qs"
    "queue_list qs (reusable_queue w) (map conn_queue as @ map conn_queue bs)" by blast
  have "remove1 c rs = as @ bs" using rs by (simp add: remove1_append)
  moreover have "c_reusable (conns w c)" "reusable_connections_n w = of_nat (length rs)"
    using s c True by (simp_all add: conn_store_def reuse_ok_def)
  ultimately show ?thesis using qs rs(1) by auto
next
  case False
  then have "\<not> c_reusable (conns w c)" "reusable_connections_n w = of_nat (length rs)"
    "queue_list (cqueues w) (reusable_queue w) (map conn_queue rs)"
    using s c by (simp_all add: conn_store_def reuse_ok_def)
  moreover have "w = w\<lparr>cqueues := cqueues w, reusable_connections_n := reusable_connections_n w\<rparr>" by simp
  ultimately show ?thesis using False by (intro exI [of _ "cqueues w"]) (simp add: remove1_idem)
qed

definition reuse_list :: "addr \<Rightarrow> u32 \<Rightarrow> addr list \<Rightarrow> addr list" where
  "reuse_list c reusable rs = (if reusable = 0 then remove1 c rs else c # remove1 c rs)"

lemma reusable_connection_ok:
  assumes s: "conn_store w cs fl rs" and c: "c \<in> busy cs fl" and r: "reusable = 0 \<or> reusable = 1"
  shows "\<exists>qs. reusable_connection w c reusable = Some (w\<lparr>cqueues := qs, reusable_connections_n := of_nat (length (reuse_list c reusable rs)),
        conns := (conns w)(c := (conns w c)\<lparr>c_reusable := reusable = 1\<rparr>)\<rparr>)
    \<and> conn_store (w\<lparr>cqueues := qs, reusable_connections_n := of_nat (length (reuse_list c reusable rs)),
        conns := (conns w)(c := (conns w c)\<lparr>c_reusable := reusable = 1\<rparr>)\<rparr>) cs fl (reuse_list c reusable rs)"
proof -
  have cc: "c \<in> set cs" "c \<noteq> NULL" using c store_conn [OF s] by auto
  from unreuse [OF s cc(1)] obtain qs where qs: "(if c_reusable (conns w c) then do { qs \<leftarrow> queue_remove (cqueues w) (conn_queue c);
        Some (w\<lparr>cqueues := qs, reusable_connections_n := reusable_connections_n w - 1\<rparr>) } else Some w)
      = Some (w\<lparr>cqueues := qs, reusable_connections_n := of_nat (length (remove1 c rs))\<rparr>)"
    "queue_list qs (reusable_queue w) (map conn_queue (remove1 c rs))" by blast
  have d: "distinct rs" by (rule reuse_distinct [OF s])
  have fresh: "conn_queue c \<notin> set (reusable_queue w # map conn_queue (remove1 c rs))"
    using s imageI [OF cc(1), of conn_queue] d by (auto simp: conn_store_def nodes_ok_def)
  obtain q2 where q2: "queue_list q2 (reusable_queue w) (map conn_queue (reuse_list c reusable rs))"
    "reusable \<noteq> 0 \<Longrightarrow> queue_insert_head qs (reusable_queue w) (conn_queue c) = Some q2" "reusable = 0 \<Longrightarrow> q2 = qs"
  proof (cases "reusable = 0")
    case True
    with qs(2) that [of qs] show ?thesis by (simp add: reuse_list_def)
  next
    case False
    from queue_insert_head_ring [OF qs(2) fresh] obtain q where "queue_insert_head qs (reusable_queue w) (conn_queue c) = Some q"
      "queue_list q (reusable_queue w) (conn_queue c # map conn_queue (remove1 c rs))" by auto
    with False that [of q] show ?thesis by (simp add: reuse_list_def)
  qed
  let ?w = "w\<lparr>cqueues := q2, reusable_connections_n := of_nat (length (reuse_list c reusable rs)),
        conns := (conns w)(c := (conns w c)\<lparr>c_reusable := reusable = 1\<rparr>)\<rparr>"
  have "reusable_connection w c reusable = Some ?w"
    using qs(1) q2(2,3) cc r by (auto simp: reusable_connection_def get_conn_def upd_conn_def reuse_list_def add.commute)
  moreover have "conn_store ?w cs fl (reuse_list c reusable rs)"
    unfolding conn_store_def
  proof (intro conjI)
    show "nodes_ok ?w cs" using s by (simp add: conn_store_def nodes_ok_def events_of_def image_def)
    have "(\<lambda>a. c_data (conns ?w a)) = (\<lambda>a. c_data (conns w a))" by auto
    then show "free_ok ?w cs fl" using s c by (simp add: conn_store_def free_ok_def)
    have fe: "fd_of ?w a = fd_of w a" "files ?w = files w" "files_n ?w = files_n w" for a by simp_all
    have "fds_ok w (busy cs fl)" using s by (simp add: conn_store_def)
    then show "fds_ok ?w (busy cs fl)" unfolding fds_ok_def fe .
    show "reuse_ok ?w cs (reuse_list c reusable rs)" using s q2(1) r d by (auto simp: conn_store_def reuse_ok_def reuse_list_def)
    show "set (reuse_list c reusable rs) \<subseteq> busy cs fl" using s c d by (auto simp: conn_store_def reuse_list_def)
  qed
  ultimately show ?thesis by blast
qed

section \<open>The free list\<close>

text \<open>A connection given back, once its descriptor is set to -1 as every caller of \<open>free_connection\<close> does.\<close>

lemma free_connection_ok:
  assumes s: "conn_store w cs fl rs" and c: "c \<in> busy cs fl" "c \<notin> set rs"
  shows "free_connection w c = Some (w\<lparr>conns := (conns w)(c := (conns w c)\<lparr>c_data := free_connections w\<rparr>),
        free_connections := c, free_connection_n := of_nat (Suc (length fl)), files := map_option (\<lambda>f. f(fd_of w c := NULL)) (files w)\<rparr>)
    \<and> conn_store (w\<lparr>conns := (conns w)(c := (conns w c)\<lparr>c_data := free_connections w, c_fd := NOFD\<rparr>),
        free_connections := c, free_connection_n := of_nat (Suc (length fl)), files := map_option (\<lambda>f. f(fd_of w c := NULL)) (files w)\<rparr>) cs (c # fl) rs"
proof -
  define ff where "ff = map_option (\<lambda>f. f(fd_of w c := NULL)) (files w)"
  let ?w1 = "w\<lparr>conns := (conns w)(c := (conns w c)\<lparr>c_data := free_connections w\<rparr>),
        free_connections := c, free_connection_n := of_nat (Suc (length fl)), files := ff\<rparr>"
  let ?w = "w\<lparr>conns := (conns w)(c := (conns w c)\<lparr>c_data := free_connections w, c_fd := NOFD\<rparr>),
        free_connections := c, free_connection_n := of_nat (Suc (length fl)), files := ff\<rparr>"
  have cn: "c \<noteq> NULL" using store_conn [OF s] c by blast
  have n: "free_connection_n w = of_nat (length fl)" using s by (simp add: conn_store_def free_ok_def)
  have "free_connection w c = Some ?w1"
  proof (cases "files w")
    case None
    then show ?thesis using cn n by (simp add: free_connection_def upd_conn_def get_conn_def ff_def add.commute)
  next
    case (Some f)
    then have "fd_of w c < files_n w" "f (fd_of w c) = c" using s c by (auto simp: conn_store_def fds_ok_def)
    then show ?thesis using Some cn n by (simp add: free_connection_def upd_conn_def get_conn_def ff_def Let_def add.commute)
  qed
  moreover have "conn_store ?w cs (c # fl) rs"
    unfolding conn_store_def
  proof (intro conjI)
    show "nodes_ok ?w cs" using s by (simp add: conn_store_def nodes_ok_def events_of_def image_def)
    have "chain (\<lambda>a. c_data (conns ?w a)) (free_connections w) fl = chain (\<lambda>a. c_data (conns w a)) (free_connections w) fl"
      using c by (intro chain_cong) auto
    then show "free_ok ?w cs (c # fl)" using s c cn by (auto simp: conn_store_def free_ok_def)
    have "inj_on (fd_of w) (busy cs fl)" using s by (simp add: conn_store_def fds_ok_def)
    then have i: "inj_on (fd_of ?w) (busy cs (c # fl))" by (auto simp: inj_on_def)
    show "fds_ok ?w (busy cs (c # fl))"
    proof (cases "files w")
      case None
      then show ?thesis using i by (simp add: fds_ok_def ff_def)
    next
      case (Some f)
      then have f: "\<forall>a \<in> busy cs fl. fd_of w a < files_n w \<and> f (fd_of w a) = a" "\<forall>i. f i \<noteq> NULL \<longrightarrow> f i \<in> busy cs fl \<and> fd_of w (f i) = i"
        using s by (simp_all add: conn_store_def fds_ok_def)
      then have "f (fd_of w c) = c" using c by blast
      then have "fd_of w a \<noteq> fd_of w c" if "a \<in> busy cs (c # fl)" for a
      proof -
        have "f (fd_of w a) = a" "a \<noteq> c" using f(1) that by auto
        then show ?thesis using \<open>f (fd_of w c) = c\<close> by metis
      qed
      with f have p: "\<forall>a \<in> busy cs (c # fl). fd_of ?w a < files_n ?w \<and> (f(fd_of w c := NULL)) (fd_of ?w a) = a" by simp
      have r: "\<forall>i. (f(fd_of w c := NULL)) i \<noteq> NULL \<longrightarrow> (f(fd_of w c := NULL)) i \<in> busy cs (c # fl) \<and> fd_of ?w ((f(fd_of w c := NULL)) i) = i"
        using f(2) \<open>f (fd_of w c) = c\<close> by auto
      show ?thesis by (rule fds_okI [OF i _ p r]) (simp add: ff_def Some fun_upd_def)
    qed
    show "reuse_ok ?w cs rs" using s by (simp add: conn_store_def reuse_ok_def)
    show "set rs \<subseteq> busy cs (c # fl)" using s c by (auto simp: conn_store_def)
  qed
  ultimately show ?thesis unfolding ff_def by blast
qed

text \<open>
  A connection taken: the state after \<open>get_connection\<close>. The two events are cleared and carry the flipped instance.
\<close>

definition taken :: "'a server_scheme \<Rightarrow> addr \<Rightarrow> addr list \<Rightarrow> u32 \<Rightarrow> 'a server_scheme" where
  "taken w c fl s =
    (let r = rd w c; wv = wr w c; i = ev_instance (evs w r) in
     w\<lparr>evs := (evs w)(r := event_zero\<lparr>ev_instance := \<not> i, ev_data := c\<rparr>, wv := event_zero\<lparr>ev_instance := \<not> i, ev_data := c, ev_write := True\<rparr>),
       event_timer_rbtree := clear_tree_node (clear_tree_node (event_timer_rbtree w) (ev_timer r)) (ev_timer wv),
       equeues := clear_node (clear_node (equeues w) (ev_queue r)) (ev_queue wv),
       conns := (conns w)(c := connection_zero\<lparr>c_read := r, c_write := wv, c_fd := s\<rparr>),
       cqueues := clear_node (cqueues w) (conn_queue c),
       files := map_option (\<lambda>f. f(s := c)) (files w),
       free_connections := c_data (conns w c),
       free_connection_n := of_nat (length fl)\<rparr>)"

text \<open>The kernel gives out a descriptor that no connection holds.\<close>

definition new_fd :: "'a server_scheme \<Rightarrow> addr list \<Rightarrow> addr list \<Rightarrow> u32 \<Rightarrow> bool" where
  "new_fd w cs fl s \<longleftrightarrow> s \<noteq> NOFD \<and> s \<notin> fd_of w ` busy cs fl \<and> (files w \<noteq> None \<longrightarrow> s < files_n w \<and> 0 \<le> sint s)"

lemma get_connection_free:
  assumes s: "conn_store w cs (c # fl) rs" and fd: "new_fd w cs (c # fl) s"
  shows "get_connection call w s = Some (taken w c fl s, c)" and "conn_store (taken w c fl s) cs fl rs"
proof -
  have c: "c \<in> set cs" "free_connections w = c" "c \<notin> set fl" "c \<noteq> NULL"
    using s by (auto simp: conn_store_def free_ok_def)
  note n = store_conn [OF s c(1)]
  have m: "free_connection_n w = of_nat (Suc (length fl))" using s by (simp add: conn_store_def free_ok_def)
  have fs: "f s = NULL" "\<not> files_n w \<le> s" "\<not> sint s < 0" if "files w = Some f" for f
  proof -
    show "f s = NULL"
    proof (rule ccontr)
      assume "f s \<noteq> NULL"
      then have "f s \<in> busy cs (c # fl)" "fd_of w (f s) = s" using s that by (auto simp: conn_store_def fds_ok_def)
      then show False using fd unfolding new_fd_def by (metis image_eqI)
    qed
  qed (use fd that in \<open>auto simp: new_fd_def\<close>)
  show "get_connection call w s = Some (taken w c fl s, c)"
  proof (cases "files w")
    case None
    then show ?thesis using c n m
      by (simp add: get_connection_def Let_def get_conn_def upd_conn_def memset_connection_def memset_event_def get_event_def
        upd_event_def taken_def)
  next
    case (Some f)
    then show ?thesis using c n m fs [OF Some]
      by (simp add: get_connection_def Let_def get_conn_def upd_conn_def memset_connection_def memset_event_def get_event_def
        upd_event_def taken_def)
  qed
  show "conn_store (taken w c fl s) cs fl rs"
    unfolding conn_store_def
  proof (intro conjI)
    let ?w = "taken w c fl s"
    have k: "rd ?w a = rd w a" "wr ?w a = wr w a" "a \<noteq> c \<Longrightarrow> conns ?w a = conns w a" "fd_of ?w c = s" "\<not> c_reusable (conns ?w c)" for a
      by (simp_all add: taken_def Let_def connection_zero_def)
    have q: "reusable_queue ?w = reusable_queue w" "free_connections ?w = c_data (conns w c)"
      "free_connection_n ?w = of_nat (length fl)" "files_n ?w = files_n w" "reusable_connections_n ?w = reusable_connections_n w"
      "cqueues ?w = clear_node (cqueues w) (conn_queue c)" "files ?w = map_option (\<lambda>f. f(s := c)) (files w)"
      by (simp_all add: taken_def Let_def)
    show "nodes_ok ?w cs" using s by (simp add: conn_store_def nodes_ok_def events_of_def k q)
    have "chain (\<lambda>a. c_data (conns ?w a)) (c_data (conns w c)) fl = chain (\<lambda>a. c_data (conns w a)) (c_data (conns w c)) fl"
      using c k(3) by (intro chain_cong) metis
    moreover have "fd_of ?w a = NOFD \<longleftrightarrow> a \<in> set fl" if "a \<in> set cs" for a
      using s fd c k(3,4) that by (cases "a = c") (auto simp: new_fd_def conn_store_def free_ok_def)
    ultimately show "free_ok ?w cs fl" using s by (simp add: conn_store_def free_ok_def q)
    have b: "busy cs fl = insert c (busy cs (c # fl))" using c by auto
    have out: "s \<notin> fd_of w ` busy cs (c # fl)" using fd by (simp add: new_fd_def)
    have fe: "fd_of ?w a = (if a = c then s else fd_of w a)" for a using k(3,4) by simp
    have "inj_on (fd_of w) (busy cs (c # fl))" using s by (simp add: conn_store_def fds_ok_def)
    then have i: "inj_on (fd_of ?w) (busy cs fl)" using out unfolding b inj_on_def by (auto simp: fe)
    show "fds_ok ?w (busy cs fl)"
    proof (cases "files w")
      case None
      with i show ?thesis by (simp add: fds_ok_def q)
    next
      case (Some f)
      then have f: "\<forall>a \<in> busy cs (c # fl). fd_of w a < files_n w \<and> f (fd_of w a) = a"
        "\<forall>i. f i \<noteq> NULL \<longrightarrow> f i \<in> busy cs (c # fl) \<and> fd_of w (f i) = i" using s by (simp_all add: conn_store_def fds_ok_def)
      have "s < files_n w" using fd Some by (simp add: new_fd_def)
      then have p: "\<forall>a \<in> busy cs fl. fd_of ?w a < files_n ?w \<and> (f(s := c)) (fd_of ?w a) = a"
        using f(1) out unfolding b by (auto simp: fe q)
      have r: "\<forall>i. (f(s := c)) i \<noteq> NULL \<longrightarrow> (f(s := c)) i \<in> busy cs fl \<and> fd_of ?w ((f(s := c)) i) = i"
        using f(2) unfolding b by (auto simp: fe)
      show ?thesis by (rule fds_okI [OF i _ p r]) (simp add: q Some fun_upd_def)
    qed
    have "c \<notin> set rs" using s by (auto simp: conn_store_def)
    then have "conn_queue c \<notin> set (reusable_queue w # map conn_queue rs)"
      using s imageI [OF c(1), of conn_queue] by (auto simp: conn_store_def nodes_ok_def)
    then have "queue_list (clear_node (cqueues w) (conn_queue c)) (reusable_queue w) (map conn_queue rs)"
      using s by (intro clear_node_list) (simp_all add: conn_store_def reuse_ok_def)
    moreover have "c_reusable (conns ?w a) \<longleftrightarrow> a \<in> set rs" if "a \<in> set cs" for a
      using s \<open>c \<notin> set rs\<close> k(3,5) that by (cases "a = c") (auto simp: conn_store_def reuse_ok_def)
    ultimately show "reuse_ok ?w cs rs" using s by (simp add: conn_store_def reuse_ok_def q)
    show "set rs \<subseteq> busy cs fl" using s unfolding b by (auto simp: conn_store_def)
  qed
qed

section \<open>The server\<close>

text \<open>
  The table together with the timers and the posted events: \<open>evl\<close> are the events with a timer, soonest first, \<open>xs\<close> and \<open>ys\<close>
  the posted ones. All belong to connections in use, whose two events point back to them and carry the same instance.
\<close>

definition events_ok :: "'a server_scheme \<Rightarrow> addr set \<Rightarrow> bool" where
  "events_ok w B \<longleftrightarrow> (\<forall>c \<in> B. ev_data (evs w (rd w c)) = c \<and> ev_data (evs w (wr w c)) = c
     \<and> ev_instance (evs w (wr w c)) = ev_instance (evs w (rd w c)))"

definition heads_ok :: "'a server_scheme \<Rightarrow> addr list \<Rightarrow> bool" where
  "heads_ok w cs \<longleftrightarrow> (\<forall>ev \<in> events_of w (set cs). ev_timer ev \<noteq> event_timer_sentinel w
     \<and> ev_queue ev \<noteq> posted_accept_events w \<and> ev_queue ev \<noteq> posted_events w)"

definition server_ok :: "u64 \<Rightarrow> 'a server_scheme \<Rightarrow> addr list \<Rightarrow> addr list \<Rightarrow> addr list \<Rightarrow> addr list \<Rightarrow> addr list \<Rightarrow> addr list \<Rightarrow> bool" where
  "server_ok base w cs fl rs evl xs ys \<longleftrightarrow> conn_store w cs fl rs \<and> events_ok w (busy cs fl) \<and> heads_ok w cs
     \<and> timers base w evl \<and> posted w (posted_accept_events w) xs (posted_events w) ys
     \<and> set evl \<union> set xs \<union> set ys \<subseteq> events_of w (busy cs fl)"

lemma timers_cong:
  assumes "event_timer_rbtree w' = event_timer_rbtree w" "event_timer_sentinel w' = event_timer_sentinel w"
    "current_msec w' = current_msec w" "\<And>ev. ev_timer_set (evs w' ev) = ev_timer_set (evs w ev)"
  shows "timers base w' evl = timers base w evl"
  using assms by (simp add: timers_def)

lemma events_of_cong: "(\<And>c. c \<in> A \<Longrightarrow> rd w' c = rd w c \<and> wr w' c = wr w c) \<Longrightarrow> events_of w' A = events_of w A"
  by (simp add: events_of_def)

lemma events_of_disjoint: "nodes_ok w cs \<Longrightarrow> A \<subseteq> set cs \<Longrightarrow> B \<subseteq> set cs \<Longrightarrow> A \<inter> B = {} \<Longrightarrow> events_of w A \<inter> events_of w B = {}"
proof (rule ccontr)
  assume n: "nodes_ok w cs" "A \<subseteq> set cs" "B \<subseteq> set cs" "A \<inter> B = {}" and "events_of w A \<inter> events_of w B \<noteq> {}"
  then obtain x where "x \<in> events_of w A" "x \<in> events_of w B" by blast
  then obtain a b where ab: "a \<in> A" "x = rd w a \<or> x = wr w a" "b \<in> B" "x = rd w b \<or> x = wr w b" by (auto simp: events_of_def)
  then have "a \<noteq> b" "a \<in> set cs" "b \<in> set cs" using n by auto
  then have "rd w a \<noteq> wr w b" "rd w b \<noteq> wr w a" "rd w a \<noteq> rd w b" "wr w a \<noteq> wr w b" using n(1) unfolding nodes_ok_def by blast+
  with ab show False by auto
qed

text \<open>A disarmed event and an event that is not posted, as the guarded calls of the code leave them.\<close>

lemma event_timer_idem: "\<not> ev_timer_set e \<Longrightarrow> e\<lparr>ev_timer_set := False\<rparr> = e"
  by (cases e) simp

lemma event_posted_off: "\<not> ev_posted e \<Longrightarrow> e\<lparr>ev_posted := False\<rparr> = e"
  by (cases e) simp

lemma del_timer_if:
  fixes w :: "'a events_scheme"
  assumes tm: "timers base w evl"
  shows "\<exists>t. (if ev_timer_set (evs w ev) then event_del_timer w ev else Some w)
      = Some (w\<lparr>event_timer_rbtree := t, evs := (evs w)(ev := (evs w ev)\<lparr>ev_timer_set := False\<rparr>)\<rparr>)
    \<and> timers base (w\<lparr>event_timer_rbtree := t, evs := (evs w)(ev := (evs w ev)\<lparr>ev_timer_set := False\<rparr>)\<rparr>) (removeAll ev evl)"
proof (cases "ev_timer_set (evs w ev)")
  case True
  then have ev: "ev \<in> set evl" using tm by (simp add: timers_def)
  have "removeAll ev evl = remove1 ev evl" using timers_distinct [OF tm] by (simp add: distinct_remove1_removeAll)
  with event_del_timer_ok [OF tm ev] True show ?thesis by auto
next
  case False
  then have "ev \<notin> set evl" using tm by (simp add: timers_def)
  moreover have "w\<lparr>event_timer_rbtree := event_timer_rbtree w, evs := (evs w)(ev := (evs w ev)\<lparr>ev_timer_set := False\<rparr>)\<rparr> = w"
    using False by (simp add: event_timer_idem)
  ultimately show ?thesis using False tm by (intro exI [of _ "event_timer_rbtree w"]) simp
qed

lemma delete_posted_if:
  fixes w :: "'a events_scheme"
  assumes p: "posted w q xs q' ys"
  shows "\<exists>qs. (if ev_posted (evs w ev) then delete_posted_event w ev else Some w)
      = Some (w\<lparr>evs := (evs w)(ev := (evs w ev)\<lparr>ev_posted := False\<rparr>), equeues := qs\<rparr>)
    \<and> posted (w\<lparr>evs := (evs w)(ev := (evs w ev)\<lparr>ev_posted := False\<rparr>), equeues := qs\<rparr>) q (removeAll ev xs) q' (removeAll ev ys)"
proof -
  have d: "removeAll ev xs = remove1 ev xs" "removeAll ev ys = remove1 ev ys"
    using posted_distinct [OF p] posted_distinct [OF p [unfolded posted_sym [of w q]]] by (simp_all add: distinct_remove1_removeAll)
  have e: "ev_posted (evs w ev) \<longleftrightarrow> ev \<in> set xs \<union> set ys" using p by (simp add: posted_def)
  have dis: "set xs \<inter> set ys = {}" using p by (simp add: posted_def)
  consider "ev \<in> set xs" "ev \<notin> set ys" | "ev \<in> set ys" "ev \<notin> set xs" | "ev \<notin> set xs" "ev \<notin> set ys" using dis by blast
  then show ?thesis
  proof cases
    case 1
    with delete_posted_ok [OF p 1(1)] e d show ?thesis by (auto simp: remove1_idem)
  next
    case 2
    with delete_posted_ok [OF p [unfolded posted_sym [of w q]] 2(1)] e d show ?thesis
      by (auto simp: remove1_idem posted_sym [of _ q'])
  next
    case 3
    then have "w\<lparr>evs := (evs w)(ev := (evs w ev)\<lparr>ev_posted := False\<rparr>), equeues := equeues w\<rparr> = w"
      using e by (simp add: event_posted_off)
    with 3 e p show ?thesis by (intro exI [of _ "equeues w"]) simp
  qed
qed

section \<open>Taking a connection\<close>

lemma taken_fields [simp]:
  "posted_accept_events (taken w c fl s) = posted_accept_events w" "posted_events (taken w c fl s) = posted_events w"
  "event_timer_sentinel (taken w c fl s) = event_timer_sentinel w" "current_msec (taken w c fl s) = current_msec w"
  "rd (taken w c fl s) a = rd w a" "wr (taken w c fl s) a = wr w a" "a \<noteq> c \<Longrightarrow> conns (taken w c fl s) a = conns w a"
  "conns (taken w c fl s) c = connection_zero\<lparr>c_read := rd w c, c_write := wr w c, c_fd := s\<rparr>"
  "evs (taken w c fl s) = (evs w)(rd w c := event_zero\<lparr>ev_instance := \<not> ev_instance (evs w (rd w c)), ev_data := c\<rparr>,
     wr w c := event_zero\<lparr>ev_instance := \<not> ev_instance (evs w (rd w c)), ev_data := c, ev_write := True\<rparr>)"
  "ep (taken w c fl s) = ep w" "calls (taken w c fl s) = calls w"
  by (simp_all add: taken_def Let_def connection_zero_def)

lemma taken_events [simp]: "events_of (taken w c fl s) A = events_of w A"
  by (rule events_of_cong) simp

lemma taken_server_ok:
  assumes s: "server_ok base w cs (c # fl) rs evl xs ys" and fd: "new_fd w cs (c # fl) s"
  shows "server_ok base (taken w c fl s) cs fl rs evl xs ys"
proof -
  have st: "conn_store w cs (c # fl) rs" "events_ok w (busy cs (c # fl))" "heads_ok w cs" "timers base w evl"
    "posted w (posted_accept_events w) xs (posted_events w) ys" "set evl \<union> set xs \<union> set ys \<subseteq> events_of w (busy cs (c # fl))"
    using s by (simp_all add: server_ok_def)
  have nd: "nodes_ok w cs" and c: "c \<in> set cs" "c \<notin> set fl" using st(1) by (auto simp: conn_store_def free_ok_def)
  let ?r = "rd w c" and ?w = "wr w c"
  have rw: "?r \<noteq> NULL" "?w \<noteq> NULL" "?r \<noteq> ?w" using store_conn [OF st(1) c(1)] by auto
  have b: "busy cs fl = insert c (busy cs (c # fl))" using c by auto
  have "events_of w {c} \<inter> events_of w (busy cs (c # fl)) = {}" using c by (intro events_of_disjoint [OF nd]) auto
  then have out: "?r \<notin> events_of w (busy cs (c # fl))" "?w \<notin> events_of w (busy cs (c # fl))" by (auto simp: events_of_def)
  have "?r \<in> events_of w (set cs)" "?w \<in> events_of w (set cs)" using c by (auto simp: events_of_def)
  then have h: "ev_timer ?r \<noteq> event_timer_sentinel w" "ev_timer ?w \<noteq> event_timer_sentinel w"
    "ev_queue ?r \<noteq> posted_accept_events w" "ev_queue ?r \<noteq> posted_events w"
    "ev_queue ?w \<noteq> posted_accept_events w" "ev_queue ?w \<noteq> posted_events w"
    using st(3) by (simp_all add: heads_ok_def)
  have nin: "?r \<notin> set evl" "?w \<notin> set evl" "?r \<notin> set xs \<union> set ys" "?w \<notin> set xs \<union> set ys" using out st(6) by auto
  define w1 where "w1 = w\<lparr>evs := (evs w)(?r := event_zero), event_timer_rbtree := clear_tree_node (event_timer_rbtree w) (ev_timer ?r),
    equeues := clear_node (equeues w) (ev_queue ?r)\<rparr>"
  define w2 where "w2 = w1\<lparr>evs := (evs w1)(?w := event_zero), event_timer_rbtree := clear_tree_node (event_timer_rbtree w1) (ev_timer ?w),
    equeues := clear_node (equeues w1) (ev_queue ?w)\<rparr>"
  have "timers base w1 evl" unfolding w1_def using timers_memset [OF st(4)] nin h by blast
  then have t2: "timers base w2 evl" unfolding w2_def using timers_memset nin h by (metis w1_def events.select_convs(3) events.surjective events.update_convs(1,2,4))
  have "posted w1 (posted_accept_events w) xs (posted_events w) ys" unfolding w1_def using st(5) nin h by (intro posted_memset)
  then have p2: "posted w2 (posted_accept_events w) xs (posted_events w) ys" unfolding w2_def using nin h by (intro posted_memset)
  have e: "event_timer_rbtree (taken w c fl s) = event_timer_rbtree w2" "equeues (taken w c fl s) = equeues w2"
    "event_timer_sentinel w2 = event_timer_sentinel w" "current_msec w2 = current_msec w"
    "evs w2 = (evs w)(?r := event_zero, ?w := event_zero)"
    by (simp_all add: taken_def Let_def w2_def w1_def)
  have "timers base (taken w c fl s) evl = timers base w2 evl"
    by (rule timers_cong) (simp_all add: e event_zero_def)
  moreover have "posted (taken w c fl s) (posted_accept_events w) xs (posted_events w) ys = posted w2 (posted_accept_events w) xs (posted_events w) ys"
    by (rule posted_cong) (simp_all add: e event_zero_def)
  moreover have "events_ok (taken w c fl s) (busy cs fl)"
    unfolding events_ok_def
  proof
    fix a assume a: "a \<in> busy cs fl"
    show "ev_data (evs (taken w c fl s) (rd (taken w c fl s) a)) = a \<and> ev_data (evs (taken w c fl s) (wr (taken w c fl s) a)) = a
      \<and> ev_instance (evs (taken w c fl s) (wr (taken w c fl s) a)) = ev_instance (evs (taken w c fl s) (rd (taken w c fl s) a))"
    proof (cases "a = c")
      case True
      then show ?thesis using rw by simp
    next
      case False
      then have a2: "a \<in> busy cs (c # fl)" using a by simp
      then have "rd w a \<in> events_of w (busy cs (c # fl))" "wr w a \<in> events_of w (busy cs (c # fl))" by (auto simp: events_of_def)
      then have "rd w a \<noteq> ?r" "rd w a \<noteq> ?w" "wr w a \<noteq> ?r" "wr w a \<noteq> ?w" using out by metis+
      then show ?thesis using st(2) a2 by (simp add: events_ok_def)
    qed
  qed
  moreover have "conn_store (taken w c fl s) cs fl rs" by (rule get_connection_free(2) [OF st(1) fd])
  moreover have "events_of w (busy cs (c # fl)) \<subseteq> events_of w (busy cs fl)" unfolding b by (auto simp: events_of_def)
  ultimately show ?thesis using t2 p2 st(3,6) by (auto simp: server_ok_def heads_ok_def)
qed

section \<open>Closing a connection\<close>

text \<open>
  The events of a closed connection, and what is left of a list of events. \<open>closed_state\<close> is the state after
  \<open>close_connection\<close>, up to the inner structure of the timer tree and the queues.
\<close>

definition shut :: "bool \<Rightarrow> event \<Rightarrow> event" where
  "shut shared e = e\<lparr>ev_timer_set := False, ev_active := shared \<and> ev_active e, ev_posted := False, ev_closed := True\<rparr>"

definition without :: "addr \<Rightarrow> addr \<Rightarrow> addr list \<Rightarrow> addr list" where
  "without r wv xs = removeAll wv (removeAll r xs)"

definition closed_state :: "'a server_scheme \<Rightarrow> addr \<Rightarrow> addr list \<Rightarrow> addr list \<Rightarrow> rbtree \<Rightarrow> qheap \<Rightarrow> qheap \<Rightarrow> 'a server_scheme" where
  "closed_state w c fl rs t qs cq = w\<lparr>
     event_timer_rbtree := t, equeues := qs,
     evs := (evs w)(rd w c := shut (c_shared (conns w c)) (evs w (rd w c)), wr w c := shut (c_shared (conns w c)) (evs w (wr w c))),
     conns := (conns w)(c := (conns w c)\<lparr>c_reusable := False, c_data := free_connections w, c_fd := NOFD\<rparr>),
     cqueues := cq, reusable_connections_n := of_nat (length (remove1 c rs)),
     free_connections := c, free_connection_n := of_nat (Suc (length fl)), files := map_option (\<lambda>f. f(fd_of w c := NULL)) (files w),
     calls := Sys_close (fd_of w c) # calls w\<rparr>"

text \<open>The part of \<open>close_connection\<close> that works on the events.\<close>

lemma close_events:
  assumes s: "server_ok base w cs fl rs evl xs ys" and c: "c \<in> busy cs fl"
  defines "r \<equiv> rd w c" and "wv \<equiv> wr w c" and "sh \<equiv> c_shared (conns w c)"
  shows "\<exists>t qs. do {
       r' \<leftarrow> get_event w r;
       w \<leftarrow> (if ev_timer_set r' then event_del_timer w r else Some w);
       e \<leftarrow> get_event w wv;
       w \<leftarrow> (if ev_timer_set e then event_del_timer w wv else Some w);
       w \<leftarrow> (if \<not> sh then do { (w, _) \<leftarrow> epoll_del_connection os w c CLOSE_EVENT; Some w } else Some w);
       r' \<leftarrow> get_event w r;
       w \<leftarrow> (if ev_posted r' then delete_posted_event w r else Some w);
       e \<leftarrow> get_event w wv;
       w \<leftarrow> (if ev_posted e then delete_posted_event w wv else Some w);
       w \<leftarrow> upd_event w r (\<lambda>e. e\<lparr>ev_closed := True\<rparr>);
       upd_event w wv (\<lambda>e. e\<lparr>ev_closed := True\<rparr>) }
     = Some (w\<lparr>event_timer_rbtree := t, equeues := qs, evs := (evs w)(r := shut sh (evs w r), wv := shut sh (evs w wv))\<rparr>)
    \<and> timers base (w\<lparr>event_timer_rbtree := t, equeues := qs, evs := (evs w)(r := shut sh (evs w r), wv := shut sh (evs w wv))\<rparr>) (without r wv evl)
    \<and> posted (w\<lparr>event_timer_rbtree := t, equeues := qs, evs := (evs w)(r := shut sh (evs w r), wv := shut sh (evs w wv))\<rparr>)
        (posted_accept_events w) (without r wv xs) (posted_events w) (without r wv ys)"
proof -
  have st: "conn_store w cs fl rs" "timers base w evl" "posted w (posted_accept_events w) xs (posted_events w) ys"
    using s by (simp_all add: server_ok_def)
  have n: "c \<noteq> NULL" "r \<noteq> NULL" "wv \<noteq> NULL" "r \<noteq> wv" using store_conn [OF st(1)] c by (auto simp: r_def wv_def)
  from del_timer_if [OF st(2), of r] obtain t1 where t1: "(if ev_timer_set (evs w r) then event_del_timer w r else Some w)
      = Some (w\<lparr>event_timer_rbtree := t1, evs := (evs w)(r := (evs w r)\<lparr>ev_timer_set := False\<rparr>)\<rparr>)"
    "timers base (w\<lparr>event_timer_rbtree := t1, evs := (evs w)(r := (evs w r)\<lparr>ev_timer_set := False\<rparr>)\<rparr>) (removeAll r evl)" by blast
  define w1 where "w1 = w\<lparr>event_timer_rbtree := t1, evs := (evs w)(r := (evs w r)\<lparr>ev_timer_set := False\<rparr>)\<rparr>"
  from del_timer_if [OF t1(2) [folded w1_def], of wv] obtain t where t: "(if ev_timer_set (evs w1 wv) then event_del_timer w1 wv else Some w1)
      = Some (w1\<lparr>event_timer_rbtree := t, evs := (evs w1)(wv := (evs w1 wv)\<lparr>ev_timer_set := False\<rparr>)\<rparr>)"
    "timers base (w1\<lparr>event_timer_rbtree := t, evs := (evs w1)(wv := (evs w1 wv)\<lparr>ev_timer_set := False\<rparr>)\<rparr>) (removeAll wv (removeAll r evl))" by blast
  define w2 where "w2 = w1\<lparr>event_timer_rbtree := t, evs := (evs w1)(wv := (evs w1 wv)\<lparr>ev_timer_set := False\<rparr>)\<rparr>"
  define w3 where "w3 = w2\<lparr>evs := (evs w2)(r := (evs w2 r)\<lparr>ev_active := sh \<and> ev_active (evs w2 r)\<rparr>, wv := (evs w2 wv)\<lparr>ev_active := sh \<and> ev_active (evs w2 wv)\<rparr>)\<rparr>"
  have cw: "conns w2 = conns w" by (simp add: w2_def w1_def)
  have d: "(if \<not> sh then do { (w, _) \<leftarrow> epoll_del_connection os w2 c CLOSE_EVENT; Some w } else Some w2) = Some w3"
  proof (cases sh)
    case True
    have "e\<lparr>ev_active := ev_active e\<rparr> = e" for e :: event by (cases e) simp
    then show ?thesis using True by (simp add: w3_def)
  next
    case False
    then show ?thesis using n by (simp add: epoll_del_connection_def get_conn_def cw CLOSE_EVENT_def upd_event_def w3_def r_def wv_def)
  qed
  have "posted w3 (posted_accept_events w) xs (posted_events w) ys = posted w (posted_accept_events w) xs (posted_events w) ys"
    by (rule posted_cong) (simp_all add: w3_def w2_def w1_def)
  with st(3) have p3: "posted w3 (posted_accept_events w) xs (posted_events w) ys" by simp
  from delete_posted_if [OF this, of r] obtain q1 where q1: "(if ev_posted (evs w3 r) then delete_posted_event w3 r else Some w3)
      = Some (w3\<lparr>evs := (evs w3)(r := (evs w3 r)\<lparr>ev_posted := False\<rparr>), equeues := q1\<rparr>)"
    "posted (w3\<lparr>evs := (evs w3)(r := (evs w3 r)\<lparr>ev_posted := False\<rparr>), equeues := q1\<rparr>) (posted_accept_events w) (removeAll r xs) (posted_events w) (removeAll r ys)" by blast
  define w4 where "w4 = w3\<lparr>evs := (evs w3)(r := (evs w3 r)\<lparr>ev_posted := False\<rparr>), equeues := q1\<rparr>"
  from delete_posted_if [OF q1(2) [folded w4_def], of wv] obtain qs where qs: "(if ev_posted (evs w4 wv) then delete_posted_event w4 wv else Some w4)
      = Some (w4\<lparr>evs := (evs w4)(wv := (evs w4 wv)\<lparr>ev_posted := False\<rparr>), equeues := qs\<rparr>)"
    "posted (w4\<lparr>evs := (evs w4)(wv := (evs w4 wv)\<lparr>ev_posted := False\<rparr>), equeues := qs\<rparr>) (posted_accept_events w)
      (removeAll wv (removeAll r xs)) (posted_events w) (removeAll wv (removeAll r ys))" by blast
  define w5 where "w5 = w4\<lparr>evs := (evs w4)(wv := (evs w4 wv)\<lparr>ev_posted := False\<rparr>), equeues := qs\<rparr>"
  define w6 where "w6 = w5\<lparr>evs := (evs w5)(r := (evs w5 r)\<lparr>ev_closed := True\<rparr>, wv := (evs w5 wv)\<lparr>ev_closed := True\<rparr>)\<rparr>"
  have w6: "w6 = w\<lparr>event_timer_rbtree := t, equeues := qs, evs := (evs w)(r := shut sh (evs w r), wv := shut sh (evs w wv))\<rparr>"
    using n(4) by (simp add: w6_def w5_def w4_def w3_def w2_def w1_def shut_def fun_upd_twist)
  have "timers base w6 (without r wv evl) = timers base w2 (without r wv evl)"
    by (rule timers_cong) (simp_all add: w6_def w5_def w4_def w3_def)
  then have "timers base w6 (without r wv evl)" using t(2) by (simp add: w2_def without_def)
  moreover have "posted w6 (posted_accept_events w) (without r wv xs) (posted_events w) (without r wv ys)
      = posted w5 (posted_accept_events w) (without r wv xs) (posted_events w) (without r wv ys)"
    by (rule posted_cong) (simp_all add: w6_def)
  then have "posted w6 (posted_accept_events w) (without r wv xs) (posted_events w) (without r wv ys)"
    using qs(2) by (simp add: w5_def without_def)
  ultimately show ?thesis
    unfolding w6 [symmetric] using n t1(1) t(1) d q1(1) qs(1)
    by (intro exI [of _ t] exI [of _ qs])
      (simp add: get_event_def upd_event_def w6 [symmetric] w1_def [symmetric] w2_def [symmetric] w4_def [symmetric] w5_def [symmetric],
        simp add: w6_def)
qed

lemma close_connection_ok:
  assumes s: "server_ok base w cs fl rs evl xs ys" and c: "c \<in> busy cs fl"
  defines "r \<equiv> rd w c" and "wv \<equiv> wr w c"
  shows "\<exists>t qs cq. close_connection os w c = Some (closed_state w c fl rs t qs cq)
    \<and> server_ok base (closed_state w c fl rs t qs cq) cs (c # fl) (remove1 c rs)
        (without r wv evl) (without r wv xs) (without r wv ys)"
proof -
  let ?sh = "c_shared (conns w c)"
  have st: "conn_store w cs fl rs" "events_ok w (busy cs fl)" "heads_ok w cs" "set evl \<union> set xs \<union> set ys \<subseteq> events_of w (busy cs fl)"
    using s by (simp_all add: server_ok_def)
  have n: "c \<noteq> NULL" "c \<in> set cs" using store_conn [OF st(1)] c by auto
  have fd: "fd_of w c \<noteq> NOFD" using st(1) c by (auto simp: conn_store_def free_ok_def)
  from close_events [OF s c, of os] obtain t qs where ev: "do {
       r' \<leftarrow> get_event w r;
       w \<leftarrow> (if ev_timer_set r' then event_del_timer w r else Some w);
       e \<leftarrow> get_event w wv;
       w \<leftarrow> (if ev_timer_set e then event_del_timer w wv else Some w);
       w \<leftarrow> (if \<not> ?sh then do { (w, _) \<leftarrow> epoll_del_connection os w c CLOSE_EVENT; Some w } else Some w);
       r' \<leftarrow> get_event w r;
       w \<leftarrow> (if ev_posted r' then delete_posted_event w r else Some w);
       e \<leftarrow> get_event w wv;
       w \<leftarrow> (if ev_posted e then delete_posted_event w wv else Some w);
       w \<leftarrow> upd_event w r (\<lambda>e. e\<lparr>ev_closed := True\<rparr>);
       upd_event w wv (\<lambda>e. e\<lparr>ev_closed := True\<rparr>) }
     = Some (w\<lparr>event_timer_rbtree := t, equeues := qs, evs := (evs w)(r := shut ?sh (evs w r), wv := shut ?sh (evs w wv))\<rparr>)"
    "timers base (w\<lparr>event_timer_rbtree := t, equeues := qs, evs := (evs w)(r := shut ?sh (evs w r), wv := shut ?sh (evs w wv))\<rparr>) (without r wv evl)"
    "posted (w\<lparr>event_timer_rbtree := t, equeues := qs, evs := (evs w)(r := shut ?sh (evs w r), wv := shut ?sh (evs w wv))\<rparr>)
        (posted_accept_events w) (without r wv xs) (posted_events w) (without r wv ys)" unfolding r_def wv_def by blast
  define w1 where "w1 = w\<lparr>event_timer_rbtree := t, equeues := qs, evs := (evs w)(r := shut ?sh (evs w r), wv := shut ?sh (evs w wv))\<rparr>"
  have s1: "conn_store w1 cs fl rs" using st(1) by (subst same_table_store [of w]) (simp_all add: same_table_def w1_def)
  from reusable_connection_ok [OF s1 c, of 0] obtain cq where re: "reusable_connection w1 c 0 = Some (w1\<lparr>cqueues := cq,
      reusable_connections_n := of_nat (length (remove1 c rs)), conns := (conns w1)(c := (conns w1 c)\<lparr>c_reusable := False\<rparr>)\<rparr>)"
    "conn_store (w1\<lparr>cqueues := cq, reusable_connections_n := of_nat (length (remove1 c rs)),
      conns := (conns w1)(c := (conns w1 c)\<lparr>c_reusable := False\<rparr>)\<rparr>) cs fl (remove1 c rs)"
    by (auto simp: reuse_list_def)
  define w2 where "w2 = w1\<lparr>cqueues := cq, reusable_connections_n := of_nat (length (remove1 c rs)),
      conns := (conns w1)(c := (conns w1 c)\<lparr>c_reusable := False\<rparr>)\<rparr>"
  have "c \<notin> set (remove1 c rs)" using reuse_distinct [OF st(1)] by simp
  from free_connection_ok [OF re(2) [folded w2_def] c this] have fr: "free_connection w2 c = Some (w2\<lparr>conns := (conns w2)(c := (conns w2 c)\<lparr>c_data := free_connections w2\<rparr>),
        free_connections := c, free_connection_n := of_nat (Suc (length fl)), files := map_option (\<lambda>f. f(fd_of w2 c := NULL)) (files w2)\<rparr>)"
    "conn_store (w2\<lparr>conns := (conns w2)(c := (conns w2 c)\<lparr>c_data := free_connections w2, c_fd := NOFD\<rparr>),
        free_connections := c, free_connection_n := of_nat (Suc (length fl)), files := map_option (\<lambda>f. f(fd_of w2 c := NULL)) (files w2)\<rparr>) cs (c # fl) (remove1 c rs)" by blast+
  let ?w = "closed_state w c fl rs t qs cq"
  have eq: "?w = w2\<lparr>conns := (conns w2)(c := (conns w2 c)\<lparr>c_data := free_connections w2, c_fd := NOFD\<rparr>),
        free_connections := c, free_connection_n := of_nat (Suc (length fl)), files := map_option (\<lambda>f. f(fd_of w2 c := NULL)) (files w2), calls := Sys_close (fd_of w c) # calls w\<rparr>"
    by (simp add: closed_state_def w2_def w1_def r_def wv_def)
  have cl: "close_connection os w c = Some ?w"
  proof -
    have "close_connection os w c = do {
       w \<leftarrow> do {
         r' \<leftarrow> get_event w r;
         w \<leftarrow> (if ev_timer_set r' then event_del_timer w r else Some w);
         e \<leftarrow> get_event w wv;
         w \<leftarrow> (if ev_timer_set e then event_del_timer w wv else Some w);
         w \<leftarrow> (if \<not> ?sh then do { (w, _) \<leftarrow> epoll_del_connection os w c CLOSE_EVENT; Some w } else Some w);
         r' \<leftarrow> get_event w r;
         w \<leftarrow> (if ev_posted r' then delete_posted_event w r else Some w);
         e \<leftarrow> get_event w wv;
         w \<leftarrow> (if ev_posted e then delete_posted_event w wv else Some w);
         w \<leftarrow> upd_event w r (\<lambda>e. e\<lparr>ev_closed := True\<rparr>);
         upd_event w wv (\<lambda>e. e\<lparr>ev_closed := True\<rparr>) };
       w \<leftarrow> reusable_connection w c 0;
       w \<leftarrow> free_connection w c;
       k \<leftarrow> get_conn w c;
       w \<leftarrow> upd_conn w c (\<lambda>k. k\<lparr>c_fd := NOFD\<rparr>);
       Some (sys_ignore os (Sys_close (c_fd k)) w) }"
      using fd n by (simp add: close_connection_def get_conn_def r_def wv_def cong: if_cong)
    also have "\<dots> = Some ?w"
      unfolding ev(1) w1_def [symmetric] using n re(1) fr(1) w2_def
      by (simp add: get_conn_def upd_conn_def sys_ignore_def sys_def eq) (simp add: w2_def w1_def)
    finally show ?thesis .
  qed
  have k: "rd ?w a = rd w a" "wr ?w a = wr w a" "posted_accept_events ?w = posted_accept_events w" "posted_events ?w = posted_events w"
    "event_timer_sentinel ?w = event_timer_sentinel w" for a by (simp_all add: closed_state_def)
  have e: "events_of ?w A = events_of w A" for A by (simp add: events_of_def k)
  have b: "busy cs fl = insert c (busy cs (c # fl))" using c by auto
  have "conn_store ?w cs (c # fl) (remove1 c rs)"
    using fr(2) unfolding eq by (subst same_table_store) (simp_all add: same_table_def)
  moreover have "events_ok ?w (busy cs (c # fl))"
  proof -
    have "ev_data (evs ?w a) = ev_data (evs w a)" "ev_instance (evs ?w a) = ev_instance (evs w a)" for a
      by (simp_all add: closed_state_def shut_def)
    then show ?thesis using st(2) by (simp add: events_ok_def k)
  qed
  moreover have "heads_ok ?w cs" using st(3) by (simp add: heads_ok_def e k)
  moreover have "timers base ?w (without r wv evl) = timers base w1 (without r wv evl)"
    by (rule timers_cong) (simp_all add: closed_state_def w1_def r_def wv_def)
  moreover have "posted ?w (posted_accept_events w) (without r wv xs) (posted_events w) (without r wv ys)
      = posted w1 (posted_accept_events w) (without r wv xs) (posted_events w) (without r wv ys)"
    by (rule posted_cong) (simp_all add: closed_state_def w1_def r_def wv_def)
  moreover have "set (without r wv zs) \<subseteq> events_of w (busy cs (c # fl))" if "set zs \<subseteq> events_of w (busy cs fl)" for zs
    using that unfolding b by (auto simp: events_of_def without_def r_def wv_def)
  ultimately have "server_ok base ?w cs (c # fl) (remove1 c rs) (without r wv evl) (without r wv xs) (without r wv ys)"
    using ev(2,3) st(4) by (simp add: server_ok_def e k w1_def)
  with cl show ?thesis by blast
qed

end
