(* ===== verification/Registered.thy ===== *)
theory Registered
  imports Conn_Store
begin

unbundle bit_operations_syntax

text \<open>
  The registration invariant: what the kernel watches for a connection is what the \<open>active\<close> flags of its two events say,
  with the address and the instance of the connection as data; nothing else is watched. Every operation of
  epoll\_event.c and \<open>close_connection\<close> keep it, whatever the kernel answers.
\<close>

section \<open>The tag\<close>

lemma tag_roundtrip:
  assumes "even c" and "c < 2 ^ 64"
  shows "tag_instance (tag c i) = of_bool i" and "tag_conn (tag c i) = c"
proof -
  have n: "\<not> bit (of_nat c :: u64) 0" using assms(1) by (simp add: bit_0)
  then have "tag c i AND 1 = of_bool i"
    by (intro bit_word_eqI; cases i) (auto simp: tag_def bit_simps bit_1_iff, metis not_gr_zero)
  then show "tag_instance (tag c i) = of_bool i" by (simp add: tag_instance_def)
  from n have "tag c i AND NOT 1 = of_nat c"
    by (intro bit_word_eqI) (auto simp: tag_def bit_simps bit_1_iff, metis not_gr_zero)
  then have "tag_conn (tag c i) = unat (of_nat c :: u64)" by (simp add: tag_conn_def)
  also have "\<dots> = c" using assms(2) by (simp add: unat_of_nat take_bit_nat_eq_self)
  finally show "tag_conn (tag c i) = c" .
qed

section \<open>The invariant\<close>

definition watched :: "os \<Rightarrow> 'a server_scheme \<Rightarrow> u32 \<Rightarrow> (u32 \<times> u64) option" where
  "watched os w = interest os (ep w) (calls w)"

definition IO_EVENTS :: u32 where "IO_EVENTS = READ_EVENT OR WRITE_EVENT"

definition wanted :: "bool \<Rightarrow> bool \<Rightarrow> u32" where
  "wanted r wv = (if r then READ_EVENT else 0) OR (if wv then WRITE_EVENT else 0)"

definition watch_ok :: "addr \<Rightarrow> bool \<Rightarrow> bool \<Rightarrow> bool \<Rightarrow> (u32 \<times> u64) option \<Rightarrow> bool" where
  "watch_ok c inst r wv i = (case i of None \<Rightarrow> \<not> r \<and> \<not> wv
     | Some (m, d) \<Rightarrow> (r \<or> wv) \<and> d = tag c inst \<and> m AND IO_EVENTS = wanted r wv)"

abbreviation active_rd :: "'a server_scheme \<Rightarrow> addr \<Rightarrow> bool" where "active_rd w c \<equiv> ev_active (evs w (rd w c))"
abbreviation active_wr :: "'a server_scheme \<Rightarrow> addr \<Rightarrow> bool" where "active_wr w c \<equiv> ev_active (evs w (wr w c))"
abbreviation inst_of :: "'a server_scheme \<Rightarrow> addr \<Rightarrow> bool" where "inst_of w c \<equiv> ev_instance (evs w (rd w c))"

definition registered :: "os \<Rightarrow> 'a server_scheme \<Rightarrow> addr list \<Rightarrow> addr list \<Rightarrow> bool" where
  "registered os w cs fl \<longleftrightarrow>
     (\<forall>c \<in> busy cs fl. watch_ok c (inst_of w c) (active_rd w c) (active_wr w c) (watched os w (fd_of w c)))
     \<and> (\<forall>fd. fd \<notin> fd_of w ` busy cs fl \<longrightarrow> watched os w fd = None) \<and> ep w \<notin> fd_of w ` busy cs fl"

lemma server_ok_cong:
  assumes "same_table w w'" "event_timer_rbtree w' = event_timer_rbtree w" "event_timer_sentinel w' = event_timer_sentinel w"
    "current_msec w' = current_msec w" "equeues w' = equeues w" "posted_accept_events w' = posted_accept_events w"
    "posted_events w' = posted_events w"
    "\<And>ev. ev_timer_set (evs w' ev) = ev_timer_set (evs w ev) \<and> ev_posted (evs w' ev) = ev_posted (evs w ev)
      \<and> ev_data (evs w' ev) = ev_data (evs w ev) \<and> ev_instance (evs w' ev) = ev_instance (evs w ev)"
  shows "server_ok base w' cs fl rs evl xs ys = server_ok base w cs fl rs evl xs ys"
proof -
  have c: "conns w' = conns w" using assms(1) by (simp add: same_table_def)
  have "timers base w' evl = timers base w evl" using assms by (intro timers_cong) auto
  moreover have "posted w' q xs q' ys = posted w q xs q' ys" for q q' using assms by (intro posted_cong) auto
  moreover have "events_ok w' B = events_ok w B" for B using assms(8) by (simp add: events_ok_def c)
  moreover have "heads_ok w' cs = heads_ok w cs" using assms by (simp add: heads_ok_def same_table_events [OF assms(1)])
  ultimately show ?thesis
    using assms by (simp add: server_ok_def same_table_store [OF assms(1)] same_table_events [OF assms(1)])
qed

text \<open>An operation that changes the \<open>active\<close> flags of one connection and its registration.\<close>

lemma registered_step:
  assumes reg: "registered os w cs fl" and c: "c \<in> busy cs fl" and inj: "inj_on (fd_of w) (busy cs fl)"
    and nd: "nodes_ok w cs"
    and t: "conns w' = conns w" "ep w' = ep w"
    and o: "\<And>ev. ev \<noteq> rd w c \<Longrightarrow> ev \<noteq> wr w c \<Longrightarrow> evs w' ev = evs w ev"
    and f: "\<And>fd. fd \<noteq> fd_of w c \<Longrightarrow> watched os w' fd = watched os w fd"
    and k: "watch_ok c (inst_of w' c) (active_rd w' c) (active_wr w' c) (watched os w' (fd_of w c))"
  shows "registered os w' cs fl"
  unfolding registered_def t
proof (intro conjI ballI allI impI)
  fix a assume a: "a \<in> busy cs fl"
  show "watch_ok a (ev_instance (evs w' (rd w a))) (ev_active (evs w' (rd w a))) (ev_active (evs w' (wr w a))) (watched os w' (fd_of w a))"
  proof (cases "a = c")
    case True
    then show ?thesis using k t by simp
  next
    case False
    then have "fd_of w a \<noteq> fd_of w c" using inj a c by (auto dest: inj_onD)
    moreover have "rd w a \<noteq> rd w c" "rd w a \<noteq> wr w c" "wr w a \<noteq> rd w c" "wr w a \<noteq> wr w c"
      using nd a c False unfolding nodes_ok_def by (metis DiffD1)+
    ultimately show ?thesis using reg a o f by (simp add: registered_def)
  qed
next
  fix fd assume "fd \<notin> fd_of w ` busy cs fl"
  then show "watched os w' fd = None" using reg c f by (metis image_eqI registered_def)
next
  show "ep w \<notin> fd_of w ` busy cs fl" using reg by (simp add: registered_def)
qed

section \<open>Registering events\<close>

lemma io_bits:
  "READ_EVENT = 0x2001" "WRITE_EVENT = 4" "EPOLLIN OR EPOLLRDHUP = 0x2001" "EPOLLOUT = 4" "IO_EVENTS = 0x2005" "READ_EVENT \<noteq> WRITE_EVENT"
  by (simp_all add: READ_EVENT_def WRITE_EVENT_def EPOLLIN_def EPOLLRDHUP_def EPOLLOUT_def IO_EVENTS_def)

lemma wanted_bits: "wanted r wv = (if r then if wv then 0x2005 else 0x2001 else if wv then 4 else 0)"
  by (simp add: wanted_def io_bits)

lemma flags_out: "flags AND IO_EVENTS = 0 \<Longrightarrow> (m OR flags) AND IO_EVENTS = m AND IO_EVENTS"
  by (simp add: bit.conj_disj_distrib2)

text \<open>\<open>event_side w c ev event\<close>: \<open>ev\<close> is the read or the write event of \<open>c\<close>, and \<open>event\<close> says which.\<close>

definition event_side :: "'a server_scheme \<Rightarrow> addr \<Rightarrow> addr \<Rightarrow> u32 \<Rightarrow> bool" where
  "event_side w c ev event \<longleftrightarrow> ev = rd w c \<and> event = READ_EVENT \<or> ev = wr w c \<and> event = WRITE_EVENT"

definition set_active :: "'a server_scheme \<Rightarrow> addr \<Rightarrow> bool \<Rightarrow> 'a server_scheme" where
  "set_active w ev b = w\<lparr>evs := (evs w)(ev := (evs w ev)\<lparr>ev_active := b\<rparr>)\<rparr>"

definition called :: "'a server_scheme \<Rightarrow> syscall \<Rightarrow> 'a server_scheme" where
  "called w c = w\<lparr>calls := c # calls w\<rparr>"

lemma called_fields [simp]: "evs (called w c) = evs w" "conns (called w c) = conns w" "calls (called w c) = c # calls w"
  "ep (called w c) = ep w" "event_timer_rbtree (called w c) = event_timer_rbtree w" "equeues (called w c) = equeues w"
  by (simp_all add: called_def)

lemma set_active_fields [simp]: "evs (set_active w ev b) = (evs w)(ev := (evs w ev)\<lparr>ev_active := b\<rparr>)"
  "conns (set_active w ev b) = conns w" "calls (set_active w ev b) = calls w" "ep (set_active w ev b) = ep w"
  by (simp_all add: set_active_def)

lemma server_ok_called [simp]: "server_ok base (called w c) cs fl rs evl xs ys = server_ok base w cs fl rs evl xs ys"
  by (rule server_ok_cong) (simp_all add: same_table_def called_def)

lemma server_ok_set_active [simp]: "server_ok base (set_active w ev b) cs fl rs evl xs ys = server_ok base w cs fl rs evl xs ys"
  by (rule server_ok_cong) (simp_all add: same_table_def set_active_def)

lemma sys_called: "sys os c w = (called w c, os (c # calls w))"
  by (simp add: sys_def called_def)

text \<open>A refused \<open>epoll_ctl\<close> changes nothing.\<close>

lemma registered_failed:
  assumes "registered os w cs fl" and "ans_ret (os (Sys_epoll_ctl e op fd m d # calls w)) = - 1"
  shows "registered os (called w (Sys_epoll_ctl e op fd m d)) cs fl"
  using assms by (simp add: registered_def watched_def)

lemma server_facts:
  assumes "server_ok base w cs fl rs evl xs ys" and "c \<in> busy cs fl"
  shows "nodes_ok w cs" "inj_on (fd_of w) (busy cs fl)" "c \<noteq> NULL" "rd w c \<noteq> NULL" "wr w c \<noteq> NULL" "rd w c \<noteq> wr w c"
    "ev_data (evs w (rd w c)) = c" "ev_data (evs w (wr w c)) = c" "ev_instance (evs w (wr w c)) = inst_of w c" "fd_of w c \<noteq> NOFD"
  using assms store_conn [of w cs fl rs c] by (auto simp: server_ok_def conn_store_def fds_ok_def events_ok_def free_ok_def)

text \<open>
  What an operation on the registration of one connection promises: it makes one call, and when the kernel accepts it
  the flags are changed by \<open>upd\<close>; otherwise nothing changes and \<open>fail\<close> is returned.
\<close>

definition ctl_result :: "os \<Rightarrow> u64 \<Rightarrow> 'a server_scheme \<Rightarrow> addr list \<Rightarrow> addr list \<Rightarrow> addr list \<Rightarrow> addr list \<Rightarrow> addr list \<Rightarrow> addr list
    \<Rightarrow> ('a server_scheme \<Rightarrow> 'a server_scheme) \<Rightarrow> int \<Rightarrow> ('a server_scheme \<times> int) option \<Rightarrow> bool" where
  "ctl_result os base w cs fl rs evl xs ys upd fail res = (\<exists>x w' r. res = Some (w', r)
     \<and> (if ans_ret (os (x # calls w)) = - 1 then w' = called w x \<and> r = fail else w' = upd (called w x) \<and> r = 0)
     \<and> server_ok base w' cs fl rs evl xs ys \<and> registered os w' cs fl)"

lemma ctl_resultI:
  assumes "res = (if ans_ret (os (Sys_epoll_ctl e op fd m d # calls w)) = - 1 then Some (called w (Sys_epoll_ctl e op fd m d), fail)
      else Some (upd (called w (Sys_epoll_ctl e op fd m d)), 0))"
    and "server_ok base w cs fl rs evl xs ys" and "registered os w cs fl"
    and "server_ok base (upd (called w (Sys_epoll_ctl e op fd m d))) cs fl rs evl xs ys"
    and "ans_ret (os (Sys_epoll_ctl e op fd m d # calls w)) \<noteq> - 1 \<Longrightarrow> registered os (upd (called w (Sys_epoll_ctl e op fd m d))) cs fl"
  shows "ctl_result os base w cs fl rs evl xs ys upd fail res"
proof (cases "ans_ret (os (Sys_epoll_ctl e op fd m d # calls w)) = - 1")
  case True
  with assms(1-3) registered_failed [OF assms(3) True] show ?thesis
    unfolding ctl_result_def by (intro exI [of _ "Sys_epoll_ctl e op fd m d"]) simp
next
  case False
  with assms(1,4,5) show ?thesis unfolding ctl_result_def by (intro exI [of _ "Sys_epoll_ctl e op fd m d"]) simp
qed

lemma watched_ctl:
  assumes "x = Sys_epoll_ctl (ep w) op fd m d" and "ans_ret (os (x # calls w)) \<noteq> - 1" and "ep w' = ep w" and "calls w' = x # calls w"
  shows "watched os w' a = (if a = fd then if op = EPOLL_CTL_DEL then None else Some (m, d) else watched os w a)"
  using assms by (simp add: watched_def)

lemma event_sideE:
  assumes "event_side w c ev event"
  obtains "ev = rd w c" "event = READ_EVENT" | "ev = wr w c" "event = WRITE_EVENT"
  using assms by (auto simp: event_side_def)

lemma add_event_ok:
  assumes s: "server_ok base w cs fl rs evl xs ys" and reg: "registered os w cs fl" and c: "c \<in> busy cs fl"
    and ev: "event_side w c ev event" and fl: "flags AND IO_EVENTS = 0"
  shows "ctl_result os base w cs fl rs evl xs ys (\<lambda>w. set_active w ev True) (- 1) (epoll_add_event os w ev event flags)"
proof -
  note f = server_facts [OF s c]
  define other where "other = (if event = READ_EVENT then active_wr w c else active_rd w c)"
  define m where "m = (if other then 0x2005 else if event = READ_EVENT then 0x2001 else 4) OR flags"
  let ?op = "if other then EPOLL_CTL_MOD else EPOLL_CTL_ADD"
  define x where "x = Sys_epoll_ctl (ep w) ?op (fd_of w c) m (tag c (inst_of w c))"
  let ?w = "set_active (called w x) ev True"
  have "epoll_add_event os w ev event flags = (if ans_ret (os (x # calls w)) = - 1 then Some (called w x, - 1) else Some (?w, 0))"
    using ev by (cases rule: event_sideE) (use f in \<open>simp_all add: epoll_add_event_def get_event_def get_conn_def Let_def other_def m_def
      x_def sys_called upd_event_def set_active_def io_bits\<close>)
  moreover have "registered os ?w cs fl" if ok: "ans_ret (os (x # calls w)) \<noteq> - 1"
    using reg c f(2,1)
  proof (rule registered_step)
    note w = watched_ctl [where os = os and w = w and w' = ?w, OF x_def ok, simplified]
    have "m AND IO_EVENTS = wanted (active_rd ?w c) (active_wr ?w c)"
      using ev f by (auto simp: m_def flags_out [OF fl, unfolded io_bits] other_def event_side_def wanted_bits io_bits)
    then show "watch_ok c (inst_of ?w c) (active_rd ?w c) (active_wr ?w c) (watched os ?w (fd_of w c))"
      using ev f by (auto simp: watch_ok_def w event_side_def)
    show "evs ?w a = evs w a" if "a \<noteq> rd w c" "a \<noteq> wr w c" for a using that ev by (auto simp: event_side_def)
    show "watched os ?w fd = watched os w fd" if "fd \<noteq> fd_of w c" for fd using that by (simp add: w)
  qed simp_all
  ultimately show ?thesis unfolding x_def using s reg by (intro ctl_resultI) simp_all
qed

lemma del_event_ok:
  assumes s: "server_ok base w cs fl rs evl xs ys" and reg: "registered os w cs fl" and c: "c \<in> busy cs fl"
    and ev: "event_side w c ev event" and fl: "flags AND IO_EVENTS = 0" "flags AND CLOSE_EVENT = 0"
  shows "ctl_result os base w cs fl rs evl xs ys (\<lambda>w. set_active w ev False) (- 1) (epoll_del_event os w ev event flags)"
proof -
  note f = server_facts [OF s c]
  define other where "other = (if event = READ_EVENT then active_wr w c else active_rd w c)"
  define op where "op = (if other then EPOLL_CTL_MOD else EPOLL_CTL_DEL)"
  define m where "m = (if other then (if event = READ_EVENT then 4 else 0x2001) OR flags else 0)"
  define d where "d = (if other then tag c (inst_of w c) else 0)"
  define x where "x = Sys_epoll_ctl (ep w) op (fd_of w c) m d"
  let ?w = "set_active (called w x) ev False"
  have "epoll_del_event os w ev event flags = (if ans_ret (os (x # calls w)) = - 1 then Some (called w x, - 1) else Some (?w, 0))"
    using ev by (cases rule: event_sideE) (use f fl(2) in \<open>simp_all add: epoll_del_event_def get_event_def get_conn_def Let_def other_def
      op_def m_def d_def x_def sys_called upd_event_def set_active_def io_bits\<close>)
  moreover have "registered os ?w cs fl" if ok: "ans_ret (os (x # calls w)) \<noteq> - 1"
    using reg c f(2,1)
  proof (rule registered_step)
    note w = watched_ctl [where os = os and w = w and w' = ?w, OF x_def ok, simplified]
    show "watch_ok c (inst_of ?w c) (active_rd ?w c) (active_wr ?w c) (watched os ?w (fd_of w c))"
      using ev f by (auto simp: watch_ok_def w op_def m_def d_def other_def event_side_def wanted_bits io_bits flags_out [OF fl(1), unfolded io_bits])
    show "evs ?w a = evs w a" if "a \<noteq> rd w c" "a \<noteq> wr w c" for a using that ev by (auto simp: event_side_def)
    show "watched os ?w fd = watched os w fd" if "fd \<noteq> fd_of w c" for fd using that by (simp add: w)
  qed simp_all
  ultimately show ?thesis unfolding x_def using s reg by (intro ctl_resultI) simp_all
qed

section \<open>Whole connections\<close>

definition set_both :: "addr \<Rightarrow> bool \<Rightarrow> 'a server_scheme \<Rightarrow> 'a server_scheme" where
  "set_both c b w = set_active (set_active w (rd w c) b) (wr w c) b"

lemma set_both_fields [simp]: "conns (set_both c b w) = conns w" "calls (set_both c b w) = calls w" "ep (set_both c b w) = ep w"
  "a \<noteq> rd w c \<Longrightarrow> a \<noteq> wr w c \<Longrightarrow> evs (set_both c b w) a = evs w a"
  "ev_instance (evs (set_both c b w) a) = ev_instance (evs w a)"
  "ev_active (evs (set_both c b w) (rd w c)) = b" "ev_active (evs (set_both c b w) (wr w c)) = b"
  by (simp_all add: set_both_def)

lemma server_ok_set_both [simp]: "server_ok base (set_both c b w) cs fl rs evl xs ys = server_ok base w cs fl rs evl xs ys"
  by (simp add: set_both_def)

lemma connection_ctl_ok:
  assumes s: "server_ok base w cs fl rs evl xs ys" and reg: "registered os w cs fl" and c: "c \<in> busy cs fl"
    and x: "x = Sys_epoll_ctl (ep w) op (fd_of w c) m d" and ok: "ans_ret (os (x # calls w)) \<noteq> - 1"
    and k: "watch_ok c (inst_of w c) b b (if op = EPOLL_CTL_DEL then None else Some (m, d))"
  shows "registered os (set_both c b (called w x)) cs fl"
proof -
  note f = server_facts [OF s c]
  let ?w = "set_both c b (called w x)"
  note w = watched_ctl [where os = os and w = w and w' = ?w, OF x ok, simplified]
  have a: "active_rd ?w c = b" "active_wr ?w c = b" using set_both_fields(6,7) [of c b "called w x"] by simp_all
  show ?thesis
    using reg c f(2,1)
  proof (rule registered_step)
    show "watch_ok c (inst_of ?w c) (active_rd ?w c) (active_wr ?w c) (watched os ?w (fd_of w c))"
      unfolding a using k by (simp add: w)
  qed (simp_all add: w)
qed

lemma add_connection_ok:
  assumes s: "server_ok base w cs fl rs evl xs ys" and reg: "registered os w cs fl" and c: "c \<in> busy cs fl"
  shows "ctl_result os base w cs fl rs evl xs ys (set_both c True) 0 (epoll_add_connection os w c)"
proof -
  note f = server_facts [OF s c]
  define x where "x = Sys_epoll_ctl (ep w) EPOLL_CTL_ADD (fd_of w c) 0x80002005 (tag c (inst_of w c))"
  have "epoll_add_connection os w c = (if ans_ret (os (x # calls w)) = - 1 then Some (called w x, 0) else Some (set_both c True (called w x), 0))"
    using f by (simp add: epoll_add_connection_def get_conn_def get_event_def sys_called Let_def x_def upd_event_def set_both_def set_active_def
      EPOLLIN_def EPOLLOUT_def EPOLLET_def EPOLLRDHUP_def)
  moreover have "registered os (set_both c True (called w x)) cs fl" if "ans_ret (os (x # calls w)) \<noteq> - 1"
    by (rule connection_ctl_ok [OF s reg c x_def that]) (simp add: watch_ok_def io_bits wanted_bits)
  ultimately show ?thesis unfolding x_def using s reg by (intro ctl_resultI) simp_all
qed

lemma del_connection_ok:
  assumes s: "server_ok base w cs fl rs evl xs ys" and reg: "registered os w cs fl" and c: "c \<in> busy cs fl"
    and fl: "flags AND CLOSE_EVENT = 0"
  shows "ctl_result os base w cs fl rs evl xs ys (set_both c False) (- 1) (epoll_del_connection os w c flags)"
proof -
  note f = server_facts [OF s c]
  define x where "x = Sys_epoll_ctl (ep w) EPOLL_CTL_DEL (fd_of w c) 0 0"
  have "epoll_del_connection os w c flags = (if ans_ret (os (x # calls w)) = - 1 then Some (called w x, - 1) else Some (set_both c False (called w x), 0))"
    using f fl by (simp add: epoll_del_connection_def get_conn_def sys_called Let_def x_def upd_event_def set_both_def set_active_def)
  moreover have "registered os (set_both c False (called w x)) cs fl" if "ans_ret (os (x # calls w)) \<noteq> - 1"
    by (rule connection_ctl_ok [OF s reg c x_def that]) (simp add: watch_ok_def)
  ultimately show ?thesis unfolding x_def using s reg by (intro ctl_resultI) simp_all
qed

text \<open>Taking and closing a connection.\<close>

lemma taken_registered:
  assumes s: "server_ok base w cs (c # fl) rs evl xs ys" and reg: "registered os w cs (c # fl)"
    and fd: "new_fd w cs (c # fl) s" "s \<noteq> ep w"
  shows "registered os (taken w c fl s) cs fl"
proof -
  have st: "conn_store w cs (c # fl) rs" using s by (simp add: server_ok_def)
  then have nd: "nodes_ok w cs" and c: "c \<in> set cs" "c \<notin> set fl" by (auto simp: conn_store_def free_ok_def)
  have rw: "rd w c \<noteq> wr w c" using store_conn [OF st c(1)] by simp
  have b: "busy cs fl = insert c (busy cs (c # fl))" using c by auto
  let ?w = "taken w c fl s"
  have w: "watched os ?w = watched os w" by (simp add: watched_def fun_eq_iff)
  have out: "s \<notin> fd_of w ` busy cs (c # fl)" using fd by (simp add: new_fd_def)
  then have ns: "watched os w s = None" using reg by (simp add: registered_def)
  have im: "fd_of ?w ` busy cs fl = insert s (fd_of w ` busy cs (c # fl))" unfolding b by (auto simp: image_def)
  show ?thesis
    unfolding registered_def w im
  proof (intro conjI ballI allI impI)
    fix a assume a: "a \<in> busy cs fl"
    show "watch_ok a (inst_of ?w a) (active_rd ?w a) (active_wr ?w a) (watched os w (fd_of ?w a))"
    proof (cases "a = c")
      case True
      then show ?thesis using rw ns by (simp add: watch_ok_def event_zero_def)
    next
      case False
      then have "rd w a \<noteq> rd w c" "rd w a \<noteq> wr w c" "wr w a \<noteq> rd w c" "wr w a \<noteq> wr w c"
        using nd a c unfolding nodes_ok_def by (metis DiffD1)+
      then show ?thesis using reg a False by (simp add: registered_def)
    qed
  qed (use reg fd in \<open>auto simp: registered_def\<close>)
qed

lemma closed_registered:
  assumes s: "server_ok base w cs fl rs evl xs ys" and reg: "registered os w cs fl" and c: "c \<in> busy cs fl"
  shows "registered os (closed_state w c fl rs t qs cq) cs (c # fl)"
proof -
  note f = server_facts [OF s c]
  let ?w = "closed_state w c fl rs t qs cq"
  have epf: "fd_of w c \<noteq> ep w" using reg imageI [OF c, of "fd_of w"] unfolding registered_def by metis
  have w: "watched os ?w = (watched os w)(fd_of w c := None)" using epf by (simp add: watched_def closed_state_def)
  have k: "rd ?w a = rd w a" "wr ?w a = wr w a" "ep ?w = ep w" "a \<noteq> c \<Longrightarrow> fd_of ?w a = fd_of w a"
    "ev_instance (evs ?w e) = ev_instance (evs w e)" "e \<noteq> rd w c \<Longrightarrow> e \<noteq> wr w c \<Longrightarrow> evs ?w e = evs w e" for a e
    by (simp_all add: closed_state_def shut_def)
  have b: "busy cs fl = insert c (busy cs (c # fl))" using c by auto
  have im: "fd_of ?w ` busy cs (c # fl) = fd_of w ` busy cs (c # fl)" by (rule image_cong) (simp_all add: k(4))
  show ?thesis
    unfolding registered_def w im k(3)
  proof (intro conjI ballI allI impI)
    fix a assume a: "a \<in> busy cs (c # fl)"
    then have ne: "a \<noteq> c" "a \<in> busy cs fl" by auto
    then have "fd_of w a \<noteq> fd_of w c" using f(2) c by (auto dest: inj_onD)
    moreover have "rd w a \<noteq> rd w c" "rd w a \<noteq> wr w c" "wr w a \<noteq> rd w c" "wr w a \<noteq> wr w c"
      using f(1) a c ne unfolding nodes_ok_def by (metis DiffD1)+
    ultimately show "watch_ok a (inst_of ?w a) (active_rd ?w a) (active_wr ?w a) (((watched os w)(fd_of w c := None)) (fd_of ?w a))"
      using reg ne by (simp add: k registered_def)
  next
    fix fd assume "fd \<notin> fd_of w ` busy cs (c # fl)"
    then show "((watched os w)(fd_of w c := None)) fd = None" using reg unfolding b registered_def by auto
  next
    show "ep w \<notin> fd_of w ` busy cs (c # fl)" using reg unfolding b registered_def by auto
  qed
qed

end
