(* ===== verification/Server_Inv.thy ===== *)
theory Server_Inv
  imports Registered
begin

unbundle bit_operations_syntax

text \<open>
  The states that handlers can reach: whatever a handler does to connections in use through the operations of
  connection.c, epoll\_event.c, event\_timer.c and event\_posted.h, in any order and with any answers of the
  kernel, it faults nowhere and keeps the invariant.
\<close>

section \<open>Operations of handlers\<close>

text \<open>The flag says which event of the connection is meant, the read event when it is set.\<close>

datatype server_op =
    Op_add_event addr bool u32
  | Op_del_event addr bool u32
  | Op_add_connection addr
  | Op_del_connection addr u32
  | Op_close addr
  | Op_get u32
  | Op_reusable addr u32
  | Op_add_timer addr bool u64
  | Op_del_timer addr bool
  | Op_post addr bool
  | Op_unpost addr bool

definition side :: "'a server_scheme \<Rightarrow> addr \<Rightarrow> bool \<Rightarrow> addr" where
  "side w c r = (if r then rd w c else wr w c)"

definition side_event :: "bool \<Rightarrow> u32" where
  "side_event r = (if r then READ_EVENT else WRITE_EVENT)"

fun exec_op :: "os \<Rightarrow> 'a server_ext caller \<Rightarrow> server_op \<Rightarrow> 'a server_scheme \<Rightarrow> 'a server_scheme option" where
  "exec_op os call (Op_add_event c r flags) w = map_option fst (epoll_add_event os w (side w c r) (side_event r) flags)"
| "exec_op os call (Op_del_event c r flags) w = map_option fst (epoll_del_event os w (side w c r) (side_event r) flags)"
| "exec_op os call (Op_add_connection c) w = map_option fst (epoll_add_connection os w c)"
| "exec_op os call (Op_del_connection c flags) w = map_option fst (epoll_del_connection os w c flags)"
| "exec_op os call (Op_close c) w = close_connection os w c"
| "exec_op os call (Op_get s) w = map_option fst (get_connection call w s)"
| "exec_op os call (Op_reusable c b) w = reusable_connection w c b"
| "exec_op os call (Op_add_timer c r t) w = event_add_timer w (side w c r) t"
| "exec_op os call (Op_del_timer c r) w = event_del_timer w (side w c r)"
| "exec_op os call (Op_post c r) w = post_event w (side w c r)
     (if r \<and> ev_accept (evs w (rd w c)) then posted_accept_events w else posted_events w)"
| "exec_op os call (Op_unpost c r) w = delete_posted_event w (side w c r)"

text \<open>
  When a handler may do it: on a connection of the table that is in use; the flags of \<open>epoll_ctl\<close> carry no event bits and
  \<open>CLOSE_EVENT\<close> is left to \<open>close_connection\<close>; a timer is removed or an event taken off a queue only when it is there; a
  descriptor given to \<open>get_connection\<close> is new, and the free list is not empty.
\<close>

definition in_use :: "'a server_scheme \<Rightarrow> addr list \<Rightarrow> addr \<Rightarrow> bool" where
  "in_use w cs c \<longleftrightarrow> c \<in> set cs \<and> fd_of w c \<noteq> NOFD"

fun allowed :: "u64 \<Rightarrow> 'a server_scheme \<Rightarrow> addr list \<Rightarrow> server_op \<Rightarrow> bool" where
  "allowed base w cs (Op_add_event c r flags) = (in_use w cs c \<and> flags AND IO_EVENTS = 0)"
| "allowed base w cs (Op_del_event c r flags) = (in_use w cs c \<and> flags AND IO_EVENTS = 0 \<and> flags AND CLOSE_EVENT = 0)"
| "allowed base w cs (Op_add_connection c) = in_use w cs c"
| "allowed base w cs (Op_del_connection c flags) = (in_use w cs c \<and> flags AND CLOSE_EVENT = 0)"
| "allowed base w cs (Op_close c) = (c \<in> set cs)"
| "allowed base w cs (Op_get s) = (free_connections w \<noteq> NULL \<and> s \<noteq> NOFD \<and> s \<notin> fd_of w ` set cs \<and> s \<noteq> ep w
     \<and> (files w \<noteq> None \<longrightarrow> s < files_n w \<and> 0 \<le> sint s))"
| "allowed base w cs (Op_reusable c b) = (in_use w cs c \<and> (b = 0 \<or> b = 1))"
| "allowed base w cs (Op_add_timer c r t) = (in_use w cs c \<and> timer_window base (current_msec w + t))"
| "allowed base w cs (Op_del_timer c r) = (in_use w cs c \<and> ev_timer_set (evs w (side w c r)))"
| "allowed base w cs (Op_post c r) = in_use w cs c"
| "allowed base w cs (Op_unpost c r) = (in_use w cs c \<and> ev_posted (evs w (side w c r)))"

definition server_inv :: "os \<Rightarrow> u64 \<Rightarrow> addr list \<Rightarrow> 'a server_scheme \<Rightarrow> bool" where
  "server_inv os base cs w \<longleftrightarrow> (\<exists>fl rs evl xs ys. server_ok base w cs fl rs evl xs ys \<and> registered os w cs fl)"

inductive reaches :: "os \<Rightarrow> 'a server_ext caller \<Rightarrow> u64 \<Rightarrow> addr list \<Rightarrow> 'a server_scheme \<Rightarrow> 'a server_scheme \<Rightarrow> bool"
  for os call base cs w where
  reaches_refl: "reaches os call base cs w w"
| reaches_step: "reaches os call base cs w w' \<Longrightarrow> allowed base w' cs op \<Longrightarrow> exec_op os call op w' = Some w'' \<Longrightarrow> reaches os call base cs w w''"

section \<open>Each operation keeps the invariant\<close>

definition keeps_inv :: "os \<Rightarrow> u64 \<Rightarrow> addr list \<Rightarrow> 'a server_scheme option \<Rightarrow> bool" where
  "keeps_inv os base cs r \<longleftrightarrow> (\<exists>w. r = Some w \<and> server_inv os base cs w)"

lemma server_invI: "server_ok base w cs fl rs evl xs ys \<Longrightarrow> registered os w cs fl \<Longrightarrow> server_inv os base cs w"
  unfolding server_inv_def by blast

lemma ctl_keeps: "ctl_result os base w cs fl rs evl xs ys upd fail res \<Longrightarrow> keeps_inv os base cs (map_option fst res)"
  unfolding ctl_result_def keeps_inv_def by (auto intro: server_invI)

lemma in_use_busy: "server_ok base w cs fl rs evl xs ys \<Longrightarrow> in_use w cs c \<longleftrightarrow> c \<in> busy cs fl"
  by (auto simp: in_use_def server_ok_def conn_store_def free_ok_def)

lemma side_event_side: "event_side w c (side w c r) (side_event r)"
  by (simp add: event_side_def side_def side_event_def)

lemma events_ok_cong:
  assumes "conns w' = conns w" "\<And>ev. ev_data (evs w' ev) = ev_data (evs w ev) \<and> ev_instance (evs w' ev) = ev_instance (evs w ev)"
  shows "events_ok w' B = events_ok w B"
  using assms by (simp add: events_ok_def)

text \<open>An operation that leaves the table, the registrations and the instances alone.\<close>

lemma registered_cong:
  assumes "conns w' = conns w" "ep w' = ep w" "calls w' = calls w"
    "\<And>ev. ev_active (evs w' ev) = ev_active (evs w ev) \<and> ev_instance (evs w' ev) = ev_instance (evs w ev)"
  shows "registered os w' cs fl = registered os w cs fl"
  using assms by (simp add: registered_def watched_def)

lemma events_busy:
  assumes "server_ok base w cs fl rs evl xs ys" and "c \<in> busy cs fl"
  shows "side w c r \<in> events_of w (busy cs fl)" "side w c r \<noteq> NULL" "ev_timer (side w c r) \<noteq> event_timer_sentinel w"
    "ev_queue (side w c r) \<noteq> posted_accept_events w" "ev_queue (side w c r) \<noteq> posted_events w"
proof -
  show a: "side w c r \<in> events_of w (busy cs fl)" using assms(2) by (auto simp: side_def events_of_def)
  then have "side w c r \<in> events_of w (set cs)" by (auto simp: events_of_def)
  then show "side w c r \<noteq> NULL" "ev_timer (side w c r) \<noteq> event_timer_sentinel w"
    "ev_queue (side w c r) \<noteq> posted_accept_events w" "ev_queue (side w c r) \<noteq> posted_events w"
    using assms(1) unfolding server_ok_def conn_store_def nodes_ok_def heads_ok_def by metis+
qed

lemma timer_change_ok:
  assumes s: "server_ok base w cs fl rs evl xs ys" and reg: "registered os w cs fl" and c: "c \<in> busy cs fl"
    and w': "w' = w\<lparr>event_timer_rbtree := t, evs := (evs w)(side w c r := (evs w (side w c r))\<lparr>ev_timer_set := b\<rparr>)\<rparr>"
    and tm: "timers base w' evl'" and sub: "set evl' \<subseteq> insert (side w c r) (set evl)"
  shows "server_inv os base cs w'"
proof -
  have e: "events_of w' A = events_of w A" for A by (simp add: w' events_of_def)
  have "conn_store w' cs fl rs" using s by (subst same_table_store [of w]) (simp_all add: w' same_table_def server_ok_def)
  moreover have "posted w' (posted_accept_events w) xs (posted_events w) ys = posted w (posted_accept_events w) xs (posted_events w) ys"
    by (rule posted_cong) (simp_all add: w')
  moreover have "set evl' \<subseteq> events_of w (busy cs fl)" using sub s events_busy(1) [OF s c, of r] by (auto simp: server_ok_def)
  moreover have "events_ok w' (busy cs fl) = events_ok w (busy cs fl)" by (rule events_ok_cong) (simp_all add: w')
  moreover have "heads_ok w' cs" using s by (simp add: server_ok_def heads_ok_def e) (simp add: w')
  ultimately have "server_ok base w' cs fl rs evl' xs ys" using s tm by (simp add: server_ok_def e) (simp add: w')
  moreover have "registered os w' cs fl" using reg by (subst registered_cong [of _ w]) (simp_all add: w')
  ultimately show ?thesis by (rule server_invI)
qed

lemma post_change_ok:
  assumes s: "server_ok base w cs fl rs evl xs ys" and ev: "ev \<in> events_of w (busy cs fl)"
    and w': "w' = w\<lparr>evs := (evs w)(ev := (evs w ev)\<lparr>ev_posted := b\<rparr>), equeues := qs\<rparr>"
    and p: "posted w' (posted_accept_events w) xs' (posted_events w) ys'" and sub: "set xs' \<union> set ys' \<subseteq> insert ev (set xs \<union> set ys)"
  shows "server_ok base w' cs fl rs evl xs' ys'" and "registered os w' cs fl = registered os w cs fl"
proof -
  have e: "events_of w' A = events_of w A" for A by (simp add: w' events_of_def)
  have "conn_store w' cs fl rs" using s by (subst same_table_store [of w]) (simp_all add: w' same_table_def server_ok_def)
  moreover have "timers base w' evl = timers base w evl" by (rule timers_cong) (simp_all add: w')
  moreover have "set xs' \<union> set ys' \<subseteq> events_of w (busy cs fl)" using sub s ev by (auto simp: server_ok_def)
  moreover have "events_ok w' (busy cs fl) = events_ok w (busy cs fl)" by (rule events_ok_cong) (simp_all add: w')
  moreover have "heads_ok w' cs" using s by (simp add: server_ok_def heads_ok_def e) (simp add: w')
  ultimately show "server_ok base w' cs fl rs evl xs' ys'" using s p by (simp add: server_ok_def e) (simp add: w')
  show "registered os w' cs fl = registered os w cs fl" by (rule registered_cong) (simp_all add: w')
qed

text \<open>Posting an event, on the queue for accepting or on the other one, unless it is on one of them.\<close>

definition enq :: "addr \<times> bool \<Rightarrow> addr list \<times> addr list \<Rightarrow> addr list \<times> addr list" where
  "enq e qs = (if fst e \<in> set (fst qs) \<union> set (snd qs) then qs
     else if snd e then (fst qs @ [fst e], snd qs) else (fst qs, snd qs @ [fst e]))"

lemma events_of_server:
  assumes "server_ok base w cs fl rs evl xs ys" and "ev \<in> events_of w (busy cs fl)"
  shows "ev \<noteq> NULL" "ev_timer ev \<noteq> event_timer_sentinel w" "ev_queue ev \<noteq> posted_accept_events w" "ev_queue ev \<noteq> posted_events w"
proof -
  have "ev \<in> events_of w (set cs)" using assms(2) by (auto simp: events_of_def)
  then show "ev \<noteq> NULL" "ev_timer ev \<noteq> event_timer_sentinel w" "ev_queue ev \<noteq> posted_accept_events w" "ev_queue ev \<noteq> posted_events w"
    using assms(1) unfolding server_ok_def conn_store_def nodes_ok_def heads_ok_def by metis+
qed

lemma post_server_ok:
  assumes s: "server_ok base w cs fl rs evl xs ys" and ev: "ev \<in> events_of w (busy cs fl)"
  shows "\<exists>qs w'. post_event w ev (if acc then posted_accept_events w else posted_events w) = Some w'
    \<and> w' = w\<lparr>evs := (evs w)(ev := (evs w ev)\<lparr>ev_posted := True\<rparr>), equeues := qs\<rparr>
    \<and> server_ok base w' cs fl rs evl (fst (enq (ev, acc) (xs, ys))) (snd (enq (ev, acc) (xs, ys)))
    \<and> (registered os w cs fl \<longrightarrow> registered os w' cs fl)"
proof -
  have p: "posted w (posted_accept_events w) xs (posted_events w) ys" using s by (simp add: server_ok_def)
  note e = events_of_server [OF s ev]
  have "\<exists>w' qs. post_event w ev (if acc then posted_accept_events w else posted_events w) = Some w'
    \<and> posted w' (posted_accept_events w) (fst (enq (ev, acc) (xs, ys))) (posted_events w) (snd (enq (ev, acc) (xs, ys)))
    \<and> w' = w\<lparr>evs := (evs w)(ev := (evs w ev)\<lparr>ev_posted := True\<rparr>), equeues := qs\<rparr>"
  proof (cases acc)
    case True
    with post_event_ok [OF p e(1,3,4)] show ?thesis by (auto simp: enq_def split: if_splits)
  next
    case False
    with post_event_ok [OF p [unfolded posted_sym [of w "posted_accept_events w"]] e(1,4,3)] show ?thesis
      by (auto simp: enq_def posted_sym [of _ "posted_events w"] Un_commute split: if_splits)
  qed
  then obtain w' qs where r: "post_event w ev (if acc then posted_accept_events w else posted_events w) = Some w'"
    "posted w' (posted_accept_events w) (fst (enq (ev, acc) (xs, ys))) (posted_events w) (snd (enq (ev, acc) (xs, ys)))"
    "w' = w\<lparr>evs := (evs w)(ev := (evs w ev)\<lparr>ev_posted := True\<rparr>), equeues := qs\<rparr>" by blast
  have "set (fst (enq (ev, acc) (xs, ys))) \<union> set (snd (enq (ev, acc) (xs, ys))) \<subseteq> insert ev (set xs \<union> set ys)"
    by (auto simp: enq_def)
  from post_change_ok [OF s ev r(3,2) this] r show ?thesis by blast
qed

lemma add_timer_keeps:
  assumes s: "server_ok base w cs fl rs evl xs ys" and reg: "registered os w cs fl" and c: "c \<in> busy cs fl"
    and t: "timer_window base (current_msec w + timer)"
  shows "keeps_inv os base cs (event_add_timer w (side w c r) timer)"
proof -
  let ?ev = "side w c r"
  have tm: "timers base w evl" using s by (simp add: server_ok_def)
  note e = events_busy [OF s c, of r]
  let ?same = "?ev \<in> set evl \<and> \<bar>int (unat (current_msec w + timer - base)) - int (expiry base w ?ev)\<bar> < TIMER_LAZY_DELAY"
  show ?thesis
  proof (cases ?same)
    case True
    then have "event_add_timer w ?ev timer = Some w" using event_add_timer_ok [OF tm e(2,3) t refl] by simp
    then show ?thesis using server_invI [OF s reg] by (simp add: keeps_inv_def)
  next
    case False
    then obtain tr w' where r: "event_add_timer w ?ev timer = Some w'"
      "w' = w\<lparr>event_timer_rbtree := tr, evs := (evs w)(?ev := (evs w ?ev)\<lparr>ev_timer_set := True\<rparr>)\<rparr>"
      "timers base w' (schedule base w ?ev (unat (current_msec w + timer - base)) (remove1 ?ev evl))"
      using event_add_timer_ok [OF tm e(2,3) t refl] unfolding if_not_P [OF False] by blast
    have "set (schedule base w ?ev k (remove1 ?ev evl)) \<subseteq> insert ?ev (set evl)" for k
      using set_remove1_subset [of ?ev evl] by (auto simp: schedule_def)
    with timer_change_ok [OF s reg c r(2,3)] r(1) show ?thesis by (simp add: keeps_inv_def)
  qed
qed

lemma del_timer_keeps:
  assumes s: "server_ok base w cs fl rs evl xs ys" and reg: "registered os w cs fl" and c: "c \<in> busy cs fl"
    and t: "ev_timer_set (evs w (side w c r))"
  shows "keeps_inv os base cs (event_del_timer w (side w c r))"
proof -
  let ?ev = "side w c r"
  have tm: "timers base w evl" using s by (simp add: server_ok_def)
  then have "?ev \<in> set evl" using t by (simp add: timers_def)
  from event_del_timer_ok [OF tm this] obtain tr where r: "event_del_timer w ?ev = Some (w\<lparr>event_timer_rbtree := tr, evs := (evs w)(?ev := (evs w ?ev)\<lparr>ev_timer_set := False\<rparr>)\<rparr>)"
    "timers base (w\<lparr>event_timer_rbtree := tr, evs := (evs w)(?ev := (evs w ?ev)\<lparr>ev_timer_set := False\<rparr>)\<rparr>) (remove1 ?ev evl)" by blast
  have "set (remove1 ?ev evl) \<subseteq> insert ?ev (set evl)" using set_remove1_subset [of ?ev evl] by blast
  with timer_change_ok [OF s reg c refl r(2)] r(1) show ?thesis by (simp add: keeps_inv_def)
qed

lemma post_keeps:
  assumes s: "server_ok base w cs fl rs evl xs ys" and reg: "registered os w cs fl" and c: "c \<in> busy cs fl"
  shows "keeps_inv os base cs (post_event w (side w c r) (if acc then posted_accept_events w else posted_events w))"
  using post_server_ok [OF s events_busy(1) [OF s c, of r], of acc os] reg by (auto simp: keeps_inv_def intro: server_invI)

lemma unpost_keeps:
  assumes s: "server_ok base w cs fl rs evl xs ys" and reg: "registered os w cs fl" and c: "c \<in> busy cs fl"
    and b: "ev_posted (evs w (side w c r))"
  shows "keeps_inv os base cs (delete_posted_event w (side w c r))"
proof -
  let ?ev = "side w c r"
  have "posted w (posted_accept_events w) xs (posted_events w) ys" using s by (simp add: server_ok_def)
  from delete_posted_if [OF this, of ?ev] b obtain qs where r: "delete_posted_event w ?ev = Some (w\<lparr>evs := (evs w)(?ev := (evs w ?ev)\<lparr>ev_posted := False\<rparr>), equeues := qs\<rparr>)"
    "posted (w\<lparr>evs := (evs w)(?ev := (evs w ?ev)\<lparr>ev_posted := False\<rparr>), equeues := qs\<rparr>) (posted_accept_events w) (removeAll ?ev xs)
      (posted_events w) (removeAll ?ev ys)" by auto
  have "set (removeAll ?ev xs) \<union> set (removeAll ?ev ys) \<subseteq> insert ?ev (set xs \<union> set ys)" by auto
  from post_change_ok [OF s events_busy(1) [OF s c] refl r(2) this] reg r(1) show ?thesis
    by (auto simp: keeps_inv_def intro: server_invI)
qed

lemma reusable_keeps:
  assumes s: "server_ok base w cs fl rs evl xs ys" and reg: "registered os w cs fl" and c: "c \<in> busy cs fl"
    and b: "b = 0 \<or> b = 1"
  shows "keeps_inv os base cs (reusable_connection w c b)"
proof -
  have "conn_store w cs fl rs" using s by (simp add: server_ok_def)
  from reusable_connection_ok [OF this c b] obtain qs w' where r: "reusable_connection w c b = Some w'" "conn_store w' cs fl (reuse_list c b rs)"
    "w' = w\<lparr>cqueues := qs, reusable_connections_n := of_nat (length (reuse_list c b rs)),
        conns := (conns w)(c := (conns w c)\<lparr>c_reusable := b = 1\<rparr>)\<rparr>" by blast
  have k: "rd w' a = rd w a" "wr w' a = wr w a" "fd_of w' a = fd_of w a" for a by (simp_all add: r(3))
  have e: "events_of w' A = events_of w A" for A by (simp add: k events_of_def)
  have "timers base w' evl = timers base w evl" by (rule timers_cong) (simp_all add: r(3))
  moreover have "posted w' (posted_accept_events w) xs (posted_events w) ys = posted w (posted_accept_events w) xs (posted_events w) ys"
    by (rule posted_cong) (simp_all add: r(3))
  moreover have "posted_accept_events w' = posted_accept_events w" "posted_events w' = posted_events w" "evs w' = evs w"
    "event_timer_sentinel w' = event_timer_sentinel w" "ep w' = ep w" "calls w' = calls w" by (simp_all add: r(3))
  ultimately have "server_ok base w' cs fl (reuse_list c b rs) evl xs ys" "registered os w' cs fl"
    using s reg r(2) by (simp_all add: server_ok_def events_ok_def heads_ok_def registered_def watched_def k e)
  then show ?thesis using r(1) by (auto simp: keeps_inv_def intro: server_invI)
qed

lemma close_keeps:
  assumes s: "server_ok base w cs fl rs evl xs ys" and reg: "registered os w cs fl" and c: "c \<in> set cs"
  shows "keeps_inv os base cs (close_connection os w c)"
proof (cases "c \<in> set fl")
  case True
  then have "close_connection os w c = Some w"
    using s c store_conn [of w cs fl rs c] by (auto simp: close_connection_def get_conn_def server_ok_def conn_store_def free_ok_def)
  then show ?thesis using server_invI [OF s reg] by (simp add: keeps_inv_def)
next
  case False
  then have "c \<in> busy cs fl" using c by simp
  from close_connection_ok [OF s this, of os] obtain t qs cq where
    r: "close_connection os w c = Some (closed_state w c fl rs t qs cq)"
      "server_ok base (closed_state w c fl rs t qs cq) cs (c # fl) (remove1 c rs) (without (rd w c) (wr w c) evl)
        (without (rd w c) (wr w c) xs) (without (rd w c) (wr w c) ys)" by blast
  from server_invI [OF r(2) closed_registered [OF s reg \<open>c \<in> busy cs fl\<close>]] r(1) show ?thesis by (simp add: keeps_inv_def)
qed

lemma get_keeps:
  assumes s: "server_ok base w cs fl rs evl xs ys" and reg: "registered os w cs fl" and a: "allowed base w cs (Op_get t)"
  shows "keeps_inv os base cs (map_option fst (get_connection call w t))"
proof (cases fl)
  case Nil
  then have "free_connections w = NULL" using s by (simp add: server_ok_def conn_store_def free_ok_def)
  then show ?thesis using a by simp
next
  case (Cons c fl')
  have n: "new_fd w cs fl t" "t \<noteq> ep w" using a by (auto simp: new_fd_def)
  have "conn_store w cs fl rs" using s by (simp add: server_ok_def)
  from get_connection_free(1) [OF this [unfolded Cons] n(1) [unfolded Cons]] taken_server_ok [OF s [unfolded Cons] n(1) [unfolded Cons]]
    taken_registered [OF s [unfolded Cons] reg [unfolded Cons] n(1) [unfolded Cons] n(2)]
  show ?thesis by (auto simp: keeps_inv_def intro: server_invI)
qed

lemma exec_op_keeps:
  assumes "server_inv os base cs w" and a: "allowed base w cs op"
  shows "keeps_inv os base cs (exec_op os call op w)"
proof -
  from assms(1) obtain fl rs evl xs ys where s: "server_ok base w cs fl rs evl xs ys" and reg: "registered os w cs fl"
    unfolding server_inv_def by blast
  show ?thesis
    using a
    by (cases op) (auto simp: in_use_busy [OF s] intro: ctl_keeps [OF add_event_ok [OF s reg]] ctl_keeps [OF del_event_ok [OF s reg]]
      ctl_keeps [OF add_connection_ok [OF s reg]] ctl_keeps [OF del_connection_ok [OF s reg]] side_event_side
      add_timer_keeps [OF s reg] del_timer_keeps [OF s reg] post_keeps [OF s reg, where acc = True, simplified] post_keeps [OF s reg, where acc = False, simplified] unpost_keeps [OF s reg]
      reusable_keeps [OF s reg] close_keeps [OF s reg] get_keeps [OF s reg] simp del: One_nat_def)
qed

section \<open>Properties\<close>

text \<open>
  A small server: the connection at 1000 is in use with descriptor 7, watched for reading by the epoll instance 5, and
  reusable; the one at 1200 is free. The kernel of the example grants every call and gives out descriptor 9.
\<close>

definition os_yes :: os where
  "os_yes cs = \<lparr>ans_ret = 0, ans_errno = Other_errno 0, ans_fd = 9, ans_fd2 = 10, ans_events = \<lambda>_. (0, 0), ans_alarm = False,
     ans_clocks = \<lparr>tv_sec = 0, tv_usec = 0, ts_sec = 0, ts_nsec = 0\<rparr>, ans_socklen = 16, ans_bytes = \<lambda>_. 0, ans_addr = 0\<rparr>"

definition server2 :: server where
  "server2 = \<lparr>slot = 0, time_lock = 0, current_msec = 20, cached_time = Some 0, scached_time = \<lambda>_. \<lparr>st_sec = 0, st_msec = 0\<rparr>,
     evs = (\<lambda>_. event_zero)(2000 := event_zero\<lparr>ev_data := 1000, ev_active := True\<rparr>, 3000 := event_zero\<lparr>ev_data := 1000, ev_write := True\<rparr>),
     event_timer_rbtree = \<lparr>rb_left = \<lambda>_. 0, rb_right = \<lambda>_. 0, rb_parent = \<lambda>_. 0, rb_key = \<lambda>_. 0, rb_color = \<lambda>_. 0, rb_root = 9,
       rb_sentinel = 9, rb_insert = Rbtree_insert_timer_value\<rparr>,
     event_timer_sentinel = 9,
     equeues = \<lparr>q_prev = (\<lambda>_. 0)(11 := 11, 12 := 12), q_next = (\<lambda>_. 0)(11 := 11, 12 := 12)\<rparr>,
     conns = (\<lambda>_. connection_zero)(1000 := connection_zero\<lparr>c_read := 2000, c_write := 3000, c_fd := 7, c_reusable := True\<rparr>,
       1200 := connection_zero\<lparr>c_read := 2100, c_write := 3100, c_fd := NOFD\<rparr>),
     cqueues = \<lparr>q_prev = (\<lambda>_. 0)(13 := 1128, 1128 := 13), q_next = (\<lambda>_. 0)(13 := 1128, 1128 := 13)\<rparr>,
     listens = \<lambda>_. listening_zero, cycle_pool = 0, files = None, files_n = 0, free_connections = 1200, free_connection_n = 1,
     reusable_queue = 13, reusable_connections_n = 1, cycle_listening = 500, connection_n = 2, connections = 1000,
     read_events = 2000, write_events = 3000, posted_accept_events = 11, posted_events = 12, timer_resolution = 0,
     event_timer_alarm = False, accept_mutex = \<lparr>mtx_lock = 64, mtx_spin = 2048\<rparr>, accept_mutex_ptr = 64, use_accept_mutex = True,
     accept_events = 0, accept_mutex_held = False, accept_mutex_delay = 500, accept_disabled = 0, connection_counter = 72,
     stat_accepted = 80, stat_handled = 88, stat_requests = 96, stat_active = 104, stat_reading = 112, stat_writing = 120,
     stat_waiting = 128, words = \<lambda>_. 0, pid = 77, ep = 5, event_list = 0, nevents = 1024, use_epoll_rdhup = 0, mem = buf_ex,
     calls = [Sys_epoll_ctl 5 EPOLL_CTL_ADD 7 0x2001 (tag 1000 False)]\<rparr>"

lemma server2_ok: "server_ok 0 server2 [1000, 1200] [1200] [1000] [] [] []"
proof -
  have "rbtree_holds (event_timer_rbtree server2) []"
    unfolding rbtree_holds_def by (rule exI [of _ Leaf]) (simp add: rbtree_ok_def rep_def server2_def sentinel_ok_def)
  then have "timers 0 server2 []"
    by (simp add: timers_def rbtree_sorted_def) (simp add: server2_def timer_window_def event_zero_def)
  moreover have "posted server2 11 [] 12 []" by (simp add: posted_def server2_def queue_list_def event_zero_def)
  moreover have b: "busy [1000, 1200] [1200] = {1000}" by auto
  then have "conn_store server2 [1000, 1200] [1200] [1000]"
    unfolding conn_store_def b
    by (auto simp: conn_store_def nodes_ok_def free_ok_def fds_ok_def reuse_ok_def events_of_def server2_def connection_zero_def
      conn_queue_def conn_queue_offset_def queue_list_def NOFD_def)
  ultimately show ?thesis
    by (simp add: server_ok_def events_ok_def heads_ok_def events_of_def)
      (auto simp: server2_def connection_zero_def event_zero_def ev_timer_def ev_queue_def timer_offset_def queue_offset_def)
qed

lemma server2_registered: "registered os_yes server2 [1000, 1200] [1200]"
  by (auto simp: registered_def watched_def server2_def os_yes_def watch_ok_def wanted_bits io_bits connection_zero_def event_zero_def)

lemma server2_inv: "server_inv os_yes 0 [1000, 1200] server2"
  using server_invI [OF server2_ok server2_registered] .

text \<open>C1: In every state that handlers can reach through the operations of the connection, epoll, timer and posted-event
  modules, in any order and whatever the kernel answers, the invariant of the server holds and every
  further permitted operation returns without a fault. In particular a descriptor the kernel watches belongs to a
  connection in use, and the data registered with it are the address and the current instance of that connection.\<close>

theorem server_safety:
  assumes "server_inv os base cs w" and "reaches os call base cs w w'"
  shows "server_inv os base cs w' \<and> (\<forall>op. allowed base w' cs op \<longrightarrow> (\<exists>w''. exec_op os call op w' = Some w''))
    \<and> (\<forall>fd m d. watched os w' fd = Some (m, d) \<longrightarrow> (\<exists>c. in_use w' cs c \<and> fd_of w' c = fd \<and> d = tag c (inst_of w' c)
         \<and> m AND IO_EVENTS = wanted (active_rd w' c) (active_wr w' c)))"
proof (intro conjI allI impI)
  show i: "server_inv os base cs w'"
    using assms(2)
  proof induction
    case reaches_refl
    show ?case by (rule assms(1))
  next
    case (reaches_step w' op w'')
    with exec_op_keeps [OF reaches_step.IH reaches_step.hyps(2), of call] show ?case by (simp add: keeps_inv_def)
  qed
  show "\<exists>w''. exec_op os call op w' = Some w''" if "allowed base w' cs op" for op
    using exec_op_keeps [OF i that] by (auto simp: keeps_inv_def)
  show "\<exists>c. in_use w' cs c \<and> fd_of w' c = fd \<and> d = tag c (inst_of w' c) \<and> m AND IO_EVENTS = wanted (active_rd w' c) (active_wr w' c)"
    if wt: "watched os w' fd = Some (m, d)" for fd m d
  proof -
    from i obtain fl rs evl xs ys where s: "server_ok base w' cs fl rs evl xs ys" and reg: "registered os w' cs fl"
      unfolding server_inv_def by blast
    have "fd \<in> fd_of w' ` busy cs fl" using reg wt unfolding registered_def by (metis option.distinct(1))
    then obtain c where c: "c \<in> busy cs fl" "fd_of w' c = fd" by blast
    then have "watch_ok c (inst_of w' c) (active_rd w' c) (active_wr w' c) (Some (m, d))"
      using reg wt unfolding registered_def by metis
    with c in_use_busy [OF s, of c] show ?thesis by (auto simp: watch_ok_def)
  qed
qed

theorem server_safety_witness:
  "\<exists>w'. exec_op os_yes (\<lambda>h ev w. None) (Op_close 1000) server2 = Some w' \<and> server_inv os_yes 0 [1000, 1200] w'
     \<and> watched os_yes server2 7 = Some (0x2001, tag 1000 False) \<and> (\<exists>c. in_use server2 [1000, 1200] c \<and> fd_of server2 c = 7)"
proof -
  have a: "allowed 0 server2 [1000, 1200] (Op_close 1000)" by simp
  note r = server_safety [OF server2_inv reaches_refl, where call = "\<lambda>h ev w. None"]
  from r a obtain w' where w': "exec_op os_yes (\<lambda>h ev w. None) (Op_close 1000) server2 = Some w'" by blast
  have "reaches os_yes (\<lambda>h ev w. None) 0 [1000, 1200] server2 w'" using reaches_step [OF reaches_refl a w'] .
  from server_safety [OF server2_inv this] have "server_inv os_yes 0 [1000, 1200] w'" by blast
  moreover have "watched os_yes server2 7 = Some (0x2001, tag 1000 False)"
    by (simp add: watched_def server2_def os_yes_def)
  ultimately show ?thesis using r w' by blast
qed

end
