(* ===== verification/Dispatch.thy ===== *)
theory Dispatch
  imports Server_Inv
begin

unbundle bit_operations_syntax

text \<open>
  Closing, recycling and draining connections, and the dispatch of the events that \<open>epoll_wait\<close> reports.
\<close>

section \<open>Recycling\<close>

lemma stale_closed:
  assumes "c \<noteq> NULL" and "tag_conn d = c" and "fd_of w c = NOFD"
  shows "epoll_process_event call flags w (m, d) = Some w"
  using assms by (simp add: epoll_process_event_def Let_def get_conn_def stale_def)

lemma stale_instance:
  assumes "c \<noteq> NULL" and "tag_conn d = c" and "rd w c \<noteq> NULL" and "tag_instance d \<noteq> of_bool (inst_of w c)"
  shows "epoll_process_event call flags w (m, d) = Some w"
  using assms by (simp add: epoll_process_event_def Let_def get_conn_def stale_def get_event_def)

lemma closed_fields:
  "conns (closed_state w c fl rs t qs cq) = (conns w)(c := (conns w c)\<lparr>c_reusable := False, c_data := free_connections w, c_fd := NOFD\<rparr>)"
  "calls (closed_state w c fl rs t qs cq) = Sys_close (fd_of w c) # calls w"
  "evs (closed_state w c fl rs t qs cq) = (evs w)(rd w c := shut (c_shared (conns w c)) (evs w (rd w c)), wr w c := shut (c_shared (conns w c)) (evs w (wr w c)))"
  "files_n (closed_state w c fl rs t qs cq) = files_n w" "files (closed_state w c fl rs t qs cq) = map_option (\<lambda>f. f(fd_of w c := NULL)) (files w)"
  by (simp_all add: closed_state_def)

lemma close_again:
  assumes "c \<noteq> NULL" and "fd_of w c = NOFD"
  shows "close_connection os w c = Some w"
  using assms by (simp add: close_connection_def get_conn_def)

lemma recycle_ok:
  assumes s: "server_ok base w cs fl rs evl xs ys" and c: "c \<in> busy cs fl" and al: "even c" "c < 2 ^ 64"
    and t: "t \<noteq> NOFD" "t \<notin> fd_of w ` (busy cs fl - {c})" "files w \<noteq> None \<longrightarrow> t < files_n w \<and> 0 \<le> sint t"
  shows "\<exists>w1 w2. close_connection os w c = Some w1 \<and> get_connection call w1 t = Some (w2, c)
    \<and> server_ok base w2 cs fl (remove1 c rs) (without (rd w c) (wr w c) evl) (without (rd w c) (wr w c) xs) (without (rd w c) (wr w c) ys)
    \<and> fd_of w2 c = t \<and> inst_of w2 c = (\<not> inst_of w c)
    \<and> conns w2 = (conns w)(c := connection_zero\<lparr>c_read := rd w c, c_write := wr w c, c_fd := t\<rparr>)
    \<and> evs w2 = (evs w)(rd w c := event_zero\<lparr>ev_instance := \<not> inst_of w c, ev_data := c\<rparr>,
        wr w c := event_zero\<lparr>ev_instance := \<not> inst_of w c, ev_data := c, ev_write := True\<rparr>)
    \<and> calls w2 = Sys_close (fd_of w c) # calls w
    \<and> (\<forall>call flags m. epoll_process_event call flags w1 (m, tag c (inst_of w c)) = Some w1
        \<and> epoll_process_event call flags w2 (m, tag c (inst_of w c)) = Some w2)"
proof -
  note f = server_facts [OF s c]
  from close_connection_ok [OF s c, of os] obtain tr qs cq where cl: "close_connection os w c = Some (closed_state w c fl rs tr qs cq)"
    "server_ok base (closed_state w c fl rs tr qs cq) cs (c # fl) (remove1 c rs) (without (rd w c) (wr w c) evl) (without (rd w c) (wr w c) xs)
      (without (rd w c) (wr w c) ys)" by blast
  define w1 where "w1 = closed_state w c fl rs tr qs cq"
  have k: "fd_of w1 c = NOFD" "rd w1 a = rd w a" "wr w1 a = wr w a" "inst_of w1 c = inst_of w c" "a \<noteq> c \<Longrightarrow> fd_of w1 a = fd_of w a" for a
    by (simp_all add: w1_def closed_fields shut_def)
  have "fd_of w1 ` busy cs (c # fl) = fd_of w ` (busy cs fl - {c})" by (rule image_cong) (use k(5) in auto)
  then have n: "new_fd w1 cs (c # fl) t" using t by (simp add: new_fd_def) (simp add: w1_def closed_fields)
  have "conn_store w1 cs (c # fl) (remove1 c rs)" using cl(2) by (simp add: server_ok_def w1_def)
  note g = get_connection_free(1) [OF this n] taken_server_ok [OF cl(2) [folded w1_def] n]
  let ?w2 = "taken w1 c fl t"
  have i2: "inst_of ?w2 c = (\<not> inst_of w c)" "rd ?w2 c = rd w c" using f k by simp_all
  have "epoll_process_event call flags w1 (m, tag c (inst_of w c)) = Some w1" for call flags m
    using f(3) tag_roundtrip(2) [OF al] k(1) by (rule stale_closed)
  moreover have "epoll_process_event call flags ?w2 (m, tag c (inst_of w c)) = Some ?w2" for call flags m
    using f(3) tag_roundtrip(2) [OF al]
  proof (rule stale_instance)
    show "rd ?w2 c \<noteq> NULL" unfolding i2 by (rule f(4))
    show "tag_instance (tag c (inst_of w c)) \<noteq> of_bool (inst_of ?w2 c)"
      unfolding tag_roundtrip(1) [OF al] i2(1) by simp
  qed
  moreover have "fd_of ?w2 c = t" by simp
  moreover have "conns ?w2 = (conns w)(c := connection_zero\<lparr>c_read := rd w c, c_write := wr w c, c_fd := t\<rparr>)"
    by (simp add: taken_def Let_def k(2,3)) (simp add: w1_def closed_state_def)
  moreover have "evs ?w2 = (evs w)(rd w c := event_zero\<lparr>ev_instance := \<not> inst_of w c, ev_data := c\<rparr>,
      wr w c := event_zero\<lparr>ev_instance := \<not> inst_of w c, ev_data := c, ev_write := True\<rparr>)"
    using f(6) by (simp add: taken_def Let_def k(2-4)) (auto simp: w1_def closed_state_def shut_def fun_eq_iff)
  moreover have "calls ?w2 = Sys_close (fd_of w c) # calls w" by (simp add: w1_def closed_state_def)
  ultimately show ?thesis using cl(1) g i2(1) unfolding w1_def [symmetric] by blast
qed

section \<open>Posting the reported events\<close>





















section \<open>One round\<close>







section \<open>Properties\<close>

text \<open>C2: Closing a connection in use and taking one again gives the same connection back, on the new descriptor, with nothing left of its first
  life but the addresses of its two events: every other field of the connection and of the events is zero, the instance bit
  of both is flipped, they point back to the connection, and there is no timer, posted event or place in the reusable queue. No
  other connection or event changes, and one descriptor was closed. A report of the kernel that still carries
  the old tag is dropped without any effect, both while the connection is free and after it was taken again.\<close>

theorem connection_recycled:
  assumes "server_ok base w cs fl rs evl xs ys" and "c \<in> busy cs fl" and "even c" and "c < 2 ^ 64"
    and "t \<noteq> NOFD" and "t \<notin> fd_of w ` (busy cs fl - {c})" and "files w \<noteq> None \<longrightarrow> t < files_n w \<and> 0 \<le> sint t"
  shows "\<exists>w1 w2. close_connection os w c = Some w1 \<and> get_connection call w1 t = Some (w2, c)
    \<and> server_ok base w2 cs fl (remove1 c rs) (without (rd w c) (wr w c) evl) (without (rd w c) (wr w c) xs) (without (rd w c) (wr w c) ys)
    \<and> fd_of w2 c = t \<and> inst_of w2 c = (\<not> inst_of w c)
    \<and> conns w2 = (conns w)(c := connection_zero\<lparr>c_read := rd w c, c_write := wr w c, c_fd := t\<rparr>)
    \<and> evs w2 = (evs w)(rd w c := event_zero\<lparr>ev_instance := \<not> inst_of w c, ev_data := c\<rparr>,
        wr w c := event_zero\<lparr>ev_instance := \<not> inst_of w c, ev_data := c, ev_write := True\<rparr>)
    \<and> calls w2 = Sys_close (fd_of w c) # calls w
    \<and> (\<forall>call flags m. epoll_process_event call flags w1 (m, tag c (inst_of w c)) = Some w1
        \<and> epoll_process_event call flags w2 (m, tag c (inst_of w c)) = Some w2)"
  using assms by (rule recycle_ok)

theorem connection_recycled_witness:
  "\<exists>w1 w2. close_connection os_yes server2 1000 = Some w1 \<and> get_connection (\<lambda>h ev w. None) w1 7 = Some (w2, 1000)
    \<and> fd_of w2 1000 = 7 \<and> inst_of w2 1000 \<and> c_pool (conns w2 1000) = NULL \<and> \<not> ev_active (evs w2 2000)"
proof -
  have b: "1000 \<in> busy [1000, 1200] [1200 :: addr]" by simp
  have t: "7 \<noteq> NOFD" "7 \<notin> fd_of server2 ` (busy [1000, 1200] [1200] - {1000})" "files server2 \<noteq> None \<longrightarrow> 7 < files_n server2 \<and> 0 \<le> sint (7 :: u32)"
    by (auto simp: NOFD_def server2_def)
  have f: "\<not> inst_of server2 1000" "rd server2 1000 = 2000" "wr server2 1000 = 3000"
    by (simp_all add: server2_def event_zero_def connection_zero_def)
  from connection_recycled [OF server2_ok b _ _ t, of os_yes "\<lambda>h ev w. None"] obtain w1 w2 where
    "close_connection os_yes server2 1000 = Some w1" "get_connection (\<lambda>h ev w. None) w1 7 = Some (w2, 1000)" "fd_of w2 1000 = 7"
    "inst_of w2 1000 = (\<not> inst_of server2 1000)"
    "conns w2 = (conns server2)(1000 := connection_zero\<lparr>c_read := 2000, c_write := 3000, c_fd := 7\<rparr>)"
    "evs w2 = (evs server2)(2000 := event_zero\<lparr>ev_instance := \<not> inst_of server2 1000, ev_data := 1000\<rparr>,
        3000 := event_zero\<lparr>ev_instance := \<not> inst_of server2 1000, ev_data := 1000, ev_write := True\<rparr>)" unfolding f by auto
  moreover from this have "c_pool (conns w2 1000) = NULL" "\<not> ev_active (evs w2 2000)" by (simp_all add: connection_zero_def event_zero_def)
  ultimately show ?thesis using f(1) by blast
qed




end
