(* ===== verification/Accept.thy ===== *)
theory Accept
  imports Dispatch
begin

unbundle bit_operations_syntax

text \<open>
  Accepting connections, the accept mutex and the two I/O functions of a connection: \<^verbatim>\<open>src/event_accept.c\<close>.

  \<open>call\<close> runs event handlers (\<open>get_connection\<close> may drain reusable connections), \<open>ccall\<close> the handler of a listening
  socket. \<open>pid\<close> of the state is the process that holds or wants the accept mutex.
\<close>

section \<open>The accept events\<close>

definition enable_accept_events :: "os \<Rightarrow> 'a server_scheme \<Rightarrow> ('a server_scheme \<times> int) option" where
  "enable_accept_events os w = do {
     ls \<leftarrow> get_ls w (cycle_listening w);
     let c = ls_connection ls;
     if c = NULL then Some (w, 0)
     else do {
       k \<leftarrow> get_conn w c;
       r \<leftarrow> get_event w (c_read k);
       if ev_active r then Some (w, 0)
       else do {
         (w, rc) \<leftarrow> epoll_add_event os w (c_read k) READ_EVENT 0;
         Some (w, if rc = - 1 then - 1 else 0) } } }"

definition disable_accept_events :: "os \<Rightarrow> 'a server_scheme \<Rightarrow> bool \<Rightarrow> ('a server_scheme \<times> int) option" where
  "disable_accept_events os w all = do {
     ls \<leftarrow> get_ls w (cycle_listening w);
     let c = ls_connection ls;
     if c = NULL then Some (w, 0)
     else do {
       k \<leftarrow> get_conn w c;
       r \<leftarrow> get_event w (c_read k);
       if \<not> ev_active r then Some (w, 0)
       else if ls_reuseport ls \<and> \<not> all then Some (w, 0)
       else do {
         (w, rc) \<leftarrow> epoll_del_event os w (c_read k) READ_EVENT 0;
         Some (w, if rc = - 1 then - 1 else 0) } } }"

definition unlock_accept_mutex :: "'a server_scheme \<Rightarrow> 'a server_scheme" where
  "unlock_accept_mutex w = w\<lparr>words := shmtx_unlock (words w) (accept_mutex w) (pid w)\<rparr>"

definition trylock_accept_mutex :: "os \<Rightarrow> 'a server_scheme \<Rightarrow> ('a server_scheme \<times> int) option" where
  "trylock_accept_mutex os w = do {
     let (m, got) = shmtx_trylock (words w) (accept_mutex w) (pid w);
     let w = w\<lparr>words := m\<rparr>;
     if got then
       if accept_mutex_held w \<and> accept_events w = 0 then Some (w, 0)
       else do {
         (w, rc) \<leftarrow> enable_accept_events os w;
         if rc = - 1 then Some (unlock_accept_mutex w, - 1)
         else do {
           let w = w\<lparr>accept_events := 0\<rparr>;
           let w = w\<lparr>accept_mutex_held := True\<rparr>;
           Some (w, 0) } }
     else if accept_mutex_held w then do {
       (w, rc) \<leftarrow> disable_accept_events os w False;
       if rc = - 1 then Some (w, - 1)
       else Some (w\<lparr>accept_mutex_held := False\<rparr>, 0) }
     else Some (w, 0) }"

section \<open>Accepting\<close>

definition ACCEPT_MUTEX_DELAY :: u64 where "ACCEPT_MUTEX_DELAY = 500"
definition sizeof_sockaddr :: u32 where "sizeof_sockaddr = 16"
definition O_NONBLOCK :: u32 where "O_NONBLOCK = 0x800"
definition POSIX_RECV :: nat where "POSIX_RECV = 1"
definition POSIX_SEND :: nat where "POSIX_SEND = 2"

text \<open>Bytes that the kernel delivered are copied to memory.\<close>

definition store_bytes :: "'a pmem_scheme \<Rightarrow> addr \<Rightarrow> (nat \<Rightarrow> u8) \<Rightarrow> nat \<Rightarrow> 'a pmem_scheme" where
  "store_bytes s p f n = s\<lparr>bytes := (\<lambda>a. if p \<le> a \<and> a < p + n then f (a - p) else bytes s a)\<rparr>"

definition fetch_add :: "'a server_scheme \<Rightarrow> addr \<Rightarrow> u64 \<Rightarrow> 'a server_scheme \<times> u64" where
  "fetch_add w p n = (let (m, v) = atomic_fetch_add (words w) p n in (w\<lparr>words := m\<rparr>, v))"

definition close_accepted_connection :: "os \<Rightarrow> 'a server_scheme \<Rightarrow> addr \<Rightarrow> 'a server_scheme option" where
  "close_accepted_connection os w c = do {
     w \<leftarrow> free_connection w c;
     k \<leftarrow> get_conn w c;
     let fd = c_fd k;
     w \<leftarrow> upd_conn w c (\<lambda>k. k\<lparr>c_fd := NOFD\<rparr>);
     let w = sys_ignore os (Sys_close fd) w;
     w \<leftarrow> (if c_pool k \<noteq> NULL then do { m \<leftarrow> destroy_pool (mem w) (c_pool k); Some (w\<lparr>mem := m\<rparr>) } else Some w);
     Some (fst (fetch_add w (stat_active w) (- 1))) }"

text \<open>The exit taken when \<open>accept\<close> fails for another reason than \<open>EAGAIN\<close>.\<close>

definition accept_failed :: "os \<Rightarrow> 'a server_scheme \<Rightarrow> addr \<Rightarrow> errno \<Rightarrow> 'a server_scheme option" where
  "accept_failed os w ev err =
    (if err = EMFILE \<or> err = ENFILE then do {
       (w, rc) \<leftarrow> disable_accept_events os w True;
       if rc \<noteq> 0 then Some w
       else if use_accept_mutex w then do {
         let w = (if accept_mutex_held w then (unlock_accept_mutex w)\<lparr>accept_mutex_held := False\<rparr> else w);
         Some (w\<lparr>accept_disabled := 1\<rparr>) }
       else event_add_timer w ev ACCEPT_MUTEX_DELAY }
     else Some w)"

text \<open>
  A new connection on the descriptor \<open>s\<close>: the result says whether the loop goes on to its condition.
\<close>

definition accept_one :: "os \<Rightarrow> libc \<Rightarrow> 'a server_ext caller \<Rightarrow> (nat \<Rightarrow> addr \<Rightarrow> 'a server_scheme \<Rightarrow> 'a server_scheme option)
    \<Rightarrow> 'a server_scheme \<Rightarrow> addr \<Rightarrow> addr \<Rightarrow> u32 \<Rightarrow> u32 \<Rightarrow> (nat \<Rightarrow> u8) \<Rightarrow> ('a server_scheme \<times> bool) option" where
  "accept_one os libc call ccall w ev lp s socklen sa = do {
     let w = w\<lparr>accept_disabled := connection_n w div 8 - free_connection_n w\<rparr>;
     let (w, _) = fetch_add w (stat_accepted w) 1;
     (w, c) \<leftarrow> get_connection call w s;
     if c = NULL then Some (sys_ignore os (Sys_close s) w, False)
     else do {
       w \<leftarrow> upd_conn w c (\<lambda>k. k\<lparr>c_type := SOCK_STREAM\<rparr>);
       let (w, _) = fetch_add w (stat_active w) 1;
       ls \<leftarrow> get_ls w lp;
       let (m, pool) = create_pool libc (mem w) (unat (ls_pool_size ls));
       let w = w\<lparr>mem := m\<rparr>;
       w \<leftarrow> upd_conn w c (\<lambda>k. k\<lparr>c_pool := pool\<rparr>);
       if pool = NULL then do { w \<leftarrow> close_accepted_connection os w c; Some (w, False) }
       else do {
         let socklen = (if socklen > sizeof_sockaddr then sizeof_sockaddr else socklen);
         (m, p) \<leftarrow> palloc libc (mem w) pool (unat socklen);
         let w = w\<lparr>mem := m\<rparr>;
         w \<leftarrow> upd_conn w c (\<lambda>k. k\<lparr>c_sockaddr := p\<rparr>);
         if p = NULL then do { w \<leftarrow> close_accepted_connection os w c; Some (w, False) }
         else do {
           let w = w\<lparr>mem := store_bytes (mem w) p sa (unat socklen)\<rparr>;
           let (w, a) = sys os (Sys_fcntl_getfl s) w;
           let flags = (if ans_ret a = - 1 then 0 else word_of_int (ans_ret a));
           let w = sys_ignore os (Sys_fcntl_setfl s (flags OR O_NONBLOCK)) w;
           w \<leftarrow> upd_conn w c (\<lambda>k. k\<lparr>c_recv := POSIX_RECV, c_send := POSIX_SEND, c_socklen := socklen, c_listening := lp,
             c_local_sockaddr := ls_sockaddr ls, c_local_socklen := ls_socklen ls\<rparr>);
           k \<leftarrow> get_conn w c;
           w \<leftarrow> upd_event w (c_write k) (\<lambda>e. e\<lparr>ev_ready := True\<rparr>);
           e \<leftarrow> get_event w ev;
           w \<leftarrow> (if ev_deferred_accept e then upd_event w (c_read k) (\<lambda>e. e\<lparr>ev_ready := True, ev_available := True\<rparr>) else Some w);
           let (w, n) = fetch_add w (connection_counter w) 1;
           w \<leftarrow> upd_conn w c (\<lambda>k. k\<lparr>c_number := n\<rparr>);
           let (w, _) = fetch_add w (stat_handled w) 1;
           w \<leftarrow> ccall (ls_handler ls) c w;
           Some (w, True) } } } }"

partial_function (option) accept_loop :: "os \<Rightarrow> libc \<Rightarrow> 'a server_ext caller \<Rightarrow> (nat \<Rightarrow> addr \<Rightarrow> 'a server_scheme \<Rightarrow> 'a server_scheme option)
    \<Rightarrow> addr \<Rightarrow> addr \<Rightarrow> addr \<Rightarrow> 'a server_scheme \<Rightarrow> 'a server_scheme option" where
  "accept_loop os libc call ccall ev lc lp w = do {
     k \<leftarrow> get_conn w lc;
     let (w, a) = sys os (Sys_accept (c_fd k)) w;
     e \<leftarrow> get_event w ev;
     if ans_ret a = - 1 then
       if ans_errno a = EAGAIN then Some w
       else if ans_errno a = ECONNABORTED \<and> ev_available e then accept_loop os libc call ccall ev lc lp w
       else accept_failed os w ev (ans_errno a)
     else do {
       (w, go) \<leftarrow> accept_one os libc call ccall w ev lp (ans_fd a) (ans_socklen a) (ans_bytes a);
       if \<not> go then Some w
       else do {
         e \<leftarrow> get_event w ev;
         if ev_available e then accept_loop os libc call ccall ev lc lp w else Some w } } }"

definition event_accept :: "os \<Rightarrow> libc \<Rightarrow> 'a server_ext caller \<Rightarrow> (nat \<Rightarrow> addr \<Rightarrow> 'a server_scheme \<Rightarrow> 'a server_scheme option)
    \<Rightarrow> 'a server_scheme \<Rightarrow> addr \<Rightarrow> 'a server_scheme option" where
  "event_accept os libc call ccall w ev = do {
     e \<leftarrow> get_event w ev;
     (w, go) \<leftarrow> (if ev_timedout e then do {
         (w, rc) \<leftarrow> enable_accept_events os w;
         if rc \<noteq> 0 then Some (w, False)
         else do { w \<leftarrow> upd_event w ev (\<lambda>e. e\<lparr>ev_timedout := False\<rparr>); Some (w, True) } }
       else Some (w, True));
     if \<not> go then Some w
     else do {
       e \<leftarrow> get_event w ev;
       let lc = ev_data e;
       k \<leftarrow> get_conn w lc;
       let lp = c_listening k;
       w \<leftarrow> upd_event w ev (\<lambda>e. e\<lparr>ev_ready := False\<rparr>);
       w \<leftarrow> upd_event w ev (\<lambda>e. e\<lparr>ev_available := True\<rparr>);
       accept_loop os libc call ccall ev lc lp w } }"

section \<open>Receiving and sending\<close>

text \<open>
  \<open>use_epoll_rdhup\<close> is a static variable of a header: the copy of event\_accept.c is assigned nowhere and stays 0. The
  results -1 and -2 are errors, 0 is the end of the stream.
\<close>

definition use_epoll_rdhup_here :: u32 where "use_epoll_rdhup_here = 0"

partial_function (option) posix_send :: "os \<Rightarrow> addr \<Rightarrow> addr \<Rightarrow> u64 \<Rightarrow> 'a server_scheme \<Rightarrow> ('a server_scheme \<times> int) option" where
  "posix_send os c buf sz w = do {
     k \<leftarrow> get_conn w c;
     let wev = c_write k;
     let (w, a) = sys os (Sys_send (c_fd k) buf (unat sz)) w;
     let n = ans_ret a;
     if n > 0 then do {
       w \<leftarrow> (if n < sint sz then upd_event w wev (\<lambda>e. e\<lparr>ev_ready := False\<rparr>) else Some w);
       w \<leftarrow> upd_conn w c (\<lambda>k. k\<lparr>c_sent := c_sent k + word_of_int n\<rparr>);
       Some (w, n) }
     else if n = 0 then do {
       w \<leftarrow> upd_event w wev (\<lambda>e. e\<lparr>ev_ready := False\<rparr>);
       Some (w, n) }
     else if ans_errno a = EAGAIN \<or> ans_errno a = EINTR then do {
       w \<leftarrow> upd_event w wev (\<lambda>e. e\<lparr>ev_ready := False\<rparr>);
       if ans_errno a = EAGAIN then Some (w, - 2) else posix_send os c buf sz w }
     else do {
       w \<leftarrow> upd_event w wev (\<lambda>e. e\<lparr>ev_error := True\<rparr>);
       Some (w, - 1) } }"

text \<open>The loop of \<open>posix_recv\<close>: \<open>Inl\<close> is a \<open>return\<close> in it, \<open>Inr\<close> the value of \<open>n\<close> after it.\<close>

partial_function (option) recv_loop :: "os \<Rightarrow> addr \<Rightarrow> addr \<Rightarrow> u64 \<Rightarrow> 'a server_scheme \<Rightarrow> ('a server_scheme \<times> (int + int)) option" where
  "recv_loop os c buf sz w = do {
     k \<leftarrow> get_conn w c;
     let rv = c_read k;
     let (w, a) = sys os (Sys_recv (c_fd k) buf (unat sz)) w;
     let n = ans_ret a;
     if n = 0 then do {
       w \<leftarrow> upd_event w rv (\<lambda>e. e\<lparr>ev_ready := False\<rparr>);
       w \<leftarrow> upd_event w rv (\<lambda>e. e\<lparr>ev_eof := True\<rparr>);
       Some (w, Inl 0) }
     else if n > 0 then do {
       let w = w\<lparr>mem := store_bytes (mem w) buf (ans_bytes a) (nat n)\<rparr>;
       w \<leftarrow> (if use_epoll_rdhup_here \<noteq> 0 \<and> word_of_int n < sz then do {
           e \<leftarrow> get_event w rv;
           w \<leftarrow> (if \<not> ev_pending_eof e then upd_event w rv (\<lambda>e. e\<lparr>ev_ready := False\<rparr>) else Some w);
           upd_event w rv (\<lambda>e. e\<lparr>ev_available := False\<rparr>) }
         else Some w);
       Some (w, Inl n) }
     else if ans_errno a = EINTR then recv_loop os c buf sz w
     else if ans_errno a = EAGAIN then Some (w, Inr (- 2))
     else Some (w, Inr (- 1)) }"

definition posix_recv :: "os \<Rightarrow> addr \<Rightarrow> addr \<Rightarrow> u64 \<Rightarrow> 'a server_scheme \<Rightarrow> ('a server_scheme \<times> int) option" where
  "posix_recv os c buf sz w = do {
     k \<leftarrow> get_conn w c;
     let rv = c_read k;
     r \<leftarrow> get_event w rv;
     if \<not> ev_available r \<and> \<not> ev_pending_eof r then do {
       w \<leftarrow> upd_event w rv (\<lambda>e. e\<lparr>ev_ready := False\<rparr>);
       Some (w, - 2) }
     else do {
       (w, res) \<leftarrow> recv_loop os c buf sz w;
       (case res of
          Inl n \<Rightarrow> Some (w, n)
        | Inr n \<Rightarrow> do {
            w \<leftarrow> upd_event w rv (\<lambda>e. e\<lparr>ev_ready := False\<rparr>);
            w \<leftarrow> (if n = - 1 then upd_event w rv (\<lambda>e. e\<lparr>ev_error := True\<rparr>) else Some w);
            Some (w, n) }) } }"

end
