(* ===== verification/Loop.thy ===== *)
theory Loop
  imports Accept
begin

unbundle bit_operations_syntax

text \<open>
  The event loop \<^verbatim>\<open>src/event.c\<close>: the shared memory of the master, the initialisation of a worker, one round of the
  loop, and the two functions by which handlers ask for events.
\<close>

section \<open>The master\<close>

definition TIMER_INTERVAL :: u64 where "TIMER_INTERVAL = 1000"

text \<open>
  \<open>shm_var\<close> is the address of the variable \<open>shm\<close>. Anonymous memory from \<open>mmap\<close> is zero.
\<close>

definition event_master_init :: "os \<Rightarrow> addr \<Rightarrow> 'a server_scheme \<Rightarrow> 'a server_scheme \<times> int" where
  "event_master_init os shm_var w =
    (let w = w\<lparr>timer_resolution := TIMER_INTERVAL\<rparr>;
         (w, a) = sys os Sys_getrlimit w
     in if ans_ret a = - 1 then (w, - 1)
     else if accept_mutex_ptr w \<noteq> NULL then (w, 0)
     else let cl = 128; size = cl + cl + cl + cl + cl + cl + cl + cl;
              (w, a) = sys os (Sys_mmap size) w;
              (shared, rc) = shm_alloc (ans_addr a) shm_var;
              w = w\<lparr>words := (\<lambda>x. if shared \<le> x \<and> x < shared + size then 0 else words w x)\<rparr>
          in if rc \<noteq> 0 then (w, - 1)
          else let w = w\<lparr>accept_mutex_ptr := shared\<rparr>;
                   w = w\<lparr>accept_mutex := (accept_mutex w)\<lparr>mtx_spin := - 1\<rparr>\<rparr>;
                   (m, rc) = shmtx_create (accept_mutex w) shared;
                   w = w\<lparr>accept_mutex := m\<rparr>
               in if rc \<noteq> 0 then (w, - 1)
               else let w = w\<lparr>connection_counter := shared + 1 * cl\<rparr>;
                        w = w\<lparr>words := fst (atomic_cmp_set (words w) (connection_counter w) 0 1)\<rparr>
                    in (w\<lparr>stat_accepted := shared + 2 * cl, stat_handled := shared + 3 * cl, stat_requests := shared + 4 * cl,
                          stat_active := shared + 5 * cl, stat_reading := shared + 6 * cl, stat_writing := shared + 7 * cl,
                          stat_waiting := shared + 8 * cl\<rparr>, 0))"

section \<open>One round\<close>

text \<open>The part of a round that decides about the accept mutex: \<open>None\<close> inside is the early return.\<close>

definition round_mutex :: "os \<Rightarrow> 'a server_scheme \<Rightarrow> u64 \<Rightarrow> u32 \<Rightarrow> ('a server_scheme \<times> (u64 \<times> u32) option) option" where
  "round_mutex os w timer flags =
    (if use_accept_mutex w then
       if sint (accept_disabled w) > 0 then Some (w\<lparr>accept_disabled := accept_disabled w - 1\<rparr>, Some (timer, flags))
       else do {
         (w, rc) \<leftarrow> trylock_accept_mutex os w;
         if rc = - 1 then Some (w, None)
         else if accept_mutex_held w then Some (w, Some (timer, flags OR POST_EVENTS))
         else if timer = TIMER_INFINITE \<or> timer > accept_mutex_delay w then Some (w, Some (accept_mutex_delay w, flags))
         else Some (w, Some (timer, flags)) }
     else Some (w, Some (timer, flags)))"

definition process_events_and_timers :: "os \<Rightarrow> 'a server_ext caller \<Rightarrow> 'a server_scheme \<Rightarrow> 'a server_scheme option" where
  "process_events_and_timers os call w = do {
     (timer, flags) \<leftarrow> (if timer_resolution w \<noteq> 0 then Some (TIMER_INFINITE, 0)
       else do { t \<leftarrow> event_find_timer w; Some (t, UPDATE_TIME) });
     (w, r) \<leftarrow> round_mutex os w timer flags;
     (case r of None \<Rightarrow> Some w
      | Some (timer, flags) \<Rightarrow> do {
          let delta = current_msec w;
          (w, _) \<leftarrow> epoll_process_events os call w timer flags;
          let delta = current_msec w - delta;
          w \<leftarrow> event_process_posted call w (posted_accept_events w);
          let w = (if accept_mutex_held w then unlock_accept_mutex w else w);
          w \<leftarrow> (if delta \<noteq> 0 then event_expire_timers call w else Some w);
          event_process_posted call w (posted_events w) }) }"

section \<open>A worker starts\<close>

text \<open>The function ends the process, or returns a value.\<close>

datatype outcome = Returns int | Exits int

definition set_events :: "addr \<Rightarrow> (event \<Rightarrow> event) \<Rightarrow> nat \<Rightarrow> 'a server_scheme \<Rightarrow> 'a server_scheme" where
  "set_events p f n w = fold (\<lambda>i w. w\<lparr>evs := (evs w)(p + i * sizeof_event := f (evs w (p + i * sizeof_event)))\<rparr>) [0 ..< n] w"

text \<open>The \<open>do .. while\<close> that links the free list from its end; an index outside the array is undefined.\<close>

partial_function (option) link_loop :: "u32 \<Rightarrow> addr \<Rightarrow> 'a server_scheme \<Rightarrow> ('a server_scheme \<times> addr) option" where
  "link_loop i nxt w = do {
     let i = i - 1;
     if i \<ge> connection_n w then None
     else do {
       let c = connections w + unat i * sizeof_connection;
       w \<leftarrow> upd_conn w c (\<lambda>k. k\<lparr>c_data := nxt\<rparr>);
       w \<leftarrow> upd_conn w c (\<lambda>k. k\<lparr>c_read := read_events w + unat i * sizeof_event\<rparr>);
       w \<leftarrow> upd_conn w c (\<lambda>k. k\<lparr>c_write := write_events w + unat i * sizeof_event\<rparr>);
       w \<leftarrow> upd_conn w c (\<lambda>k. k\<lparr>c_fd := NOFD\<rparr>);
       if i \<noteq> 0 then link_loop i c w else Some (w, c) } }"

definition EVENT_ACCEPT :: handler where "EVENT_ACCEPT = 1"

definition set_timer_signal :: "os \<Rightarrow> 'a server_scheme \<Rightarrow> 'a server_scheme \<times> bool" where
  "set_timer_signal os w =
    (if timer_resolution w \<noteq> 0
     then let (w, a) = sys os Sys_sigaction w
          in if ans_ret a = - 1 then (w, False) else (sys_ignore os (Sys_setitimer (timer_resolution w)) w, True)
     else (w, True))"

text \<open>The three arrays and the free list: \<open>False\<close> when the C library has no memory.\<close>

definition alloc_connections :: "libc \<Rightarrow> 'a server_scheme \<Rightarrow> ('a server_scheme \<times> bool) option" where
  "alloc_connections libc w = do {
     let n = unat (connection_n w);
     let (m, p) = alloc libc (mem w) (sizeof_connection * n);
     let w = w\<lparr>mem := m, connections := p\<rparr>;
     if p = NULL then Some (w, False)
     else do {
       let (m, p) = alloc libc (mem w) (sizeof_event * n);
       let w = w\<lparr>mem := m, read_events := p\<rparr>;
       if p = NULL then Some (w, False)
       else do {
         let w = set_events p (\<lambda>e. e\<lparr>ev_closed := True, ev_instance := True\<rparr>) n w;
         let (m, p) = alloc libc (mem w) (sizeof_event * n);
         let w = w\<lparr>mem := m, write_events := p\<rparr>;
         if p = NULL then Some (w, False)
         else do {
           let w = set_events p (\<lambda>e. e\<lparr>ev_closed := True\<rparr>) n w;
           (w, nxt) \<leftarrow> link_loop (connection_n w) NULL w;
           let w = w\<lparr>free_connections := nxt\<rparr>;
           let w = w\<lparr>free_connection_n := connection_n w\<rparr>;
           Some (w, True) } } } }"

text \<open>The connection of the listening socket.\<close>

definition listen_connection :: "os \<Rightarrow> 'a server_ext caller \<Rightarrow> 'a server_scheme \<Rightarrow> ('a server_scheme \<times> int) option" where
  "listen_connection os call w = do {
     let lp = cycle_listening w;
     ls \<leftarrow> get_ls w lp;
     (w, c) \<leftarrow> get_connection call w (ls_fd ls);
     if c = NULL then Some (w, - 1)
     else do {
       w \<leftarrow> upd_conn w c (\<lambda>k. k\<lparr>c_type := ls_type ls\<rparr>);
       w \<leftarrow> upd_conn w c (\<lambda>k. k\<lparr>c_listening := lp\<rparr>);
       w \<leftarrow> upd_ls w lp (\<lambda>l. l\<lparr>ls_connection := c\<rparr>);
       k \<leftarrow> get_conn w c;
       let rv = c_read k;
       w \<leftarrow> upd_event w rv (\<lambda>e. e\<lparr>ev_accept := True\<rparr>);
       w \<leftarrow> upd_event w rv (\<lambda>e. e\<lparr>ev_deferred_accept := ls_deferred_accept ls\<rparr>);
       w \<leftarrow> upd_event w rv (\<lambda>e. e\<lparr>ev_handler := EVENT_ACCEPT\<rparr>);
       if ls_reuseport ls then do {
         (w, rc) \<leftarrow> epoll_add_event os w rv READ_EVENT 0;
         Some (w, if rc = - 1 then - 1 else 0) }
       else if use_accept_mutex w then Some (w, - 1)
       else do {
         (w, rc) \<leftarrow> epoll_add_event os w rv READ_EVENT 0;
         Some (w, if rc = - 1 then - 1 else 0) } } }"

definition event_process_init :: "os \<Rightarrow> libc \<Rightarrow> 'a server_ext caller \<Rightarrow> 'a server_scheme \<Rightarrow> ('a server_scheme \<times> outcome) option" where
  "event_process_init os libc call w = do {
     let w = w\<lparr>use_accept_mutex := True\<rparr>;
     let w = w\<lparr>accept_mutex_delay := ACCEPT_MUTEX_DELAY\<rparr>;
     let w = w\<lparr>accept_mutex_held := False\<rparr>;
     qs \<leftarrow> queue_init (equeues w) (posted_accept_events w);
     qs \<leftarrow> queue_init qs (posted_events w);
     let w = w\<lparr>equeues := qs\<rparr>;
     (w, rc) \<leftarrow> event_timer_init w;
     if rc = - 1 then Some (w, Returns (- 1))
     else do {
       (w, rc) \<leftarrow> epoll_init os libc w;
       if rc \<noteq> 0 then Some (w, Exits 2)
       else do {
         let (w, ok) = set_timer_signal os w;
         if \<not> ok then Some (w, Returns (- 1))
         else do {
           (w, ok) \<leftarrow> alloc_connections libc w;
           if \<not> ok then Some (w, Returns (- 1))
           else do {
             (w, rc) \<leftarrow> listen_connection os call w;
             Some (w, Returns rc) } } } } }"

section \<open>Asking for events\<close>

definition handle_read_event :: "os \<Rightarrow> 'a server_scheme \<Rightarrow> addr \<Rightarrow> ('a server_scheme \<times> int) option" where
  "handle_read_event os w rv = do {
     r \<leftarrow> get_event w rv;
     if \<not> ev_active r \<and> \<not> ev_ready r then do {
       (w, rc) \<leftarrow> epoll_add_event os w rv READ_EVENT CLEAR_EVENT;
       Some (w, if rc = - 1 then - 1 else 0) }
     else Some (w, 0) }"

definition handle_write_event :: "os \<Rightarrow> 'a server_scheme \<Rightarrow> addr \<Rightarrow> u64 \<Rightarrow> ('a server_scheme \<times> int) option" where
  "handle_write_event os w wev lowat = do {
     (w, rc) \<leftarrow> (if lowat \<noteq> 0 then do { e \<leftarrow> get_event w wev; send_lowat os w (ev_data e) lowat } else Some (w, 0));
     if rc = - 1 then Some (w, - 1)
     else do {
       e \<leftarrow> get_event w wev;
       if \<not> ev_active e \<and> \<not> ev_ready e then do {
         (w, rc) \<leftarrow> epoll_add_event os w wev WRITE_EVENT (CLEAR_EVENT OR (if lowat \<noteq> 0 then LOWAT_EVENT else 0));
         Some (w, if rc = - 1 then - 1 else 0) }
       else Some (w, 0) } }"

end
