(* ===== verification/Handlers.thy ===== *)
theory Handlers
  imports Loop
begin

unbundle bit_operations_syntax

text \<open>
  The program itself: \<^verbatim>\<open>src/cycle.c\<close> and the handlers and the start of \<^verbatim>\<open>src/main.c\<close>, an echo server. Function pointers are
  numbers; the read and write handlers call no handlers, so that the handlers of events are defined one after the other. The
  output of \<open>printf\<close> is left out.
\<close>

section \<open>cycle.c\<close>

definition DEFAULT_POOL_SIZE :: nat where "DEFAULT_POOL_SIZE = 16 * 1024"
definition MAX_CONN_N :: u32 where "MAX_CONN_N = 512"
definition sizeof_cycle :: nat where "sizeof_cycle = 104"
definition cycle_queue_offset :: nat where "cycle_queue_offset = 40"

text \<open>The structure is cleared by \<open>pcalloc\<close>. The result is the address of the structure.\<close>

definition init_cycle :: "libc \<Rightarrow> 'a server_scheme \<Rightarrow> ('a server_scheme \<times> addr) option" where
  "init_cycle libc w = do {
     let (m, pool) = create_pool libc (mem w) DEFAULT_POOL_SIZE;
     let w = w\<lparr>mem := m\<rparr>;
     if pool = NULL then Some (w, NULL)
     else do {
       (m, cycle) \<leftarrow> pcalloc libc (mem w) pool sizeof_cycle;
       let w = w\<lparr>mem := m\<rparr>;
       if cycle = NULL then do { m \<leftarrow> destroy_pool (mem w) pool; Some (w\<lparr>mem := m\<rparr>, NULL) }
       else do {
         let w = w\<lparr>files := None, files_n := 0, free_connections := NULL, free_connection_n := 0, reusable_connections_n := 0,
           cycle_listening := NULL, connections := NULL, read_events := NULL, write_events := NULL,
           reusable_queue := cycle + cycle_queue_offset\<rparr>;
         let w = w\<lparr>cycle_pool := pool\<rparr>;
         let w = w\<lparr>connection_n := MAX_CONN_N\<rparr>;
         qs \<leftarrow> queue_init (cqueues w) (reusable_queue w);
         Some (w\<lparr>cqueues := qs\<rparr>, cycle) } } }"

section \<open>The handlers of main.c\<close>

definition MYREAD :: handler where "MYREAD = 2"
definition MYWRITE :: handler where "MYWRITE = 3"
definition CALLBACK :: nat where "CALLBACK = 1"

text \<open>Calls through the pointers \<open>recv\<close> and \<open>send\<close> of a connection.\<close>

definition call_send :: "os \<Rightarrow> addr \<Rightarrow> addr \<Rightarrow> u64 \<Rightarrow> 'a server_scheme \<Rightarrow> ('a server_scheme \<times> int) option" where
  "call_send os c buf sz w = do {
     k \<leftarrow> get_conn w c;
     if c_send k = POSIX_SEND then posix_send os c buf sz w else None }"

definition call_recv :: "os \<Rightarrow> addr \<Rightarrow> addr \<Rightarrow> u64 \<Rightarrow> 'a server_scheme \<Rightarrow> ('a server_scheme \<times> int) option" where
  "call_recv os c buf sz w = do {
     k \<leftarrow> get_conn w c;
     if c_recv k = POSIX_RECV then posix_recv os c buf sz w else None }"

text \<open>The \<open>size\<close> of the loop is computed once, before it.\<close>

partial_function (option) mywrite_loop :: "os \<Rightarrow> addr \<Rightarrow> addr \<Rightarrow> addr \<Rightarrow> u64 \<Rightarrow> 'a server_scheme \<Rightarrow> 'a server_scheme option" where
  "mywrite_loop os wev c b sz w = do {
     (w, n) \<leftarrow> call_send os c (b_pos (mem w) b) sz w;
     if n = - 1 then close_connection os w c
     else if n = - 2 then Some w
     else do {
       (w, done) \<leftarrow> (if n > 0 then do {
           e \<leftarrow> get_event w wev;
           w \<leftarrow> (if ev_timer_set e then event_del_timer w wev else Some w);
           if word_of_int n = sz then do { (w, _) \<leftarrow> handle_read_event os w wev; Some (w, True) }
           else Some (w\<lparr>mem := (mem w)\<lparr>b_pos := (b_pos (mem w))(b := b_pos (mem w) b + nat n)\<rparr>\<rparr>, False) }
         else Some (w, False));
       if done then Some w
       else do {
         e \<leftarrow> get_event w wev;
         if ev_ready e then mywrite_loop os wev c b sz w else Some w } } }"

definition mywrite :: "os \<Rightarrow> 'a server_scheme \<Rightarrow> addr \<Rightarrow> 'a server_scheme option" where
  "mywrite os w wev = do {
     e \<leftarrow> get_event w wev;
     let c = ev_data e;
     if ev_timedout e then Some w
     else do {
       k \<leftarrow> get_conn w c;
       if c_close k then close_connection os w c
       else do {
         let b = c_buffer k;
         if b = NULL then Some w
         else do {
           let sz = (of_nat (b_last (mem w) b) - of_nat (b_pos (mem w) b) :: u64);
           if sz \<le> 0 then Some w else mywrite_loop os wev c b sz w } } } }"

text \<open>
  \<open>get_buffer\<close> is the part of \<open>myread\<close> that makes sure of a buffer: \<open>NULL\<close> when there is no memory.
\<close>

definition get_buffer :: "libc \<Rightarrow> addr \<Rightarrow> nat \<Rightarrow> 'a server_scheme \<Rightarrow> ('a server_scheme \<times> addr) option" where
  "get_buffer libc c sz w = do {
     k \<leftarrow> get_conn w c;
     let b = c_buffer k;
     if b = NULL then do {
       (m, b) \<leftarrow> create_temp_buf libc (mem w) (c_pool k) sz;
       let w = w\<lparr>mem := m\<rparr>;
       if b = NULL then Some (w, NULL)
       else do { w \<leftarrow> upd_conn w c (\<lambda>k. k\<lparr>c_buffer := b\<rparr>); Some (w, b) } }
     else if b_start (mem w) b = NULL then do {
       (m, p) \<leftarrow> palloc libc (mem w) (c_pool k) sz;
       let m = m\<lparr>b_start := (b_start m)(b := p)\<rparr>;
       if p = NULL then Some (w\<lparr>mem := m\<rparr>, NULL)
       else Some (w\<lparr>mem := m\<lparr>b_pos := (b_pos m)(b := p), b_last := (b_last m)(b := p), b_end := (b_end m)(b := p + sz)\<rparr>\<rparr>, b) }
     else Some (w, b) }"

text \<open>The loop: \<open>False\<close> is the \<open>return\<close> after an error.\<close>

partial_function (option) myread_loop :: "os \<Rightarrow> addr \<Rightarrow> addr \<Rightarrow> addr \<Rightarrow> u64 \<Rightarrow> 'a server_scheme \<Rightarrow> ('a server_scheme \<times> bool) option" where
  "myread_loop os rv c b sz w = do {
     (w, n) \<leftarrow> call_recv os c (b_last (mem w) b) sz w;
     if n = - 2 then Some (w, True)
     else if n = - 1 then do { w \<leftarrow> close_connection os w c; Some (w, False) }
     else do {
       let w = w\<lparr>mem := (mem w)\<lparr>b_last := (b_last (mem w))(b := b_last (mem w) b + nat n)\<rparr>\<rparr>;
       r \<leftarrow> get_event w rv;
       if ev_ready r then myread_loop os rv c b sz w else Some (w, True) } }"

definition myread :: "os \<Rightarrow> libc \<Rightarrow> 'a server_scheme \<Rightarrow> addr \<Rightarrow> 'a server_scheme option" where
  "myread os libc w rv = do {
     r \<leftarrow> get_event w rv;
     let c = ev_data r;
     if ev_timedout r then Some w
     else do {
       k \<leftarrow> get_conn w c;
       if c_close k then close_connection os w c
       else do {
         let sz = 1024;
         (w, b) \<leftarrow> get_buffer libc c (unat sz) w;
         if b = NULL then close_connection os w c
         else do {
           (w, ok) \<leftarrow> myread_loop os rv c b sz w;
           if \<not> ok then Some w
           else do {
             w \<leftarrow> reusable_connection w c 0;
             mywrite os w rv } } } } }"

text \<open>The handlers that call no handler; \<open>None\<close> for any other pointer.\<close>

definition run_io :: "os \<Rightarrow> libc \<Rightarrow> 'a server_ext caller" where
  "run_io os libc h ev w = (if h = MYREAD then myread os libc w ev else if h = MYWRITE then mywrite os w ev else None)"

definition callback :: "os \<Rightarrow> 'a server_ext caller \<Rightarrow> 'a server_scheme \<Rightarrow> addr \<Rightarrow> 'a server_scheme option" where
  "callback os call w c = do {
     k \<leftarrow> get_conn w c;
     let rv = c_read k;
     w \<leftarrow> upd_event w rv (\<lambda>e. e\<lparr>ev_handler := MYREAD\<rparr>);
     w \<leftarrow> upd_event w (c_write k) (\<lambda>e. e\<lparr>ev_handler := MYWRITE\<rparr>);
     r \<leftarrow> get_event w rv;
     if ev_ready r then
       if use_accept_mutex w then do {
         ls \<leftarrow> get_ls w (c_listening k);
         w \<leftarrow> event_add_timer w rv (ls_post_accept_timeout ls);
         post_event w rv (posted_events w) }
       else call (ev_handler r) rv w
     else do {
       ls \<leftarrow> get_ls w (c_listening k);
       w \<leftarrow> event_add_timer w rv (ls_post_accept_timeout ls);
       w \<leftarrow> reusable_connection w c 1;
       (w, rc) \<leftarrow> handle_read_event os w rv;
       if rc \<noteq> 0 then close_connection os w c else Some w } }"

definition run_callback :: "os \<Rightarrow> libc \<Rightarrow> nat \<Rightarrow> addr \<Rightarrow> 'a server_scheme \<Rightarrow> 'a server_scheme option" where
  "run_callback os libc h c w = (if h = CALLBACK then callback os (run_io os libc) w c else None)"

definition run_handler :: "os \<Rightarrow> libc \<Rightarrow> 'a server_ext caller" where
  "run_handler os libc h ev w = (if h = EVENT_ACCEPT then event_accept os libc (run_io os libc) (run_callback os libc) w ev
     else run_io os libc h ev w)"

section \<open>The process\<close>

text \<open>\<open>proc\<close> initialises the worker, whatever the result, and runs the loop for ever; \<open>n\<close> is a number of rounds.\<close>

primrec rounds :: "os \<Rightarrow> libc \<Rightarrow> nat \<Rightarrow> 'a server_scheme \<Rightarrow> 'a server_scheme option" where
  "rounds os libc 0 w = Some w"
| "rounds os libc (Suc n) w = do {
     w \<leftarrow> process_events_and_timers os (run_handler os libc) w;
     rounds os libc n w }"

definition proc :: "os \<Rightarrow> libc \<Rightarrow> nat \<Rightarrow> 'a server_scheme \<Rightarrow> ('a server_scheme \<times> outcome) option" where
  "proc os libc n w = do {
     (w, r) \<leftarrow> event_process_init os libc (run_handler os libc) w;
     (case r of Exits x \<Rightarrow> Some (w, r)
      | Returns x \<Rightarrow> do { w \<leftarrow> rounds os libc n w; Some (w, r) }) }"

text \<open>
  \<open>main\<close> after the pid file. Its variable \<open>addr\<close> is at \<open>sockaddr\<close>: the address 0.0.0.0 and port 8888, in the bytes of
  \<open>sockaddr_in\<close>; the variable \<open>shm\<close> of \<open>event_master_init\<close> is at \<open>shm_var\<close>. \<open>create_listening\<close> reads the pool of the cycle, which faults when there
  is none. The results of the other calls are ignored.
\<close>

definition any_address :: "nat \<Rightarrow> u8" where
  "any_address i = (if i = 0 then 2 else if i = 2 then 0x22 else if i = 3 then 0xB8 else 0)"

definition main_start :: "os \<Rightarrow> libc \<Rightarrow> addr \<Rightarrow> addr \<Rightarrow> 'a server_scheme \<Rightarrow> 'a server_scheme option" where
  "main_start os libc sockaddr shm_var w = do {
     let len = 16;
     let w = w\<lparr>mem := store_bytes (mem w) sockaddr any_address (unat len)\<rparr>;
     (w, cycle) \<leftarrow> init_cycle libc w;
     if cycle = NULL then None
     else do {
       (w, ls) \<leftarrow> create_listening libc w sockaddr len;
       w \<leftarrow> upd_ls w ls (\<lambda>l. l\<lparr>ls_handler := CALLBACK\<rparr>);
       (w, _) \<leftarrow> open_listening_sockets os w;
       w \<leftarrow> configure_listening_sockets os w;
       Some (fst (event_master_init os shm_var w)) } }"

definition main_prog :: "os \<Rightarrow> libc \<Rightarrow> addr \<Rightarrow> addr \<Rightarrow> nat \<Rightarrow> 'a server_scheme \<Rightarrow> ('a server_scheme \<times> outcome) option" where
  "main_prog os libc sockaddr shm_var n w = do {
     w \<leftarrow> main_start os libc sockaddr shm_var w;
     proc os libc n w }"

end
