(* ===== verification/Accept_Props.thy ===== *)
theory Accept_Props
  imports Accept
begin

unbundle bit_operations_syntax

text \<open>What the I/O functions and the accept mutex of event\_accept.c promise.\<close>

section \<open>Receiving and sending\<close>

text \<open>The kernel interrupts the call \<open>x\<close> exactly \<open>n\<close> times before it answers otherwise.\<close>

definition interrupted :: "os \<Rightarrow> syscall \<Rightarrow> syscall list \<Rightarrow> nat \<Rightarrow> bool" where
  "interrupted os x cs n \<longleftrightarrow> (\<forall>i < n. ans_ret (os (replicate (Suc i) x @ cs)) < 0 \<and> ans_errno (os (replicate (Suc i) x @ cs)) = EINTR)
     \<and> (ans_ret (os (replicate (Suc n) x @ cs)) \<ge> 0 \<or> ans_errno (os (replicate (Suc n) x @ cs)) \<noteq> EINTR)"

text \<open>The result of a call to \<open>recv\<close> or \<open>send\<close>, as the code reports it.\<close>

definition io_result :: "answer \<Rightarrow> int" where
  "io_result a = (if ans_ret a \<ge> 0 then ans_ret a else if ans_errno a = EAGAIN then - 2 else - 1)"

lemma replicate_shift: "replicate (Suc n) x @ x # cs = replicate (Suc (Suc n)) x @ cs"
  by (simp add: replicate_append_same [symmetric])

lemma store_bytes_none [simp]: "store_bytes s p f 0 = s"
proof -
  have "(\<lambda>a. if p \<le> a \<and> a < p + 0 then f (a - p) else bytes s a) = bytes s" by (auto simp: fun_eq_iff)
  then show ?thesis by (simp add: store_bytes_def)
qed

lemma interrupted_shift:
  assumes "interrupted os x cs (Suc n)"
  shows "interrupted os x (x # cs) n" "ans_ret (os (x # cs)) < 0" "ans_errno (os (x # cs)) = EINTR"
proof -
  show "interrupted os x (x # cs) n"
    using assms unfolding interrupted_def replicate_shift by auto
  show "ans_ret (os (x # cs)) < 0" "ans_errno (os (x # cs)) = EINTR"
    using assms unfolding interrupted_def by (metis One_nat_def append_Cons append_Nil replicate_0 replicate_Suc zero_less_Suc)+
qed

definition recv_event :: "int \<Rightarrow> event \<Rightarrow> event" where
  "recv_event r e = e\<lparr>ev_ready := ev_ready e \<and> r > 0, ev_eof := ev_eof e \<or> r = 0, ev_error := ev_error e \<or> r = - 1\<rparr>"

text \<open>\<open>ret\<close> is what the kernel returned, \<open>r\<close> what the code makes of it, \<open>n\<close> the number of interruptions.\<close>

definition send_event :: "int \<Rightarrow> int \<Rightarrow> u64 \<Rightarrow> nat \<Rightarrow> event \<Rightarrow> event" where
  "send_event ret r sz n e = e\<lparr>ev_ready := ev_ready e \<and> n = 0 \<and> (r = - 1 \<or> ret > 0 \<and> sint sz \<le> ret), ev_error := ev_error e \<or> r = - 1\<rparr>"

lemma recv_loop_ok:
  "interrupted os x (calls w) n \<Longrightarrow> x = Sys_recv (fd_of w c) buf (unat sz) \<Longrightarrow> a = os (replicate (Suc n) x @ calls w) \<Longrightarrow>
    c \<noteq> NULL \<Longrightarrow> rd w c \<noteq> NULL \<Longrightarrow>
    recv_loop os c buf sz w = Some (let w' = w\<lparr>calls := replicate (Suc n) x @ calls w\<rparr> in
      if ans_ret a = 0 then (w'\<lparr>evs := (evs w)(rd w c := (evs w (rd w c))\<lparr>ev_ready := False, ev_eof := True\<rparr>)\<rparr>, Inl 0)
      else if ans_ret a > 0 then (w'\<lparr>mem := store_bytes (mem w) buf (ans_bytes a) (nat (ans_ret a))\<rparr>, Inl (ans_ret a))
      else (w', Inr (io_result a)))"
proof (induction n arbitrary: w)
  case 0
  then have a: "a = os (x # calls w)" "ans_ret a < 0 \<Longrightarrow> ans_errno a \<noteq> EINTR" by (auto simp: interrupted_def)
  show ?case
    using 0(2-) a by (subst recv_loop.simps)
      (auto simp: get_conn_def sys_called upd_event_def use_epoll_rdhup_here_def io_result_def Let_def called_def)
next
  case (Suc n)
  note i = interrupted_shift [OF Suc.prems(1)]
  have "recv_loop os c buf sz w = recv_loop os c buf sz (called w x)"
    using Suc.prems(2-) i(2,3) by (subst recv_loop.simps) (simp add: get_conn_def sys_called Let_def)
  also have "\<dots> = Some (let w' = (called w x)\<lparr>calls := replicate (Suc n) x @ calls (called w x)\<rparr> in
      if ans_ret a = 0 then (w'\<lparr>evs := (evs (called w x))(rd (called w x) c := (evs (called w x) (rd (called w x) c))\<lparr>ev_ready := False, ev_eof := True\<rparr>)\<rparr>, Inl 0)
      else if ans_ret a > 0 then (w'\<lparr>mem := store_bytes (mem (called w x)) buf (ans_bytes a) (nat (ans_ret a))\<rparr>, Inl (ans_ret a))
      else (w', Inr (io_result a)))"
    using i(1) Suc.prems(2-) by (intro Suc.IH) (simp_all add: replicate_shift del: replicate_Suc)
  finally show ?case by (simp add: replicate_shift called_def Let_def fun_upd_def del: replicate_Suc cong: if_cong)
qed

lemma posix_recv_ok:
  assumes x: "x = Sys_recv (fd_of w c) buf (unat sz)" and i: "interrupted os x (calls w) n" and a: "a = os (replicate (Suc n) x @ calls w)"
    and c: "c \<noteq> NULL" "rd w c \<noteq> NULL" and av: "ev_available (evs w (rd w c)) \<or> ev_pending_eof (evs w (rd w c))"
  shows "posix_recv os c buf sz w = Some (w\<lparr>calls := replicate (Suc n) x @ calls w,
      evs := (evs w)(rd w c := recv_event (io_result a) (evs w (rd w c))),
      mem := store_bytes (mem w) buf (ans_bytes a) (nat (io_result a))\<rparr>, io_result a)"
proof -
  have e: "e\<lparr>ev_ready := ev_ready e, ev_eof := ev_eof e, ev_error := ev_error e\<rparr> = e" for e :: event by (cases e) simp
  note r = recv_loop_ok [OF i x a c]
  define rv where "rv = rd w c"
  have p: "posix_recv os c buf sz w = do {
      (w, res) \<leftarrow> recv_loop os c buf sz w;
      (case res of Inl n \<Rightarrow> Some (w, n)
        | Inr n \<Rightarrow> do {
            w \<leftarrow> upd_event w rv (\<lambda>e. e\<lparr>ev_ready := False\<rparr>);
            w \<leftarrow> (if n = - 1 then upd_event w rv (\<lambda>e. e\<lparr>ev_error := True\<rparr>) else Some w);
            Some (w, n) }) }"
    using c av by (auto simp: rv_def posix_recv_def get_conn_def get_event_def Let_def cong: if_cong)
  consider "ans_ret a = 0" | "ans_ret a > 0" | "ans_ret a < 0" by linarith
  then show ?thesis
  proof cases
    case 1
    then show ?thesis unfolding p r by (simp add: Let_def io_result_def recv_event_def)
  next
    case 2
    then show ?thesis unfolding p r by (simp add: Let_def io_result_def recv_event_def e)
  next
    case 3
    then show ?thesis unfolding p r using c by (simp add: Let_def io_result_def recv_event_def upd_event_def rv_def)
  qed
qed

lemma posix_send_ok:
  "interrupted os x (calls w) n \<Longrightarrow> x = Sys_send (fd_of w c) buf (unat sz) \<Longrightarrow> a = os (replicate (Suc n) x @ calls w) \<Longrightarrow>
    c \<noteq> NULL \<Longrightarrow> wr w c \<noteq> NULL \<Longrightarrow>
    posix_send os c buf sz w = Some (w\<lparr>calls := replicate (Suc n) x @ calls w,
      evs := (evs w)(wr w c := send_event (ans_ret a) (io_result a) sz n (evs w (wr w c))),
      conns := (conns w)(c := (conns w c)\<lparr>c_sent := c_sent (conns w c) + word_of_int (max 0 (io_result a))\<rparr>)\<rparr>, io_result a)"
proof (induction n arbitrary: w)
  case 0
  have id: "k\<lparr>c_sent := c_sent k\<rparr> = k" for k :: connection by (cases k) simp
  have ide: "e\<lparr>ev_ready := ev_ready e, ev_error := ev_error e\<rparr> = e" "e\<lparr>ev_error := ev_error e\<rparr> = e"
    "e\<lparr>ev_ready := ev_ready e\<rparr> = e" for e :: event by (cases e, simp)+
  from 0 have a: "a = os (x # calls w)" "ans_ret a < 0 \<Longrightarrow> ans_errno a \<noteq> EINTR" by (auto simp: interrupted_def)
  note d = get_conn_def sys_called upd_event_def upd_conn_def Let_def called_def io_result_def send_event_def id ide fun_upd_def
  note f = 0(2,4,5) a(1) a(1) [symmetric]
  consider "ans_ret a > 0" | "ans_ret a = 0" | "ans_ret a < 0" "ans_errno a = EAGAIN" | "ans_ret a < 0" "ans_errno a \<noteq> EAGAIN" by linarith
  then show ?case
  proof cases
    case 1 with f show ?thesis
      by (cases "ans_ret a < sint sz"; subst posix_send.simps) (simp_all add: d if_not_P cong: if_cong)
  next
    case 2 with f show ?thesis by (subst posix_send.simps) (auto simp: d)
  next
    case 3 with f show ?thesis by (subst posix_send.simps) (auto simp: d)
  next
    case 4 with f a(2) show ?thesis by (subst posix_send.simps) (auto simp: d)
  qed
next
  case (Suc n)
  note i = interrupted_shift [OF Suc.prems(1)]
  define w1 where "w1 = (called w x)\<lparr>evs := (evs w)(wr w c := (evs w (wr w c))\<lparr>ev_ready := False\<rparr>)\<rparr>"
  have "posix_send os c buf sz w = posix_send os c buf sz w1"
    using Suc.prems(2-) i(2,3) by (subst posix_send.simps) (simp add: get_conn_def sys_called Let_def upd_event_def w1_def)
  also have "\<dots> = Some (w1\<lparr>calls := replicate (Suc n) x @ calls w1,
      evs := (evs w1)(wr w1 c := send_event (ans_ret a) (io_result a) sz n (evs w1 (wr w1 c))),
      conns := (conns w1)(c := (conns w1 c)\<lparr>c_sent := c_sent (conns w1 c) + word_of_int (max 0 (io_result a))\<rparr>)\<rparr>, io_result a)"
    using i(1) Suc.prems(2-) by (intro Suc.IH) (simp_all add: replicate_shift w1_def del: replicate_Suc)
  finally show ?case by (simp add: replicate_shift w1_def called_def send_event_def fun_upd_def del: replicate_Suc cong: if_cong)
qed

lemma posix_recv_unavailable:
  assumes "c \<noteq> NULL" "rd w c \<noteq> NULL" "\<not> ev_available (evs w (rd w c))" "\<not> ev_pending_eof (evs w (rd w c))"
  shows "posix_recv os c buf sz w = Some (w\<lparr>evs := (evs w)(rd w c := (evs w (rd w c))\<lparr>ev_ready := False\<rparr>)\<rparr>, - 2)"
  using assms by (simp add: posix_recv_def get_conn_def get_event_def upd_event_def Let_def)

subsection \<open>Properties\<close>

text \<open>C13: \<open>posix_recv\<close> asks the kernel only when something may be there, and again as long as it is interrupted, \<open>n\<close> times in all. The result is
  the number of bytes, 0 at the end of the stream, -2 for try again and -1 for an error; the bytes are stored at \<open>buf\<close>, and
  the flags \<open>ready\<close>, \<open>eof\<close> and \<open>error\<close> of the read event say which it was. Nothing else changes.\<close>
theorem posix_recv_correct:
  assumes "x = Sys_recv (fd_of w c) buf (unat sz)" and "interrupted os x (calls w) n" and "a = os (replicate (Suc n) x @ calls w)"
    and "c \<noteq> NULL" and "rd w c \<noteq> NULL"
  shows "posix_recv os c buf sz w =
    (if ev_available (evs w (rd w c)) \<or> ev_pending_eof (evs w (rd w c))
     then Some (w\<lparr>calls := replicate (Suc n) x @ calls w,
       evs := (evs w)(rd w c := recv_event (io_result a) (evs w (rd w c))),
       mem := store_bytes (mem w) buf (ans_bytes a) (nat (io_result a))\<rparr>, io_result a)
     else Some (w\<lparr>evs := (evs w)(rd w c := (evs w (rd w c))\<lparr>ev_ready := False\<rparr>)\<rparr>, - 2))"
  using posix_recv_ok [OF assms(1-5)] posix_recv_unavailable [OF assms(4,5)] by auto

text \<open>The kernel interrupts a call once and then moves five bytes.\<close>

definition os_five :: os where
  "os_five cs = (os_yes cs)\<lparr>ans_ret := if length cs = 2 then - 1 else 5, ans_errno := EINTR, ans_bytes := \<lambda>i. of_nat i\<rparr>"

definition server_in :: server where
  "server_in = server2\<lparr>evs := (evs server2)(2000 := (evs server2 2000)\<lparr>ev_available := True, ev_ready := True\<rparr>)\<rparr>"

lemma server_in_conn: "rd server_in 1000 = 2000" "wr server_in 1000 = 3000" "calls server_in = calls server2" "fd_of server_in 1000 = 7"
  by (simp_all add: server_in_def server2_def connection_zero_def)

lemma interrupted_five: "interrupted os_five x (calls server2) 1"
  by (auto simp: interrupted_def os_five_def server2_def)

theorem posix_recv_correct_witness:
  "\<exists>w'. posix_recv os_five 1000 0x5000 1024 server_in = Some (w', 5) \<and> calls w' = replicate 2 (Sys_recv 7 0x5000 1024) @ calls server2
    \<and> bytes (mem w') 0x5003 = 3 \<and> ev_ready (evs w' 2000)"
proof -
  define x where "x = Sys_recv (fd_of server_in 1000) 0x5000 (unat (1024 :: u64))"
  have x: "x = Sys_recv 7 0x5000 1024" by (simp add: x_def server_in_conn)
  have i: "interrupted os_five x (calls server_in) 1" unfolding server_in_conn by (rule interrupted_five)
  have n: "(1000 :: addr) \<noteq> NULL" "rd server_in 1000 \<noteq> NULL" by (simp_all add: server_in_conn)
  have av: "ev_available (evs server_in 2000)" "ev_ready (evs server_in 2000)" by (simp_all add: server_in_def)
  from posix_recv_correct [OF x_def i refl n] show ?thesis
    by (simp add: server_in_conn av x io_result_def os_five_def recv_event_def store_bytes_def server2_def numeral_2_eq_2)
qed

text \<open>C14: \<open>posix_send\<close> calls the kernel until it is not interrupted, \<open>n\<close> times in all, and returns the bytes sent, -2 for try again or -1 for an
  error. The write event stays ready only when everything was sent at the first attempt or on an error, and \<open>sent\<close> counts
  the bytes. Nothing else changes.\<close>
theorem posix_send_correct:
  assumes "x = Sys_send (fd_of w c) buf (unat sz)" and "interrupted os x (calls w) n" and "a = os (replicate (Suc n) x @ calls w)"
    and "c \<noteq> NULL" and "wr w c \<noteq> NULL"
  shows "posix_send os c buf sz w = Some (w\<lparr>calls := replicate (Suc n) x @ calls w,
      evs := (evs w)(wr w c := send_event (ans_ret a) (io_result a) sz n (evs w (wr w c))),
      conns := (conns w)(c := (conns w c)\<lparr>c_sent := c_sent (conns w c) + word_of_int (max 0 (io_result a))\<rparr>)\<rparr>, io_result a)"
  by (rule posix_send_ok [OF assms(2,1,3-5)])

theorem posix_send_correct_witness:
  "\<exists>w'. posix_send os_five 1000 0x5000 5 server_in = Some (w', 5) \<and> calls w' = replicate 2 (Sys_send 7 0x5000 5) @ calls server2
    \<and> \<not> ev_ready (evs w' 3000) \<and> c_sent (conns w' 1000) = 5"
proof -
  define x where "x = Sys_send (fd_of server_in 1000) 0x5000 (unat (5 :: u64))"
  have x: "x = Sys_send 7 0x5000 5" by (simp add: x_def server_in_conn)
  have i: "interrupted os_five x (calls server_in) 1" unfolding server_in_conn by (rule interrupted_five)
  have n: "(1000 :: addr) \<noteq> NULL" "wr server_in 1000 \<noteq> NULL" by (simp_all add: server_in_conn)
  have "c_sent (conns server_in 1000) = 0" by (simp add: server_in_def server2_def connection_zero_def)
  with posix_send_correct [OF x_def i refl n] show ?thesis
    by (simp add: server_in_conn x io_result_def os_five_def send_event_def server2_def numeral_2_eq_2)
qed

section \<open>The accept mutex\<close>

text \<open>
  \<open>lc\<close> is the connection of the listening socket. A worker that holds the mutex (or held it last) listens; one that does not has the accept
  event off, unless the socket is its own (\<open>reuseport\<close>).
\<close>

definition listens_on :: "'a server_scheme \<Rightarrow> addr list \<Rightarrow> addr list \<Rightarrow> addr \<Rightarrow> bool" where
  "listens_on w cs fl lc \<longleftrightarrow> cycle_listening w \<noteq> NULL \<and> ls_connection (listens w (cycle_listening w)) = lc \<and> lc \<in> busy cs fl"

definition accept_sync :: "'a server_scheme \<Rightarrow> addr \<Rightarrow> bool" where
  "accept_sync w lc \<longleftrightarrow> (accept_mutex_held w \<longrightarrow> active_rd w lc)
     \<and> (\<not> accept_mutex_held w \<and> \<not> ls_reuseport (listens w (cycle_listening w)) \<longrightarrow> \<not> active_rd w lc)"

text \<open>The state with another lock word and another held flag.\<close>

definition owned :: "'a server_scheme \<Rightarrow> words \<Rightarrow> bool \<Rightarrow> 'a server_scheme" where
  "owned w m h = w\<lparr>words := m, accept_events := 0, accept_mutex_held := h\<rparr>"

lemma owned_ok [simp]: "server_ok base (owned w m h) cs fl rs evl xs ys = server_ok base w cs fl rs evl xs ys"
  "registered os (owned w m h) cs fl = registered os w cs fl"
  by (rule server_ok_cong; simp add: same_table_def owned_def) (simp add: registered_def watched_def owned_def)

lemma owned_fields [simp]: "words (owned w m h) = m" "accept_mutex_held (owned w m h) = h" "accept_events (owned w m h) = 0"
  "evs (owned w m h) = evs w" "conns (owned w m h) = conns w" "listens (owned w m h) = listens w" "cycle_listening (owned w m h) = cycle_listening w"
  "calls (owned w m h) = calls w" "ep (owned w m h) = ep w" "pid (owned w m h) = pid w" "accept_mutex (owned w m h) = accept_mutex w"
  by (simp_all add: owned_def)

lemma listens_on_conn: "server_ok base w cs fl rs evl xs ys \<Longrightarrow> listens_on w cs fl lc \<Longrightarrow> lc \<in> busy cs fl \<and> lc \<noteq> NULL \<and> rd w lc \<noteq> NULL"
  using server_facts [of base w cs fl rs evl xs ys lc] by (simp add: listens_on_def)

lemma set_active_lock [simp]: "accept_mutex (set_active w ev b) = accept_mutex w" "words (set_active w ev b) = words w"
  "accept_mutex_held (set_active w ev b) = accept_mutex_held w" "pid (set_active w ev b) = pid w" "accept_events (set_active w ev b) = accept_events w"
  by (simp_all add: set_active_def)

text \<open>What enabling and disabling do: at most one call to the kernel; a refusal is reported as -1.\<close>

definition accept_switch :: "os \<Rightarrow> u64 \<Rightarrow> 'a server_scheme \<Rightarrow> addr list \<Rightarrow> addr list \<Rightarrow> addr list \<Rightarrow> addr list \<Rightarrow> addr list \<Rightarrow> addr list
    \<Rightarrow> addr \<Rightarrow> bool \<Rightarrow> ('a server_scheme \<times> int) option \<Rightarrow> bool" where
  "accept_switch os base w cs fl rs evl xs ys ev b res \<longleftrightarrow> (\<exists>w' r cl. res = Some (w', r) \<and> (r = 0 \<or> r = - 1)
     \<and> w' = (if r = 0 then set_active w ev b else w)\<lparr>calls := cl @ calls w\<rparr>
     \<and> server_ok base w' cs fl rs evl xs ys \<and> registered os w' cs fl)"

lemma set_active_same: "ev_active (evs w ev) = b \<Longrightarrow> set_active w ev b = w"
proof -
  assume "ev_active (evs w ev) = b"
  then have "(evs w ev)\<lparr>ev_active := b\<rparr> = evs w ev" by (cases "evs w ev") simp
  then show "set_active w ev b = w" by (simp add: set_active_def)
qed

lemma accept_switch_none:
  "server_ok base w cs fl rs evl xs ys \<Longrightarrow> registered os w cs fl \<Longrightarrow> ev_active (evs w ev) = b \<Longrightarrow> accept_switch os base w cs fl rs evl xs ys ev b (Some (w, 0))"
  unfolding accept_switch_def by (intro exI [of _ w] exI [of _ 0] exI [of _ "[]"]) (simp add: set_active_same)

lemma accept_switch_ctl:
  assumes "ctl_result os base w cs fl rs evl xs ys (\<lambda>w. set_active w ev b) (- 1) res"
  shows "accept_switch os base w cs fl rs evl xs ys ev b (do { (w, rc) \<leftarrow> res; Some (w, if rc = - 1 then - 1 else 0) })"
proof -
  from assms obtain x w' r where "res = Some (w', r)"
    "if ans_ret (os (x # calls w)) = - 1 then w' = called w x \<and> r = - 1 else w' = set_active (called w x) ev b \<and> r = 0"
    "server_ok base w' cs fl rs evl xs ys" "registered os w' cs fl" unfolding ctl_result_def by blast
  then show ?thesis unfolding accept_switch_def
    by (intro exI [of _ w'] exI [of _ r] exI [of _ "[x]"]) (auto simp: called_def set_active_def split: if_splits)
qed

lemma enable_accept_ok:
  assumes s: "server_ok base w cs fl rs evl xs ys" and reg: "registered os w cs fl" and l: "listens_on w cs fl lc"
  shows "accept_switch os base w cs fl rs evl xs ys (rd w lc) True (enable_accept_events os w)"
proof (cases "active_rd w lc")
  case True
  then show ?thesis
    using accept_switch_none [OF s reg, of "rd w lc"] l listens_on_conn [OF s l]
    by (simp add: enable_accept_events_def listens_on_def get_ls_def get_conn_def get_event_def Let_def)
next
  case False
  have side: "event_side w lc (rd w lc) READ_EVENT" by (simp add: event_side_def)
  note n = listens_on_conn [OF s l]
  have "enable_accept_events os w = do { (w, rc) \<leftarrow> epoll_add_event os w (rd w lc) READ_EVENT 0; Some (w, if rc = - 1 then - 1 else 0) }"
    using l n False by (simp add: enable_accept_events_def listens_on_def get_ls_def get_conn_def get_event_def Let_def)
  with accept_switch_ctl [OF add_event_ok [OF s reg _ side, of 0]] n show ?thesis by simp
qed

lemma disable_accept_ok:
  assumes s: "server_ok base w cs fl rs evl xs ys" and reg: "registered os w cs fl" and l: "listens_on w cs fl lc"
    and r: "all \<or> \<not> ls_reuseport (listens w (cycle_listening w))"
  shows "accept_switch os base w cs fl rs evl xs ys (rd w lc) False (disable_accept_events os w all)"
proof (cases "active_rd w lc")
  case False
  then show ?thesis
    using accept_switch_none [OF s reg, of "rd w lc"] l listens_on_conn [OF s l]
    by (simp add: disable_accept_events_def listens_on_def get_ls_def get_conn_def get_event_def Let_def)
next
  case True
  have side: "event_side w lc (rd w lc) READ_EVENT" by (simp add: event_side_def)
  note n = listens_on_conn [OF s l]
  have "disable_accept_events os w all = do { (w, rc) \<leftarrow> epoll_del_event os w (rd w lc) READ_EVENT 0; Some (w, if rc = - 1 then - 1 else 0) }"
    using l n True r by (auto simp add: disable_accept_events_def listens_on_def get_ls_def get_conn_def get_event_def Let_def)
  with accept_switch_ctl [OF del_event_ok [OF s reg _ side, of 0]] n show ?thesis by simp
qed

lemma disable_accept_own:
  assumes s: "server_ok base w cs fl rs evl xs ys" and l: "listens_on w cs fl lc" and "ls_reuseport (listens w (cycle_listening w))"
  shows "disable_accept_events os w False = Some (w, 0)"
  using assms(2,3) listens_on_conn [OF s l]
  by (simp add: disable_accept_events_def listens_on_def get_ls_def get_conn_def get_event_def Let_def)

text \<open>\<open>free\<close> says whether the lock word was 0. What one attempt to get the mutex promises.\<close>

definition mutex_result :: "os \<Rightarrow> u64 \<Rightarrow> 'a server_scheme \<Rightarrow> addr list \<Rightarrow> addr list \<Rightarrow> addr list \<Rightarrow> addr list \<Rightarrow> addr list \<Rightarrow> addr list
    \<Rightarrow> addr \<Rightarrow> ('a server_scheme \<times> int) option \<Rightarrow> bool" where
  "mutex_result os base w cs fl rs evl xs ys lc res \<longleftrightarrow> (\<exists>w' r. res = Some (w', r) \<and> (r = 0 \<or> r = - 1)
     \<and> server_ok base w' cs fl rs evl xs ys \<and> registered os w' cs fl \<and> listens_on w' cs fl lc \<and> accept_sync w' lc
     \<and> (let L = mtx_lock (accept_mutex w); free = words w L = 0
        in words w' = (if r = 0 \<and> free then (words w)(L := pid w) else words w) \<and> accept_mutex_held w' = (if r = 0 then free else accept_mutex_held w)))"

lemma mutex_resultI:
  assumes "server_ok base w cs fl rs evl xs ys" "registered os w cs fl" "listens_on w cs fl lc" "accept_sync w lc" "accept_events w = 0"
    and "free = (words w (mtx_lock (accept_mutex w)) = 0)"
    and "accept_switch os base (owned w m0 h0) cs fl rs evl xs ys (rd w lc) b sw" and "sw = Some (w1, r)"
    and "free \<Longrightarrow> b" "\<not> free \<Longrightarrow> \<not> ls_reuseport (listens w (cycle_listening w)) \<Longrightarrow> \<not> b"
    and "r \<noteq> 0 \<Longrightarrow> accept_mutex_held w \<noteq> free"
    and "res = Some (owned w1 (if r = 0 \<and> free then (words w)(mtx_lock (accept_mutex w) := pid w) else words w) (if r = 0 then free else accept_mutex_held w), r)"
  shows "mutex_result os base w cs fl rs evl xs ys lc res"
proof -
  define h where "h = (if r = 0 then free else accept_mutex_held w)"
  define m where "m = (if r = 0 \<and> free then (words w)(mtx_lock (accept_mutex w) := pid w) else words w)"
  from assms(7,8) obtain cl where r: "r = 0 \<or> r = - 1" and s: "server_ok base w1 cs fl rs evl xs ys" "registered os w1 cs fl"
    and w1: "w1 = (if r = 0 then set_active (owned w m0 h0) (rd w lc) b else owned w m0 h0)\<lparr>calls := cl @ calls w\<rparr>"
    unfolding accept_switch_def by auto
  have k: "conns w1 = conns w" "listens w1 = listens w" "cycle_listening w1 = cycle_listening w"
    "active_rd w1 lc = (if r = 0 then b else active_rd w lc)" using w1 by (simp_all add: set_active_def)
  have "listens_on (owned w1 m h) cs fl lc" using assms(3) by (simp add: listens_on_def k)
  moreover have "accept_sync (owned w1 m h) lc"
    using assms(4,9,10) k(4) by (auto simp: accept_sync_def h_def k(1-3))
  ultimately show ?thesis
    unfolding mutex_result_def assms(12) h_def [symmetric] m_def [symmetric]
    using s r by (intro exI [of _ "owned w1 m h"] exI [of _ r]) (simp add: Let_def h_def m_def assms(6) [symmetric])
qed

lemma trylock_ok:
  assumes s: "server_ok base w cs fl rs evl xs ys" and reg: "registered os w cs fl" and l: "listens_on w cs fl lc" and a: "accept_sync w lc"
    and e: "accept_events w = 0" "pid w \<noteq> 0"
  shows "mutex_result os base w cs fl rs evl xs ys lc (trylock_accept_mutex os w)"
proof -
  define L where "L = mtx_lock (accept_mutex w)"
  have id: "owned w (words w) (accept_mutex_held w) = w" using e by (simp add: owned_def)
  note I = mutex_resultI [OF s reg l a e(1)]
  note T = trylock_accept_mutex_def shmtx_trylock_def atomic_cmp_set_def Let_def
  have sw: "accept_switch os base (owned w m h) cs fl rs evl xs ys (rd w lc) b (Some (owned w m h, 0))" if "active_rd w lc = b" for m h b
    using accept_switch_none [of base "owned w m h"] s reg that by simp
  have li: "listens_on (owned w m h) cs fl lc" for m h using l by (simp add: listens_on_def)
  show ?thesis
  proof (cases "words w L = 0"; cases "accept_mutex_held w")
    assume "words w L = 0" "accept_mutex_held w"
    then show ?thesis using a e
      by (intro I [of True "(words w)(L := pid w)" True True "Some (owned w ((words w)(L := pid w)) True, 0)" _ 0, OF _ sw])
        (auto simp: T L_def accept_sync_def owned_def)
  next
    assume "words w L \<noteq> 0" "\<not> accept_mutex_held w"
    then show ?thesis using a e id
      by (intro I [of False "words w" False "active_rd w lc" "Some (owned w (words w) False, 0)" _ 0, OF _ sw])
        (auto simp: T L_def accept_sync_def)
  next
    assume f: "words w L = 0" "\<not> accept_mutex_held w"
    define w1 where "w1 = owned w ((words w)(L := pid w)) False"
    have sw: "accept_switch os base w1 cs fl rs evl xs ys (rd w lc) True (enable_accept_events os w1)"
      using enable_accept_ok [of base w1 cs fl rs evl xs ys os lc] s reg li by (simp add: w1_def)
    then obtain w2 r where r: "enable_accept_events os w1 = Some (w2, r)" "r = 0 \<or> r = - 1" "accept_mutex w2 = accept_mutex w"
      "words w2 = (words w)(L := pid w)" "accept_mutex_held w2 = False" "pid w2 = pid w" "accept_events w2 = 0"
      unfolding accept_switch_def by (auto simp: w1_def)
    have "w\<lparr>words := (words w)(L := pid w)\<rparr> = w\<lparr>words := (words w)(L := pid w), accept_events := accept_events w, accept_mutex_held := accept_mutex_held w\<rparr>"
      by simp
    also have "\<dots> = w1" using f(2) e(1) by (simp add: w1_def owned_def)
    finally have w1f: "\<not> accept_mutex_held w1" and w1: "w\<lparr>words := (words w)(L := pid w)\<rparr> = w1" by (simp_all add: w1_def)
    have t: "trylock_accept_mutex os w = (if r = - 1 then Some (unlock_accept_mutex w2, - 1) else Some (owned w2 (words w2) True, 0))"
      using f r(1,2) e w1f by (auto simp: T L_def [symmetric] w1 owned_def)
    have "unlock_accept_mutex w2 = owned w2 (words w) False"
      using r(3-7) f by (simp add: unlock_accept_mutex_def shmtx_unlock_def atomic_cmp_set_def L_def [symmetric] owned_def fun_upd_idem)
    with t r(2,4) show ?thesis using f e sw [unfolded w1_def]
      by (intro I [of True "(words w)(L := pid w)" False True "enable_accept_events os w1" w2 r]) (auto simp: r(1) [unfolded w1_def L_def] L_def w1_def)
  next
    assume f: "words w L \<noteq> 0" "accept_mutex_held w"
    have t: "trylock_accept_mutex os w = do {
        (w, rc) \<leftarrow> disable_accept_events os w False; if rc = - 1 then Some (w, - 1) else Some (w\<lparr>accept_mutex_held := False\<rparr>, 0) }"
      using f by (simp add: T L_def [symmetric])
    obtain b where b: "b \<Longrightarrow> ls_reuseport (listens w (cycle_listening w))"
      "accept_switch os base w cs fl rs evl xs ys (rd w lc) b (disable_accept_events os w False)"
    proof (cases "ls_reuseport (listens w (cycle_listening w))")
      case True
      with that [of "active_rd w lc"] disable_accept_own [OF s l] accept_switch_none [OF s reg refl] show ?thesis by simp
    next
      case False
      with that [of False] disable_accept_ok [OF s reg l, of False] show ?thesis by simp
    qed
    then obtain w2 r where r: "disable_accept_events os w False = Some (w2, r)" "r = 0 \<or> r = - 1"
      "words w2 = words w" "accept_mutex_held w2 = accept_mutex_held w" "accept_events w2 = 0"
      using e unfolding accept_switch_def by auto
    have "w2\<lparr>accept_mutex_held := False\<rparr> = owned w2 (words w) False" "w2 = owned w2 (words w) True"
      using r(3-5) f by (simp_all add: owned_def)
    then have "trylock_accept_mutex os w = Some (owned w2 (words w) (r \<noteq> 0), r)" using t r(1,2) by auto
    then show ?thesis using f b
      by (intro I [of False "words w" True b "disable_accept_events os w False" w2 r]) (auto simp: id [unfolded f(2) [THEN eqTrueI]] L_def r(1))
  qed
qed

text \<open>C6: The accept mutex. Whatever the kernel answers, \<open>trylock_accept_mutex\<close> keeps the server invariant and the registrations, and keeps the held flag and
  the accept event in step: a worker that holds the mutex listens, and one that does not has the event off unless the
  socket is its own. It reports success or, when the kernel refuses, -1; on success the worker holds the mutex exactly if the word was free, which
  then is its process id; after a refusal the word and the flag are as before.\<close>
theorem accept_mutex_sync:
  assumes "server_ok base w cs fl rs evl xs ys" and "registered os w cs fl" and "listens_on w cs fl lc" and "accept_sync w lc"
    and "accept_events w = 0" and "pid w \<noteq> 0"
  shows "mutex_result os base w cs fl rs evl xs ys lc (trylock_accept_mutex os w)"
  by (rule trylock_ok [OF assms])

text \<open>The kernel accepts the registration: the worker of \<open>server2\<close>, whose event is on, had lost the mutex and finds it free.\<close>

definition server_lock :: server where
  "server_lock = server2\<lparr>listens := (\<lambda>_. listening_zero)(500 := listening_zero\<lparr>ls_connection := 1000, ls_reuseport := True\<rparr>)\<rparr>"

theorem accept_mutex_sync_witness:
  "\<exists>w'. trylock_accept_mutex os_yes server_lock = Some (w', 0) \<and> words w' 64 = 77 \<and> accept_mutex_held w' \<and> active_rd w' 1000"
proof -
  have k: "conns server_lock = conns server2" "evs server_lock = evs server2" "cycle_listening server_lock = 500"
    "ls_connection (listens server_lock 500) = 1000" "ls_reuseport (listens server_lock 500)" "\<not> accept_mutex_held server_lock"
    "mtx_lock (accept_mutex server_lock) = 64" "words server_lock = (\<lambda>_. 0)" "pid server_lock = 77" "accept_events server_lock = 0"
    "ev_active (evs server2 2000)" "rd server2 1000 = 2000"
    by (simp_all add: server_lock_def server2_def connection_zero_def)
  have "server_ok 0 server_lock [1000, 1200] [1200] [1000] [] [] []"
    using server2_ok by (subst server_ok_cong [of server2]) (simp_all add: same_table_def server_lock_def)
  moreover have "registered os_yes server_lock [1000, 1200] [1200]"
    using server2_registered by (rule registered_cong [THEN iffD1, rotated -1]) (simp_all add: server_lock_def)
  moreover have "listens_on server_lock [1000, 1200] [1200] 1000" by (simp add: listens_on_def k)
  moreover have "accept_sync server_lock 1000" by (simp add: accept_sync_def k)
  ultimately have "mutex_result os_yes 0 server_lock [1000, 1200] [1200] [1000] [] [] [] 1000 (trylock_accept_mutex os_yes server_lock)"
    by (rule accept_mutex_sync) (simp_all add: k)
  moreover have "trylock_accept_mutex os_yes server_lock = Some (owned server_lock ((\<lambda>_. 0)(64 := 77)) True, 0)"
    by (simp add: trylock_accept_mutex_def shmtx_trylock_def atomic_cmp_set_def Let_def k enable_accept_events_def get_ls_def
      get_conn_def get_event_def owned_def)
  ultimately show ?thesis by (simp add: mutex_result_def k Let_def)
qed

end
