(* ===== verification/Echo.thy ===== *)
theory Echo
  imports Handlers Accept_Props
begin

text \<open>
  What the echo handlers of main.c do to the buffer of a connection: \<open>myread\<close> appends what the kernel delivers, without regard to the
  end of the buffer, and \<open>mywrite\<close> sends everything between \<open>pos\<close> and \<open>last\<close>.
\<close>

section \<open>Reading\<close>

text \<open>
  The kernel delivers the chunks of sizes \<open>ns\<close> to successive calls of \<open>recv\<close> on \<open>fd\<close> for \<open>sz\<close> bytes, the first at the address \<open>p\<close>, and then
  answers that there is no more. \<open>recv_calls\<close> are these calls, the newest first, and \<open>stream\<close> the bytes.
\<close>

fun delivers :: "os \<Rightarrow> u32 \<Rightarrow> nat \<Rightarrow> addr \<Rightarrow> syscall list \<Rightarrow> nat list \<Rightarrow> bool" where
  "delivers os fd sz p cs [] = (ans_ret (os (Sys_recv fd p sz # cs)) < 0 \<and> ans_errno (os (Sys_recv fd p sz # cs)) = EAGAIN)"
| "delivers os fd sz p cs (n # ns) = (ans_ret (os (Sys_recv fd p sz # cs)) = int n \<and> 0 < n \<and> delivers os fd sz (p + n) (Sys_recv fd p sz # cs) ns)"

fun recv_calls :: "u32 \<Rightarrow> nat \<Rightarrow> addr \<Rightarrow> syscall list \<Rightarrow> nat list \<Rightarrow> syscall list" where
  "recv_calls fd sz p cs [] = Sys_recv fd p sz # cs"
| "recv_calls fd sz p cs (n # ns) = recv_calls fd sz (p + n) (Sys_recv fd p sz # cs) ns"

fun stream :: "os \<Rightarrow> u32 \<Rightarrow> nat \<Rightarrow> addr \<Rightarrow> syscall list \<Rightarrow> nat list \<Rightarrow> u8 list" where
  "stream os fd sz p cs [] = []"
| "stream os fd sz p cs (n # ns) = map (ans_bytes (os (Sys_recv fd p sz # cs))) [0 ..< n] @ stream os fd sz (p + n) (Sys_recv fd p sz # cs) ns"

lemma length_stream [simp]: "length (stream os fd sz p cs ns) = sum_list ns"
  by (induction ns arbitrary: p cs) simp_all

text \<open>The bytes \<open>bs\<close> are written at \<open>p\<close>.\<close>

definition put_bytes :: "(addr \<Rightarrow> u8) \<Rightarrow> addr \<Rightarrow> u8 list \<Rightarrow> addr \<Rightarrow> u8" where
  "put_bytes m p bs = (\<lambda>a. if p \<le> a \<and> a < p + length bs then bs ! (a - p) else m a)"

lemma put_bytes_append: "put_bytes (put_bytes m p as) (p + length as) bs = put_bytes m p (as @ bs)"
  by (auto simp: put_bytes_def fun_eq_iff nth_append)

lemma store_bytes_put: "store_bytes s p f n = s\<lparr>bytes := put_bytes (bytes s) p (map f [0 ..< n])\<rparr>"
proof -
  have "(\<lambda>a. if p \<le> a \<and> a < p + n then f (a - p) else bytes s a) = put_bytes (bytes s) p (map f [0 ..< n])"
    by (auto simp: put_bytes_def fun_eq_iff)
  then show ?thesis by (simp add: store_bytes_def)
qed

lemma io_event_same: "0 < r \<Longrightarrow> recv_event r e = e"
  by (cases e) (auto simp: recv_event_def)

lemma interrupted_0: "interrupted os x cs 0 \<longleftrightarrow> ans_ret (os (x # cs)) \<ge> 0 \<or> ans_errno (os (x # cs)) \<noteq> EINTR"
  by (simp add: interrupted_def)

text \<open>A connection that reads into the buffer \<open>b\<close>, and the state after the bytes \<open>bs\<close>.\<close>

definition reading :: "'a server_scheme \<Rightarrow> addr \<Rightarrow> bool" where
  "reading w c \<longleftrightarrow> c \<noteq> NULL \<and> rd w c \<noteq> NULL \<and> c_recv (conns w c) = POSIX_RECV \<and> ev_ready (evs w (rd w c))
     \<and> (ev_available (evs w (rd w c)) \<or> ev_pending_eof (evs w (rd w c)))"

definition appended :: "'a server_scheme \<Rightarrow> addr \<Rightarrow> u8 list \<Rightarrow> syscall list \<Rightarrow> 'a server_scheme" where
  "appended w b bs cs = w\<lparr>calls := cs, mem := (mem w)\<lparr>bytes := put_bytes (bytes (mem w)) (b_last (mem w) b) bs,
     b_last := (b_last (mem w))(b := b_last (mem w) b + length bs)\<rparr>\<rparr>"

lemma appended_twice: "appended (appended w b as cs) b bs ds = appended w b (as @ bs) ds"
  by (simp add: appended_def put_bytes_append add.assoc)

lemma appended_reading [simp]: "reading (appended w b bs cs) c = reading w c" "fd_of (appended w b bs cs) a = fd_of w a"
  "rd (appended w b bs cs) a = rd w a" "evs (appended w b bs cs) = evs w" "calls (appended w b bs cs) = cs"
  "b_last (mem (appended w b bs cs)) b = b_last (mem w) b + length bs"
  by (simp_all add: reading_def appended_def)

lemma myread_chunk:
  assumes r: "reading w c" and x: "x = Sys_recv (fd_of w c) (b_last (mem w) b) (unat sz)" and n: "ans_ret (os (x # calls w)) = int n" "0 < n"
  shows "myread_loop os (rd w c) c b sz w = myread_loop os (rd w c) c b sz (appended w b (map (ans_bytes (os (x # calls w))) [0 ..< n]) (x # calls w))"
proof -
  have i: "interrupted os x (calls w) 0" using n by (simp add: interrupted_0)
  have io: "io_result (os (x # calls w)) = int n" using n by (simp add: io_result_def)
  have p: "posix_recv os c (b_last (mem w) b) sz w = Some (w\<lparr>calls := x # calls w,
      mem := (mem w)\<lparr>bytes := put_bytes (bytes (mem w)) (b_last (mem w) b) (map (ans_bytes (os (x # calls w))) [0 ..< n])\<rparr>\<rparr>, int n)"
    using posix_recv_ok [OF x i refl] r n by (simp add: reading_def io io_event_same store_bytes_put)
  have "ev_ready (evs w (rd w c))" "rd w c \<noteq> NULL" "c \<noteq> NULL" "c_recv (conns w c) = POSIX_RECV" using r by (simp_all add: reading_def)
  then show ?thesis using n
    by (subst myread_loop.simps) (simp add: call_recv_def get_conn_def p get_event_def appended_def Let_def)
qed

lemma myread_done:
  assumes r: "reading w c" and x: "x = Sys_recv (fd_of w c) (b_last (mem w) b) (unat sz)" and n: "ans_ret (os (x # calls w)) < 0" "ans_errno (os (x # calls w)) = EAGAIN"
  shows "myread_loop os (rd w c) c b sz w
    = Some (w\<lparr>calls := x # calls w, evs := (evs w)(rd w c := (evs w (rd w c))\<lparr>ev_ready := False\<rparr>)\<rparr>, True)"
proof -
  have i: "interrupted os x (calls w) 0" using n by (simp add: interrupted_0)
  have io: "io_result (os (x # calls w)) = - 2" using n by (simp add: io_result_def)
  have e: "recv_event (- 2) e = e\<lparr>ev_ready := False\<rparr>" for e by (cases e) (simp add: recv_event_def)
  have p: "posix_recv os c (b_last (mem w) b) sz w = Some (w\<lparr>calls := x # calls w, evs := (evs w)(rd w c := (evs w (rd w c))\<lparr>ev_ready := False\<rparr>)\<rparr>, - 2)"
    using posix_recv_ok [OF x i refl] r by (simp add: reading_def io e)
  then show ?thesis using r by (subst myread_loop.simps) (simp add: reading_def call_recv_def get_conn_def p)
qed

lemma myread_loop_ok:
  "reading w c \<Longrightarrow> delivers os (fd_of w c) (unat sz) (b_last (mem w) b) (calls w) ns \<Longrightarrow>
    myread_loop os (rd w c) c b sz w = Some ((appended w b (stream os (fd_of w c) (unat sz) (b_last (mem w) b) (calls w) ns)
      (recv_calls (fd_of w c) (unat sz) (b_last (mem w) b) (calls w) ns))\<lparr>evs := (evs w)(rd w c := (evs w (rd w c))\<lparr>ev_ready := False\<rparr>)\<rparr>, True)"
proof (induction ns arbitrary: w)
  case Nil
  have "put_bytes m p [] = m" for m p by (auto simp: put_bytes_def fun_eq_iff)
  then show ?case using myread_done [OF Nil.prems(1) refl] Nil.prems(2) by (simp add: appended_def fun_upd_def)
next
  case (Cons n ns)
  define x where "x = Sys_recv (fd_of w c) (b_last (mem w) b) (unat sz)"
  define w1 where "w1 = appended w b (map (ans_bytes (os (x # calls w))) [0 ..< n]) (x # calls w)"
  have k: "reading w1 c" "fd_of w1 c = fd_of w c" "rd w1 c = rd w c" "calls w1 = x # calls w" "b_last (mem w1) b = b_last (mem w) b + n" "evs w1 = evs w"
    using Cons.prems by (simp_all add: w1_def)
  have "myread_loop os (rd w c) c b sz w = myread_loop os (rd w1 c) c b sz w1"
    using myread_chunk [OF Cons.prems(1) x_def, of os n] Cons.prems(2) by (simp add: x_def w1_def)
  also have "\<dots> = Some ((appended w1 b (stream os (fd_of w1 c) (unat sz) (b_last (mem w1) b) (calls w1) ns)
      (recv_calls (fd_of w1 c) (unat sz) (b_last (mem w1) b) (calls w1) ns))\<lparr>evs := (evs w1)(rd w1 c := (evs w1 (rd w1 c))\<lparr>ev_ready := False\<rparr>)\<rparr>, True)"
    by (rule Cons.IH [OF k(1)]) (use Cons.prems(2) k in \<open>simp add: x_def\<close>)
  finally show ?case unfolding k by (simp add: w1_def appended_twice x_def fun_upd_def)
qed

section \<open>Writing\<close>

text \<open>The event \<open>ev\<close> of the connection \<open>c\<close>, which writes from the buffer \<open>b\<close>; asking for events again is not needed.\<close>

definition writing :: "'a server_scheme \<Rightarrow> addr \<Rightarrow> addr \<Rightarrow> addr \<Rightarrow> bool" where
  "writing w ev c b \<longleftrightarrow> ev \<noteq> NULL \<and> c \<noteq> NULL \<and> b \<noteq> NULL \<and> wr w c \<noteq> NULL \<and> ev_data (evs w ev) = c \<and> \<not> ev_timedout (evs w ev)
     \<and> \<not> c_close (conns w c) \<and> c_buffer (conns w c) = b \<and> c_send (conns w c) = POSIX_SEND \<and> \<not> ev_timer_set (evs w ev)
     \<and> (ev_active (evs w ev) \<or> ev_ready (evs w ev)) \<and> b_pos (mem w) b < b_last (mem w) b \<and> b_last (mem w) b < 2 ^ 63"

definition sent_all :: "'a server_scheme \<Rightarrow> addr \<Rightarrow> addr \<Rightarrow> 'a server_scheme" where
  "sent_all w c b = w\<lparr>calls := Sys_send (fd_of w c) (b_pos (mem w) b) (b_last (mem w) b - b_pos (mem w) b) # calls w,
     conns := (conns w)(c := (conns w c)\<lparr>c_sent := c_sent (conns w c) + of_nat (b_last (mem w) b - b_pos (mem w) b)\<rparr>)\<rparr>"

lemma mywrite_all:
  assumes w: "writing w ev c b"
    and a: "ans_ret (os (Sys_send (fd_of w c) (b_pos (mem w) b) (b_last (mem w) b - b_pos (mem w) b) # calls w)) = int (b_last (mem w) b - b_pos (mem w) b)"
  shows "mywrite os w ev = Some (sent_all w c b)"
proof -
  define n where "n = b_last (mem w) b - b_pos (mem w) b"
  define sz where "sz = (of_nat (b_last (mem w) b) - of_nat (b_pos (mem w) b) :: u64)"
  have n: "n < 2 ^ 63" "0 < n" using w by (auto simp: writing_def n_def)
  have so: "sz = of_nat n" using w by (simp add: sz_def n_def writing_def of_nat_diff)
  have "signed_take_bit 63 (int n) = int n" using n by (intro signed_take_bit_int_eq_self) simp_all
  then have sint: "sint sz = int n" by (simp add: so signed_of_nat)
  have un: "unat sz = n" using n by (simp add: so unat_of_nat take_bit_nat_eq_self)
  then have nz: "sz \<noteq> 0" using n by (metis unat_0 less_irrefl)
  define x where "x = Sys_send (fd_of w c) (b_pos (mem w) b) n"
  have x: "x = Sys_send (fd_of w c) (b_pos (mem w) b) (unat sz)" by (simp add: x_def un)
  have r: "ans_ret (os (x # calls w)) = int n" using a by (simp add: x_def n_def)
  then have i: "interrupted os x (calls w) 0" and io: "io_result (os (x # calls w)) = int n" using n by (simp_all add: interrupted_0 io_result_def)
  have e: "send_event (int n) (int n) sz 0 e = e" for e using n by (cases e) (simp add: send_event_def sint)
  have w1: "sent_all w c b = w\<lparr>calls := x # calls w, conns := (conns w)(c := (conns w c)\<lparr>c_sent := c_sent (conns w c) + word_of_int (int n)\<rparr>)\<rparr>"
    by (simp add: sent_all_def x_def n_def)
  have p: "posix_send os c (b_pos (mem w) b) sz w = Some (sent_all w c b, int n)"
    using posix_send_ok [OF i x refl] w n by (simp add: writing_def r io e w1)
  have k: "evs (sent_all w c b) = evs w" by (simp add: sent_all_def)
  have q: "ev \<noteq> NULL" "c \<noteq> NULL" "c_send (conns w c) = POSIX_SEND" "\<not> ev_timer_set (evs w ev)" using w by (simp_all add: writing_def)
  have h: "handle_read_event os (sent_all w c b) ev = Some (sent_all w c b, 0)"
    using w by (auto simp: handle_read_event_def writing_def get_event_def k)
  have "mywrite_loop os ev c b sz w = Some (sent_all w c b)"
    using n q by (subst mywrite_loop.simps) (simp add: so [symmetric] call_send_def get_conn_def p get_event_def k h)
  then show ?thesis using w nz
    by (simp add: mywrite_def writing_def get_event_def get_conn_def Let_def sz_def)
qed

text \<open>Writing moves neither end of the buffer and leaves the connection ready to write again.\<close>

lemma sent_all_writing: "writing w ev c b \<Longrightarrow> writing (sent_all w c b) ev c b"
  by (simp add: writing_def sent_all_def)

section \<open>Properties\<close>

text \<open>C15: The loop of \<open>myread\<close> reads until the kernel has no more: the bytes delivered, in order, are appended at \<open>last\<close>, which moves by their number, and nothing else in
  memory changes. Every call asks for the same \<open>size\<close> and the end of the buffer is never consulted: a peer that sends more
  than fits writes beyond it.\<close>
theorem myread_appends:
  assumes "reading w c" and "delivers os (fd_of w c) (unat sz) (b_last (mem w) b) (calls w) ns"
  defines "p \<equiv> b_last (mem w) b" and "bs \<equiv> stream os (fd_of w c) (unat sz) (b_last (mem w) b) (calls w) ns"
  shows "\<exists>w'. myread_loop os (rd w c) c b sz w = Some (w', True) \<and> b_last (mem w') b = p + sum_list ns \<and> b_end (mem w') = b_end (mem w)
    \<and> (\<forall>i. bytes (mem w') i = (if p \<le> i \<and> i < p + sum_list ns then bs ! (i - p) else bytes (mem w) i))
    \<and> calls w' = recv_calls (fd_of w c) (unat sz) p (calls w) ns \<and> \<not> ev_ready (evs w' (rd w c))"
  unfolding myread_loop_ok [OF assms(1,2)] p_def bs_def by (intro exI conjI, rule refl) (simp_all add: appended_def put_bytes_def)

text \<open>
  The connection of \<open>server2\<close> with a buffer of 1024 bytes at \<open>0x5000\<close>: the kernel delivers two chunks of 1000 bytes, and the second ends 976
  bytes behind the buffer.
\<close>

definition server_echo :: server where
  "server_echo = server2\<lparr>
     evs := (evs server2)(2000 := (evs server2 2000)\<lparr>ev_available := True, ev_ready := True\<rparr>),
     conns := (conns server2)(1000 := (conns server2 1000)\<lparr>c_recv := POSIX_RECV, c_send := POSIX_SEND, c_buffer := 0x4000\<rparr>),
     mem := (mem server2)\<lparr>b_start := (\<lambda>_. 0x5000), b_pos := (\<lambda>_. 0x5000), b_last := (\<lambda>_. 0x5000), b_end := (\<lambda>_. 0x5400)\<rparr>, calls := []\<rparr>"

definition os_chunks :: os where
  "os_chunks cs = (os_yes cs)\<lparr>ans_ret := if length cs \<le> 2 then 1000 else - 1, ans_errno := EAGAIN, ans_bytes := \<lambda>_. 65\<rparr>"

lemma server_echo_reading: "reading server_echo 1000"
  by (simp add: reading_def server_echo_def server2_def connection_zero_def)

lemma server_echo_fields: "calls server_echo = []" "b_last (mem server_echo) b = 0x5000" "b_end (mem server_echo) b = 0x5400"
  "rd server_echo 1000 = 2000" "fd_of server_echo 1000 = 7"
  by (simp_all add: server_echo_def server2_def connection_zero_def)

theorem myread_appends_witness:
  "\<exists>w'. myread_loop os_chunks 2000 1000 0x4000 1024 server_echo = Some (w', True) \<and> b_last (mem w') 0x4000 > b_end (mem w') 0x4000
    \<and> bytes (mem w') 0x5400 = 65 \<and> calls w' = [Sys_recv 7 0x57D0 1024, Sys_recv 7 0x53E8 1024, Sys_recv 7 0x5000 1024]"
proof -
  have "delivers os_chunks (fd_of server_echo 1000) (unat (1024 :: u64)) (b_last (mem server_echo) 0x4000) (calls server_echo) [1000, 1000]"
    by (simp add: server_echo_fields os_chunks_def)
  from myread_appends [OF server_echo_reading this] obtain w' where w': "myread_loop os_chunks 2000 1000 0x4000 1024 server_echo = Some (w', True)"
    "b_last (mem w') 0x4000 = 0x57D0" "b_end (mem w') 0x4000 = 0x5400" "bytes (mem w') 0x5400 = stream os_chunks 7 1024 0x5000 [] [1000, 1000] ! 1024"
    "calls w' = recv_calls 7 1024 0x5000 [] [1000, 1000]"
    by (auto simp: server_echo_fields)
  have "stream os_chunks 7 1024 0x5000 [] [1000, 1000] ! 1024 = 65" by (simp add: nth_append os_chunks_def)
  with w' show ?thesis by simp
qed

text \<open>C34: The echo repeats itself. When the kernel takes everything, \<open>mywrite\<close> sends the bytes between \<open>pos\<close> and \<open>last\<close> and returns before it moves
  \<open>pos\<close>: the next run sends the same bytes again, although nothing was read in between.\<close>
theorem mywrite_repeats:
  assumes "writing w ev c b"
  defines "n \<equiv> b_last (mem w) b - b_pos (mem w) b" and "x \<equiv> Sys_send (fd_of w c) (b_pos (mem w) b) (b_last (mem w) b - b_pos (mem w) b)"
  assumes "ans_ret (os (x # calls w)) = int n" and "ans_ret (os (x # x # calls w)) = int n"
  shows "\<exists>w1 w2. mywrite os w ev = Some w1 \<and> mywrite os w1 ev = Some w2 \<and> mem w1 = mem w \<and> calls w1 = x # calls w \<and> calls w2 = x # x # calls w"
proof (intro exI conjI)
  show "mywrite os w ev = Some (sent_all w c b)" using assms(1,4) unfolding x_def n_def by (rule mywrite_all)
  show "mywrite os (sent_all w c b) ev = Some (sent_all (sent_all w c b) c b)"
    using sent_all_writing [OF assms(1)] by (rule mywrite_all) (use assms(5) in \<open>simp add: x_def n_def sent_all_def\<close>)
qed (simp_all add: sent_all_def x_def)

definition os_takes :: os where
  "os_takes cs = (os_yes cs)\<lparr>ans_ret := case cs of Sys_send _ _ n # _ \<Rightarrow> int n | _ \<Rightarrow> 0\<rparr>"

definition server_out :: server where
  "server_out = server_echo\<lparr>mem := (mem server_echo)\<lparr>b_last := \<lambda>_. 0x5005\<rparr>\<rparr>"

lemma server_out_fields: "calls server_out = []" "b_pos (mem server_out) b = 0x5000" "b_last (mem server_out) b = 0x5005" "fd_of server_out 1000 = 7"
  by (simp_all add: server_out_def server_echo_def server2_def connection_zero_def)

theorem mywrite_repeats_witness:
  "\<exists>w1 w2. mywrite os_takes server_out 2000 = Some w1 \<and> mywrite os_takes w1 2000 = Some w2 \<and> calls w2 = [Sys_send 7 0x5000 5, Sys_send 7 0x5000 5]"
proof -
  have "writing server_out 2000 1000 0x4000"
    by (simp add: writing_def server_out_def server_echo_def server2_def connection_zero_def event_zero_def)
  from mywrite_repeats [OF this, of os_takes] show ?thesis by (auto simp: os_takes_def server_out_fields)
qed

end
