(* ===== verification/Drain.thy ===== *)
theory Drain
  imports Handlers Accept_Props
begin

text \<open>
  Draining: when no connection is free, \<open>get_connection\<close> marks the least recently used reusable connections with
  \<open>close\<close> and runs their read handlers, which must close them. The contract between \<open>drain_connections\<close> (connection.c) and the
  handlers is a locale; the handlers of main.c provide it, for connections that have not timed out.
\<close>

section \<open>Fields of a connection that the invariant does not read\<close>

definition core_of :: "connection \<Rightarrow> addr \<times> addr \<times> addr \<times> u32 \<times> bool" where
  "core_of k = (c_data k, c_read k, c_write k, c_fd k, c_reusable k)"

definition same_core :: "'a server_scheme \<Rightarrow> (addr \<Rightarrow> connection) \<Rightarrow> bool" where
  "same_core w cn \<longleftrightarrow> (\<forall>c. core_of (cn c) = core_of (conns w c))"

lemma same_coreD:
  assumes "same_core w cn"
  shows "c_data (cn c) = c_data (conns w c)" "c_read (cn c) = rd w c" "c_write (cn c) = wr w c" "c_fd (cn c) = fd_of w c"
    "c_reusable (cn c) = c_reusable (conns w c)"
  using assms by (simp_all add: same_core_def core_of_def)

lemma server_ok_core:
  assumes "same_core w cn"
  shows "server_ok base (w\<lparr>conns := cn\<rparr>) cs fl rs evl xs ys = server_ok base w cs fl rs evl xs ys"
    "registered os (w\<lparr>conns := cn\<rparr>) cs fl = registered os w cs fl"
proof -
  note d = same_coreD [OF assms]
  have "timers base (w\<lparr>conns := cn\<rparr>) evl = timers base w evl" by (rule timers_cong) simp_all
  moreover have "posted (w\<lparr>conns := cn\<rparr>) q xs q' ys = posted w q xs q' ys" for q q' by (rule posted_cong) simp_all
  moreover have "events_of (w\<lparr>conns := cn\<rparr>) A = events_of w A" for A by (simp add: events_of_def d)
  ultimately show "server_ok base (w\<lparr>conns := cn\<rparr>) cs fl rs evl xs ys = server_ok base w cs fl rs evl xs ys"
    by (simp add: server_ok_def conn_store_def nodes_ok_def free_ok_def fds_ok_def reuse_ok_def events_ok_def heads_ok_def d inj_on_def)
  show "registered os (w\<lparr>conns := cn\<rparr>) cs fl = registered os w cs fl" by (simp add: registered_def watched_def d image_def)
qed

text \<open>\<open>c->close = 1\<close>.\<close>

definition marked :: "'a server_scheme \<Rightarrow> addr \<Rightarrow> 'a server_scheme" where
  "marked w c = w\<lparr>conns := (conns w)(c := (conns w c)\<lparr>c_close := True\<rparr>)\<rparr>"

lemma marked_core: "same_core w ((conns w)(c := (conns w c)\<lparr>c_close := True\<rparr>))"
  by (simp add: same_core_def core_of_def)

lemma marked_ok [simp]: "server_ok base (marked w c) cs fl rs evl xs ys = server_ok base w cs fl rs evl xs ys"
  "registered os (marked w c) cs fl = registered os w cs fl"
  unfolding marked_def by (rule server_ok_core [OF marked_core])+

lemma marked_fields [simp]: "rd (marked w c) a = rd w a" "wr (marked w c) a = wr w a" "fd_of (marked w c) a = fd_of w a"
  "evs (marked w c) = evs w" "calls (marked w c) = calls w" "c_close (conns (marked w c) c)"
  by (simp_all add: marked_def)

section \<open>The contract\<close>

text \<open>A connection that its read handler closes when told to.\<close>

definition closable :: "'a server_scheme \<Rightarrow> addr \<Rightarrow> bool" where
  "closable w c \<longleftrightarrow> ev_handler (evs w (rd w c)) = MYREAD \<and> \<not> ev_timedout (evs w (rd w c))"

text \<open>How many connections \<open>drain_connections\<close> takes.\<close>

lemma drain_connections_eq:
  assumes "reusable_connections_n w = of_nat n" and "n < 2 ^ 32"
  shows "drain_connections call w = drain_loop call (max 1 (min 32 (n div 8))) w"
proof -
  have "unat (reusable_connections_n w div 8) = n div 8" using assms by (simp add: unat_div unat_of_nat take_bit_nat_eq_self)
  then have "unat (c_max (c_min 32 (reusable_connections_n w div 8)) 1) = max 1 (min 32 (n div 8))"
    by (simp add: c_max_def c_min_def word_less_nat_alt)
  then show ?thesis by (simp add: drain_connections_def)
qed

lemma get_connection_drains:
  assumes "free_connections w = NULL" and "drain_connections call w = Some w1" and "free_connections w1 \<noteq> NULL"
    and "files_n w1 = files_n w" "files w1 = None \<longleftrightarrow> files w = None" and "files w \<noteq> None \<longrightarrow> s < files_n w"
  shows "get_connection call w s = get_connection call w1 s"
proof -
  have a: "\<not> (files w \<noteq> None \<and> s \<ge> files_n w)" "\<not> (files w1 \<noteq> None \<and> s \<ge> files_n w1)"
    using assms(4-6) by (auto simp: linorder_not_le)
  show ?thesis using assms(1-3) unfolding get_connection_def if_not_P [OF a(1)] if_not_P [OF a(2)]
    by (simp only: Let_def bind.simps if_True if_False refl not_True_eq_False)
qed

text \<open>
  The events that do not belong to the connections \<open>vs\<close>, and what closing these changes: their descriptors are closed, the
  last of \<open>vs\<close> first.
\<close>

definition kept :: "'a server_scheme \<Rightarrow> addr list \<Rightarrow> addr list \<Rightarrow> addr list" where
  "kept w vs es = filter (\<lambda>e. e \<notin> events_of w (set vs)) es"

lemma kept_one: "without (rd w c) (wr w c) es = kept w [c] es"
  by (induction es) (auto simp: without_def kept_def events_of_def)

definition drained :: "'a server_scheme \<Rightarrow> 'a server_scheme \<Rightarrow> addr list \<Rightarrow> bool" where
  "drained w w' vs \<longleftrightarrow> calls w' = map (\<lambda>c. Sys_close (fd_of w c)) vs @ calls w
     \<and> (\<forall>c. rd w' c = rd w c \<and> wr w' c = wr w c \<and> (c \<notin> set vs \<longrightarrow> fd_of w' c = fd_of w c))
     \<and> (\<forall>e. e \<notin> events_of w (set vs) \<longrightarrow> evs w' e = evs w e) \<and> ep w' = ep w \<and> files_n w' = files_n w \<and> (files w' = None \<longleftrightarrow> files w = None)"

lemma drain_unfold:
  assumes s: "server_ok base w cs fl (rs @ [c]) evl xs ys" and k: "ev_handler (evs w (rd w c)) = MYREAD"
  shows "drain_loop call (Suc n) w = do { w \<leftarrow> call MYREAD (rd w c) (marked w c); drain_loop call n w }"
proof -
  have st: "conn_store w cs fl (rs @ [c])" using s by (simp add: server_ok_def)
  then have c: "c \<in> busy cs fl" by (auto simp: conn_store_def)
  have ring: "queue_list (cqueues w) (reusable_queue w) (map conn_queue rs @ [conn_queue c])"
    using st by (simp add: conn_store_def reuse_ok_def)
  then have hd: "reusable_queue w \<noteq> conn_queue c" by (auto simp: queue_list_def)
  have "queue_empty (cqueues w) (reusable_queue w) = Some False" "queue_last (cqueues w) (reusable_queue w) = Some (conn_queue c)"
    using queue_list_ends [OF ring] hd by (auto simp: queue_empty_def queue_last_def get_prev_def get_next_def)
  then show ?thesis using server_facts [OF s c] k by (simp add: upd_conn_def get_conn_def get_event_def marked_def Let_def)
qed

locale closing_reads =
  fixes os :: os and call :: "'a server_ext caller"
  assumes closes: "server_ok base w cs fl rs evl xs ys \<Longrightarrow> c \<in> busy cs fl \<Longrightarrow> c_close (conns w c) \<Longrightarrow> closable w c
    \<Longrightarrow> call MYREAD (rd w c) w = close_connection os w c"
begin

lemma drain_step:
  assumes s: "server_ok base w cs fl (rs @ [c]) evl xs ys" and reg: "registered os w cs fl" and k: "closable w c"
  shows "\<exists>t qs cq. drain_loop call (Suc n) w = drain_loop call n (closed_state (marked w c) c fl (rs @ [c]) t qs cq)
    \<and> server_ok base (closed_state (marked w c) c fl (rs @ [c]) t qs cq) cs (c # fl) rs (without (rd w c) (wr w c) evl)
        (without (rd w c) (wr w c) xs) (without (rd w c) (wr w c) ys)
    \<and> registered os (closed_state (marked w c) c fl (rs @ [c]) t qs cq) cs (c # fl)"
proof -
  have st: "conn_store w cs fl (rs @ [c])" using s by (simp add: server_ok_def)
  then have c: "c \<in> busy cs fl" "distinct (rs @ [c])" using reuse_distinct [OF st] by (auto simp: conn_store_def)
  have s1: "server_ok base (marked w c) cs fl (rs @ [c]) evl xs ys" using s by simp
  have k1: "closable (marked w c) c" using k by (simp add: closable_def)
  have "drain_loop call (Suc n) w = do { w \<leftarrow> call MYREAD (rd w c) (marked w c); drain_loop call n w }"
    using drain_unfold [OF s] k by (simp add: closable_def)
  moreover have "call MYREAD (rd w c) (marked w c) = close_connection os (marked w c) c"
    using closes [OF s1 c(1) _ k1] by simp
  moreover have "remove1 c (rs @ [c]) = rs" using c(2) by (simp add: remove1_append)
  ultimately show ?thesis
    using close_connection_ok [OF s1 c(1), of os] closed_registered [OF s1 _ c(1), of os] reg
    by (elim exE conjE, intro exI conjI) (simp_all del: drain_loop.simps)
qed

text \<open>Draining the victims \<open>vs\<close>, the end of the queue: they become the front of the free list, and nothing happens to the others.\<close>

lemma drain_victims:
  "server_ok base w cs fl (rs @ vs) evl xs ys \<Longrightarrow> registered os w cs fl \<Longrightarrow> \<forall>c \<in> set vs. closable w c \<Longrightarrow>
    \<exists>w'. drain_loop call (length vs) w = Some w' \<and> server_ok base w' cs (vs @ fl) rs (kept w vs evl) (kept w vs xs) (kept w vs ys)
      \<and> registered os w' cs (vs @ fl) \<and> drained w w' vs"
proof (induction vs arbitrary: w fl evl xs ys rule: rev_induct)
  case Nil
  then show ?case by (simp add: kept_def drained_def events_of_def)
next
  case (snoc c vs)
  from drain_step [of base w cs fl "rs @ vs" c evl xs ys "length vs"] snoc.prems obtain t qs cq where
    d: "drain_loop call (Suc (length vs)) w = drain_loop call (length vs) (closed_state (marked w c) c fl (rs @ vs @ [c]) t qs cq)"
    and s: "server_ok base (closed_state (marked w c) c fl (rs @ vs @ [c]) t qs cq) cs (c # fl) (rs @ vs) (kept w [c] evl) (kept w [c] xs) (kept w [c] ys)"
    and r: "registered os (closed_state (marked w c) c fl (rs @ vs @ [c]) t qs cq) cs (c # fl)" by (auto simp: kept_one)
  define w1 where "w1 = closed_state (marked w c) c fl (rs @ vs @ [c]) t qs cq"
  have st: "conn_store w cs fl (rs @ vs @ [c])" using snoc.prems(1) by (simp add: server_ok_def)
  then have dist: "distinct (rs @ vs @ [c])" "set vs \<subseteq> set cs" "c \<in> set cs" "nodes_ok w cs" using reuse_distinct [OF st] by (auto simp: conn_store_def)
  have k: "rd w1 a = rd w a" "wr w1 a = wr w a" "a \<noteq> c \<Longrightarrow> fd_of w1 a = fd_of w a" "calls w1 = Sys_close (fd_of w c) # calls w"
    "e \<noteq> rd w c \<Longrightarrow> e \<noteq> wr w c \<Longrightarrow> evs w1 e = evs w e" "ep w1 = ep w" "files_n w1 = files_n w" "files w1 = None \<longleftrightarrow> files w = None" for a e
    by (simp_all add: w1_def closed_state_def marked_def)
  have "closable w1 a" if "a \<in> set vs" for a
  proof -
    have "a \<noteq> c" "a \<in> set cs" using that dist by auto
    then have "rd w a \<noteq> rd w c" "rd w a \<noteq> wr w c" using dist(3,4) unfolding nodes_ok_def by metis+
    then show ?thesis using snoc.prems(3) that by (simp add: closable_def k)
  qed
  with snoc.IH [OF s [folded w1_def] r [folded w1_def]] obtain w' where w': "drain_loop call (length vs) w1 = Some w'"
    "server_ok base w' cs (vs @ c # fl) rs (kept w1 vs (kept w [c] evl)) (kept w1 vs (kept w [c] xs)) (kept w1 vs (kept w [c] ys))"
    "registered os w' cs (vs @ c # fl)" "drained w1 w' vs" by blast
  have kk: "kept w1 vs (kept w [c] zs) = kept w (vs @ [c]) zs" for zs
    by (simp add: kept_def events_of_def k Un_commute conj_commute) (rule filter_cong, auto)
  have "map (\<lambda>a. Sys_close (fd_of w1 a)) vs = map (\<lambda>a. Sys_close (fd_of w a)) vs" 

  proof (rule map_cong [OF refl])
    fix a assume "a \<in> set vs"
    then have "a \<noteq> c" using dist(1) by auto
    then show "Sys_close (fd_of w1 a) = Sys_close (fd_of w a)" by (simp add: k(3))
  qed
  then have "drained w w' (vs @ [c])" using w'(4) dist(1) by (auto simp: drained_def k events_of_def)
  then show ?case using d w' by (simp add: w1_def [symmetric] kk)
qed

lemma drain_and_get:
  assumes s: "server_ok base w cs [] (rs @ vs) evl xs ys" and reg: "registered os w cs []" and n: "length (rs @ vs) < 2 ^ 32"
    and vs: "length vs = max 1 (min 32 (length (rs @ vs) div 8))" and k: "\<forall>c \<in> set vs. closable w c"
    and fd: "new_fd w cs [] t" "t \<noteq> ep w"
  shows "\<exists>w'. get_connection call w t = Some (w', hd vs) \<and> server_ok base w' cs (tl vs) rs (kept w vs evl) (kept w vs xs) (kept w vs ys)
    \<and> registered os w' cs (tl vs) \<and> calls w' = map (\<lambda>c. Sys_close (fd_of w c)) vs @ calls w \<and> fd_of w' (hd vs) = t"
proof -
  from drain_victims [where fl = "[]", simplified, OF s reg k] obtain w1 where w1: "drain_loop call (length vs) w = Some w1"
    "server_ok base w1 cs vs rs (kept w vs evl) (kept w vs xs) (kept w vs ys)" "registered os w1 cs vs" "drained w w1 vs" by blast
  obtain v vs' where v: "vs = v # vs'" using vs by (cases vs) auto
  have st: "conn_store w cs [] (rs @ vs)" "conn_store w1 cs vs rs" using s w1(2) by (simp_all add: server_ok_def)
  from st(1) have f: "free_connections w = NULL" "reusable_connections_n w = of_nat (length (rs @ vs))"
    by (simp_all add: conn_store_def free_ok_def reuse_ok_def)
  from st(2) have h: "free_connections w1 = v" "v \<noteq> NULL" unfolding v by (simp_all add: conn_store_def free_ok_def)
  have "drain_connections call w = Some w1" using drain_connections_eq [OF f(2) n] w1(1) unfolding vs [symmetric] by simp
  then have g: "get_connection call w t = get_connection call w1 t"
    using f(1) h fd w1(4) by (intro get_connection_drains) (auto simp: drained_def new_fd_def)
  have "fd_of w1 ` busy cs vs \<subseteq> fd_of w ` busy cs []" using w1(4) by (auto simp: drained_def)
  then have fd1: "new_fd w1 cs (v # vs') t" "t \<noteq> ep w1" using fd w1(4) by (auto simp: new_fd_def drained_def v)
  have st2: "conn_store w1 cs (v # vs') rs" "server_ok base w1 cs (v # vs') rs (kept w vs evl) (kept w vs xs) (kept w vs ys)"
    using st(2) w1(2) by (simp_all add: v)
  let ?w = "taken w1 v vs' t"
  have "get_connection call w t = Some (?w, v)" using g get_connection_free(1) [OF st2(1) fd1(1), of call] by (rule trans)
  moreover have "server_ok base ?w cs vs' rs (kept w vs evl) (kept w vs xs) (kept w vs ys)" by (rule taken_server_ok [OF st2(2) fd1(1)])
  moreover have "registered os ?w cs vs'" by (rule taken_registered [OF st2(2) _ fd1]) (use w1(3) v in simp)
  moreover have "calls ?w = map (\<lambda>c. Sys_close (fd_of w c)) vs @ calls w" using w1(4) by (simp add: drained_def)
  moreover have "fd_of ?w v = t" by simp
  ultimately show ?thesis unfolding v list.sel by blast
qed

end

section \<open>The handlers of main.c\<close>

text \<open>\<open>myread\<close> closes a connection that is marked, unless it timed out: then it returns at once.\<close>

lemma myread_closes:
  assumes s: "server_ok base w cs fl rs evl xs ys" and c: "c \<in> busy cs fl" and "c_close (conns w c)" and "\<not> ev_timedout (evs w (rd w c))"
  shows "myread os libc w (rd w c) = close_connection os w c"
  using server_facts [OF s c] assms(3,4) by (simp add: myread_def get_event_def get_conn_def Let_def)

lemma myread_timed_out: "ev_timedout (evs w rv) \<Longrightarrow> rv \<noteq> NULL \<Longrightarrow> myread os libc w rv = Some w"
  by (simp add: myread_def get_event_def Let_def)

interpretation io: closing_reads os "run_io os libc" for os libc
  by unfold_locales (simp add: run_io_def closable_def myread_closes)

interpretation all: closing_reads os "run_handler os libc" for os libc
  by unfold_locales (simp add: run_handler_def EVENT_ACCEPT_def MYREAD_def [symmetric] io.closes, simp add: MYREAD_def)

text \<open>A connection that timed out at the end of the queue stops the draining: the handler is run on it again and again.\<close>

lemma marked_twice: "marked (marked w c) c = marked w c"
  by (simp add: marked_def)

lemma drain_loop_stuck:
  "server_ok base w cs fl (rs @ [c]) evl xs ys \<Longrightarrow> ev_handler (evs w (rd w c)) = MYREAD \<Longrightarrow> ev_timedout (evs w (rd w c)) \<Longrightarrow>
    drain_loop (run_io os libc) (Suc n) w = Some (marked w c)"
proof (induction n arbitrary: w)
  case 0
  have "c \<in> busy cs fl" using 0(1) by (auto simp: server_ok_def conn_store_def)
  then have "run_io os libc MYREAD (rd w c) (marked w c) = Some (marked w c)"
    using server_facts [OF 0(1)] 0(3) by (simp add: run_io_def myread_timed_out)
  then show ?case using drain_unfold [OF 0(1,2), of "run_io os libc" 0] by simp
next
  case (Suc n)
  have "c \<in> busy cs fl" using Suc.prems(1) by (auto simp: server_ok_def conn_store_def)
  then have "run_io os libc MYREAD (rd w c) (marked w c) = Some (marked w c)"
    using server_facts [OF Suc.prems(1)] Suc.prems(3) by (simp add: run_io_def myread_timed_out)
  then have "drain_loop (run_io os libc) (Suc (Suc n)) w = drain_loop (run_io os libc) (Suc n) (marked w c)"
    using drain_unfold [OF Suc.prems(1,2), of "run_io os libc" "Suc n"] by (simp del: drain_loop.simps)
  also have "\<dots> = Some (marked (marked w c) c)" using Suc.prems by (intro Suc.IH) simp_all
  finally show ?case by (simp only: marked_twice)
qed

section \<open>Properties\<close>

text \<open>C5: When no connection is free, \<open>get_connection\<close> makes one: it closes the \<open>d\<close> least recently used reusable connections, an eighth of them but
  at least one and at most 32, oldest first, whatever the kernel answers, provided these have not timed out; it returns one of
  them for the new descriptor, leaves the others free, and keeps all other connections, timers and posted events and the server invariant.\<close>
theorem drain_frees_connection:
  assumes "server_ok base w cs [] (rs @ vs) evl xs ys" and "registered os w cs []" and "length (rs @ vs) < 2 ^ 32"
    and "length vs = max 1 (min 32 (length (rs @ vs) div 8))" and "\<forall>c \<in> set vs. closable w c"
    and "new_fd w cs [] t" and "t \<noteq> ep w"
  shows "\<exists>w'. get_connection (run_io os libc) w t = Some (w', hd vs)
    \<and> server_ok base w' cs (tl vs) rs (kept w vs evl) (kept w vs xs) (kept w vs ys)
    \<and> registered os w' cs (tl vs) \<and> calls w' = map (\<lambda>c. Sys_close (fd_of w c)) vs @ calls w \<and> fd_of w' (hd vs) = t"
  using assms by (rule io.drain_and_get)

text \<open>A table of one connection, in use and reusable; \<open>b\<close> says whether it timed out.\<close>

definition server_full :: "bool \<Rightarrow> server" where
  "server_full b = server2\<lparr>evs := (evs server2)(2000 := (evs server2 2000)\<lparr>ev_handler := MYREAD, ev_timedout := b\<rparr>),
     free_connections := 0, free_connection_n := 0\<rparr>"

lemma server_full_ok: "server_ok 0 (server_full b) [1000] [] [1000] [] [] []"
proof -
  have "timers 0 (server_full b) [] = timers 0 server2 []" by (rule timers_cong) (simp_all add: server_full_def)
  moreover have "posted (server_full b) 11 [] 12 [] = posted server2 11 [] 12 []" by (rule posted_cong) (simp_all add: server_full_def)
  moreover have "timers 0 server2 []" "posted server2 11 [] 12 []" using server2_ok by (simp_all add: server_ok_def server2_def)
  moreover have "conn_store (server_full b) [1000] [] [1000]"
    by (auto simp: conn_store_def nodes_ok_def free_ok_def fds_ok_def reuse_ok_def events_of_def server_full_def server2_def connection_zero_def
      conn_queue_def conn_queue_offset_def queue_list_def NOFD_def)
  ultimately show ?thesis
    by (simp add: server_ok_def events_ok_def heads_ok_def events_of_def)
      (auto simp: server_full_def server2_def connection_zero_def event_zero_def ev_timer_def ev_queue_def timer_offset_def queue_offset_def)
qed

lemma server_full_registered: "registered os_yes (server_full b) [1000] []"
  by (auto simp: registered_def watched_def server_full_def server2_def os_yes_def watch_ok_def wanted_bits io_bits connection_zero_def event_zero_def)

lemma server_full_conn: "rd (server_full b) 1000 = 2000" "fd_of (server_full b) 1000 = 7" "files (server_full b) = None" "ep (server_full b) = 5"
  "ev_handler (evs (server_full b) 2000) = MYREAD" "ev_timedout (evs (server_full b) 2000) = b"
  by (simp_all add: server_full_def server2_def connection_zero_def)

theorem drain_frees_connection_witness:
  "\<exists>w'. get_connection (run_io os_yes slot_libc) (server_full False) 9 = Some (w', 1000) \<and> fd_of w' 1000 = 9
    \<and> calls w' = Sys_close 7 # calls (server_full False)"
proof -
  have k: "\<forall>c \<in> set [1000]. closable (server_full False) c" by (simp add: closable_def server_full_conn)
  have "new_fd (server_full False) [1000] [] 9" "9 \<noteq> ep (server_full False)" by (simp_all add: new_fd_def server_full_conn NOFD_def)
  from drain_frees_connection [where rs = "[]" and vs = "[1000]", simplified, OF server_full_ok server_full_registered k this]
  show ?thesis by (auto simp: server_full_conn)
qed

text \<open>C33: A connection that timed out is never reused. When the least recently used reusable connection has timed out and none is free, \<open>get_connection\<close> closes nothing and
  returns \<open>NULL\<close>, however many reusable connections there are: the read handler returns before it looks at \<open>close\<close>.\<close>
theorem drain_stuck_on_timeout:
  assumes "server_ok base w cs [] (rs @ [c]) evl xs ys" and "length (rs @ [c]) < 2 ^ 32"
    and "ev_handler (evs w (rd w c)) = MYREAD" and "ev_timedout (evs w (rd w c))" and "files w \<noteq> None \<longrightarrow> t < files_n w"
  shows "get_connection (run_io os libc) w t = Some (marked w c, NULL)"
proof -
  have f: "free_connections w = NULL" "reusable_connections_n w = of_nat (length (rs @ [c]))"
    using assms(1) by (simp_all add: server_ok_def conn_store_def free_ok_def reuse_ok_def)
  obtain n where n: "max 1 (min 32 (length (rs @ [c]) div 8)) = Suc n" by (metis gr0_implies_Suc max.strict_coboundedI1 zero_less_one)
  have d: "drain_connections (run_io os libc) w = Some (marked w c)"
    using drain_connections_eq [OF f(2) assms(2)] drain_loop_stuck [OF assms(1,3,4)] unfolding n by simp
  have o: "\<not> (files w \<noteq> None \<and> t \<ge> files_n w)" using assms(5) by (auto simp: linorder_not_le)
  show ?thesis using f(1) d unfolding get_connection_def if_not_P [OF o] by (simp add: Let_def marked_def)
qed

theorem drain_stuck_on_timeout_witness:
  "get_connection (run_io os_yes slot_libc) (server_full True) 9 = Some (marked (server_full True) 1000, NULL)"
  by (rule drain_stuck_on_timeout [where rs = "[]", simplified, OF server_full_ok]) (simp_all add: server_full_conn)

end
