(* ===== verification/Init.thy ===== *)
theory Init
  imports Drain
begin

text \<open>
  \<open>event_process_init\<close> (event.c) builds the state that the server invariant describes, from the state the master left and whatever the
  kernel and the C library answer.
\<close>

section \<open>The arrays\<close>

text \<open>The elements of the three arrays.\<close>

abbreviation conn_at :: "addr \<Rightarrow> nat \<Rightarrow> addr" where "conn_at p j \<equiv> p + j * sizeof_connection"
abbreviation event_at :: "addr \<Rightarrow> nat \<Rightarrow> addr" where "event_at p j \<equiv> p + j * sizeof_event"

lemma set_events_keep:
  assumes "\<And>e. P e \<Longrightarrow> P (f e)" and "\<forall>a. P (evs w a)"
  shows "\<exists>es. set_events p f n w = w\<lparr>evs := es\<rparr> \<and> (\<forall>a. P (es a))"
proof (induction n)
  case 0
  show ?case using assms(2) by (intro exI [of _ "evs w"]) (simp add: set_events_def)
next
  case (Suc n)
  then obtain es where es: "set_events p f n w = w\<lparr>evs := es\<rparr>" "\<forall>a. P (es a)" by blast
  have "set_events p f (Suc n) w = w\<lparr>evs := es(event_at p n := f (es (event_at p n)))\<rparr>"
    using es(1) by (simp add: set_events_def)
  then show ?case using es(2) assms(1) by (intro exI [of _ "es(event_at p n := f (es (event_at p n)))"]) (simp add: fun_upd_def)
qed

lemma sizeof_pos [simp]: "0 < sizeof_connection" "0 < sizeof_event" "(sizeof_connection = 0) = False" "(sizeof_event = 0) = False"
  by (simp_all add: sizeof_connection_def sizeof_event_def)

lemma conn_at_inj [simp]: "conn_at p i = conn_at p j \<longleftrightarrow> i = j"
  by (simp add: sizeof_connection_def)

lemma event_at_inj [simp]: "event_at p i = event_at p j \<longleftrightarrow> i = j"
  by (simp add: sizeof_event_def)

lemma link_loop_ok:
  "0 < k \<Longrightarrow> k \<le> unat (connection_n w) \<Longrightarrow> connections w \<noteq> NULL \<Longrightarrow>
    \<exists>cn. link_loop (of_nat k) nxt w = Some (w\<lparr>conns := cn\<rparr>, connections w)
      \<and> (\<forall>j < k. cn (conn_at (connections w) j) = (conns w (conn_at (connections w) j))\<lparr>
          c_data := (if Suc j = k then nxt else conn_at (connections w) (Suc j)),
          c_read := event_at (read_events w) j, c_write := event_at (write_events w) j, c_fd := NOFD\<rparr>)
      \<and> (\<forall>a. a \<notin> conn_at (connections w) ` {..<k} \<longrightarrow> cn a = conns w a)"
proof (induction k arbitrary: nxt w)
  case (Suc k)
  let ?c = "conn_at (connections w) k"
  let ?f = "\<lambda>q. q\<lparr>c_data := nxt, c_read := event_at (read_events w) k, c_write := event_at (write_events w) k, c_fd := NOFD\<rparr>"
  define w1 where "w1 = w\<lparr>conns := (conns w)(?c := ?f (conns w ?c))\<rparr>"
  have i: "of_nat (Suc k) - 1 = (of_nat k :: u32)" by simp
  have lt: "k < 2 ^ 32" using Suc.prems(2) unsigned_less [of "connection_n w", where ?'a = nat] by simp
  then have u: "unat (of_nat k :: u32) = k" by (simp add: unat_of_nat take_bit_nat_eq_self)
  then have out: "\<not> connection_n w \<le> of_nat k" using Suc.prems(2) by (simp add: word_le_nat_alt)
  have z: "(of_nat k :: u32) = 0 \<longleftrightarrow> k = 0" using u by (metis unat_0 unat_eq_0)
  have st: "link_loop (of_nat (Suc k)) nxt w = (if k \<noteq> 0 then link_loop (of_nat k) ?c w1 else Some (w1, ?c))"
    using Suc.prems(3) out by (subst link_loop.simps) (simp add: i u z upd_conn_def Let_def w1_def)
  show ?case
  proof (cases "k = 0")
    case True
    then show ?thesis unfolding st by (intro exI [of _ "conns w1"]) (auto simp: w1_def fun_upd_def)
  next
    case False
    have f: "connections w1 = connections w" "connection_n w1 = connection_n w" "read_events w1 = read_events w" "write_events w1 = write_events w"
      by (simp_all add: w1_def)
    from Suc.IH [of w1 ?c] False Suc.prems(2,3) obtain cn where cn: "link_loop (of_nat k) ?c w1 = Some (w1\<lparr>conns := cn\<rparr>, connections w)"
      "\<forall>j < k. cn (conn_at (connections w) j) = (conns w1 (conn_at (connections w) j))\<lparr>
          c_data := (if Suc j = k then ?c else conn_at (connections w) (Suc j)),
          c_read := event_at (read_events w) j, c_write := event_at (write_events w) j, c_fd := NOFD\<rparr>"
      "\<forall>a. a \<notin> conn_at (connections w) ` {..<k} \<longrightarrow> cn a = conns w1 a" unfolding f by auto
    have "w1\<lparr>conns := cn\<rparr> = w\<lparr>conns := cn\<rparr>" by (simp add: w1_def)
    moreover have "?c \<notin> conn_at (connections w) ` {..<k}" using conn_at_inj [of "connections w" k] by fastforce
    with cn(3) have "cn ?c = ?f (conns w ?c)" by (simp add: w1_def)
    moreover have "conns w1 (conn_at (connections w) j) = conns w (conn_at (connections w) j)" if "j < k" for j
      using that by (simp add: w1_def)
    moreover have "cn a = conns w a" if "a \<notin> conn_at (connections w) ` {..<Suc k}" for a
      using that cn(3) by (auto simp: w1_def lessThan_Suc)
    ultimately show ?thesis unfolding st using False cn(1,2)
      by (intro exI [of _ cn]) (auto simp: less_Suc_eq)
  qed
qed simp

text \<open>The free list that the loop builds, and the table: every connection is free.\<close>

lemma chain_array:
  assumes "\<And>j. j < n \<Longrightarrow> nx (conn_at p j) = (if Suc j = n then NULL else conn_at p (Suc j))" and "p \<noteq> NULL" and "j \<le> n"
  shows "chain nx (if j = n then NULL else conn_at p j) (map (conn_at p) [j ..< n])"
  using assms(3)
proof (induction "n - j" arbitrary: j)
  case (Suc m)
  then have j: "j < n" "m = n - Suc j" by simp_all
  then show ?case using Suc.hyps(1) [OF j(2)] assms(1) [OF j(1)] assms(2) by (simp add: upt_conv_Cons)
qed simp

definition table :: "'a server_scheme \<Rightarrow> addr list" where
  "table w = map (conn_at (connections w)) [0 ..< unat (connection_n w)]"

text \<open>Static data: the addresses lie in a block that is not free, so that \<open>malloc\<close> never returns memory over them.\<close>

definition static :: "'a pmem_scheme \<Rightarrow> addr \<Rightarrow> bool" where
  "static m g \<longleftrightarrow> (\<exists>b k. live m b = Some k \<and> b \<le> g \<and> g < b + k)"

text \<open>A block of \<open>k\<close> bytes at \<open>p\<close> that holds no static data.\<close>

definition clear_of :: "'a pmem_scheme \<Rightarrow> addr \<Rightarrow> nat \<Rightarrow> bool" where
  "clear_of m p k \<longleftrightarrow> (\<forall>g. static m g \<longrightarrow> \<not> (p \<le> g \<and> g < p + k))"

lemma alloc_clear:
  assumes "libc_ok libc" and "alloc libc m k = (m', p)" and "p \<noteq> NULL"
  shows "clear_of m p k" "\<forall>g. static m g \<longrightarrow> static m' g" "p \<le> g \<Longrightarrow> g < p + k \<Longrightarrow> static m' g"
proof -
  define q where "q = libc (live m) (mcalls m) 16 k"
  have q: "p = q" "m' = m\<lparr>mcalls := Suc (mcalls m), live := (live m)(q \<mapsto> k)\<rparr>"
    using assms(2,3) by (auto simp: alloc_def libc_alloc_def q_def Let_def split: if_splits)
  then have n: "live m q = None" "\<And>b j. live m b = Some j \<Longrightarrow> q + k \<le> b \<or> b + j \<le> q"
    using assms(1,3) unfolding libc_ok_def q_def by metis+
  show "clear_of m p k" using n(2) by (fastforce simp: clear_of_def static_def q(1))
  show "\<forall>g. static m g \<longrightarrow> static m' g"
  proof (intro allI impI)
    fix g assume "static m g"
    then obtain b j where b: "live m b = Some j" "b \<le> g" "g < b + j" by (auto simp: static_def)
    then have "live m' b = Some j" using n(1) by (auto simp: q)
    then show "static m' g" using b(2,3) unfolding static_def by blast
  qed
  show "p \<le> g \<Longrightarrow> g < p + k \<Longrightarrow> static m' g" unfolding static_def by (intro exI [of _ q] exI [of _ k]) (simp add: q)
qed

section \<open>The table\<close>

text \<open>The state before the arrays are allocated: the timers and queues are empty and their heads are static.\<close>

definition before_table :: "u64 \<Rightarrow> 'a server_scheme \<Rightarrow> bool" where
  "before_table base w \<longleftrightarrow> files w = None \<and> queue_list (cqueues w) (reusable_queue w) [] \<and> reusable_connections_n w = 0
     \<and> timers base w [] \<and> posted w (posted_accept_events w) [] (posted_events w) [] \<and> connection_n w \<noteq> 0
     \<and> static (mem w) (reusable_queue w) \<and> static (mem w) (event_timer_sentinel w)
     \<and> static (mem w) (posted_accept_events w) \<and> static (mem w) (posted_events w)"

lemma table_ok:
  assumes b: "before_table base w" and n: "unat (connection_n w) = n"
    and cp: "cp \<noteq> NULL" "\<forall>j < n. \<forall>i < sizeof_connection. \<not> static (mem w) (conn_at cp j + i)"
    and rp: "rp \<noteq> NULL" "\<forall>j < n. \<forall>i < sizeof_event. \<not> static (mem w) (event_at rp j + i)"
    and wp: "wp \<noteq> NULL" "\<forall>j < n. \<forall>i < sizeof_event. \<not> static (mem w) (event_at wp j + i)"
    and d: "\<forall>i < n. \<forall>j < n. event_at rp i \<noteq> event_at wp j"
    and es: "\<forall>a. \<not> ev_timer_set (es a) \<and> \<not> ev_posted (es a)"
    and cn: "\<forall>j < n. cn (conn_at cp j) = (conns w (conn_at cp j))\<lparr>c_data := (if Suc j = n then NULL else conn_at cp (Suc j)),
        c_read := event_at rp j, c_write := event_at wp j, c_fd := NOFD\<rparr>"
    and cr: "\<forall>j < n. \<not> c_reusable (conns w (conn_at cp j))"
    and w': "conns w' = cn" "evs w' = es" "free_connections w' = cp" "free_connection_n w' = connection_n w" "files w' = files w"
      "cqueues w' = cqueues w" "reusable_queue w' = reusable_queue w" "reusable_connections_n w' = reusable_connections_n w"
      "event_timer_rbtree w' = event_timer_rbtree w" "event_timer_sentinel w' = event_timer_sentinel w" "current_msec w' = current_msec w"
      "equeues w' = equeues w" "posted_accept_events w' = posted_accept_events w" "posted_events w' = posted_events w"
  shows "server_ok base w' (map (conn_at cp) [0 ..< n]) (map (conn_at cp) [0 ..< n]) [] [] [] []"
proof -
  let ?cs = "map (conn_at cp) [0 ..< n]"
  have k: "rd w' (conn_at cp j) = event_at rp j" "wr w' (conn_at cp j) = event_at wp j" "fd_of w' (conn_at cp j) = NOFD"
    "c_data (conns w' (conn_at cp j)) = (if Suc j = n then NULL else conn_at cp (Suc j))"
    "\<not> c_reusable (conns w' (conn_at cp j))" if "j < n" for j using that cn cr by (simp_all add: w'(1))
  have B: "files w = None" "queue_list (cqueues w) (reusable_queue w) []" "reusable_connections_n w = 0" "timers base w []"
    "posted w (posted_accept_events w) [] (posted_events w) []" "0 < n"
    using b n by (auto simp: before_table_def unat_eq_0 intro!: gr0I)
  have "timers base w' [] = timers base w []" using es B(4) by (intro timers_cong) (simp_all add: w' timers_def)
  moreover have "posted w' q [] q' [] = posted w q [] q' []" for q q' using es B(5) by (intro posted_cong) (simp_all add: w' posted_def)
  moreover have "heads_ok w' ?cs"
  proof -
    have o: "timer_offset < sizeof_event" "queue_offset < sizeof_event" by (simp_all add: timer_offset_def queue_offset_def sizeof_event_def)
    have "ev_timer (event_at q j) \<noteq> event_timer_sentinel w" "ev_queue (event_at q j) \<noteq> posted_accept_events w" "ev_queue (event_at q j) \<noteq> posted_events w"
      if "\<forall>j < n. \<forall>i < sizeof_event. \<not> static (mem w) (event_at q j + i)" "j < n" for q j
      using that o b unfolding before_table_def ev_timer_def ev_queue_def by metis+
    then show ?thesis using rp(2) wp(2) by (auto simp: heads_ok_def events_of_def w'(2-) k)
  qed
  moreover have "nodes_ok w' ?cs"
  proof -
    have "conn_queue_offset < sizeof_connection" by (simp add: conn_queue_offset_def sizeof_connection_def)
    then have "reusable_queue w \<noteq> conn_queue (conn_at cp j)" if "j < n" for j
      using that cp(2) b unfolding before_table_def conn_queue_def by metis
    then have "reusable_queue w \<notin> conn_queue ` set ?cs" by fastforce
    then show ?thesis using cp(1) rp(1) wp(1) d by (auto simp: nodes_ok_def events_of_def w'(2-) k distinct_map inj_on_def)
  qed
  moreover have "free_ok w' ?cs ?cs"
  proof -
    have "chain (\<lambda>c. c_data (conns w' c)) cp ?cs" using chain_array [of n "\<lambda>c. c_data (conns w' c)" cp 0] k(4) cp(1) B(6) by simp
    moreover have "connection_n w = of_nat n" by (simp add: n [symmetric])
    ultimately show ?thesis by (auto simp: free_ok_def w'(2-) k distinct_map inj_on_def)
  qed
  moreover have "fds_ok w' (busy ?cs ?cs)" using B(1) by (simp add: fds_ok_def w'(5))
  moreover have "reuse_ok w' ?cs []" using B(2,3) k(5) by (auto simp: reuse_ok_def w'(6-8))
  ultimately show ?thesis using B by (simp add: server_ok_def conn_store_def events_ok_def w'(13,14))
qed

lemma elem_in: "j < n \<Longrightarrow> i < k \<Longrightarrow> p + j * k + i < p + k * (n :: nat)"
proof -
  assume "j < n" "i < k"
  then have "j * k + i < Suc j * k" "Suc j * k \<le> n * k" by (simp_all only: mult_le_mono1 Suc_leI) simp
  then show "p + j * k + i < p + k * n" by (simp add: mult.commute)
qed

lemma clear_elems: "clear_of m p (k * n) \<Longrightarrow> \<forall>j < n. \<forall>i < k. \<not> static m (p + j * k + i)"
  using elem_in [of _ n _ k p] by (fastforce simp: clear_of_def)

text \<open>What no step of the initialisation changes, besides the table.\<close>

definition same_globals :: "'a server_scheme \<Rightarrow> 'a server_scheme \<Rightarrow> bool" where
  "same_globals w w' \<longleftrightarrow> cycle_listening w' = cycle_listening w \<and> listens w' = listens w \<and> use_accept_mutex w' = use_accept_mutex w
     \<and> accept_mutex_held w' = accept_mutex_held w \<and> files w' = files w \<and> connection_n w' = connection_n w \<and> accept_events w' = accept_events w"

text \<open>
  The three arrays. \<open>malloc\<close> does not clear them: the invariant speaks of the flags of all events and connections, so the memory is taken to
  hold no set \<open>timer_set\<close>, \<open>posted\<close> or \<open>reusable\<close> flag (\<open>get_connection\<close> clears a connection and its events before their first use).
\<close>

definition tables_fit :: "libc \<Rightarrow> bmem \<Rightarrow> nat \<Rightarrow> bool" where
  "tables_fit libc m n = (let (m, p1) = alloc libc m (sizeof_connection * n); (m, p2) = alloc libc m (sizeof_event * n);
     (m, p3) = alloc libc m (sizeof_event * n) in p1 \<noteq> NULL \<and> p2 \<noteq> NULL \<and> p3 \<noteq> NULL)"

lemma alloc_connections_ok:
  assumes lok: "libc_ok libc" and b: "before_table base w"
    and g: "\<forall>a. \<not> ev_timer_set (evs w a) \<and> \<not> ev_posted (evs w a)" "\<forall>c. \<not> c_reusable (conns w c)"
  shows "\<exists>w' ok. alloc_connections libc w = Some (w', ok) \<and> same_globals w w' \<and> calls w' = calls w \<and> ep w' = ep w
    \<and> (tables_fit libc (mem w) (unat (connection_n w)) \<longrightarrow> ok)
    \<and> (ok \<longrightarrow> table w' \<noteq> [] \<and> server_ok base w' (table w') (table w') [] [] [] [])"
proof -
  define n where "n = unat (connection_n w)"
  let ?P = "\<lambda>e. \<not> ev_timer_set e \<and> \<not> ev_posted e"
  obtain m1 cp where a1: "alloc libc (mem w) (sizeof_connection * n) = (m1, cp)" by fastforce
  obtain m2 rp where a2: "alloc libc m1 (sizeof_event * n) = (m2, rp)" by fastforce
  obtain m3 wp where a3: "alloc libc m2 (sizeof_event * n) = (m3, wp)" by fastforce
  define w1 where "w1 = w\<lparr>mem := m1, connections := cp\<rparr>"
  define w2 where "w2 = w1\<lparr>mem := m2, read_events := rp\<rparr>"
  from set_events_keep [of ?P "\<lambda>e. e\<lparr>ev_closed := True, ev_instance := True\<rparr>" w2 rp n] g(1)
  obtain e2 where e2: "set_events rp (\<lambda>e. e\<lparr>ev_closed := True, ev_instance := True\<rparr>) n w2 = w2\<lparr>evs := e2\<rparr>" "\<forall>a. ?P (e2 a)"
    by (auto simp: w2_def w1_def)
  define w3 where "w3 = w2\<lparr>evs := e2, mem := m3, write_events := wp\<rparr>"
  from set_events_keep [of ?P "\<lambda>e. e\<lparr>ev_closed := True\<rparr>" w3 wp n] e2(2)
  obtain e3 where e3: "set_events wp (\<lambda>e. e\<lparr>ev_closed := True\<rparr>) n w3 = w3\<lparr>evs := e3\<rparr>" "\<forall>a. ?P (e3 a)"
    by (auto simp: w3_def)
  have fit: "tables_fit libc (mem w) n \<longleftrightarrow> cp \<noteq> NULL \<and> rp \<noteq> NULL \<and> wp \<noteq> NULL" by (simp add: tables_fit_def a1 a2 a3)
  consider "cp = NULL" | "cp \<noteq> NULL" "rp = NULL" | "cp \<noteq> NULL" "rp \<noteq> NULL" "wp = NULL" | "cp \<noteq> NULL" "rp \<noteq> NULL" "wp \<noteq> NULL" by blast
  then show ?thesis
  proof cases
    case 1
    with fit have nf: "\<not> tables_fit libc (mem w) n" by simp
    from 1 have "alloc_connections libc w = Some (w1, False)" by (simp add: alloc_connections_def n_def [symmetric] a1 Let_def w1_def)
    then show ?thesis by (intro exI [of _ w1] exI [of _ False]) (simp add: nf [unfolded n_def] w1_def same_globals_def)
  next
    case 2
    with fit have nf: "\<not> tables_fit libc (mem w) n" by simp
    from 2 have "alloc_connections libc w = Some (w2, False)" by (simp add: alloc_connections_def n_def [symmetric] a1 a2 Let_def w1_def w2_def)
    then show ?thesis by (intro exI [of _ w2] exI [of _ False]) (simp add: nf [unfolded n_def] w1_def w2_def same_globals_def)
  next
    case 3
    with fit have nf: "\<not> tables_fit libc (mem w) n" by simp
    have s: "alloc_connections libc w = Some (w3, False)"
      using 3 e2(1) by (simp add: alloc_connections_def n_def [symmetric] a1 a2 a3 Let_def w1_def w2_def w3_def)
    then show ?thesis by (intro exI [of _ w3] exI [of _ False]) (simp add: nf [unfolded n_def] w3_def w2_def w1_def same_globals_def)
  next
    case 4
    have n0: "0 < n" using b by (auto simp: before_table_def n_def unat_eq_0 intro!: gr0I)
    have f3: "connections (w3\<lparr>evs := e3\<rparr>) = cp" "connection_n (w3\<lparr>evs := e3\<rparr>) = connection_n w" "read_events (w3\<lparr>evs := e3\<rparr>) = rp"
      "write_events (w3\<lparr>evs := e3\<rparr>) = wp" "conns (w3\<lparr>evs := e3\<rparr>) = conns w" by (simp_all add: w3_def w2_def w1_def)
    have on: "(of_nat n :: u32) = connection_n w" by (simp add: n_def)
    from link_loop_ok [of n "w3\<lparr>evs := e3\<rparr>" NULL, unfolded f3 on] n0 4(1) obtain cn where
      cn: "link_loop (connection_n w) NULL (w3\<lparr>evs := e3\<rparr>) = Some (w3\<lparr>evs := e3, conns := cn\<rparr>, cp)"
      "\<forall>j < n. cn (conn_at cp j) = (conns w (conn_at cp j))\<lparr>c_data := (if Suc j = n then NULL else conn_at cp (Suc j)),
        c_read := event_at rp j, c_write := event_at wp j, c_fd := NOFD\<rparr>"
      by (auto simp: n_def)
    define w' where "w' = w3\<lparr>evs := e3, conns := cn, free_connections := cp, free_connection_n := connection_n w\<rparr>"
    have s: "alloc_connections libc w = Some (w', True)"
    proof -
      have "connection_n (w3\<lparr>evs := e3, conns := cn, free_connections := cp\<rparr>) = connection_n w" by (simp add: w3_def w2_def w1_def)
      moreover have "mem w1 = m1" "mem w2 = m2" by (simp_all add: w1_def w2_def)
      ultimately show ?thesis
        using 4 e2(1) e3(1) cn(1) f3(2)
        by (simp add: alloc_connections_def n_def [symmetric] a1 a2 a3 Let_def w1_def [symmetric] w2_def [symmetric] w3_def [symmetric] w'_def)
    qed
    have t: "table w' = map (conn_at cp) [0 ..< n]" by (simp add: table_def w'_def w3_def w2_def w1_def n_def)
    note c1 = alloc_clear [OF lok a1 4(1)] and c2 = alloc_clear [OF lok a2 4(2)] and c3 = alloc_clear [OF lok a3 4(3)]
    have i2: "clear_of (mem w) rp (sizeof_event * n)" using c2(1) c1(2) by (auto simp: clear_of_def)
    have i3: "clear_of (mem w) wp (sizeof_event * n)" using c3(1) c1(2) c2(2) by (auto simp: clear_of_def)
    have d: "event_at rp i \<noteq> event_at wp j" if "i < n" "j < n" for i j
    proof
      assume eq: "event_at rp i = event_at wp j"
      have "event_at rp i + 0 < rp + sizeof_event * n" "event_at wp j + 0 < wp + sizeof_event * n"
        using elem_in [OF that(1), of 0 sizeof_event] elem_in [OF that(2), of 0 sizeof_event] by (simp_all add: mult.commute)
      then have "static m2 (event_at rp i)" "wp \<le> event_at rp i" "event_at rp i < wp + sizeof_event * n" using c2(3) eq by simp_all
      then show False using c3(1) unfolding clear_of_def by blast
    qed
    have "server_ok base w' (table w') (table w') [] [] [] []"
      unfolding t
    proof (rule table_ok [OF b n_def [symmetric] 4(1) clear_elems [OF c1(1)] 4(2) clear_elems [OF i2] 4(3) clear_elems [OF i3] _ e3(2) cn(2)])
      show "\<forall>i < n. \<forall>j < n. event_at rp i \<noteq> event_at wp j" using d by blast
    qed (use g(2) in \<open>simp_all add: w'_def w3_def w2_def w1_def\<close>)
    moreover have "table w' \<noteq> []" unfolding t using n0 by simp
    moreover have "same_globals w w'" "calls w' = calls w" "ep w' = ep w" by (simp_all add: w'_def w3_def w2_def w1_def same_globals_def)
    ultimately show ?thesis using s by blast
  qed
qed

section \<open>The event module\<close>

text \<open>Nothing is registered with the instance \<open>e\<close>.\<close>

definition unwatched :: "os \<Rightarrow> u32 \<Rightarrow> syscall list \<Rightarrow> bool" where
  "unwatched os e cs \<longleftrightarrow> interest os e cs = (\<lambda>_. None)"

lemma unwatched_step [simp]:
  "unwatched os e (Sys_socketpair # cs) = unwatched os e cs" "unwatched os e (Sys_epoll_wait a t # cs) = unwatched os e cs"
  "unwatched os e (Sys_epoll_create k # cs) = unwatched os e cs" "unwatched os e (Sys_sigaction # cs) = unwatched os e cs"
  "unwatched os e (Sys_setitimer t' # cs) = unwatched os e cs"
  by (simp_all add: unwatched_def)

lemma unwatched_close: "unwatched os e cs \<Longrightarrow> unwatched os e (Sys_close fd # cs)"
  by (simp add: unwatched_def fun_eq_iff)

text \<open>The socket that the probe registers is closed again on every path.\<close>

definition only_watch :: "os \<Rightarrow> u32 \<Rightarrow> u32 \<Rightarrow> syscall list \<Rightarrow> bool" where
  "only_watch os e fd cs \<longleftrightarrow> (\<forall>a. a \<noteq> fd \<longrightarrow> interest os e cs a = None)"

lemma only_watch_step [simp]:
  "only_watch os e fd (Sys_epoll_wait a t # cs) = only_watch os e fd cs"
  "only_watch os e fd cs \<Longrightarrow> only_watch os e fd (Sys_close a # cs)"
  "only_watch os e fd cs \<Longrightarrow> unwatched os e (Sys_close fd # cs)"
  "unwatched os e cs \<Longrightarrow> only_watch os e fd (Sys_epoll_ctl a EPOLL_CTL_ADD fd m d # cs)"
  by (auto simp: only_watch_def unwatched_def fun_eq_iff)

lemma test_rdhup_ok:
  "\<exists>cs u. epoll_test_rdhup os w = w\<lparr>calls := cs, use_epoll_rdhup := u\<rparr> \<and> (unwatched os e (calls w) \<longrightarrow> unwatched os e cs)"
proof -
  let ?w = "epoll_test_rdhup os w"
  have "?w = w\<lparr>calls := calls ?w, use_epoll_rdhup := use_epoll_rdhup ?w\<rparr>"
    by (simp add: epoll_test_rdhup_def sys_def sys_ignore_def Let_def)
  moreover have "unwatched os e (calls w) \<longrightarrow> unwatched os e (calls ?w)"
    by (simp add: epoll_test_rdhup_def sys_def sys_ignore_def Let_def)
  ultimately show ?thesis by blast
qed

lemma alloc_static:
  assumes "libc_ok libc" and "alloc libc m k = (m', p)" and "static m g"
  shows "static m' g"
proof (cases "p = NULL")
  case True
  then have "live m' = live m" using assms(2) by (auto simp: alloc_def libc_alloc_def Let_def split: if_splits)
  with assms(3) show ?thesis by (simp add: static_def)
next
  case False
  with alloc_clear(2) [OF assms(1,2) False] assms(3) show ?thesis by blast
qed

text \<open>The event module is set up: only its own variables, the memory and the calls changed.\<close>

definition module_up :: "os \<Rightarrow> 'a server_scheme \<Rightarrow> 'a server_scheme \<Rightarrow> bool" where
  "module_up os w w' \<longleftrightarrow> w' = w\<lparr>calls := calls w', ep := ep w', use_epoll_rdhup := use_epoll_rdhup w', mem := mem w',
       event_list := event_list w', nevents := nevents w'\<rparr>
     \<and> (\<forall>g. static (mem w) g \<longrightarrow> static (mem w') g) \<and> unwatched os (ep w') (calls w')"

definition event_memory :: "libc \<Rightarrow> 'a server_scheme \<Rightarrow> bmem \<times> addr" where
  "event_memory libc w = (if nevents w < EPOLL_EVENTS then alloc libc (mem w) (sizeof_epoll_event * unat EPOLL_EVENTS) else (mem w, 1))"

lemma epoll_init_ok:
  assumes lok: "libc_ok libc" and e: "ep w = NOFD" "event_list w = NULL" and u: "\<forall>e. unwatched os e (calls w)"
  shows "\<exists>w' rc. epoll_init os libc w = Some (w', rc) \<and> module_up os w w'
    \<and> (rc = 0 \<longrightarrow> ep w' = ans_fd (os (Sys_epoll_create (connection_n w div 2) # calls w)) \<and> mem w' = fst (event_memory libc w))
    \<and> (rc = 0 \<longleftrightarrow> ans_ret (os (Sys_epoll_create (connection_n w div 2) # calls w)) \<noteq> - 1
        \<and> ans_fd (os (Sys_epoll_create (connection_n w div 2) # calls w)) \<noteq> NOFD \<and> snd (event_memory libc w) \<noteq> NULL)"
proof -
  define a where "a = os (Sys_epoll_create (connection_n w div 2) # calls w)"
  define e where "e = (if ans_ret a = - 1 then NOFD else ans_fd a)"
  define w1 where "w1 = w\<lparr>calls := Sys_epoll_create (connection_n w div 2) # calls w, ep := e\<rparr>"
  show ?thesis
  proof (cases "e = NOFD")
    case True
    then have "epoll_init os libc w = Some (w1, - 1)"
      using assms(2) by (simp add: epoll_init_def sys_def Let_def w1_def e_def a_def cong: if_cong)
    moreover have "module_up os w w1" using u by (simp add: module_up_def w1_def)
    moreover have "ans_ret a = - 1 \<or> ans_fd a = NOFD" using True by (auto simp: e_def split: if_splits)
    ultimately show ?thesis by (intro exI [of _ w1] exI [of _ "- 1"]) (auto simp: a_def)
  next
    case False
    from test_rdhup_ok [of os w1 e] obtain cs v where t: "epoll_test_rdhup os w1 = w1\<lparr>calls := cs, use_epoll_rdhup := v\<rparr>" "unwatched os e cs"
      using u by (auto simp: w1_def)
    define w2 where "w2 = w1\<lparr>calls := cs, use_epoll_rdhup := v\<rparr>"
    obtain m p where al: "alloc libc (mem w) (sizeof_epoll_event * unat EPOLL_EVENTS) = (m, p)" by fastforce
    define w3 where "w3 = (if nevents w < EPOLL_EVENTS then w2\<lparr>mem := m, event_list := p\<rparr> else w2)"
    have ee: "ans_ret a \<noteq> - 1" "e = ans_fd a" "ans_fd a \<noteq> NOFD" using False by (auto simp: e_def split: if_splits)
    have f2: "mem w2 = mem w" "event_list w2 = event_list w" "nevents w2 = nevents w" by (simp_all add: w2_def w1_def)
    have w1e: "w\<lparr>calls := Sys_epoll_create (connection_n w div 2) # calls w, ep := ans_fd a\<rparr> = w1" using ee by (simp add: w1_def)
    have "epoll_init os libc w = (if nevents w < EPOLL_EVENTS \<and> p = NULL then Some (w3, - 1) else Some (w3\<lparr>nevents := EPOLL_EVENTS\<rparr>, 0))"
      using assms(2,3) ee t(1) f2 unfolding epoll_init_def
      by (simp add: sys_def Let_def a_def [symmetric] w1e w2_def [symmetric] libc_free_def al w3_def cong: if_cong)
    moreover have "module_up os w w3" "module_up os w (w3\<lparr>nevents := EPOLL_EVENTS\<rparr>)"
      using t(2) alloc_static [OF lok al] by (simp_all add: module_up_def w3_def w2_def w1_def)
    moreover have "ep w3 = ans_fd a" "mem w3 = fst (event_memory libc w)" using ee by (simp_all add: w3_def w2_def w1_def event_memory_def al)
    moreover have "nevents w < EPOLL_EVENTS \<and> p = NULL \<longleftrightarrow> snd (event_memory libc w) = NULL" by (simp add: event_memory_def al)
    ultimately show ?thesis using ee by (auto simp: a_def)
  qed
qed

section \<open>The connection of the listening socket\<close>

definition listen_result :: "os \<Rightarrow> u64 \<Rightarrow> addr list \<Rightarrow> 'a server_scheme \<Rightarrow> bool" where
  "listen_result os base cs w \<longleftrightarrow> server_ok base w cs (tl cs) [] [] [] [] \<and> registered os w cs (tl cs) \<and> listens_on w cs (tl cs) (hd cs)
     \<and> accept_sync w (hd cs) \<and> ev_handler (evs w (rd w (hd cs))) = EVENT_ACCEPT
     \<and> fd_of w (hd cs) = ls_fd (listens w (cycle_listening w))"

lemma listen_connection_ok:
  assumes s: "server_ok base w (c # fl) (c # fl) [] [] [] []" and u: "unwatched os (ep w) (calls w)" and f: "files w = None"
    and l: "cycle_listening w \<noteq> NULL" "ls_fd (listens w (cycle_listening w)) \<noteq> NOFD" "ls_fd (listens w (cycle_listening w)) \<noteq> ep w"
      "\<not> ls_reuseport (listens w (cycle_listening w))"
    and m: "use_accept_mutex w" "\<not> accept_mutex_held w"
  shows "\<exists>w'. listen_connection os call w = Some (w', - 1) \<and> listen_result os base (c # fl) w'"
proof -
  let ?cs = "c # fl" and ?ls = "listens w (cycle_listening w)"
  have st: "conn_store w ?cs (c # fl) []" using s by (simp add: server_ok_def)
  have b: "busy ?cs (c # fl) = {}" by auto
  have fd: "new_fd w ?cs (c # fl) (ls_fd ?ls)" using l(2) f by (simp add: new_fd_def)
  have reg: "registered os w ?cs (c # fl)" using u by (simp add: registered_def b watched_def unwatched_def)
  define w1 where "w1 = taken w c fl (ls_fd ?ls)"
  have s1: "server_ok base w1 ?cs fl [] [] [] []" unfolding w1_def by (rule taken_server_ok [OF s fd])
  have r1: "registered os w1 ?cs fl" unfolding w1_def by (rule taken_registered [OF s reg fd l(3)])
  note n = store_conn [OF st, of c]
  have c: "c \<in> busy ?cs fl" using st by (auto simp: conn_store_def nodes_ok_def)
  have g: "get_connection call w (ls_fd ?ls) = Some (w1, c)" unfolding w1_def by (rule get_connection_free [OF st fd])
  have k1: "cycle_listening w1 = cycle_listening w" "listens w1 = listens w" "use_accept_mutex w1 = use_accept_mutex w"
    "accept_mutex_held w1 = accept_mutex_held w" by (simp_all add: w1_def taken_def Let_def)
  have k2: "rd w1 c = rd w c" "\<not> ev_active (evs w1 (rd w c))" "fd_of w1 c = ls_fd ?ls" using n by (simp_all add: w1_def event_zero_def)
  let ?cn = "(conns w1)(c := (conns w1 c)\<lparr>c_type := ls_type ?ls, c_listening := cycle_listening w\<rparr>)"
  let ?es = "(evs w1)(rd w c := (evs w1 (rd w c))\<lparr>ev_accept := True, ev_deferred_accept := ls_deferred_accept ?ls, ev_handler := EVENT_ACCEPT\<rparr>)"
  let ?ll = "(listens w1)(cycle_listening w := (listens w1 (cycle_listening w))\<lparr>ls_connection := c\<rparr>)"
  define w2 where "w2 = w1\<lparr>listens := ?ll, evs := ?es\<rparr>"
  define w3 where "w3 = w2\<lparr>conns := ?cn\<rparr>"
  have "listen_connection os call w = Some (w3, - 1)"
    using l n g m k1 k2(1)
    by (simp add: listen_connection_def get_ls_def upd_ls_def Let_def upd_conn_def get_conn_def upd_event_def w3_def w2_def)
  moreover have "server_ok base w3 ?cs fl [] [] [] [] \<and> registered os w3 ?cs fl"
  proof -
    have sc: "same_core w2 ?cn" by (simp add: same_core_def core_of_def w2_def)
    have "server_ok base w2 ?cs fl [] [] [] []" using s1 by (subst server_ok_cong [of w1]) (simp_all add: same_table_def w2_def)
    moreover have "registered os w2 ?cs fl" using r1 by (subst registered_cong [of _ w1]) (simp_all add: w2_def)
    ultimately show ?thesis unfolding w3_def server_ok_core [OF sc] by simp
  qed
  moreover have "listens_on w3 ?cs fl c" "accept_sync w3 c" "ev_handler (evs w3 (rd w3 c)) = EVENT_ACCEPT"
    "fd_of w3 c = ls_fd (listens w3 (cycle_listening w3))"
    using l c m k1 k2 by (simp_all add: listens_on_def accept_sync_def w3_def w2_def)
  ultimately show ?thesis by (intro exI [of _ w3]) (simp add: listen_result_def)
qed

section \<open>The whole\<close>

text \<open>
  The state in which the master calls \<open>event_process_init\<close>: the listening socket is open, the reusable queue is empty, nothing is registered
  and no epoll instance exists; the variables of event.c and event\_posted.c are static data.
\<close>

definition master_ready :: "os \<Rightarrow> u64 \<Rightarrow> 'a server_scheme \<Rightarrow> bool" where
  "master_ready os base w \<longleftrightarrow> files w = None \<and> queue_list (cqueues w) (reusable_queue w) [] \<and> reusable_connections_n w = 0
     \<and> timer_window base (current_msec w) \<and> connection_n w \<noteq> 0 \<and> ep w = NOFD \<and> event_list w = NULL
     \<and> (\<forall>g \<in> {reusable_queue w, event_timer_sentinel w, posted_accept_events w, posted_events w}. g \<noteq> NULL \<and> static (mem w) g)
     \<and> posted_accept_events w \<noteq> posted_events w
     \<and> (\<forall>a. \<not> ev_timer_set (evs w a) \<and> \<not> ev_posted (evs w a)) \<and> (\<forall>c. \<not> c_reusable (conns w c)) \<and> (\<forall>e. unwatched os e (calls w))
     \<and> cycle_listening w \<noteq> NULL \<and> \<not> ls_reuseport (listens w (cycle_listening w)) \<and> ls_connection (listens w (cycle_listening w)) = NULL
     \<and> ls_fd (listens w (cycle_listening w)) \<noteq> NOFD
     \<and> ls_fd (listens w (cycle_listening w)) \<noteq> ans_fd (os (Sys_epoll_create (connection_n w div 2) # calls w))"

lemma before_table_up:
  assumes "before_table base w" and "module_up os w w'"
  shows "before_table base w'"
proof -
  obtain cs e v m p k where w': "w' = w\<lparr>calls := cs, ep := e, use_epoll_rdhup := v, mem := m, event_list := p, nevents := k\<rparr>"
    and m: "\<forall>g. static (mem w) g \<longrightarrow> static m g" using assms(2) unfolding module_up_def by (elim conjE) (rule that)
  have "timers base w' [] = timers base w []" by (rule timers_cong) (simp_all add: w')
  moreover have "posted w' q [] q' [] = posted w q [] q' []" for q q' by (rule posted_cong) (simp_all add: w')
  ultimately show ?thesis using assms(1) m by (simp add: before_table_def w')
qed

lemma module_up_fields:
  assumes "module_up os w w'"
  shows "listens w' = listens w" "cycle_listening w' = cycle_listening w" "files w' = files w" "use_accept_mutex w' = use_accept_mutex w"
    "accept_mutex_held w' = accept_mutex_held w" "evs w' = evs w" "conns w' = conns w" "connection_n w' = connection_n w"
proof -
  have e: "w' = w\<lparr>calls := calls w', ep := ep w', use_epoll_rdhup := use_epoll_rdhup w', mem := mem w',
       event_list := event_list w', nevents := nevents w'\<rparr>" using assms by (simp add: module_up_def)
  show "listens w' = listens w" "cycle_listening w' = cycle_listening w" "files w' = files w" "use_accept_mutex w' = use_accept_mutex w"
    "accept_mutex_held w' = accept_mutex_held w" "evs w' = evs w" "conns w' = conns w" "connection_n w' = connection_n w"
    by (subst e, simp)+
qed

lemma set_timer_signal_up:
  assumes "module_up os w w1"
  shows "\<exists>w2 ok. set_timer_signal os w1 = (w2, ok) \<and> module_up os w w2 \<and> ep w2 = ep w1 \<and> mem w2 = mem w1
    \<and> (timer_resolution w = 0 \<or> (\<forall>cs. ans_ret (os (Sys_sigaction # cs)) \<noteq> - 1) \<longrightarrow> ok)"
proof -
  have e: "w1 = w\<lparr>calls := calls w1, ep := ep w1, use_epoll_rdhup := use_epoll_rdhup w1, mem := mem w1,
       event_list := event_list w1, nevents := nevents w1\<rparr>" using assms by (simp add: module_up_def)
  have "w1\<lparr>calls := cs\<rparr> = w\<lparr>calls := cs, ep := ep w1, use_epoll_rdhup := use_epoll_rdhup w1, mem := mem w1,
       event_list := event_list w1, nevents := nevents w1\<rparr>" for cs by (subst e) simp
  then have "module_up os w (w1\<lparr>calls := cs\<rparr>)" if "unwatched os (ep w1) cs" for cs
    using assms that by (simp add: module_up_def)
  moreover have "w1 = w1\<lparr>calls := calls w1\<rparr>" by simp
  moreover have "unwatched os (ep w1) (calls w1)" "timer_resolution w1 = timer_resolution w" using assms by (simp add: module_up_def) (subst e, simp)
  ultimately show ?thesis using assms unfolding set_timer_signal_def sys_def sys_ignore_def Let_def by auto
qed

text \<open>What it takes to get through: an epoll instance, the signal handler, and memory for the event list and the three arrays.\<close>

definition can_start :: "os \<Rightarrow> libc \<Rightarrow> 'a server_scheme \<Rightarrow> bool" where
  "can_start os libc w \<longleftrightarrow> (let a = os (Sys_epoll_create (connection_n w div 2) # calls w); (m, p) = event_memory libc w
     in ans_ret a \<noteq> - 1 \<and> ans_fd a \<noteq> NOFD \<and> (timer_resolution w = 0 \<or> (\<forall>cs. ans_ret (os (Sys_sigaction # cs)) \<noteq> - 1))
       \<and> p \<noteq> NULL \<and> tables_fit libc m (unat (connection_n w)))"

lemma process_init_ok:
  assumes lok: "libc_ok libc" and w: "master_ready os base w"
  shows "\<exists>w' r. event_process_init os libc call w = Some (w', r) \<and> (r = Exits 2 \<or> r = Returns (- 1))
    \<and> (can_start os libc w \<longrightarrow> r = Returns (- 1) \<and> (\<exists>cs. length cs = unat (connection_n w) \<and> listen_result os base cs w'))"
proof -
  note W = w [unfolded master_ready_def]
  define w0 where "w0 = w\<lparr>use_accept_mutex := True, accept_mutex_delay := ACCEPT_MUTEX_DELAY, accept_mutex_held := False\<rparr>"
  have h: "posted_accept_events w \<noteq> NULL" "posted_events w \<noteq> NULL" "event_timer_sentinel w \<noteq> NULL" "posted_accept_events w \<noteq> posted_events w"
    using W by auto
  obtain q1 where q1: "queue_init (equeues w) (posted_accept_events w) = Some q1" "queue_list q1 (posted_accept_events w) []"
    using queue_init_ring [OF h(1)] by blast
  obtain q2 where q2: "queue_init q1 (posted_events w) = Some q2" "queue_list q2 (posted_events w) []" "same_outside {posted_events w} q1 q2"
    using queue_init_ring [OF h(2)] by blast
  have q3: "queue_list q2 (posted_accept_events w) []" using queue_list_frame [OF q2(3), of "posted_accept_events w" "[]"] q1(2) h(4) by simp
  obtain t where t: "rbtree_init (event_timer_rbtree w) (event_timer_sentinel w) Rbtree_insert_timer_value = Some t" "rbtree_holds t []"
    "rb_sentinel t = event_timer_sentinel w" "rb_insert t = Rbtree_insert_timer_value" using rbtree_init_holds [OF h(3)] by blast
  define w1 where "w1 = w0\<lparr>equeues := q2, event_timer_rbtree := t\<rparr>"
  have b1: "before_table base w1"
    using W q2(2) q3 t by (auto simp: before_table_def w1_def w0_def timers_def posted_def rbtree_sorted_def)
  have e1: "ep w1 = NOFD" "event_list w1 = NULL" "\<forall>e. unwatched os e (calls w1)" using W by (simp_all add: w1_def w0_def)
  from epoll_init_ok [OF lok e1] obtain w2 rc where w2: "epoll_init os libc w1 = Some (w2, rc)" "module_up os w1 w2"
    "rc = 0 \<longrightarrow> ep w2 = ans_fd (os (Sys_epoll_create (connection_n w1 div 2) # calls w1)) \<and> mem w2 = fst (event_memory libc w1)"
    "rc = 0 \<longleftrightarrow> ans_ret (os (Sys_epoll_create (connection_n w1 div 2) # calls w1)) \<noteq> - 1
        \<and> ans_fd (os (Sys_epoll_create (connection_n w1 div 2) # calls w1)) \<noteq> NOFD \<and> snd (event_memory libc w1) \<noteq> NULL" by blast
  have em: "event_memory libc w1 = event_memory libc w" "timer_resolution w1 = timer_resolution w" by (simp_all add: event_memory_def w1_def w0_def)
  have eq: "event_process_init os libc call w = (if rc \<noteq> 0 then Some (w2, Exits 2)
      else let (w, ok) = set_timer_signal os w2 in
        if \<not> ok then Some (w, Returns (- 1))
        else do {
          (w, ok) \<leftarrow> alloc_connections libc w;
          if \<not> ok then Some (w, Returns (- 1))
          else do { (w, rc) \<leftarrow> listen_connection os call w; Some (w, Returns rc) } })"
    using q1(1) q2(1) t(1) w2(1) by (simp add: event_process_init_def w0_def [symmetric] event_timer_init_def Let_def) (simp add: w0_def w1_def Let_def)
  note f2 = module_up_fields [OF w2(2)]
  have l1: "listens w1 = listens w" "cycle_listening w1 = cycle_listening w" "connection_n w1 = connection_n w" "calls w1 = calls w"
    "evs w1 = evs w" "conns w1 = conns w" "files w1 = files w" "use_accept_mutex w1" "\<not> accept_mutex_held w1" by (simp_all add: w1_def w0_def)
  obtain w3 ok where w3: "set_timer_signal os w2 = (w3, ok)" "module_up os w1 w3" "ep w3 = ep w2"
    "mem w3 = mem w2" "timer_resolution w = 0 \<or> (\<forall>cs. ans_ret (os (Sys_sigaction # cs)) \<noteq> - 1) \<longrightarrow> ok" unfolding em(2) [symmetric] using set_timer_signal_up [OF w2(2)] by blast
  note f3 = module_up_fields [OF w3(2)]
  from alloc_connections_ok [OF lok before_table_up [OF b1 w3(2)]] W obtain w4 ok2 where
    w4: "alloc_connections libc w3 = Some (w4, ok2)" "same_globals w3 w4" "calls w4 = calls w3" "ep w4 = ep w3"
    "tables_fit libc (mem w3) (unat (connection_n w)) \<Longrightarrow> ok2" "ok2 \<Longrightarrow> table w4 \<noteq> [] \<and> server_ok base w4 (table w4) (table w4) [] [] [] []" by (auto simp: f3 l1)
  have st: "rc = 0 \<and> ok \<and> ok2" if "can_start os libc w"
    using that w2(3,4) w3(4,5) w4(5) by (auto simp: can_start_def Let_def em l1 split: prod.splits)
  have f4: "listens w4 = listens w" "cycle_listening w4 = cycle_listening w" "files w4 = None" "use_accept_mutex w4" "\<not> accept_mutex_held w4"
    "connection_n w4 = connection_n w" using w4(2) W by (simp_all add: same_globals_def f3 l1)
  consider "rc \<noteq> 0" | "rc = 0" "\<not> ok" | "rc = 0" "ok" "\<not> ok2" | "rc = 0" "ok" "ok2" by blast
  then show ?thesis
  proof cases
    case 1
    then show ?thesis using st unfolding eq by auto
  next
    case 2
    then show ?thesis using st unfolding eq by (auto simp: w3(1))
  next
    case 3
    then show ?thesis using st unfolding eq by (auto simp: w3(1) w4(1))
  next
    case 4
    then obtain c fl where t: "table w4 = c # fl" "server_ok base w4 (c # fl) (c # fl) [] [] [] []" using w4(6) by (cases "table w4") auto
    have "unwatched os (ep w4) (calls w4)" using w3(2) by (simp add: w4(3,4) module_up_def)
    moreover have "ep w4 = ans_fd (os (Sys_epoll_create (connection_n w div 2) # calls w))" using 4(1) w2(3) by (simp add: w4(4) w3(3) l1)
    ultimately obtain w5 where w5: "listen_connection os call w4 = Some (w5, - 1)" "listen_result os base (c # fl) w5"
      using listen_connection_ok [OF t(2) _ f4(3), of os call] W f4 by auto
    have "length (c # fl) = unat (connection_n w)" unfolding t(1) [symmetric] by (simp add: table_def f4)
    then have "\<exists>cs. length cs = unat (connection_n w) \<and> listen_result os base cs w5" using w5(2) by blast
    then show ?thesis using 4 w5(1) unfolding eq by (simp add: w3(1) w4(1))
  qed
qed

text \<open>C4: \<open>event_process_init\<close> builds what the other theorems rely on. Whatever the kernel and the C library answer, it does not fault; it ends the process or returns
  -1, also when everything worked, since \<open>use_accept_mutex\<close> is set. When the kernel gives an epoll instance and there is memory,
  the server invariant holds with one connection in use, that of the listening socket, and as many free ones as configured less one; nothing is registered with the
  kernel, and the accept event waits for the mutex.\<close>
theorem event_process_init_correct:
  assumes "libc_ok libc" and "master_ready os base w"
  shows "\<exists>w' r. event_process_init os libc call w = Some (w', r) \<and> (r = Exits 2 \<or> r = Returns (- 1))
    \<and> (can_start os libc w \<longrightarrow> r = Returns (- 1) \<and> (\<exists>cs. length cs = unat (connection_n w) \<and> listen_result os base cs w'))"
  using assms by (rule process_init_ok)

text \<open>A C library with slots of 65536 bytes.\<close>

definition wide_libc :: libc where
  "wide_libc L k al n = (let r = 65536 * Suc k in
     if n \<le> 65000 \<and> al dvd 65536 \<and> k < 2 ^ 40 \<and> (\<forall>b m. L b = Some m \<longrightarrow> b + m < r) then r else NULL)"

lemma wide_libc_ok: "libc_ok wide_libc"
proof -
  have "L r = None" if "\<forall>b m. L b = Some m \<longrightarrow> b + m < r" for L :: "addr \<Rightarrow> nat option" and r
    using that by (cases "L r") force+
  moreover have "65536 * Suc k + n < 2 ^ 63" if "n \<le> 65000" "k < 2 ^ 40" for n k :: nat using that by simp
  ultimately show ?thesis unfolding libc_ok_def wide_libc_def Let_def
    by (auto simp del: mult_Suc_right simp: dvd_mult2 less_imp_le)
qed

text \<open>The state of a master with two connections to give out.\<close>

definition server_master :: server where
  "server_master = server2\<lparr>evs := \<lambda>_. event_zero, conns := \<lambda>_. connection_zero, cqueues := \<lparr>q_prev = (\<lambda>_. 0)(13 := 13), q_next = (\<lambda>_. 0)(13 := 13)\<rparr>,
     free_connections := 0, free_connection_n := 0, reusable_connections_n := 0, ep := NOFD, nevents := EPOLL_EVENTS,
     listens := \<lambda>_. listening_zero\<lparr>ls_fd := 4\<rparr>, mem := buf_ex\<lparr>live := [8 \<mapsto> 100]\<rparr>, calls := []\<rparr>"

lemma server_master_ready: "master_ready os_yes 0 server_master"
proof -
  have "static (mem server_master) g" if "g \<in> {9, 11, 12, 13}" for g
    unfolding static_def by (intro exI [of _ 8] exI [of _ 100]) (use that in \<open>auto simp: server_master_def\<close>)
  then show ?thesis
    by (simp add: master_ready_def server_master_def server2_def queue_list_def timer_window_def event_zero_def connection_zero_def unwatched_def
      listening_zero_def NOFD_def os_yes_def)
qed

lemma server_master_starts: "can_start os_yes wide_libc server_master"
proof -
  have e: "event_memory wide_libc server_master = (mem server_master, 1)" by (simp add: event_memory_def server_master_def)
  have a: "alloc wide_libc m k = (m\<lparr>mcalls := Suc (mcalls m), live := (live m)(65536 * Suc (mcalls m) \<mapsto> k)\<rparr>, 65536 * Suc (mcalls m))"
    if "k \<le> 65000" "mcalls m < 100" "\<forall>b j. live m b = Some j \<longrightarrow> b + j < 65536 * Suc (mcalls m)" for m :: bmem and k
    using that by (simp add: alloc_def libc_alloc_def wide_libc_def Let_def)
  have "tables_fit wide_libc (mem server_master) 2"
    by (simp add: tables_fit_def a server_master_def server2_def buf_ex_def pool_ex_def pmem.defs bmem.defs sizeof_connection_def sizeof_event_def)
  then show ?thesis by (simp add: can_start_def e) (simp add: os_yes_def NOFD_def server_master_def server2_def)
qed

theorem event_process_init_correct_witness:
  "\<exists>w' cs. event_process_init os_yes wide_libc (\<lambda>h ev w. None) server_master = Some (w', Returns (- 1)) \<and> length cs = 2 \<and> listen_result os_yes 0 cs w'"
proof -
  have "unat (connection_n server_master) = 2" by (simp add: server_master_def server2_def)
  with event_process_init_correct [OF wide_libc_ok server_master_ready, of "\<lambda>h ev w. None"] server_master_starts show ?thesis by auto
qed

end
