(* ===== verification/Accepted.thy ===== *)
theory Accepted
  imports Drain
begin

text \<open>
  A new connection: \<open>accept_one\<close> (the body of the loop of \<open>event_accept\<close>) together with \<open>callback\<close> of main.c. Whatever fails, the server
  invariant is kept and the new descriptor is not lost: it belongs to a connection in use, or it has been closed.
\<close>

section \<open>Changes that the invariants do not see\<close>

definition event_core :: "event \<Rightarrow> bool \<times> bool \<times> addr \<times> bool \<times> bool" where
  "event_core e = (ev_timer_set e, ev_posted e, ev_data e, ev_instance e, ev_active e)"

definition same_store :: "'a server_scheme \<Rightarrow> 'a server_scheme \<Rightarrow> bool" where
  "same_store w w' \<longleftrightarrow> cqueues w' = cqueues w \<and> files w' = files w \<and> files_n w' = files_n w
     \<and> free_connections w' = free_connections w \<and> free_connection_n w' = free_connection_n w
     \<and> reusable_queue w' = reusable_queue w \<and> reusable_connections_n w' = reusable_connections_n w
     \<and> event_timer_rbtree w' = event_timer_rbtree w \<and> event_timer_sentinel w' = event_timer_sentinel w \<and> current_msec w' = current_msec w
     \<and> equeues w' = equeues w \<and> posted_accept_events w' = posted_accept_events w \<and> posted_events w' = posted_events w \<and> ep w' = ep w"

definition like :: "'a server_scheme \<Rightarrow> 'a server_scheme \<Rightarrow> bool" where
  "like w w' \<longleftrightarrow> same_store w w' \<and> (\<forall>c. core_of (conns w' c) = core_of (conns w c)) \<and> (\<forall>e. event_core (evs w' e) = event_core (evs w e))
     \<and> (\<forall>os e. interest os e (calls w') = interest os e (calls w)) \<and> (\<exists>new. calls w' = new @ calls w)"

lemma like_refl [simp]: "like w w"
  by (simp add: like_def same_store_def)

lemma like_trans: "like w w' \<Longrightarrow> like w' w'' \<Longrightarrow> like w w''"
  by (auto simp: like_def same_store_def)

lemma like_ok:
  assumes "like w w'"
  shows "server_ok base w' cs fl rs evl xs ys = server_ok base w cs fl rs evl xs ys" "registered os w' cs fl = registered os w cs fl"
proof -
  have st: "same_store w w'" using assms by (simp add: like_def)
  let ?w = "w'\<lparr>conns := conns w\<rparr>"
  have sc: "same_core ?w (conns w')" using assms by (simp add: like_def same_core_def)
  have id: "?w\<lparr>conns := conns w'\<rparr> = w'" by simp
  have e: "ev_timer_set (evs w' a) = ev_timer_set (evs w a)" "ev_posted (evs w' a) = ev_posted (evs w a)" "ev_data (evs w' a) = ev_data (evs w a)"
    "ev_instance (evs w' a) = ev_instance (evs w a)" "ev_active (evs w' a) = ev_active (evs w a)" for a
    using assms by (simp_all add: like_def event_core_def)
  have "server_ok base ?w cs fl rs evl xs ys = server_ok base w cs fl rs evl xs ys"
    using st e by (intro server_ok_cong) (simp_all add: same_store_def same_table_def)
  then show "server_ok base w' cs fl rs evl xs ys = server_ok base w cs fl rs evl xs ys"
    using server_ok_core(1) [OF sc, of base cs fl rs evl xs ys] unfolding id by simp
  have "watched os ?w = watched os w" using assms by (simp add: watched_def like_def same_store_def)
  then have "registered os ?w cs fl = registered os w cs fl" using st e by (simp add: registered_def same_store_def)
  then show "registered os w' cs fl = registered os w cs fl"
    using server_ok_core(2) [OF sc, of os cs fl] unfolding id by simp
qed

lemma like_inv: "like w w' \<Longrightarrow> server_inv os base cs w' = server_inv os base cs w"
  by (simp add: server_inv_def like_ok)

lemma like_conn:
  assumes "like w w'"
  shows "rd w' c = rd w c" "wr w' c = wr w c" "fd_of w' c = fd_of w c" "in_use w' cs c = in_use w cs c" "free_connections w' = free_connections w"
  using assms by (simp_all add: like_def core_of_def in_use_def same_store_def)

text \<open>The changes of the accept path.\<close>

lemma like_mem [simp]: "like w (w\<lparr>mem := m\<rparr>)"
  by (simp add: like_def same_store_def)

lemma like_words [simp]: "like w (fst (fetch_add w p n))"
  by (simp add: like_def same_store_def fetch_add_def split: prod.split)

lemma like_disabled [simp]: "like w (w\<lparr>accept_disabled := d\<rparr>)"
  by (simp add: like_def same_store_def)

lemma like_call: "(\<forall>os e. interest os e (x # calls w) = interest os e (calls w)) \<Longrightarrow> like w (w\<lparr>calls := x # calls w\<rparr>)"
  by (simp add: like_def same_store_def)

lemma like_update_conn: "core_of (f (conns w c)) = core_of (conns w c) \<Longrightarrow> like w (w\<lparr>conns := (conns w)(c := f (conns w c))\<rparr>)"
  by (simp add: like_def same_store_def)

lemma like_update_event: "event_core (f (evs w e)) = event_core (evs w e) \<Longrightarrow> like w (w\<lparr>evs := (evs w)(e := f (evs w e))\<rparr>)"
  by (simp add: like_def same_store_def)

section \<open>The fate of a descriptor\<close>

text \<open>Since \<open>w0\<close>, \<open>s\<close> is the open descriptor of the connection \<open>c\<close>, which is in use, or it was closed and \<open>c\<close> is free.\<close>

definition kept_or_closed :: "'a server_scheme \<Rightarrow> 'a server_scheme \<Rightarrow> addr list \<Rightarrow> addr \<Rightarrow> u32 \<Rightarrow> bool" where
  "kept_or_closed w0 w cs c s \<longleftrightarrow> (\<exists>new. calls w = new @ calls w0
     \<and> (in_use w cs c \<and> fd_of w c = s \<and> Sys_close s \<notin> set new \<or> fd_of w c = NOFD \<and> Sys_close s \<in> set new))"

text \<open>
  A function that works on the connection \<open>c\<close> with the descriptor \<open>t\<close> alone: no other connection or event changes, and the kernel is asked neither for new descriptors nor
  to close another one.
\<close>

fun benign :: "u32 \<Rightarrow> syscall \<Rightarrow> bool" where
  "benign t (Sys_close s) = (s = t)"
| "benign t (Sys_accept s) = False"
| "benign t (Sys_socket f y) = False"
| "benign t (Sys_epoll_create n) = False"
| "benign t Sys_socketpair = False"
| "benign t x = True"

definition touches :: "addr \<Rightarrow> u32 \<Rightarrow> 'a server_scheme \<Rightarrow> 'a server_scheme \<Rightarrow> bool" where
  "touches c t w w' \<longleftrightarrow> (\<forall>d. d \<noteq> c \<longrightarrow> conns w' d = conns w d) \<and> rd w' c = rd w c \<and> wr w' c = wr w c
     \<and> (\<forall>e. e \<noteq> rd w c \<longrightarrow> e \<noteq> wr w c \<longrightarrow> evs w' e = evs w e) \<and> listens w' = listens w \<and> cycle_listening w' = cycle_listening w
     \<and> use_accept_mutex w' = use_accept_mutex w \<and> current_msec w' = current_msec w \<and> ep w' = ep w \<and> (files w' = None \<longleftrightarrow> files w = None)
     \<and> (\<exists>new. calls w' = new @ calls w \<and> list_all (benign t) new)"

lemma touches_refl [simp]: "touches c t w w"
  by (simp add: touches_def)

lemma touches_trans: "touches c t w w' \<Longrightarrow> touches c t w' w'' \<Longrightarrow> touches c t w w''"
  by (fastforce simp: touches_def)

text \<open>The descriptors that a list of calls closes, and the registrations in it that the kernel refused.\<close>

fun closes :: "syscall list \<Rightarrow> nat" where
  "closes [] = 0"
| "closes (Sys_close s # cs) = Suc (closes cs)"
| "closes (x # cs) = closes cs"

fun ctl_refusals :: "os \<Rightarrow> syscall list \<Rightarrow> nat" where
  "ctl_refusals os [] = 0"
| "ctl_refusals os (Sys_epoll_ctl e opr fd m d # cs) = (if ans_ret (os (Sys_epoll_ctl e opr fd m d # cs)) = - 1 then 1 else 0) + ctl_refusals os cs"
| "ctl_refusals os (x # cs) = ctl_refusals os cs"

text \<open>Between two histories the kernel refused \<open>k\<close> registrations, and \<open>k + n\<close> descriptors were closed.\<close>

definition paid :: "os \<Rightarrow> syscall list \<Rightarrow> syscall list \<Rightarrow> nat \<Rightarrow> bool" where
  "paid os cs cs' n \<longleftrightarrow> (\<exists>k. closes cs' = closes cs + k + n \<and> ctl_refusals os cs' = ctl_refusals os cs + k)"

lemma paid_refl [simp]: "paid os cs cs 0"
  by (simp add: paid_def)

lemma paid_trans: "paid os cs cs' 0 \<Longrightarrow> paid os cs' cs'' n \<Longrightarrow> paid os cs cs'' n"
  by (fastforce simp: paid_def)

lemma epoll_add_calls:
  "epoll_add_event os w ev event flags = Some (w', r) \<Longrightarrow> \<exists>e op fd m d. calls w' = Sys_epoll_ctl e op fd m d # calls w"
  by (fastforce simp: epoll_add_event_def sys_def upd_event_def deref_def Let_def split: Option.bind_split_asm prod.split_asm if_split_asm)

section \<open>The handler of the program\<close>

lemma add_timer_inv:
  assumes "server_inv os base cs w" and "in_use w cs c" and "timer_window base (current_msec w + t)"
  shows "\<exists>w'. event_add_timer w (rd w c) t = Some w' \<and> server_inv os base cs w' \<and> conns w' = conns w \<and> calls w' = calls w
    \<and> (\<forall>e. ev_ready (evs w' e) = ev_ready (evs w e)) \<and> posted_events w' = posted_events w \<and> touches c s w w' \<and> mem w' = mem w
    \<and> free_connection_n w' = free_connection_n w"
proof -
  from assms(1) obtain fl rs evl xs ys where s: "server_ok base w cs fl rs evl xs ys" and reg: "registered os w cs fl" unfolding server_inv_def by blast
  have c: "c \<in> busy cs fl" using assms(2) in_use_busy [OF s] by simp
  have "side w c True = rd w c" by (simp add: side_def)
  with events_busy [OF s c, of True] have e: "rd w c \<noteq> NULL" "ev_timer (rd w c) \<noteq> event_timer_sentinel w" by simp_all
  have tm: "timers base w evl" using s by (simp add: server_ok_def)
  from add_timer_keeps [OF s reg c assms(3), of True] obtain w' where w': "event_add_timer w (rd w c) t = Some w'" "server_inv os base cs w'"
    by (auto simp: keeps_inv_def side_def)
  have "w' = w \<or> (\<exists>tr. w' = w\<lparr>event_timer_rbtree := tr, evs := (evs w)(rd w c := (evs w (rd w c))\<lparr>ev_timer_set := True\<rparr>)\<rparr>)"
    using event_add_timer_ok [OF tm e assms(3) refl] w'(1) by (auto split: if_splits)
  then show ?thesis using w' by (auto simp: touches_def split: if_splits)
qed

lemma post_inv:
  assumes "server_inv os base cs w" and "in_use w cs c"
  shows "\<exists>w'. post_event w (rd w c) (posted_events w) = Some w' \<and> server_inv os base cs w' \<and> conns w' = conns w \<and> calls w' = calls w
    \<and> touches c s w w' \<and> mem w' = mem w \<and> free_connection_n w' = free_connection_n w"
proof -
  from assms(1) obtain fl rs evl xs ys where s: "server_ok base w cs fl rs evl xs ys" and reg: "registered os w cs fl" unfolding server_inv_def by blast
  have "c \<in> busy cs fl" using assms(2) in_use_busy [OF s] by simp
  with events_busy(1) [OF s this, of True] post_server_ok [OF s, of "rd w c" False os] reg show ?thesis
    by (auto simp: side_def touches_def intro: server_invI)
qed

lemma reusable_inv:
  assumes "server_inv os base cs w" and "in_use w cs c"
  shows "\<exists>w'. reusable_connection w c 1 = Some w' \<and> server_inv os base cs w' \<and> (\<forall>a. rd w' a = rd w a \<and> fd_of w' a = fd_of w a) \<and> calls w' = calls w \<and> evs w' = evs w
    \<and> touches c s w w' \<and> mem w' = mem w \<and> free_connection_n w' = free_connection_n w"
proof -
  from assms(1) obtain fl rs evl xs ys where s: "server_ok base w cs fl rs evl xs ys" and reg: "registered os w cs fl" unfolding server_inv_def by blast
  have c: "c \<in> busy cs fl" using assms(2) in_use_busy [OF s] by simp
  have st: "conn_store w cs fl rs" using s by (simp add: server_ok_def)
  from reusable_connection_ok [OF st c, of 1] obtain qs n where r: "reusable_connection w c 1 = Some (w\<lparr>cqueues := qs, reusable_connections_n := n,
      conns := (conns w)(c := (conns w c)\<lparr>c_reusable := True\<rparr>)\<rparr>)" by auto
  have "keeps_inv os base cs (reusable_connection w c 1)" by (rule reusable_keeps [OF s reg c]) simp
  then show ?thesis unfolding r keeps_inv_def by (simp add: touches_def)
qed

lemma read_event_inv:
  assumes "server_inv os base cs w" and "in_use w cs c"
  shows "\<exists>w' r. handle_read_event os w (rd w c) = Some (w', r) \<and> server_inv os base cs w' \<and> conns w' = conns w \<and> (\<exists>new. calls w' = new @ calls w \<and> (\<forall>s. Sys_close s \<notin> set new))
    \<and> touches c s w w' \<and> mem w' = mem w \<and> free_connection_n w' = free_connection_n w
    \<and> closes (calls w') = closes (calls w) \<and> ctl_refusals os (calls w') = ctl_refusals os (calls w) + (if r = 0 then 0 else 1)"
proof -
  from assms(1) obtain fl rs evl xs ys where s: "server_ok base w cs fl rs evl xs ys" and reg: "registered os w cs fl" unfolding server_inv_def by blast
  have c: "c \<in> busy cs fl" using assms(2) in_use_busy [OF s] by simp
  have n: "rd w c \<noteq> NULL" using server_facts [OF s c] by simp
  show ?thesis
  proof (cases "\<not> ev_active (evs w (rd w c)) \<and> \<not> ev_ready (evs w (rd w c))")
    case False
    then show ?thesis using n assms(1) by (auto simp: handle_read_event_def get_event_def)
  next
    case True
    have "event_side w c (rd w c) READ_EVENT" "CLEAR_EVENT AND IO_EVENTS = 0"
      by (simp_all add: event_side_def CLEAR_EVENT_def EPOLLET_def io_bits)
    from add_event_ok [OF s reg c this] obtain x w' r where a: "epoll_add_event os w (rd w c) READ_EVENT CLEAR_EVENT = Some (w', r)"
      "if ans_ret (os (x # calls w)) = - 1 then w' = called w x \<and> r = - 1 else w' = set_active (called w x) (rd w c) True \<and> r = 0"
      "server_ok base w' cs fl rs evl xs ys" "registered os w' cs fl" unfolding ctl_result_def by blast
    then have k: "conns w' = conns w" "calls w' = [x] @ calls w" "mem w' = mem w" "free_connection_n w' = free_connection_n w"
      by (auto simp: called_def set_active_def split: if_splits)
    have pd: "closes (calls w') = closes (calls w)" "ctl_refusals os (calls w') = ctl_refusals os (calls w) + (if r = 0 then 0 else 1)"
      using epoll_add_calls [OF a(1)] k(2) a(2) by (auto split: if_splits)
    have rr: "r \<noteq> - 1 \<longrightarrow> r = 0" using a(2) by (simp split: if_splits)
    have cl: "benign s x" "\<forall>s. Sys_close s \<notin> set [x]" using epoll_add_calls [OF a(1)] k(2) by auto
    then have "touches c s w w'" using a(2) by (auto simp: touches_def called_def set_active_def split: if_splits)
    then show ?thesis using True n a(1) k cl(2) pd rr server_invI [OF a(3,4)] by (intro exI [of _ w'] exI [of _ r]) (simp add: handle_read_event_def get_event_def)
  qed
qed

lemma close_inv:
  assumes "server_inv os base cs w" and "in_use w cs c"
  shows "\<exists>w'. close_connection os w c = Some w' \<and> server_inv os base cs w' \<and> calls w' = Sys_close (fd_of w c) # calls w
    \<and> touches c (fd_of w c) w w' \<and> mem w' = mem w \<and> free_connection_n w' = free_connection_n w + 1 \<and> fd_of w' c = NOFD"
proof -
  from assms(1) obtain fl rs evl xs ys where s: "server_ok base w cs fl rs evl xs ys" and reg: "registered os w cs fl" unfolding server_inv_def by blast
  have c: "c \<in> busy cs fl" using assms(2) in_use_busy [OF s] by simp
  have "free_connection_n w = of_nat (length fl)" using s by (simp add: server_ok_def conn_store_def free_ok_def)
  with close_connection_ok [OF s c, of os] close_keeps [OF s reg, of c] c show ?thesis
    by (auto simp: keeps_inv_def closed_state_def touches_def)
qed

text \<open>With the accept mutex in use, as in this program, \<open>callback\<close> keeps the invariant and the descriptor.\<close>

lemma callback_ok:
  assumes inv: "server_inv os base cs w" and c: "in_use w cs c" and lp: "c_listening (conns w c) \<noteq> NULL" and m: "use_accept_mutex w"
    and t: "timer_window base (current_msec w + ls_post_accept_timeout (listens w (c_listening (conns w c))))"
  shows "\<exists>w'. callback os call w c = Some w' \<and> server_inv os base cs w' \<and> kept_or_closed w w' cs c (fd_of w c)
    \<and> touches c (fd_of w c) w w' \<and> mem w' = mem w \<and> (free_connection_n w' = free_connection_n w \<or> free_connection_n w' = free_connection_n w + 1)
    \<and> paid os (calls w) (calls w') 0"
proof -
  let ?t = "ls_post_accept_timeout (listens w (c_listening (conns w c)))"
  from inv obtain fl rs evl xs ys where s: "server_ok base w cs fl rs evl xs ys" unfolding server_inv_def by blast
  have b: "c \<in> busy cs fl" using c in_use_busy [OF s] by simp
  note n = server_facts [OF s b]
  define w1 where "w1 = w\<lparr>evs := (evs w)(rd w c := (evs w (rd w c))\<lparr>ev_handler := MYREAD\<rparr>, wr w c := (evs w (wr w c))\<lparr>ev_handler := MYWRITE\<rparr>)\<rparr>"
  have l1: "like w w1" by (simp add: like_def same_store_def w1_def event_core_def)
  have i1: "server_inv os base cs w1" "in_use w1 cs c" using inv c like_inv [OF l1] like_conn [OF l1] by simp_all
  have k1: "rd w1 c = rd w c" "conns w1 = conns w" "calls w1 = calls w" "listens w1 = listens w" "current_msec w1 = current_msec w"
    "use_accept_mutex w1" "ev_ready (evs w1 (rd w c)) = ev_ready (evs w (rd w c))" using m n by (simp_all add: w1_def)
  have t1: "touches c (fd_of w c) w w1" "mem w1 = mem w" "free_connection_n w1 = free_connection_n w" by (simp_all add: touches_def w1_def)
  from add_timer_inv [OF i1, of ?t "fd_of w c"] t k1 obtain w2 where w2: "event_add_timer w1 (rd w c) ?t = Some w2" "server_inv os base cs w2"
    "conns w2 = conns w" "calls w2 = calls w" "ev_ready (evs w2 (rd w c)) = ev_ready (evs w (rd w c))" "posted_events w2 = posted_events w1"
    "touches c (fd_of w c) w1 w2" "mem w2 = mem w1" "free_connection_n w2 = free_connection_n w1" by auto
  have t2: "touches c (fd_of w c) w w2" "mem w2 = mem w" "free_connection_n w2 = free_connection_n w"
    using touches_trans [OF t1(1) w2(7)] w2(8,9) t1(2,3) by simp_all
  have i2: "in_use w2 cs c" using c w2(3) by (simp add: in_use_def)
  have eq: "callback os call w c = (if ev_ready (evs w (rd w c)) then post_event w2 (rd w c) (posted_events w2)
      else do { v \<leftarrow> reusable_connection w2 c 1; (v, rc) \<leftarrow> handle_read_event os v (rd w c); if rc \<noteq> 0 then close_connection os v c else Some v })"
  proof -
    have "upd_event w (rd w c) (\<lambda>e. e\<lparr>ev_handler := MYREAD\<rparr>) = Some (w\<lparr>evs := (evs w)(rd w c := (evs w (rd w c))\<lparr>ev_handler := MYREAD\<rparr>)\<rparr>)"
      "upd_event (w\<lparr>evs := (evs w)(rd w c := (evs w (rd w c))\<lparr>ev_handler := MYREAD\<rparr>)\<rparr>) (wr w c) (\<lambda>e. e\<lparr>ev_handler := MYWRITE\<rparr>) = Some w1"
      using n by (simp_all add: upd_event_def w1_def)
    moreover have "get_conn w c = Some (conns w c)" "get_event w1 (rd w c) = Some (evs w1 (rd w c))"
      "get_ls w1 (c_listening (conns w c)) = Some (listens w (c_listening (conns w c)))"
      using n lp k1(4) by (simp_all add: get_conn_def get_event_def get_ls_def)
    ultimately show ?thesis using k1(6,7) w2(1) by (simp add: callback_def Let_def)
  qed
  show ?thesis
  proof (cases "ev_ready (evs w (rd w c))")
    case True
    from post_inv [OF w2(2) i2, of "fd_of w c"] w2(3) obtain w' where w': "post_event w2 (rd w c) (posted_events w2) = Some w'" "server_inv os base cs w'"
      "conns w' = conns w" "calls w' = calls w" "touches c (fd_of w c) w2 w'" "mem w' = mem w2" "free_connection_n w' = free_connection_n w2" using w2(4) by auto
    have "in_use w' cs c" "fd_of w' c = fd_of w c" using c w'(3) by (simp_all add: in_use_def)
    then show ?thesis using eq True w' touches_trans [OF t2(1) w'(5)] t2 by (auto simp: kept_or_closed_def)
  next
    case False
    from reusable_inv [OF w2(2) i2, of "fd_of w c"] obtain w3 where w3: "reusable_connection w2 c 1 = Some w3" "server_inv os base cs w3"
      "rd w3 c = rd w c" "fd_of w3 c = fd_of w c" "calls w3 = calls w"
      "touches c (fd_of w c) w2 w3" "mem w3 = mem w2" "free_connection_n w3 = free_connection_n w2" using w2(3,4) by auto
    have i3: "in_use w3 cs c" using c w3(4) by (simp add: in_use_def)
    from read_event_inv [OF w3(2) i3, of "fd_of w c"] w3(3) obtain w4 r new where w4: "handle_read_event os w3 (rd w c) = Some (w4, r)" "server_inv os base cs w4"
      "conns w4 = conns w3" "calls w4 = new @ calls w" "\<forall>s. Sys_close s \<notin> set new" "touches c (fd_of w c) w3 w4" "mem w4 = mem w3" "free_connection_n w4 = free_connection_n w3"
      "closes (calls w4) = closes (calls w)" "ctl_refusals os (calls w4) = ctl_refusals os (calls w) + (if r = 0 then 0 else 1)" using w3(5) by auto
    have t4: "touches c (fd_of w c) w w4" "mem w4 = mem w" "free_connection_n w4 = free_connection_n w"
      using touches_trans [OF touches_trans [OF t2(1) w3(6)] w4(6)] w3(7,8) w4(7,8) t2(2,3) by simp_all
    have i4: "in_use w4 cs c" "fd_of w4 c = fd_of w c" using i3 w3(4) w4(3) by (simp_all add: in_use_def)
    show ?thesis
    proof (cases "r = 0")
      case True
      then have "callback os call w c = Some w4" using eq False w3(1) w4(1) by simp
      moreover have "paid os (calls w) (calls w4) 0" using w4(9,10) True by (simp add: paid_def)
      ultimately show ?thesis using w4(2,4,5) i4 t4 by (auto simp: kept_or_closed_def)
    next
      case r: False
      from close_inv [OF w4(2) i4(1)] obtain w5 where w5: "close_connection os w4 c = Some w5" "server_inv os base cs w5"
        "calls w5 = Sys_close (fd_of w c) # calls w4" "touches c (fd_of w c) w4 w5" "mem w5 = mem w4"
        "free_connection_n w5 = free_connection_n w4 + 1" "fd_of w5 c = NOFD" using i4(2) by auto
      then have "kept_or_closed w w5 cs c (fd_of w c)" unfolding kept_or_closed_def
        by (intro exI [of _ "Sys_close (fd_of w c) # new"]) (simp add: w4(4) w5(7))
      moreover have "paid os (calls w) (calls w5) 0" using w4(9,10) r w5(3) by (simp add: paid_def)
      moreover have "callback os call w c = Some w5" using eq False r w3(1) w4(1) w5(1) by simp
      ultimately show ?thesis using w5(2,5,6) touches_trans [OF t4(1) w5(4)] t4(2,3) by auto
    qed
  qed
qed

section \<open>Giving a connection back\<close>

text \<open>The error exits: a connection that was just taken, with no event active, pending or posted.\<close>

definition unused :: "'a server_scheme \<Rightarrow> addr \<Rightarrow> addr list \<Rightarrow> addr list \<Rightarrow> addr list \<Rightarrow> addr list \<Rightarrow> bool" where
  "unused w c rs evl xs ys \<longleftrightarrow> c \<notin> set rs \<and> {rd w c, wr w c} \<inter> (set evl \<union> set xs \<union> set ys) = {} \<and> \<not> active_rd w c \<and> \<not> active_wr w c"

lemma close_accepted_ok:
  assumes s: "server_ok base w cs fl rs evl xs ys" and reg: "registered os w cs fl" and c: "c \<in> busy cs fl" and u: "unused w c rs evl xs ys"
    and p: "c_pool (conns w c) = NULL \<or> (\<exists>psize bs ls. pool_ok (mem w) (c_pool (conns w c)) psize bs ls)" and m: "mem_ok (mem w)"
  shows "\<exists>w'. close_accepted_connection os w c = Some w' \<and> server_inv os base cs w' \<and> calls w' = Sys_close (fd_of w c) # calls w \<and> mem_ok (mem w')
    \<and> touches c (fd_of w c) w w' \<and> free_connection_n w' = free_connection_n w + 1 \<and> fd_of w' c = NOFD
    \<and> (c_pool (conns w c) = NULL \<longrightarrow> mem w' = mem w)"
proof -
  have st: "conn_store w cs fl rs" using s by (simp add: server_ok_def)
  have cr: "c \<notin> set rs" using u by (simp add: unused_def)
  note n = server_facts [OF s c]
  let ?fr = "w\<lparr>conns := (conns w)(c := (conns w c)\<lparr>c_data := free_connections w\<rparr>), free_connections := c,
     free_connection_n := of_nat (Suc (length fl)), files := map_option (\<lambda>f. f(fd_of w c := NULL)) (files w)\<rparr>"
  define w1 where "w1 = w\<lparr>conns := (conns w)(c := (conns w c)\<lparr>c_data := free_connections w, c_fd := NOFD\<rparr>), free_connections := c,
     free_connection_n := of_nat (Suc (length fl)), files := map_option (\<lambda>f. f(fd_of w c := NULL)) (files w)\<rparr>"
  from free_connection_ok [OF st c cr] have fr: "free_connection w c = Some ?fr" and st1: "conn_store w1 cs (c # fl) rs" unfolding w1_def by blast+
  have k: "rd w1 a = rd w a" "wr w1 a = wr w a" "evs w1 = evs w" "a \<noteq> c \<Longrightarrow> fd_of w1 a = fd_of w a" "fd_of w1 c = NOFD" "calls w1 = calls w" "ep w1 = ep w" for a
    by (simp_all add: w1_def)
  have s1: "server_ok base w1 cs (c # fl) rs evl xs ys"
  proof -
    have "timers base w1 evl = timers base w evl" by (rule timers_cong) (simp_all add: w1_def)
    moreover have "posted w1 q xs q' ys = posted w q xs q' ys" for q q' by (rule posted_cong) (simp_all add: w1_def)
    moreover have "events_of w1 A = events_of w A" for A by (simp add: events_of_def k)
    moreover have "set evl \<union> set xs \<union> set ys \<subseteq> events_of w (busy cs (c # fl))"
    proof
      fix e assume e: "e \<in> set evl \<union> set xs \<union> set ys"
      then obtain a where a: "a \<in> busy cs fl" "e = rd w a \<or> e = wr w a" using s by (auto simp: server_ok_def events_of_def)
      then have "a \<noteq> c" using e u by (auto simp: unused_def)
      then show "e \<in> events_of w (busy cs (c # fl))" using a by (auto simp: events_of_def)
    qed
    ultimately show ?thesis using s st1 by (auto simp: server_ok_def events_ok_def heads_ok_def k) (simp_all add: w1_def)
  qed
  define w2 where "w2 = sys_ignore os (Sys_close (fd_of w c)) w1"
  have w2: "w2 = w1\<lparr>calls := Sys_close (fd_of w c) # calls w\<rparr>" by (simp add: w2_def sys_ignore_def sys_def k)
  have s2: "server_ok base w2 cs (c # fl) rs evl xs ys" using s1 unfolding w2 by (subst server_ok_cong [of w1]) (simp_all add: same_table_def)
  have r2: "registered os w2 cs (c # fl)"
  proof -
    have epf: "fd_of w c \<noteq> ep w" using reg imageI [OF c, of "fd_of w"] unfolding registered_def by metis
    have k2: "rd w2 a = rd w a" "wr w2 a = wr w a" "evs w2 = evs w" "a \<noteq> c \<Longrightarrow> fd_of w2 a = fd_of w a" "ep w2 = ep w" for a
      by (simp_all add: w2 k)
    have wt: "watched os w2 = (watched os w)(fd_of w c := None)" using epf by (simp add: watched_def w2 k)
    have im: "fd_of w2 ` busy cs (c # fl) = fd_of w ` busy cs (c # fl)" by (rule image_cong) (simp_all add: k2(4))
    have b: "busy cs fl = insert c (busy cs (c # fl))" using c by auto
    have ne: "fd_of w a \<noteq> fd_of w c" if "a \<in> busy cs (c # fl)" for a using n(2) c that by (auto dest: inj_onD)
    show ?thesis
      unfolding registered_def wt im k2(5)
    proof (intro conjI ballI allI impI)
      fix a assume "a \<in> busy cs (c # fl)"
      then show "watch_ok a (inst_of w2 a) (active_rd w2 a) (active_wr w2 a) (((watched os w)(fd_of w c := None)) (fd_of w2 a))"
        using reg ne [of a] by (simp add: k2 registered_def)
    next
      fix fd assume "fd \<notin> fd_of w ` busy cs (c # fl)"
      then show "((watched os w)(fd_of w c := None)) fd = None" using reg unfolding b registered_def by auto
    next
      show "ep w \<notin> fd_of w ` busy cs (c # fl)" using reg unfolding b registered_def by auto
    qed
  qed
  have mw: "mem w2 = mem w" by (simp add: w2 w1_def)
  obtain m' where m': "(if c_pool (conns w c) \<noteq> NULL then do { m \<leftarrow> destroy_pool (mem w2) (c_pool (conns w c)); Some (w2\<lparr>mem := m\<rparr>) } else Some w2)
      = Some (w2\<lparr>mem := m'\<rparr>)" "mem_ok m'" "c_pool (conns w c) = NULL \<longrightarrow> m' = mem w"
  proof (cases "c_pool (conns w c) = NULL")
    case True
    then show ?thesis using that [of "mem w2"] m by (simp add: mw)
  next
    case False
    then obtain psize bs ls where "pool_ok (mem w) (c_pool (conns w c)) psize bs ls" using p by auto
    from destroy_pool_ok [OF this] have d: "destroy_pool (mem w2) (c_pool (conns w c)) = Some ((mem w)\<lparr>live := live (mem w) |` (- (set bs \<union> larges (mem w) ls))\<rparr>)"
      by (simp add: mw)
    have mo: "mem_ok ((mem w)\<lparr>live := live (mem w) |` A\<rparr>)" for A
      using m by (simp add: mem_ok_def restrict_map_def)
    show ?thesis
      by (rule that [of "(mem w)\<lparr>live := live (mem w) |` (- (set bs \<union> larges (mem w) ls))\<rparr>"]) (simp_all add: False d mo)
  qed
  let ?w = "fst (fetch_add (w2\<lparr>mem := m'\<rparr>) (stat_active w) (- 1))"
  have "close_accepted_connection os w c = Some ?w"
  proof -
    have "upd_conn ?fr c (\<lambda>k. k\<lparr>c_fd := NOFD\<rparr>) = Some w1" "get_conn ?fr c = Some ((conns w c)\<lparr>c_data := free_connections w\<rparr>)"
      using n by (simp_all add: upd_conn_def get_conn_def w1_def)
    then have "close_accepted_connection os w c = do {
        w \<leftarrow> (if c_pool (conns w c) \<noteq> NULL then do { m \<leftarrow> destroy_pool (mem w2) (c_pool (conns w c)); Some (w2\<lparr>mem := m\<rparr>) } else Some w2);
        Some (fst (fetch_add w (stat_active w) (- 1))) }"
      by (simp add: close_accepted_connection_def fr Let_def w2_def cong: if_cong)
    moreover have "stat_active (w2\<lparr>mem := m'\<rparr>) = stat_active w" by (simp add: w2 w1_def)
    ultimately show ?thesis using m'(1) by simp
  qed
  moreover have "like w2 ?w" using like_trans [OF like_mem like_words] .
  then have "server_inv os base cs ?w" using server_invI [OF s2 r2] like_inv by blast
  moreover have "calls ?w = Sys_close (fd_of w c) # calls w" "mem_ok (mem ?w)" "c_pool (conns w c) = NULL \<longrightarrow> mem ?w = mem w" using m'(2,3) by (simp_all add: fetch_add_def w2 split: prod.split)
  moreover have "free_connection_n w = of_nat (length fl)" using st by (simp add: conn_store_def free_ok_def)
  then have "touches c (fd_of w c) w ?w" "free_connection_n ?w = free_connection_n w + 1" "fd_of ?w c = NOFD"
    by (simp_all add: touches_def fetch_add_def atomic_fetch_add_def w2 w1_def)
  ultimately show ?thesis by (intro exI [of _ ?w] conjI)
qed

section \<open>The body of the loop\<close>

text \<open>Everything between \<open>get_connection\<close> and the handler leaves the invariants alone; \<open>mid w w'\<close> says so of two states on the way.\<close>

definition mid :: "addr \<Rightarrow> u32 \<Rightarrow> 'a server_scheme \<Rightarrow> 'a server_scheme \<Rightarrow> bool" where
  "mid c t w w' \<longleftrightarrow> like w w' \<and> touches c t w w'"

lemma mid_refl [simp]: "mid c t w w"
  by (simp add: mid_def)

lemma midI: "mid c t w w' \<Longrightarrow> like w' w'' \<Longrightarrow> touches c t w' w'' \<Longrightarrow> mid c t w w''"
  unfolding mid_def by (blast intro: like_trans touches_trans)

lemma mid_free: "mid c t w w' \<Longrightarrow> free_connection_n w' = free_connection_n w"
  by (simp add: mid_def like_def same_store_def)

lemma mid_steps:
  "mid c t w w' \<Longrightarrow> mid c t w (w'\<lparr>mem := m\<rparr>)" "mid c t w w' \<Longrightarrow> mid c t w (fst (fetch_add w' p n))"
  "mid c t w w' \<Longrightarrow> core_of (f (conns w' c)) = core_of (conns w' c) \<Longrightarrow> mid c t w (w'\<lparr>conns := (conns w')(c := f (conns w' c))\<rparr>)"
  "mid c t w w' \<Longrightarrow> event_core (g (evs w' e)) = event_core (evs w' e) \<Longrightarrow> e = rd w c \<or> e = wr w c \<Longrightarrow> mid c t w (w'\<lparr>evs := (evs w')(e := g (evs w' e))\<rparr>)"
  "mid c t w w' \<Longrightarrow> mid c t w (called w' (Sys_fcntl_getfl s))" "mid c t w w' \<Longrightarrow> mid c t w (called w' (Sys_fcntl_setfl s v))"
proof -
  assume m: "mid c t w w'"
  then have rw: "rd w' c = rd w c" "wr w' c = wr w c" by (simp_all add: mid_def touches_def)
  show "mid c t w (w'\<lparr>mem := m\<rparr>)" by (rule midI [OF m like_mem]) (simp add: touches_def)
  show "mid c t w (fst (fetch_add w' p n))" by (rule midI [OF m like_words]) (simp add: touches_def fetch_add_def split: prod.split)
  show "mid c t w (called w' (Sys_fcntl_getfl s))" "mid c t w (called w' (Sys_fcntl_setfl s v))"
    unfolding called_def by (rule midI [OF m like_call]; simp add: touches_def)+
  show "mid c t w (w'\<lparr>conns := (conns w')(c := f (conns w' c))\<rparr>)" if "core_of (f (conns w' c)) = core_of (conns w' c)"
    using that by (intro midI [OF m like_update_conn]) (simp_all add: touches_def core_of_def)
  show "mid c t w (w'\<lparr>evs := (evs w')(e := g (evs w' e))\<rparr>)" if "event_core (g (evs w' e)) = event_core (evs w' e)" "e = rd w c \<or> e = wr w c"
    using that rw by (intro midI [OF m like_update_event]) (auto simp add: touches_def)
qed

lemma mid_close:
  assumes s: "server_ok base w cs fl rs evl xs ys" and reg: "registered os w cs fl" and c: "c \<in> busy cs fl" and u: "unused w c rs evl xs ys"
    and t: "fd_of w c = t" and m: "mid c t w v" "mem_ok (mem v)" and p: "c_pool (conns v c) = NULL \<or> (\<exists>psize bs ls. pool_ok (mem v) (c_pool (conns v c)) psize bs ls)"
  shows "\<exists>w'. close_accepted_connection os v c = Some w' \<and> server_inv os base cs w' \<and> calls w' = Sys_close t # calls v
    \<and> mem_ok (mem w') \<and> touches c t w w' \<and> free_connection_n w' = free_connection_n w + 1 \<and> fd_of w' c = NOFD
    \<and> (c_pool (conns v c) = NULL \<longrightarrow> mem w' = mem v)"
proof -
  have l: "like w v" using m(1) by (simp add: mid_def)
  note k = like_conn [OF l]
  have "\<forall>e. event_core (evs v e) = event_core (evs w e)" using l by (simp add: like_def)
  then have "ev_active (evs v e) = ev_active (evs w e)" for e by (simp add: event_core_def)
  then have "unused v c rs evl xs ys" using u by (simp add: unused_def k)
  with close_accepted_ok [of base v cs fl rs evl xs ys os c] s reg c p m(2) obtain w' where w': "close_accepted_connection os v c = Some w'"
    "server_inv os base cs w'" "calls w' = Sys_close t # calls v" "mem_ok (mem w')" "touches c t v w'"
    "free_connection_n w' = free_connection_n v + 1" "fd_of w' c = NOFD" "c_pool (conns v c) = NULL \<longrightarrow> mem w' = mem v" by (auto simp: like_ok [OF l] k t)
  then show ?thesis using m(1) mid_free [OF m(1)] touches_trans unfolding mid_def by metis
qed

lemma fetch_add_fields [simp]: "conns (fst (fetch_add w p n)) = conns w" "evs (fst (fetch_add w p n)) = evs w" "mem (fst (fetch_add w p n)) = mem w"
  "calls (fst (fetch_add w p n)) = calls w" "current_msec (fst (fetch_add w p n)) = current_msec w" "listens (fst (fetch_add w p n)) = listens w"
  "use_accept_mutex (fst (fetch_add w p n)) = use_accept_mutex w"
  by (simp_all add: fetch_add_def split: prod.split)

text \<open>The assignments between the two \<open>fcntl\<close> calls and the handler.\<close>

definition set_up :: "addr \<Rightarrow> addr \<Rightarrow> addr \<Rightarrow> listening \<Rightarrow> u32 \<Rightarrow> 'a server_scheme \<Rightarrow> 'a server_scheme option" where
  "set_up ev c lp ls socklen w = do {
     w \<leftarrow> upd_conn w c (\<lambda>k. k\<lparr>c_recv := POSIX_RECV, c_send := POSIX_SEND, c_socklen := socklen, c_listening := lp,
       c_local_sockaddr := ls_sockaddr ls, c_local_socklen := ls_socklen ls\<rparr>);
     k \<leftarrow> get_conn w c;
     w \<leftarrow> upd_event w (c_write k) (\<lambda>e. e\<lparr>ev_ready := True\<rparr>);
     e \<leftarrow> get_event w ev;
     w \<leftarrow> (if ev_deferred_accept e then upd_event w (c_read k) (\<lambda>e. e\<lparr>ev_ready := True, ev_available := True\<rparr>) else Some w);
     let (w, n) = fetch_add w (connection_counter w) 1;
     w \<leftarrow> upd_conn w c (\<lambda>k. k\<lparr>c_number := n\<rparr>);
     Some (fst (fetch_add w (stat_handled w) 1)) }"

definition getfl_flags :: "os \<Rightarrow> u32 \<Rightarrow> 'a server_scheme \<Rightarrow> u32" where
  "getfl_flags os t w = (let r = ans_ret (os (Sys_fcntl_getfl t # calls w)) in if r = - 1 then 0 else word_of_int r)"

lemma set_up_ok:
  assumes m: "mid c t w v" and n: "rd w c \<noteq> NULL" "wr w c \<noteq> NULL" and ev: "ev \<noteq> NULL" and c: "c \<noteq> NULL"
  shows "\<exists>v'. set_up ev c lp ls sl v = Some v' \<and> mid c t w v' \<and> calls v' = calls v \<and> c_listening (conns v' c) = lp \<and> mem v' = mem v"
proof -
  have up: "upd_conn v c f = Some (v\<lparr>conns := (conns v)(c := f (conns v c))\<rparr>)" "get_conn v c = Some (conns v c)" for v f
    using c by (simp_all add: upd_conn_def get_conn_def)
  have ue: "e \<noteq> NULL \<Longrightarrow> upd_event v e f = Some (v\<lparr>evs := (evs v)(e := f (evs v e))\<rparr>)" for v e f by (simp add: upd_event_def)
  let ?f = "\<lambda>k. k\<lparr>c_recv := POSIX_RECV, c_send := POSIX_SEND, c_socklen := sl, c_listening := lp, c_local_sockaddr := ls_sockaddr ls, c_local_socklen := ls_socklen ls\<rparr>"
  let ?g = "\<lambda>e. e\<lparr>ev_ready := True\<rparr>" and ?h = "\<lambda>e. e\<lparr>ev_ready := True, ev_available := True\<rparr>"
  define v1 where "v1 = v\<lparr>conns := (conns v)(c := ?f (conns v c))\<rparr>"
  have m1: "mid c t w v1" unfolding v1_def using m by (rule mid_steps) (simp add: core_of_def)
  have rw: "c_read (conns v1 c) = rd w c" "c_write (conns v1 c) = wr w c" using m1 by (simp_all add: mid_def touches_def)
  define v2 where "v2 = v1\<lparr>evs := (evs v1)(wr w c := ?g (evs v1 (wr w c)))\<rparr>"
  have m2: "mid c t w v2" unfolding v2_def using m1 by (rule mid_steps) (simp_all add: event_core_def)
  define v3 where "v3 = (if ev_deferred_accept (evs v2 ev) then v2\<lparr>evs := (evs v2)(rd w c := ?h (evs v2 (rd w c)))\<rparr> else v2)"
  have m3: "mid c t w v3" unfolding v3_def using mid_steps(4) [OF m2, of ?h "rd w c"] m2 by (simp add: event_core_def)
  define v4 where "v4 = fst (fetch_add v3 (connection_counter v3) 1)"
  have m4: "mid c t w v4" unfolding v4_def using m3 by (rule mid_steps)
  let ?n = "snd (fetch_add v3 (connection_counter v3) 1)"
  define v5 where "v5 = v4\<lparr>conns := (conns v4)(c := (conns v4 c)\<lparr>c_number := ?n\<rparr>)\<rparr>"
  have m5: "mid c t w v5" unfolding v5_def using m4 by (rule mid_steps) (simp add: core_of_def)
  have weq: "set_up ev c lp ls sl v = Some (fst (fetch_add v5 (stat_handled v5) 1))"
    using n ev by (simp add: set_up_def up v1_def [symmetric] rw ue v2_def [symmetric] get_event_def v3_def v4_def v5_def split_beta)
  have wm: "mid c t w (fst (fetch_add v5 (stat_handled v5) 1))" using m5 by (rule mid_steps)
  have "conns v3 = conns v1" "calls v3 = calls v" by (simp_all add: v3_def v2_def) (simp_all add: v1_def)
  moreover have "mem v5 = mem v" by (simp add: v5_def v4_def v3_def v2_def) (simp add: v1_def)
  ultimately have "calls v5 = calls v" "c_listening (conns v5 c) = lp" "mem v5 = mem v" by (simp_all add: v5_def v4_def) (simp_all add: v1_def)
  then show ?thesis using weq wm by simp
qed

lemma mem_ok_same: "live s' = live s \<Longrightarrow> mem_ok s' = mem_ok s"
  by (simp add: mem_ok_def)

text \<open>The address of the peer always fits in a fresh pool.\<close>

lemma fresh_pool_serves:
  assumes lok: "libc_ok libc" and mo: "mem_ok s" and sz: "MIN_POOL_SIZE \<le> sz" "8 dvd sz" and n: "n \<le> 16"
    and cp: "create_pool libc s sz = (m, p)" "p \<noteq> NULL"
  shows "palloc libc m p n = Some (m\<lparr>d_last := (d_last m)(p := p + 56 + n)\<rparr>, p + 56)"
proof -
  from create_pool_ok [OF lok mo sz] cp have ok: "pool_ok m p sz [p] []" and lv: "live m = (live s)(p \<mapsto> sz)" by auto
  have "mem_ok m" using ok by (simp add: pool_ok_def)
  then have lt: "p + sz < 2 ^ 63" using lv unfolding mem_ok_def by simp
  have u: "usub sz sizeof_pool = sz - sizeof_pool" using sz lt by (intro usub_le) (simp_all add: MIN_POOL_SIZE_eq sizeof_pool_def)
  have f: "p_current m p = p" "d_last m p = p + 56" "d_end m p = p + sz"
    "p_max m p = (if sz - 56 < MAX_ALLOC_FROM_POOL then sz - 56 else MAX_ALLOC_FROM_POOL)"
    using cp u by (auto simp: create_pool_def memalign_def Let_def sizeof_pool_def split: prod.splits if_splits)
  have "16 dvd p"
    using libc_alloc_ok [OF lok mo, of 16 sz] cp by (auto simp: create_pool_def memalign_def POOL_ALIGNMENT_def Let_def split: if_splits)
  then have "8 dvd p" using dvd_trans [of 8 16 p] by simp
  then have "8 dvd d_last m p" using f(2) by simp
  moreover have "n \<le> p_max m p" using n sz(1) unfolding f(4) MIN_POOL_SIZE_eq MAX_ALLOC_FROM_POOL_def by simp linarith
  moreover have "d_last m p + n \<le> d_end m p" using n sz(1) by (simp add: f MIN_POOL_SIZE_eq)
  ultimately show ?thesis using palloc_here [OF ok f(1)] unfolding f(2) by blast
qed

lemma accept_one_ok:
  assumes s: "server_ok base w cs (c # fl) rs evl xs ys" and reg: "registered os w cs (c # fl)" and fd: "new_fd w cs (c # fl) t" "t \<noteq> ep w"
    and lok: "libc_ok libc" and m0: "mem_ok (mem w)" and ev: "ev \<noteq> NULL" and lp: "lp \<noteq> NULL" "ls_handler (listens w lp) = CALLBACK"
    and ps: "MIN_POOL_SIZE \<le> unat (ls_pool_size (listens w lp))" "8 dvd unat (ls_pool_size (listens w lp))"
    and mx: "use_accept_mutex w" and tw: "timer_window base (current_msec w + ls_post_accept_timeout (listens w lp))"
  shows "\<exists>w' go. accept_one os libc call (run_callback os libc) w ev lp t socklen sa = Some (w', go) \<and> server_inv os base cs w'
    \<and> kept_or_closed w w' cs c t \<and> go = (\<not> refused libc (mem w) [(16, unat (ls_pool_size (listens w lp)))])
    \<and> (\<not> go \<longrightarrow> calls w' = Sys_close t # calls w \<and> mem w' = (mem w)\<lparr>mcalls := Suc (mcalls (mem w))\<rparr>) \<and> mem_ok (mem w') \<and> touches c t w w'
    \<and> (free_connection_n w' = free_connection_n w - 1 \<or> free_connection_n w' = free_connection_n w)
    \<and> mcalls (mem w) \<le> mcalls (mem w') \<and> paid os (calls w) (calls w') (if go then 0 else 1)"
proof -
  define w0 where "w0 = w\<lparr>accept_disabled := connection_n w div 8 - free_connection_n w\<rparr>"
  define wA where "wA = fst (fetch_add w0 (stat_accepted w0) 1)"
  have lA: "like w wA" unfolding wA_def w0_def by (rule like_trans [OF like_disabled like_words])
  have sA: "server_ok base wA cs (c # fl) rs evl xs ys" "registered os wA cs (c # fl)" using s reg like_ok [OF lA] by simp_all
  have kA: "conns wA = conns w" "files wA = files w" "files_n wA = files_n w" "ep wA = ep w" "listens wA = listens w" "mem wA = mem w" "calls wA = calls w"
    "use_accept_mutex wA = use_accept_mutex w" "current_msec wA = current_msec w"
    using lA by (simp_all add: like_def same_store_def wA_def) (simp_all add: w0_def)
  have fdA: "new_fd wA cs (c # fl) t" "t \<noteq> ep wA" using fd by (simp_all add: new_fd_def kA)
  have st: "conn_store wA cs (c # fl) rs" using sA by (simp add: server_ok_def)
  define w1 where "w1 = taken wA c fl t"
  note g = get_connection_free(1) [OF st fdA(1), of call, folded w1_def]
  have s1: "server_ok base w1 cs fl rs evl xs ys" "registered os w1 cs fl"
    unfolding w1_def by (rule taken_server_ok [OF sA(1) fdA(1)], rule taken_registered [OF sA fdA])
  have c: "c \<in> busy cs fl" "c \<noteq> NULL" using st by (auto simp: conn_store_def free_ok_def)
  have k1: "fd_of w1 c = t" "calls w1 = calls w" "mem w1 = mem w" "listens w1 = listens w" "use_accept_mutex w1" "current_msec w1 = current_msec w"
    using mx by (simp_all add: w1_def kA) (simp_all add: taken_def Let_def kA)
  have "free_connection_n wA = of_nat (Suc (length fl))" using st by (simp add: conn_store_def free_ok_def)
  moreover have "free_connection_n wA = free_connection_n w" using lA by (simp add: like_def same_store_def)
  ultimately have f1: "free_connection_n w1 = free_connection_n w - 1" by (simp add: w1_def taken_def Let_def)
  have "touches c t w wA" by (simp add: touches_def kA) (simp add: wA_def w0_def fetch_add_def split: prod.split)
  moreover have "touches c t wA w1" by (simp add: touches_def w1_def) (simp add: taken_def Let_def)
  ultimately have t1: "touches c t w w1" by (rule touches_trans)
  note n1 = server_facts [OF s1(1) c(1)]
  have un: "unused w1 c rs evl xs ys"
  proof -
    have b: "c \<in> set cs" "set cs \<subseteq> insert c (busy cs (c # fl)) \<union> set fl" "set rs \<subseteq> busy cs (c # fl)" "set evl \<union> set xs \<union> set ys \<subseteq> events_of w (busy cs (c # fl))"
      "nodes_ok w cs" using s by (auto simp: server_ok_def conn_store_def free_ok_def)
    have "rd w c \<notin> events_of w (busy cs (c # fl)) \<and> wr w c \<notin> events_of w (busy cs (c # fl))"
      using b(1,5) unfolding events_of_def nodes_ok_def by (simp add: image_iff) (metis DiffE insertI1 list.set(2))
    moreover have "rd w1 c = rd w c" "wr w1 c = wr w c" by (simp_all add: w1_def kA)
    ultimately show ?thesis using b(3,4) n1 by (auto simp: unused_def) (simp_all add: w1_def kA event_zero_def)
  qed
  let ?ls = "listens w lp"
  define w2 where "w2 = w1\<lparr>conns := (conns w1)(c := (conns w1 c)\<lparr>c_type := SOCK_STREAM\<rparr>)\<rparr>"
  define w3 where "w3 = fst (fetch_add w2 (stat_active w2) 1)"
  have m3: "mid c t w1 w3" unfolding w3_def w2_def by (intro mid_steps mid_refl) (simp add: core_of_def)
  have k3: "mem w3 = mem w" "calls w3 = calls w" "conns w3 c = (conns w1 c)\<lparr>c_type := SOCK_STREAM\<rparr>" "listens w3 = listens w" "evs w3 = evs w1"
    by (simp_all add: w3_def) (simp_all add: w2_def k1)
  obtain m pool where cp: "create_pool libc (mem w) (unat (ls_pool_size ?ls)) = (m, pool)" by fastforce
  define w5 where "w5 = w3\<lparr>mem := m, conns := (conns w3)(c := (conns w3 c)\<lparr>c_pool := pool\<rparr>)\<rparr>"
  have "mid c t w1 (w3\<lparr>mem := m\<rparr>)" using m3 by (rule mid_steps)
  from mid_steps(3) [OF this, of "\<lambda>k. k\<lparr>c_pool := pool\<rparr>"] have m5: "mid c t w1 w5" by (simp add: w5_def core_of_def)
  have k5: "mem w5 = m" "calls w5 = calls w" "c_pool (conns w5 c) = pool" "evs w5 = evs w1" "listens w5 = listens w" by (simp_all add: w5_def k3)
  have "refused libc (mem w) [(16, n)] \<longleftrightarrow> libc (live (mem w)) (mcalls (mem w)) 16 n = NULL" for n
    by (simp add: refused.simps libc_alloc_def Let_def)
  then have rf: "refused libc (mem w) [(16, unat (ls_pool_size ?ls))] \<longleftrightarrow> pool = NULL"
    using cp by (auto simp: create_pool_def memalign_def POOL_ALIGNMENT_def libc_alloc_def Let_def split: if_splits)
  have mc: "mcalls m = Suc (mcalls (mem w))"
    using cp by (auto simp: create_pool_def memalign_def libc_alloc_def Let_def split: if_splits)
  have pm: "mem_ok m \<and> (pool = NULL \<and> m = (mem w)\<lparr>mcalls := Suc (mcalls (mem w))\<rparr> \<or> pool_ok m pool (unat (ls_pool_size ?ls)) [pool] [])"
    using create_pool_ok [OF lok m0 ps(1,2)] m0 mem_ok_same [of m "mem w"] unfolding cp by (auto simp: pool_ok_def)
  let ?sl = "if socklen > sizeof_sockaddr then sizeof_sockaddr else socklen"
  define p where "p = pool + 56"
  define m2 where "m2 = m\<lparr>d_last := (d_last m)(pool := pool + 56 + unat ?sl)\<rparr>"
  have "unat ?sl \<le> 16" by (simp add: sizeof_sockaddr_def not_less word_le_nat_alt)
  note pa = fresh_pool_serves [OF lok m0 ps this cp, folded p_def m2_def]
  have p: "p \<noteq> NULL" by (simp add: p_def)
  have m2: "mem_ok m2" "mcalls m2 = Suc (mcalls (mem w))" using pm mem_ok_same [of m2 m] mc by (simp_all add: m2_def)
  have up: "upd_conn v c f = Some (v\<lparr>conns := (conns v)(c := f (conns v c))\<rparr>)" "get_conn v c = Some (conns v c)" for v f
    using c by (simp_all add: upd_conn_def get_conn_def)
  have st2: "upd_conn w1 c (\<lambda>k. k\<lparr>c_type := SOCK_STREAM\<rparr>) = Some w2" by (simp add: up w2_def)
  have gl: "get_ls w3 lp = Some ?ls" using lp(1) k3 by (simp add: get_ls_def)
  have st5: "upd_conn (w3\<lparr>mem := m\<rparr>) c (\<lambda>k. k\<lparr>c_pool := pool\<rparr>) = Some w5" by (simp add: up w5_def)
  define w7 where "w7 = w5\<lparr>mem := m2, conns := (conns w5)(c := (conns w5 c)\<lparr>c_sockaddr := p\<rparr>)\<rparr>"
  have "mid c t w1 (w5\<lparr>mem := m2\<rparr>)" using m5 by (rule mid_steps)
  from mid_steps(3) [OF this, of "\<lambda>k. k\<lparr>c_sockaddr := p\<rparr>"] have m7: "mid c t w1 w7" by (simp add: w7_def core_of_def)
  have k7: "mem w7 = m2" "calls w7 = calls w" "c_pool (conns w7 c) = pool" "evs w7 = evs w1" "listens w7 = listens w" by (simp_all add: w7_def k5)
  have st7: "upd_conn (w5\<lparr>mem := m2\<rparr>) c (\<lambda>k. k\<lparr>c_sockaddr := p\<rparr>) = Some w7" by (simp add: up w7_def)
  have k2: "mem w2 = mem w" by (simp add: w2_def k1)
  note start = accept_one_def w0_def [symmetric] wA_def [symmetric] g st2 w3_def [symmetric] gl k2 k3(1) cp st5 split_beta
  show ?thesis
  proof (cases "pool = NULL")
    case no_pool: True
    have mn: "m = (mem w)\<lparr>mcalls := Suc (mcalls (mem w))\<rparr>" using pm no_pool by (auto simp: pool_ok_def blocks_ok_def)
    from mid_close [OF s1 c(1) un k1(1) m5] pm k5 no_pool obtain w' where w': "close_accepted_connection os w5 c = Some w'"
      "server_inv os base cs w'" "calls w' = Sys_close t # calls w" "mem_ok (mem w')" "touches c t w1 w'" "free_connection_n w' = free_connection_n w1 + 1" "fd_of w' c = NOFD" "mem w' = m" by auto
    have "accept_one os libc call (run_callback os libc) w ev lp t socklen sa = Some (w', False)"
      using c(2) w'(1) st5 by (simp add: start no_pool split del: if_split)
    moreover have "kept_or_closed w w' cs c t" using w'(3,7) by (simp add: kept_or_closed_def)
    moreover have "paid os (calls w) (calls w') 1" using w'(3) by (simp add: paid_def)
    ultimately show ?thesis using w' f1 rf no_pool mn touches_trans [OF t1 w'(5)] by (intro exI [of _ w'] exI [of _ False]) simp
  next
    case ok: False
    define w9 where "w9 = called (called (w7\<lparr>mem := store_bytes m2 p sa (unat ?sl)\<rparr>) (Sys_fcntl_getfl t)) (Sys_fcntl_setfl t (getfl_flags os t (w7\<lparr>mem := store_bytes m2 p sa (unat ?sl)\<rparr>) OR O_NONBLOCK))"
    have m9: "mid c t w1 w9" unfolding w9_def by (intro mid_steps m7)
    have k9: "conns w9 = conns w7" "evs w9 = evs w7" "listens w9 = listens w7" "\<exists>fl. calls w9 = [Sys_fcntl_setfl t fl, Sys_fcntl_getfl t] @ calls w"
      by (simp_all add: w9_def called_def k7)
    obtain wH where wH: "set_up ev c lp ?ls ?sl w9 = Some wH" "mid c t w1 wH" "calls wH = calls w9" "c_listening (conns wH c) = lp" "mem wH = mem w9"
      using set_up_ok [OF m9 _ _ ev c(2), of lp ?ls ?sl] n1 k1(1) by auto
    have l: "like w1 wH" using wH(2) by (simp add: mid_def)
    note kH = like_conn [OF l]
    have sH: "server_inv os base cs wH" "in_use wH cs c"
      using s1 like_inv [OF l] in_use_busy [OF s1(1)] c(1) by (auto simp: kH intro: server_invI)
    have eH: "current_msec wH = current_msec w" "listens wH = listens w" "use_accept_mutex wH"
      using wH(2) k1 by (simp_all add: mid_def like_def same_store_def touches_def)
    from callback_ok [OF sH, of "run_io os libc"] eH lp(1) tw wH(4) obtain w' where w': "callback os (run_io os libc) wH c = Some w'"
      "server_inv os base cs w'" "kept_or_closed wH w' cs c t" "touches c t wH w'" "mem w' = mem wH"
      "free_connection_n w' = free_connection_n wH \<or> free_connection_n w' = free_connection_n wH + 1" "paid os (calls wH) (calls w') 0" by (auto simp: kH k1)
    have "accept_one os libc call (run_callback os libc) w ev lp t socklen sa
        = do { w \<leftarrow> set_up ev c lp ?ls ?sl w9; w \<leftarrow> run_callback os libc (ls_handler ?ls) c w; Some (w, True) }"
      using c(2) pa [OF ok] ok p
      by (simp add: start k5 k7 st7 set_up_def w9_def sys_def sys_ignore_def called_def getfl_flags_def Let_def split del: if_split cong: if_cong)
    then have "accept_one os libc call (run_callback os libc) w ev lp t socklen sa = Some (w', True)"
      by (simp add: wH(1) w'(1) run_callback_def lp(2))
    moreover have "kept_or_closed w w' cs c t" using w'(3) k9(4) wH(3) unfolding kept_or_closed_def by auto
    moreover have "mem_ok (mem w')" using m2(1) mem_ok_same [of "store_bytes m2 p sa (unat ?sl)" m2] w'(5) wH(5)
      by (simp add: w9_def called_def store_bytes_def)
    moreover have "touches c t w w'" using touches_trans [OF t1] touches_trans [OF _ w'(4)] wH(2) unfolding mid_def by blast
    moreover have "free_connection_n w' = free_connection_n w - 1 \<or> free_connection_n w' = free_connection_n w"
      using w'(6) f1 mid_free [OF wH(2)] by auto
    moreover have "mcalls (mem w) \<le> mcalls (mem w')" using m2(2) w'(5) wH(5) by (simp add: w9_def called_def store_bytes_def)
    moreover have "paid os (calls w) (calls w') 0" using k9(4) wH(3) w'(7) by (auto simp: paid_def)
    ultimately show ?thesis using w'(2) rf ok by (intro exI [of _ w'] exI [of _ True]) simp
  qed
qed

section \<open>Properties\<close>

text \<open>No accepted connection is lost. With a free connection and a new descriptor, the body of the accept loop returns whatever memory and the kernel answer;
  it keeps the invariant of the server; the descriptor belongs to a connection in use, or it was closed; and the loop is left exactly
  when the C library refused the memory of the pool, after the only call to the kernel that closed the descriptor.\<close>
theorem accept_one_correct:
  assumes "server_inv os base cs w" and "allowed base w cs (Op_get t)" and "libc_ok libc" and "mem_ok (mem w)" and "ev \<noteq> NULL" and "lp \<noteq> NULL"
    and "ls_handler (listens w lp) = CALLBACK" and "MIN_POOL_SIZE \<le> unat (ls_pool_size (listens w lp))" and "8 dvd unat (ls_pool_size (listens w lp))"
    and "use_accept_mutex w" and "timer_window base (current_msec w + ls_post_accept_timeout (listens w lp))"
  shows "\<exists>w' go. accept_one os libc call (run_callback os libc) w ev lp t socklen sa = Some (w', go) \<and> server_inv os base cs w'
    \<and> kept_or_closed w w' cs (free_connections w) t
    \<and> go = (\<not> refused libc (mem w) [(16, unat (ls_pool_size (listens w lp)))]) \<and> (\<not> go \<longrightarrow> calls w' = Sys_close t # calls w)"
proof -
  from assms(1) obtain fl rs evl xs ys where s: "server_ok base w cs fl rs evl xs ys" and reg: "registered os w cs fl" unfolding server_inv_def by blast
  then have f: "chain (\<lambda>c. c_data (conns w c)) (free_connections w) fl" by (simp add: server_ok_def conn_store_def free_ok_def)
  obtain c fl' where fl: "fl = c # fl'" "free_connections w = c" using f assms(2) by (cases fl) auto
  have "new_fd w cs (c # fl') t" "t \<noteq> ep w" using assms(2) by (auto simp: new_fd_def)
  from accept_one_ok [OF s [unfolded fl(1)] reg [unfolded fl(1)] this assms(3-11)] show ?thesis unfolding fl(2) by blast
qed

definition server_door :: server where
  "server_door = server2\<lparr>listens := \<lambda>_. listening_zero\<lparr>ls_handler := CALLBACK, ls_pool_size := 256, ls_post_accept_timeout := 60000\<rparr>\<rparr>"

lemma server_door_inv: "server_inv os_yes 0 [1000, 1200] server_door"
proof -
  have "like server2 server_door" by (simp add: like_def same_store_def server_door_def)
  then show ?thesis using like_inv server2_inv by blast
qed

theorem accept_one_correct_witness:
  "\<exists>w' go. accept_one os_yes slot_libc (run_io os_yes slot_libc) (run_callback os_yes slot_libc) server_door 2000 500 9 16 (\<lambda>_. 0) = Some (w', go)
    \<and> server_inv os_yes 0 [1000, 1200] w' \<and> kept_or_closed server_door w' [1000, 1200] 1200 9"
proof -
  have f: "free_connections server_door = 1200" "conns server_door = conns server2" "ep server_door = 5" "files server_door = None" "mem server_door = buf_ex"
    "use_accept_mutex server_door" "current_msec server_door = 20"
    "listens server_door 500 = listening_zero\<lparr>ls_handler := CALLBACK, ls_pool_size := 256, ls_post_accept_timeout := 60000\<rparr>"
    by (simp_all add: server_door_def) (simp_all add: server2_def)
  have a: "allowed 0 server_door [1000, 1200] (Op_get 9)" by (simp add: f) (simp add: server2_def connection_zero_def NOFD_def)
  have m: "mem_ok (mem server_door)" using buf_ex_pool by (simp add: f pool_ok_def)
  have l: "MIN_POOL_SIZE \<le> unat (ls_pool_size (listens server_door 500))" "8 dvd unat (ls_pool_size (listens server_door 500))"
    "ls_handler (listens server_door 500) = CALLBACK"
    "timer_window 0 (current_msec server_door + ls_post_accept_timeout (listens server_door 500))"
    by (simp_all add: f MIN_POOL_SIZE_eq timer_window_def)
  from accept_one_correct [OF server_door_inv a slot_libc_ok m _ _ l(3,1,2) f(6) l(4), of 2000 "run_io os_yes slot_libc" 16 "\<lambda>_. 0"] show ?thesis
    by (simp add: f) blast
qed

end
