(* ===== verification/Accept_Loop.thy ===== *)
theory Accept_Loop
  imports Accepted
begin

text \<open>
  The whole of \<open>event_accept\<close>, run on the connection of the listening socket: the loop ends when the kernel has no more connections (or refuses), or when the C library refuses
  the memory of a pool, and no descriptor that the kernel gave is lost on the way.
\<close>

section \<open>Descriptors\<close>

text \<open>The descriptors that are open after a list of calls, the last call first.\<close>

fun open_fds :: "os \<Rightarrow> syscall list \<Rightarrow> u32 set" where
  "open_fds os [] = {}"
| "open_fds os (x # cs) = (let a = os (x # cs); new = (if ans_ret a = - 1 then {} else {ans_fd a}) in
     case x of
       Sys_close s \<Rightarrow> open_fds os cs - {s}
     | Sys_accept s \<Rightarrow> open_fds os cs \<union> new
     | Sys_socket f t \<Rightarrow> open_fds os cs \<union> new
     | Sys_epoll_create n \<Rightarrow> open_fds os cs \<union> new
     | Sys_socketpair \<Rightarrow> open_fds os cs \<union> new \<union> (if ans_ret a = - 1 then {} else {ans_fd2 a})
     | _ \<Rightarrow> open_fds os cs)"

text \<open>What \<open>accept\<close> promises: a new descriptor is not open already. \<open>backlog os cs n\<close>: from the history \<open>cs\<close> on, the kernel has less than \<open>n + 1\<close> connections to accept.\<close>

definition os_fresh :: "os \<Rightarrow> bool" where
  "os_fresh os \<longleftrightarrow> (\<forall>cs s. let a = os (Sys_accept s # cs) in ans_ret a \<noteq> - 1 \<longrightarrow> ans_fd a \<noteq> NOFD \<and> ans_fd a \<notin> open_fds os cs)"

fun accepts :: "syscall list \<Rightarrow> nat" where
  "accepts [] = 0"
| "accepts (Sys_accept s # cs) = Suc (accepts cs)"
| "accepts (x # cs) = accepts cs"

definition backlog :: "os \<Rightarrow> syscall list \<Rightarrow> nat \<Rightarrow> bool" where
  "backlog os cs n \<longleftrightarrow> (\<forall>new s. n \<le> accepts new \<longrightarrow> (let a = os (Sys_accept s # new @ cs) in ans_ret a = - 1 \<and> ans_errno a = EAGAIN))"

text \<open>The last call of \<open>accept\<close> was refused.\<close>

fun accept_refused :: "os \<Rightarrow> syscall list \<Rightarrow> bool" where
  "accept_refused os [] = False"
| "accept_refused os (Sys_accept s # cs) = (ans_ret (os (Sys_accept s # cs)) = - 1)"
| "accept_refused os (x # cs) = accept_refused os cs"

definition fds_known :: "os \<Rightarrow> addr list \<Rightarrow> 'a server_scheme \<Rightarrow> bool" where
  "fds_known os cs w \<longleftrightarrow> ep w \<in> open_fds os (calls w) \<and> (\<forall>c \<in> set cs. fd_of w c \<noteq> NOFD \<longrightarrow> fd_of w c \<in> open_fds os (calls w))"

lemma accepts_append [simp]: "accepts (xs @ ys) = accepts xs + accepts ys"
  by (induction xs rule: accepts.induct) simp_all

lemma backlog_later: "backlog os cs n \<Longrightarrow> backlog os (new @ cs) (n - accepts new)"
  by (auto simp: backlog_def simp flip: append_assoc)

lemma open_fds_benign:
  "list_all (benign t) new \<Longrightarrow> open_fds os (new @ cs) = (if Sys_close t \<in> set new then open_fds os cs - {t} else open_fds os cs)"
proof (induction new)
  case (Cons x new)
  then show ?case by (cases x) (auto simp: Let_def)
qed simp

lemma open_fds_quiet:
  assumes "\<forall>t. list_all (benign t) new"
  shows "open_fds os (new @ cs) = open_fds os cs"
proof -
  have "Sys_close 0 \<notin> set new" using spec [OF assms, of 1] by (auto simp: list_all_iff)
  then show ?thesis using open_fds_benign [OF spec [OF assms, of 0]] by simp
qed

lemma benign_accepts: "list_all (benign t) new \<Longrightarrow> accepts new = 0"
proof (induction new)
  case (Cons x new)
  then show ?case by (cases x) auto
qed simp

lemma benign_refused: "list_all (benign t) new \<Longrightarrow> accept_refused os (new @ cs) = accept_refused os cs"
proof (induction new)
  case (Cons x new)
  then show ?case by (cases x) auto
qed simp

section \<open>The state of the loop\<close>

text \<open>\<open>w0\<close> is the state before the handler, \<open>lc\<close> the connection of the listening socket \<open>lp\<close>.\<close>

definition accept_ready :: "addr \<Rightarrow> addr list \<Rightarrow> addr \<Rightarrow> addr \<Rightarrow> u64 \<Rightarrow> 'a server_scheme \<Rightarrow> bool" where
  "accept_ready ev cs lc lp base w \<longleftrightarrow> in_use w cs lc \<and> rd w lc = ev \<and> cycle_listening w = lp \<and> lp \<noteq> NULL \<and> ls_connection (listens w lp) = lc
     \<and> ls_handler (listens w lp) = CALLBACK \<and> MIN_POOL_SIZE \<le> unat (ls_pool_size (listens w lp)) \<and> 8 dvd unat (ls_pool_size (listens w lp))
     \<and> use_accept_mutex w \<and> files w = None \<and> timer_window base (current_msec w + ls_post_accept_timeout (listens w lp))"

definition no_leak :: "os \<Rightarrow> addr list \<Rightarrow> 'a server_scheme \<Rightarrow> 'a server_scheme \<Rightarrow> bool" where
  "no_leak os cs w0 w \<longleftrightarrow> open_fds os (calls w) \<subseteq> open_fds os (calls w0) \<union> fd_of w ` Collect (in_use w cs)"

definition accepting :: "os \<Rightarrow> u64 \<Rightarrow> addr list \<Rightarrow> addr \<Rightarrow> addr \<Rightarrow> addr \<Rightarrow> 'a server_scheme \<Rightarrow> 'a server_scheme \<Rightarrow> bool" where
  "accepting os base cs ev lc lp w0 w \<longleftrightarrow> server_inv os base cs w \<and> mem_ok (mem w) \<and> fds_known os cs w \<and> no_leak os cs w0 w
     \<and> accept_ready ev cs lc lp base w"

text \<open>Since \<open>w\<close> the C library was asked for memory, and the last thing that it did was to refuse the pool of a connection accepted on \<open>lp\<close>.\<close>

definition no_memory :: "libc \<Rightarrow> addr \<Rightarrow> 'a server_scheme \<Rightarrow> 'a server_scheme \<Rightarrow> bool" where
  "no_memory libc lp w w' \<longleftrightarrow> mcalls (mem w) < mcalls (mem w')
     \<and> refused libc ((mem w')\<lparr>mcalls := mcalls (mem w') - 1\<rparr>) [(16, unat (ls_pool_size (listens w' lp)))]"

lemma accept_step:
  assumes a: "accepting os base cs ev lc lp w0 w" and fr: "os_fresh os" and lok: "libc_ok libc"
    and n: "0 < unat (free_connection_n w)" and x: "x = Sys_accept (fd_of w lc)" and r: "ans_ret (os (x # calls w)) \<noteq> - 1"
  shows "\<exists>w' go. accept_one os libc call (run_callback os libc) (called w x) ev lp (ans_fd (os (x # calls w))) socklen sa = Some (w', go)
    \<and> accepting os base cs ev lc lp w0 w' \<and> (\<not> go \<longrightarrow> no_memory libc lp w w') \<and> ev_available (evs w' ev) = ev_available (evs w ev)
    \<and> mcalls (mem w) \<le> mcalls (mem w') \<and> paid os (calls w) (calls w') (if go then 0 else 1)
    \<and> (\<exists>new. calls w' = new @ calls w \<and> accepts new = 1 \<and> \<not> accept_refused os (calls w')) \<and> unat (free_connection_n w) \<le> Suc (unat (free_connection_n w'))"
proof -
  define v t where "v = called w x" and "t = ans_fd (os (x # calls w))"
  have l: "like w v" unfolding v_def called_def x by (rule like_call) simp
  have vw: "conns v = conns w" "evs v = evs w" "mem v = mem w" "listens v = listens w" "use_accept_mutex v = use_accept_mutex w"
    "current_msec v = current_msec w" "ep v = ep w" "files v = files w" "free_connection_n v = free_connection_n w" "calls v = x # calls w"
    "cycle_listening v = cycle_listening w"
    by (simp_all add: v_def called_def)
  from a have inv: "server_inv os base cs v" and mo: "mem_ok (mem v)" and kn: "fds_known os cs w" and nl: "no_leak os cs w0 w"
    and ar: "accept_ready ev cs lc lp base w" using like_inv [OF l] by (simp_all add: accepting_def vw)
  from inv obtain fl rs evl xs ys where s: "server_ok base v cs fl rs evl xs ys" and reg: "registered os v cs fl" unfolding server_inv_def by blast
  then have fn: "free_connection_n v = of_nat (length fl)" and nd: "nodes_ok v cs" and sub: "set fl \<subseteq> set cs"
    and fr0: "\<forall>c \<in> set cs. fd_of v c = NOFD \<longleftrightarrow> c \<in> set fl" by (auto simp: server_ok_def conn_store_def free_ok_def)
  then obtain c fl' where fl: "fl = c # fl'" using n vw by (cases fl) auto
  have f: "t \<noteq> NOFD" "t \<notin> open_fds os (calls w)" using fr r unfolding os_fresh_def t_def x Let_def by blast+
  have o: "open_fds os (calls v) = insert t (open_fds os (calls w))" using r by (simp add: vw x t_def Let_def)
  have nf: "new_fd v cs (c # fl') t" "t \<noteq> ep v"
    using kn f fr0 ar by (auto simp: new_fd_def fds_known_def vw accept_ready_def fl)
  have lc: "in_use w cs lc" "rd w lc = ev" "lp \<noteq> NULL" "ls_handler (listens v lp) = CALLBACK" "use_accept_mutex v" "files v = None"
    "MIN_POOL_SIZE \<le> unat (ls_pool_size (listens v lp))" "8 dvd unat (ls_pool_size (listens v lp))"
    "timer_window base (current_msec v + ls_post_accept_timeout (listens v lp))" using ar by (simp_all add: accept_ready_def vw)
  have lcc: "lc \<noteq> c" "lc \<in> set cs" "c \<in> set cs" using lc(1) fr0 sub by (auto simp: in_use_def vw fl)
  have en: "ev \<noteq> NULL" "ev \<noteq> rd v c" "ev \<noteq> wr v c" using nd lcc lc(2) unfolding nodes_ok_def events_of_def by (auto simp: vw)
  from accept_one_ok [OF s [unfolded fl] reg [unfolded fl] nf lok mo en(1) lc(3,4,7,8,5,9), of call socklen sa]
  obtain w' go where w': "accept_one os libc call (run_callback os libc) v ev lp t socklen sa = Some (w', go)" "server_inv os base cs w'"
    "kept_or_closed v w' cs c t" "mem_ok (mem w')" "touches c t v w'"
    "free_connection_n w' = free_connection_n v - 1 \<or> free_connection_n w' = free_connection_n v"
    "go = (\<not> refused libc (mem v) [(16, unat (ls_pool_size (listens v lp)))])" "\<not> go \<longrightarrow> mem w' = (mem v)\<lparr>mcalls := Suc (mcalls (mem v))\<rparr>"
    "mcalls (mem v) \<le> mcalls (mem w')" "paid os (calls v) (calls w') (if go then 0 else 1)" by blast
  from w'(5) obtain new where new: "calls w' = new @ calls v" "list_all (benign t) new" unfolding touches_def by blast
  have tc: "d \<noteq> c \<Longrightarrow> conns w' d = conns w d" "evs w' ev = evs w ev" "listens w' = listens w" "cycle_listening w' = cycle_listening w"
    "use_accept_mutex w' = use_accept_mutex w" "current_msec w' = current_msec w" "ep w' = ep w" "files w' = None" for d
    using w'(5) en lc(6) by (auto simp: touches_def vw)
  have kc: "in_use w' cs c \<and> fd_of w' c = t \<and> Sys_close t \<notin> set new \<or> fd_of w' c = NOFD \<and> Sys_close t \<in> set new"
    using w'(3) new(1) unfolding kept_or_closed_def by auto
  have o': "open_fds os (calls w') = (if Sys_close t \<in> set new then open_fds os (calls w) else insert t (open_fds os (calls w)))"
    using open_fds_benign [OF new(2)] f(2) by (simp add: new(1) o)
  have ready: "accept_ready ev cs lc lp base w'" using ar lcc(1) by (simp add: accept_ready_def tc in_use_def)
  moreover have "fds_known os cs w'"
    unfolding fds_known_def
  proof (intro conjI ballI impI)
    show "ep w' \<in> open_fds os (calls w')" using kn by (simp add: fds_known_def o' tc)
    fix d assume d: "d \<in> set cs" "fd_of w' d \<noteq> NOFD"
    show "fd_of w' d \<in> open_fds os (calls w')"
    proof (cases "d = c")
      case True
      then show ?thesis using kc d(2) by (auto simp: o')
    next
      case False
      then show ?thesis using kn d by (auto simp: fds_known_def o' tc)
    qed
  qed
  moreover have "no_leak os cs w0 w'"
  proof -
    have "fd_of w d \<in> fd_of w' ` Collect (in_use w' cs)" if d: "in_use w cs d" for d
    proof -
      have "d \<noteq> c" using d fr0 by (auto simp: in_use_def fl vw)
      then have "in_use w' cs d" "fd_of w' d = fd_of w d" using d by (simp_all add: in_use_def tc)
      then show ?thesis by (metis imageI mem_Collect_eq)
    qed
    then have "fd_of w ` Collect (in_use w cs) \<subseteq> fd_of w' ` Collect (in_use w' cs)" by blast
    moreover have "Sys_close t \<notin> set new \<Longrightarrow> t \<in> fd_of w' ` Collect (in_use w' cs)" using kc by auto
    moreover have "open_fds os (calls w) \<subseteq> open_fds os (calls w0) \<union> fd_of w' ` Collect (in_use w' cs)"
      using nl Un_mono [OF subset_refl calculation(1)] unfolding no_leak_def by (rule subset_trans)
    ultimately show ?thesis unfolding no_leak_def o' by simp
  qed
  ultimately have acc: "accepting os base cs ev lc lp w0 w'" using w'(2,4) by (simp add: accepting_def)
  have "calls w' = (new @ [x]) @ calls w" "accepts (new @ [x]) = 1" using benign_accepts [OF new(2)] by (simp_all add: new(1) vw x)
  moreover have "\<not> accept_refused os (calls w')" using benign_refused [OF new(2), of os "calls v"] r by (simp add: new(1) vw x)
  ultimately have "\<exists>new. calls w' = new @ calls w \<and> accepts new = 1 \<and> \<not> accept_refused os (calls w')" by blast
  moreover have "paid os (calls w) (calls w') (if go then 0 else 1)" using w'(10) by (simp add: vw x paid_def)
  moreover have "\<not> go \<longrightarrow> no_memory libc lp w w'" using w'(7,8) by (simp add: no_memory_def vw tc)
  moreover have "mcalls (mem w) \<le> mcalls (mem w')" using w'(9) by (simp add: vw)
  moreover have "unat (free_connection_n w) \<le> Suc (unat (free_connection_n w'))"
    using w'(6) n by (elim disjE) (simp_all add: vw unat_sub word_le_nat_alt)
  moreover have "ev_available (evs w' ev) = ev_available (evs w ev)" by (simp add: tc)
  ultimately show ?thesis using acc w'(1) unfolding v_def t_def by blast
qed

lemma accepting_like:
  assumes "accepting os base cs ev lc lp w0 w" and "like w w'" and "touches c t w w'" and "open_fds os (calls w') = open_fds os (calls w)" and "mem w' = mem w"
  shows "accepting os base cs ev lc lp w0 w'"
proof -
  note k = like_conn [OF assms(2)] like_inv [OF assms(2)]
  have "in_use w' cs = in_use w cs" by (rule ext) (simp add: k)
  moreover have "listens w' = listens w \<and> cycle_listening w' = cycle_listening w \<and> use_accept_mutex w' = use_accept_mutex w \<and> current_msec w' = current_msec w
    \<and> ep w' = ep w \<and> (files w' = None \<longleftrightarrow> files w = None)" using assms(3) by (simp add: touches_def)
  ultimately show ?thesis
    using assms(1,4,5) by (simp add: accepting_def accept_ready_def fds_known_def no_leak_def k)
qed

text \<open>A call of \<open>accept\<close> that the kernel refuses.\<close>

lemma accepting_refused:
  assumes "accepting os base cs ev lc lp w0 w" and "ans_ret (os (Sys_accept s # calls w)) = - 1"
  shows "accepting os base cs ev lc lp w0 (called w (Sys_accept s))"
proof -
  let ?v = "called w (Sys_accept s)"
  have l: "like w ?v" unfolding called_def by (rule like_call) simp
  have "server_inv os base cs ?v" "in_use ?v cs = in_use w cs" using assms(1) like_inv [OF l] like_conn(4) [OF l] by (simp_all add: accepting_def fun_eq_iff)
  moreover have "open_fds os (calls ?v) = open_fds os (calls w)" using assms(2) by simp
  ultimately show ?thesis using assms(1) by (simp add: accepting_def accept_ready_def fds_known_def no_leak_def) (simp add: called_def)
qed

lemma epoll_del_calls:
  "epoll_del_event os w ev event flags = Some (w', r) \<Longrightarrow> calls w' = calls w \<or> (\<exists>e op fd m d. calls w' = Sys_epoll_ctl e op fd m d # calls w)"
  by (fastforce simp: epoll_del_event_def sys_def upd_event_def deref_def Let_def split: Option.bind_split_asm prod.split_asm if_split_asm)

lemma disable_calls:
  assumes "disable_accept_events os w all = Some (w', r)"
  shows "\<exists>new. calls w' = new @ calls w \<and> (\<forall>t. list_all (benign t) new)"
proof -
  have "w' = w \<or> (\<exists>rv rc. epoll_del_event os w rv READ_EVENT 0 = Some (w', rc))"
    using assms by (auto simp: disable_accept_events_def Let_def split: Option.bind_split_asm prod.split_asm if_split_asm)
  then show ?thesis
  proof
    assume "\<exists>rv rc. epoll_del_event os w rv READ_EVENT 0 = Some (w', rc)"
    then have "calls w' = calls w \<or> (\<exists>e op fd m d. calls w' = Sys_epoll_ctl e op fd m d # calls w)" using epoll_del_calls by blast
    then show ?thesis
    proof (elim disjE exE)
      fix e op fd m d assume "calls w' = Sys_epoll_ctl e op fd m d # calls w"
      then show ?thesis by (intro exI [of _ "[Sys_epoll_ctl e op fd m d]"]) simp
    qed simp
  qed simp
qed

lemma accept_failed_ok:
  assumes a: "accepting os base cs ev lc lp w0 w"
  shows "\<exists>w' new. accept_failed os w ev err = Some w' \<and> accepting os base cs ev lc lp w0 w' \<and> calls w' = new @ calls w \<and> (\<forall>t. list_all (benign t) new)"
proof (cases "err = EMFILE \<or> err = ENFILE")
  case False
  then show ?thesis using a by (intro exI [of _ w] exI [of _ "[]"]) (simp add: accept_failed_def)
next
  case True
  from a obtain fl rs evl xs ys where s: "server_ok base w cs fl rs evl xs ys" and reg: "registered os w cs fl"
    unfolding accepting_def server_inv_def by blast
  have ar: "accept_ready ev cs lc lp base w" using a by (simp add: accepting_def)
  have lo: "listens_on w cs fl lc" using ar in_use_busy [OF s] by (auto simp: listens_on_def accept_ready_def)
  from disable_accept_ok [OF s reg lo, of True] obtain w1 r cl where w1: "disable_accept_events os w True = Some (w1, r)"
    "w1 = (if r = 0 then set_active w (rd w lc) False else w)\<lparr>calls := cl @ calls w\<rparr>" "server_ok base w1 cs fl rs evl xs ys" "registered os w1 cs fl"
    unfolding accept_switch_def by auto
  from disable_calls [OF w1(1)] obtain new where new: "calls w1 = new @ calls w" "\<forall>t. list_all (benign t) new" by blast
  have same: "conns w1 = conns w" "mem w1 = mem w" "listens w1 = listens w" "cycle_listening w1 = cycle_listening w" "use_accept_mutex w1 = use_accept_mutex w"
    "files w1 = files w" "current_msec w1 = current_msec w" "ep w1 = ep w" "use_accept_mutex w1"
    using ar by (simp_all add: w1(2) set_active_def accept_ready_def)
  have "in_use w1 cs = in_use w cs" by (rule ext) (simp add: in_use_def same)
  then have acc: "accepting os base cs ev lc lp w0 w1"
    using a server_invI [OF w1(3,4)] by (simp add: accepting_def accept_ready_def fds_known_def no_leak_def same new(1) open_fds_quiet [OF new(2)])
  let ?h = "\<lambda>w. if accept_mutex_held w then (unlock_accept_mutex w)\<lparr>accept_mutex_held := False\<rparr> else w"
  let ?w = "(?h w1)\<lparr>accept_disabled := 1\<rparr>"
  have "like w1 ?w" by (simp add: like_def same_store_def unlock_accept_mutex_def)
  moreover have "touches c t w1 ?w" for c t by (simp add: touches_def unlock_accept_mutex_def)
  ultimately have "accepting os base cs ev lc lp w0 ?w" using accepting_like [OF acc] by (simp add: unlock_accept_mutex_def)
  moreover have "calls ?w = calls w1" by (simp add: unlock_accept_mutex_def)
  moreover have "accept_failed os w ev err = Some (if r \<noteq> 0 then w1 else ?w)"
    using True w1(1) same by (simp add: accept_failed_def Let_def)
  ultimately show ?thesis using acc new by (cases "r = 0") auto
qed

section \<open>The loop\<close>

text \<open>
  How the loop ends: \<open>accept\<close> was called, and the last call of it was refused, or the memory of a pool was. No descriptor was closed but those
  that the kernel refused to watch, and the last one when there was no memory for it.
\<close>

definition accept_done :: "os \<Rightarrow> libc \<Rightarrow> addr \<Rightarrow> 'a server_scheme \<Rightarrow> 'a server_scheme \<Rightarrow> bool" where
  "accept_done os libc lp w w' \<longleftrightarrow> (\<exists>new. calls w' = new @ calls w \<and> 0 < accepts new)
     \<and> (accept_refused os (calls w') \<or> no_memory libc lp w w')
     \<and> closes (calls w') + ctl_refusals os (calls w)
         \<le> closes (calls w) + ctl_refusals os (calls w') + (if accept_refused os (calls w') then 0 else 1)"

lemma accept_done_step:
  assumes "calls v = new @ calls w" and "mcalls (mem w) \<le> mcalls (mem v)" and "paid os (calls w) (calls v) 0" and "accept_done os libc lp v w'"
  shows "accept_done os libc lp w w'"
proof -
  from assms(1,4) have "\<exists>new. calls w' = new @ calls w \<and> 0 < accepts new"
    by (auto simp: accept_done_def)
  moreover have "no_memory libc lp v w' \<longrightarrow> no_memory libc lp w w'" using assms(2) by (simp add: no_memory_def)
  ultimately show ?thesis using assms(3,4) unfolding accept_done_def paid_def by (auto split: if_splits)
qed

lemma ctl_refusals_mono: "ctl_refusals os cs \<le> ctl_refusals os (new @ cs)"
proof (induction new)
  case (Cons x new)
  then show ?case by (cases x) auto
qed simp

lemma quiet_closes: "\<forall>t. list_all (benign t) new \<Longrightarrow> closes (new @ cs) = closes cs"
proof (induction new)
  case (Cons x new)
  then have c: "closes (new @ cs) = closes cs" and b: "\<forall>t. benign t x" by simp_all
  have "x \<noteq> Sys_close s" for s using spec [OF b, of "s + 1"] by auto
  with c show ?case by (cases x) auto
qed simp

lemma accept_loop_ok:
  assumes fr: "os_fresh os" and lok: "libc_ok libc"
  shows "accepting os base cs ev lc lp w0 w \<Longrightarrow> backlog os (calls w) n \<Longrightarrow> n \<le> unat (free_connection_n w) \<Longrightarrow> ev_available (evs w ev) \<Longrightarrow>
    \<exists>w'. accept_loop os libc call (run_callback os libc) ev lc lp w = Some w' \<and> accepting os base cs ev lc lp w0 w' \<and> accept_done os libc lp w w'"
proof (induction n arbitrary: w rule: less_induct)
  case (less n)
  define x where "x = Sys_accept (fd_of w lc)"
  let ?a = "os (x # calls w)" and ?v = "called w x"
  from less.prems(1) obtain fl rs evl xs ys where s: "server_ok base w cs fl rs evl xs ys" unfolding accepting_def server_inv_def by blast
  have ar: "accept_ready ev cs lc lp base w" using less.prems(1) by (simp add: accepting_def)
  then have "lc \<in> busy cs fl" "rd w lc = ev" using in_use_busy [OF s] by (simp_all add: accept_ready_def)
  with server_facts [OF s, of lc] have nn: "lc \<noteq> NULL" "ev \<noteq> NULL" by auto
  have bl: "ans_ret ?a = - 1 \<and> ans_errno ?a = EAGAIN" if "n = 0"
    using less.prems(2) that unfolding backlog_def x_def Let_def by (metis append_Nil le0)
  have unf: "accept_loop os libc call (run_callback os libc) ev lc lp w =
     (if ans_ret ?a = - 1 then
        if ans_errno ?a = EAGAIN then Some ?v
        else if ans_errno ?a = ECONNABORTED then accept_loop os libc call (run_callback os libc) ev lc lp ?v
        else accept_failed os ?v ev (ans_errno ?a)
      else do {
        (w, go) \<leftarrow> accept_one os libc call (run_callback os libc) ?v ev lp (ans_fd ?a) (ans_socklen ?a) (ans_bytes ?a);
        if \<not> go then Some w
        else do { e \<leftarrow> get_event w ev; if ev_available e then accept_loop os libc call (run_callback os libc) ev lc lp w else Some w } })"
    using nn less.prems(4) by (subst accept_loop.simps) (simp add: get_conn_def get_event_def sys_def x_def called_def Let_def)
  show ?case
  proof (cases "ans_ret ?a = - 1")
    case True
    have av: "accepting os base cs ev lc lp w0 ?v" using accepting_refused [OF less.prems(1)] True by (simp add: x_def)
    have rv: "accept_refused os (calls ?v)" using True by (simp add: x_def)
    consider "ans_errno ?a = EAGAIN" | "ans_errno ?a \<noteq> EAGAIN" "ans_errno ?a = ECONNABORTED" | "ans_errno ?a \<noteq> EAGAIN" "ans_errno ?a \<noteq> ECONNABORTED" by blast
    then show ?thesis
    proof cases
      case 1
      moreover have "accept_done os libc lp w ?v" using rv by (simp add: accept_done_def) (simp add: called_def x_def)
      ultimately show ?thesis using True av by (simp add: unf)
    next
      case 2
      then have n: "0 < n" using bl by auto
      have f: "n - 1 \<le> unat (free_connection_n ?v)" "ev_available (evs ?v ev)" using less.prems(3,4) by (simp_all add: called_def)
      have b: "backlog os (calls ?v) (n - 1)" using backlog_later [OF less.prems(2), of "[x]"] by (simp add: x_def)
      from less.IH [OF _ av b f] n obtain w' where
        w': "accept_loop os libc call (run_callback os libc) ev lc lp ?v = Some w'" "accepting os base cs ev lc lp w0 w'" "accept_done os libc lp ?v w'"
        by auto
      have "accept_done os libc lp w w'" by (rule accept_done_step [OF _ _ _ w'(3), of "[x]"]) (simp_all add: called_def x_def paid_def)
      then show ?thesis using True 2 w'(1,2) by (simp add: unf)
    next
      case 3
      from accept_failed_ok [OF av, of "ans_errno ?a"] obtain w' new where w': "accept_failed os ?v ev (ans_errno ?a) = Some w'"
        "accepting os base cs ev lc lp w0 w'" "calls w' = new @ calls ?v" "\<forall>t. list_all (benign t) new" by blast
      have "accept_refused os (calls w')" using rv benign_refused [OF spec [OF w'(4)]] by (simp add: w'(3))
      moreover have "accepts new = 0" using benign_accepts [OF spec [OF w'(4)]] .
      moreover have "calls ?v = x # calls w" by (simp add: called_def)
      ultimately have "accept_done os libc lp w w'"
        using quiet_closes [OF w'(4), of "calls ?v"] ctl_refusals_mono [of os "calls ?v" new] w'(3)
        by (simp add: accept_done_def x_def)
      then show ?thesis using True 3 w'(1,2) by (simp add: unf)
    qed
  next
    case False
    then have n: "0 < n" using bl by auto
    then have f: "0 < unat (free_connection_n w)" using less.prems(3) by simp
    from accept_step [OF less.prems(1) fr lok f x_def False, of call "ans_socklen ?a" "ans_bytes ?a"] obtain w' go new where
      w': "accept_one os libc call (run_callback os libc) ?v ev lp (ans_fd ?a) (ans_socklen ?a) (ans_bytes ?a) = Some (w', go)"
      "accepting os base cs ev lc lp w0 w'" "\<not> go \<longrightarrow> no_memory libc lp w w'" "ev_available (evs w' ev) = ev_available (evs w ev)"
      "mcalls (mem w) \<le> mcalls (mem w')" "paid os (calls w) (calls w') (if go then 0 else 1)"
      "calls w' = new @ calls w" "accepts new = 1" "\<not> accept_refused os (calls w')" "unat (free_connection_n w) \<le> Suc (unat (free_connection_n w'))" by blast
    have bl': "backlog os (calls w') (n - 1)" using backlog_later [OF less.prems(2), of new] by (simp add: w'(7,8))
    show ?thesis
    proof (cases go)
      case True
      have "n - 1 \<le> unat (free_connection_n w')" "ev_available (evs w' ev)" using less.prems(3,4) w'(4,10) by simp_all
      from less.IH [OF _ w'(2) bl' this] n obtain u where
        u: "accept_loop os libc call (run_callback os libc) ev lc lp w' = Some u" "accepting os base cs ev lc lp w0 u" "accept_done os libc lp w' u" by auto
      have "accept_done os libc lp w u" using w'(5-7) True by (intro accept_done_step [OF _ _ _ u(3)]) simp_all
      then show ?thesis using False nn True w'(1,4) less.prems(4) u(1,2) by (simp add: unf get_event_def)
    next
      case go: False
      have "accept_done os libc lp w w'" using w'(3,6-9) go by (auto simp: accept_done_def paid_def)
      then show ?thesis using False nn go w'(1,2) by (simp add: unf)
    qed
  qed
qed

section \<open>The handler\<close>

text \<open>C7: \<open>event_accept\<close> accepts until the kernel refuses, and loses nothing. Run on a listening connection, with the accept mutex in use, no table of files and
  at most as many connections to accept as there are free entries in the table of connections (what happens when the table is full is not covered here), it returns whatever else the
  kernel and the allocator answer. The invariant of the server is kept, and every descriptor that is open afterwards was open before or belongs to
  a connection in use. It called \<open>accept\<close> and stopped because the last call was refused, or because the C library refused the request for the pool of the
  last connection, which was the last request made; and it closed no more descriptors than the kernel refused to watch, and in the second case one more.\<close>
theorem event_accept_correct:
  assumes "server_inv os base cs w" and "mem_ok (mem w)" and "fds_known os cs w" and "accept_ready ev cs lc lp base w"
    and "c_listening (conns w lc) = lp" and "\<not> ev_timedout (evs w ev)"
    and "os_fresh os" and "backlog os (calls w) n" and "n \<le> unat (free_connection_n w)" and "libc_ok libc"
  shows "\<exists>w'. event_accept os libc call (run_callback os libc) w ev = Some w' \<and> server_inv os base cs w' \<and> fds_known os cs w'
    \<and> no_leak os cs w w' \<and> accept_done os libc lp w w'"
proof -
  from assms(1) obtain fl rs evl xs ys where s: "server_ok base w cs fl rs evl xs ys" unfolding server_inv_def by blast
  have "lc \<in> busy cs fl" "rd w lc = ev" using in_use_busy [OF s] assms(4) by (simp_all add: accept_ready_def)
  with server_facts [OF s, of lc] have nn: "lc \<noteq> NULL" "ev \<noteq> NULL" "ev_data (evs w ev) = lc" by auto
  define v where "v = w\<lparr>evs := (evs w)(ev := (evs w ev)\<lparr>ev_ready := False, ev_available := True\<rparr>)\<rparr>"
  have l: "like w v" "touches lc NOFD w v" using \<open>rd w lc = ev\<close>
    by (simp_all add: v_def like_def same_store_def event_core_def touches_def)
  have k: "mem v = mem w" "calls v = calls w" "free_connection_n v = free_connection_n w" "ev_available (evs v ev)" "conns v = conns w"
    by (simp_all add: v_def)
  have "open_fds os (calls w) \<subseteq> open_fds os (calls w) \<union> fd_of w ` Collect (in_use w cs)" by blast
  then have "accepting os base cs ev lc lp w w" using assms by (simp add: accepting_def no_leak_def)
  then have a: "accepting os base cs ev lc lp w v" using accepting_like l k by fastforce
  have "backlog os (calls v) n" "n \<le> unat (free_connection_n v)" using assms(8,9) by (simp_all add: k)
  from accept_loop_ok [OF assms(7,10) a this k(4), of call] obtain w' where
    "accept_loop os libc call (run_callback os libc) ev lc lp v = Some w'" "accepting os base cs ev lc lp w w'" "accept_done os libc lp v w'" by blast
  moreover have "accept_done os libc lp w w'" by (rule accept_done_step [of v "[]", OF _ _ _ calculation(3)]) (simp_all add: k)
  moreover have "event_accept os libc call (run_callback os libc) w ev = accept_loop os libc call (run_callback os libc) ev lc lp v"
    using nn assms(5,6) by (simp add: event_accept_def get_event_def get_conn_def upd_event_def Let_def v_def)
  ultimately show ?thesis by (auto simp: accepting_def)
qed

text \<open>A kernel with one connection to accept: descriptor 5 is the epoll instance, 7 the listening socket, 9 the new connection.\<close>

fun os_door :: os where
  "os_door (Sys_accept s # cs) = (if accepts cs = 0 then os_yes [] else (os_yes [])\<lparr>ans_ret := - 1, ans_errno := EAGAIN\<rparr>)"
| "os_door (Sys_epoll_create n # cs) = (os_yes [])\<lparr>ans_fd := 5\<rparr>"
| "os_door (Sys_socket f t # cs) = (os_yes [])\<lparr>ans_fd := 7\<rparr>"
| "os_door (Sys_socketpair # cs) = (os_yes [])\<lparr>ans_fd := 10, ans_fd2 := 11\<rparr>"
| "os_door cs = os_yes cs"

lemma os_door_fresh: "os_fresh os_door"
proof -
  have "accepts cs = 0 \<Longrightarrow> 9 \<notin> open_fds os_door cs" for cs
  proof (induction cs)
    case (Cons x cs)
    then show ?case by (cases x) (auto simp: Let_def os_yes_def)
  qed simp
  then show ?thesis by (simp add: os_fresh_def Let_def NOFD_def) (simp add: os_yes_def)
qed

definition server_gate :: server where
  "server_gate = server2\<lparr>listens := (\<lambda>_. listening_zero\<lparr>ls_handler := CALLBACK, ls_pool_size := 256, ls_post_accept_timeout := 300, ls_connection := 1000\<rparr>),
     conns := (conns server2)(1000 := (conns server2 1000)\<lparr>c_listening := 500\<rparr>),
     calls := [Sys_epoll_ctl 5 EPOLL_CTL_ADD 7 0x2001 (tag 1000 False), Sys_socket 2 1, Sys_epoll_create 512]\<rparr>"

lemma server_gate_inv: "server_inv os_door 0 [1000, 1200] server_gate"
proof -
  let ?c = "(conns server2)(1000 := (conns server2 1000)\<lparr>c_listening := 500\<rparr>)"
  have "same_core server2 ?c" by (simp add: same_core_def core_of_def)
  then have "server_ok 0 (server2\<lparr>conns := ?c\<rparr>) [1000, 1200] [1200] [1000] [] [] []" using server_ok_core(1) server2_ok by blast
  then have "server_ok 0 server_gate [1000, 1200] [1200] [1000] [] [] []"
    by (subst server_ok_cong [of "server2\<lparr>conns := ?c\<rparr>"]) (simp_all add: same_table_def server_gate_def)
  moreover have "registered os_door server_gate [1000, 1200] [1200]"
    by (auto simp: registered_def watched_def server_gate_def server2_def os_yes_def watch_ok_def wanted_bits io_bits connection_zero_def event_zero_def)
  ultimately show ?thesis by (rule server_invI)
qed

theorem event_accept_correct_witness:
  "\<exists>w'. event_accept os_door slot_libc (run_io os_door slot_libc) (run_callback os_door slot_libc) server_gate 2000 = Some w'
    \<and> server_inv os_door 0 [1000, 1200] w' \<and> no_leak os_door [1000, 1200] server_gate w' \<and> accept_done os_door slot_libc 500 server_gate w'"
proof -
  have l: "listens server_gate = (\<lambda>_. listening_zero\<lparr>ls_handler := CALLBACK, ls_pool_size := 256, ls_post_accept_timeout := 300, ls_connection := 1000\<rparr>)"
    "calls server_gate = [Sys_epoll_ctl 5 EPOLL_CTL_ADD 7 0x2001 (tag 1000 False), Sys_socket 2 1, Sys_epoll_create 512]"
    by (simp_all add: server_gate_def)
  have f: "conns server_gate 1000 = connection_zero\<lparr>c_read := 2000, c_write := 3000, c_fd := 7, c_reusable := True, c_listening := 500\<rparr>"
    "fd_of server_gate 1200 = NOFD" "ep server_gate = 5" "files server_gate = None" "use_accept_mutex server_gate" "current_msec server_gate = 20"
    "cycle_listening server_gate = 500" "evs server_gate 2000 = event_zero\<lparr>ev_data := 1000, ev_active := True\<rparr>" "free_connection_n server_gate = 1"
    "mem server_gate = buf_ex"
    by (simp_all add: server_gate_def) (simp_all add: server2_def)
  have o: "open_fds os_door (calls server_gate) = {5, 7}" by (auto simp: l os_yes_def Let_def)
  have k: "fds_known os_door [1000, 1200] server_gate" by (simp add: fds_known_def o f connection_zero_def)
  have r: "accept_ready 2000 [1000, 1200] 1000 500 0 server_gate"
    by (simp add: accept_ready_def in_use_def f l connection_zero_def MIN_POOL_SIZE_eq timer_window_def) (simp add: NOFD_def)
  have m: "mem_ok (mem server_gate)" using buf_ex_pool by (simp add: f pool_ok_def)
  have b: "backlog os_door (calls server_gate) 1" by (auto simp: backlog_def Let_def)
  have "\<not> ev_timedout (evs server_gate 2000)" "c_listening (conns server_gate 1000) = 500" "1 \<le> unat (free_connection_n server_gate)"
    by (simp_all add: f event_zero_def)
  from event_accept_correct [OF server_gate_inv m k r this(2,1) os_door_fresh b this(3) slot_libc_ok] show ?thesis by blast
qed

end
