(* ===== verification/Listening.thy ===== *)
theory Listening
  imports Server_Inv
begin

text \<open>Opening a listening socket (connection.c): what every exit of \<open>open_listening_sockets\<close> leaves behind.\<close>

section \<open>The exits\<close>

text \<open>
  \<open>new\<close> are the calls made, the last one first, behind the calls \<open>old\<close>; \<open>s\<close> is the new descriptor. On success no call was refused and the socket is bound and listening.
  The failures are: no descriptor; a refused call, after which the descriptor was closed; a refused \<open>ioctl\<close>, after which it stays open and is forgotten.
\<close>

definition refused :: "os \<Rightarrow> syscall list \<Rightarrow> bool" where
  "refused os cs \<longleftrightarrow> ans_ret (os cs) = - 1"

definition opened :: "os \<Rightarrow> u32 \<Rightarrow> listening \<Rightarrow> listening \<Rightarrow> syscall list \<Rightarrow> syscall list \<Rightarrow> bool" where
  "opened os s ls ls' new old \<longleftrightarrow> ls' = ls\<lparr>ls_listen := True, ls_fd := s\<rparr> \<and> Sys_close s \<notin> set new
     \<and> take 3 new = [Sys_listen s (ls_backlog ls), Sys_bind s (ls_sockaddr ls) (ls_socklen ls), Sys_ioctl_nonblocking s]
     \<and> Sys_setsockopt s SO_REUSEADDR 1 \<in> set new \<and> (Sys_setsockopt s SO_REUSEPORT 1 \<in> set new \<longleftrightarrow> ls_reuseport ls)
     \<and> (\<forall>k < length new. \<not> refused os (drop k new @ old))"

datatype open_failure = No_socket | Closed_again | Left_open

fun not_opened :: "open_failure \<Rightarrow> os \<Rightarrow> u32 \<Rightarrow> syscall list \<Rightarrow> syscall list \<Rightarrow> bool" where
  "not_opened No_socket os s new old = (s = NOFD \<and> length new = 1)"
| "not_opened Closed_again os s new old = (s \<noteq> NOFD \<and> (\<exists>before. new = Sys_close s # before \<and> refused os (before @ old) \<and> Sys_close s \<notin> set before))"
| "not_opened Left_open os s new old = (s \<noteq> NOFD \<and> hd new = Sys_ioctl_nonblocking s \<and> refused os (new @ old) \<and> Sys_close s \<notin> set new)"

definition open_result :: "os \<Rightarrow> 'a server_scheme \<Rightarrow> ('a server_scheme \<times> int) option \<Rightarrow> bool" where
  "open_result os w res \<longleftrightarrow> (let lp = cycle_listening w; ls = listens w lp; cs = Sys_socket (sa_family (mem w) (ls_sockaddr ls)) (ls_type ls) # calls w;
       s = (if refused os cs then NOFD else ans_fd (os cs))
     in \<exists>new. (\<exists>l. res = Some (w\<lparr>calls := new @ calls w, listens := (listens w)(lp := l)\<rparr>, 0) \<and> s \<noteq> NOFD \<and> opened os s ls l new (calls w))
       \<or> (\<exists>f. res = Some (w\<lparr>calls := new @ calls w\<rparr>, - 1) \<and> not_opened f os s new (calls w)))"

lemma open_resultI:
  assumes "cycle_listening w = lp" "listens w lp = ls" "Sys_socket (sa_family (mem w) (ls_sockaddr ls)) (ls_type ls) # calls w = cs"
    "(if refused os cs then NOFD else ans_fd (os cs)) = s"
  shows "res = Some (w\<lparr>calls := new @ calls w, listens := (listens w)(lp := l)\<rparr>, 0) \<Longrightarrow> s \<noteq> NOFD \<Longrightarrow> opened os s ls l new (calls w) \<Longrightarrow> open_result os w res"
    "res = Some (w\<lparr>calls := new @ calls w\<rparr>, - 1) \<Longrightarrow> not_opened f os s new (calls w) \<Longrightarrow> open_result os w res"
  using assms unfolding open_result_def Let_def by blast+

text \<open>C16: Opening the listening socket. Either the socket is bound and listening and no call was refused, or -1 is returned and nothing else changed; then the new descriptor has
  been closed, except when \<open>ioctl\<close> was refused: that exit loses it.\<close>
theorem open_listening_correct:
  assumes "cycle_listening w \<noteq> NULL" and "\<not> ls_ignore (listens w (cycle_listening w))" and "\<not> ls_add_reuseport (listens w (cycle_listening w))"
    and "ls_fd (listens w (cycle_listening w)) = NOFD"
  shows "open_result os w (open_listening_sockets os w)"
proof -
  define lp ls where "lp = cycle_listening w" and "ls = listens w lp"
  define c1 where "c1 = Sys_socket (sa_family (mem w) (ls_sockaddr ls)) (ls_type ls) # calls w"
  define s where "s = (if refused os c1 then NOFD else ans_fd (os c1))"
  define p where "p = (if ls_reuseport ls then [Sys_setsockopt s SO_REUSEPORT 1] else [])"
  define c2 where "c2 = Sys_setsockopt s SO_REUSEADDR 1 # c1"
  define c4 where "c4 = Sys_ioctl_nonblocking s # p @ c2"
  define c5 where "c5 = Sys_bind s (ls_sockaddr ls) (ls_socklen ls) # c4"
  define c6 where "c6 = Sys_listen s (ls_backlog ls) # c5"
  have h: "cycle_listening w = lp" "listens w lp = ls" "lp \<noteq> NULL" "\<not> ls_ignore ls" "\<not> ls_add_reuseport ls" "ls_fd ls = NOFD"
    using assms by (simp_all add: lp_def ls_def)
  have eq: "open_listening_sockets os w =
     (if s = NOFD then Some (w\<lparr>calls := c1\<rparr>, - 1)
      else if refused os c2 then Some (w\<lparr>calls := Sys_close s # c2\<rparr>, - 1)
      else if ls_reuseport ls \<and> refused os (p @ c2) then Some (w\<lparr>calls := Sys_close s # p @ c2\<rparr>, - 1)
      else if refused os c4 then Some (w\<lparr>calls := c4\<rparr>, - 1)
      else if refused os c5 then Some (w\<lparr>calls := Sys_close s # c5\<rparr>, - 1)
      else if refused os c6 then Some (w\<lparr>calls := Sys_close s # c6\<rparr>, - 1)
      else Some (w\<lparr>calls := c6, listens := (listens w)(lp := ls\<lparr>ls_listen := True, ls_fd := s\<rparr>)\<rparr>, 0))"
    using h by (cases "ls_reuseport ls")
      (simp_all add: open_listening_sockets_def get_ls_def upd_ls_def sys_def sys_ignore_def close_and_fail_def refused_def c1_def s_def p_def c2_def c4_def c5_def c6_def Let_def)
  define a where "a = Sys_socket (sa_family (mem w) (ls_sockaddr ls)) (ls_type ls)"
  note calls = c1_def [folded a_def] c2_def c4_def c5_def c6_def
  note I = open_resultI [OF h(1,2) c1_def [symmetric] s_def [symmetric], of "open_listening_sockets os w"]
  have ns: "Sys_close s \<noteq> a" "Sys_setsockopt s SO_REUSEPORT 1 \<noteq> a" "Sys_close s \<notin> set p" by (simp_all add: a_def p_def)
  consider (no_socket) "s = NOFD" | (reuseaddr) "s \<noteq> NOFD" "refused os c2"
    | (reuseport) "s \<noteq> NOFD" "\<not> refused os c2" "ls_reuseport ls" "refused os (p @ c2)"
    | (ioctl) "s \<noteq> NOFD" "\<not> refused os c2" "\<not> (ls_reuseport ls \<and> refused os (p @ c2))" "refused os c4"
    | (bind) "s \<noteq> NOFD" "\<not> refused os c2" "\<not> (ls_reuseport ls \<and> refused os (p @ c2))" "\<not> refused os c4" "refused os c5"
    | (listen) "s \<noteq> NOFD" "\<not> refused os c2" "\<not> (ls_reuseport ls \<and> refused os (p @ c2))" "\<not> refused os c4" "\<not> refused os c5" "refused os c6"
    | (fine) "s \<noteq> NOFD" "\<not> refused os c2" "\<not> (ls_reuseport ls \<and> refused os (p @ c2))" "\<not> refused os c4" "\<not> refused os c5" "\<not> refused os c6"
    by blast
  then show ?thesis
  proof cases
    case no_socket
    then show ?thesis by (intro I(2) [of "[a]" No_socket]) (simp_all add: eq calls)
  next
    case reuseaddr
    then show ?thesis using ns by (intro I(2) [of "[Sys_close s, Sys_setsockopt s SO_REUSEADDR 1, a]" Closed_again]) (simp_all add: eq calls)
  next
    case reuseport
    then show ?thesis using ns by (intro I(2) [of "Sys_close s # p @ [Sys_setsockopt s SO_REUSEADDR 1, a]" Closed_again]) (simp_all add: eq calls)
  next
    case ioctl
    then show ?thesis using ns by (intro I(2) [of "Sys_ioctl_nonblocking s # p @ [Sys_setsockopt s SO_REUSEADDR 1, a]" Left_open]) (auto simp: eq calls)
  next
    case bind
    then show ?thesis using ns
      by (intro I(2) [of "Sys_close s # Sys_bind s (ls_sockaddr ls) (ls_socklen ls) # Sys_ioctl_nonblocking s # p @ [Sys_setsockopt s SO_REUSEADDR 1, a]" Closed_again])
        (auto simp: eq calls)
  next
    case listen
    then show ?thesis using ns
      by (intro I(2) [of "Sys_close s # Sys_listen s (ls_backlog ls) # Sys_bind s (ls_sockaddr ls) (ls_socklen ls) # Sys_ioctl_nonblocking s # p @ [Sys_setsockopt s SO_REUSEADDR 1, a]" Closed_again])
        (auto simp: eq calls)
  next
    case fine
    have c1: "\<not> refused os c1" using fine(1) by (auto simp: s_def)
    have "opened os s ls (ls\<lparr>ls_listen := True, ls_fd := s\<rparr>)
        (Sys_listen s (ls_backlog ls) # Sys_bind s (ls_sockaddr ls) (ls_socklen ls) # Sys_ioctl_nonblocking s # p @ [Sys_setsockopt s SO_REUSEADDR 1, a]) (calls w)"
      using fine c1 ns by (cases "ls_reuseport ls") (simp_all add: opened_def calls p_def All_less_Suc)
    then show ?thesis using fine by (intro I(1)) (auto simp: eq calls)
  qed
qed

text \<open>A kernel that refuses \<open>ioctl\<close>: the new socket 9 stays open.\<close>

definition os_no_ioctl :: os where
  "os_no_ioctl cs = (if cs \<noteq> [] \<and> hd cs = Sys_ioctl_nonblocking 9 then (os_yes cs)\<lparr>ans_ret := - 1\<rparr> else os_yes cs)"

definition server_new :: server where
  "server_new = server2\<lparr>listens := (\<lambda>_. listening_zero\<lparr>ls_fd := NOFD\<rparr>)\<rparr>"

theorem open_listening_correct_witness:
  "open_result os_no_ioctl server_new (open_listening_sockets os_no_ioctl server_new)
    \<and> (\<exists>a. open_listening_sockets os_no_ioctl server_new
        = Some (server_new\<lparr>calls := [Sys_ioctl_nonblocking 9, Sys_setsockopt 9 SO_REUSEADDR 1, a] @ calls server_new\<rparr>, - 1))"
proof -
  have l: "cycle_listening server_new = 500" "listens server_new = (\<lambda>_. listening_zero\<lparr>ls_fd := NOFD\<rparr>)"
    by (simp_all add: server_new_def) (simp add: server2_def)
  have "open_result os_no_ioctl server_new (open_listening_sockets os_no_ioctl server_new)"
    by (rule open_listening_correct) (simp_all add: l listening_zero_def)
  then show ?thesis
    by (simp add: open_listening_sockets_def l get_ls_def sys_def listening_zero_def os_no_ioctl_def os_yes_def NOFD_def) (rule exI, rule refl)
qed

end
