(* ===== verification/Process.thy ===== *)
theory Process
  imports Handlers
begin

text \<open>
  The rest of \<^verbatim>\<open>src/main.c\<close>: the daemon, the pid file, the signal masks and the worker processes. In the program as it stands \<open>main\<close> calls only \<open>create_pidfile\<close>
  of these, the other calls are commented out. The kernel is again a function of the calls so far; \<open>fork\<close> returns 0 in the child.
\<close>

section \<open>State and kernel\<close>

datatype signal = SIGCHLD | SIGALRM | SIGIO | SIGINT | SIGHUP | SIGUSR1 | SIGWINCH | SIGTERM | SIGQUIT | SIGUSR2
datatype mask_how = SIG_BLOCK | SIG_SETMASK

datatype pcall =
    P_fork
  | P_getpid
  | P_setsid
  | P_umask nat
  | P_open string nat nat \<comment> \<open>path, flags, mode\<close>
  | P_write int string nat
  | P_close int
  | P_sigprocmask mask_how "signal set"

type_synonym pos = "pcall list \<Rightarrow> int"

text \<open>\<open>struct process\<close>; \<open>data\<close> is written with the address of a local variable and read by nothing, \<open>proc\<close> and \<open>status\<close> are not used.\<close>

record worker =
  wk_pid :: int
  wk_channel0 :: int
  wk_channel1 :: int

record procs =
  pr_pid :: int
  pr_ppid :: int
  pr_workers :: "nat \<Rightarrow> worker"
  pr_last :: nat
  pr_calls :: "pcall list"

definition MAX_WORKERS :: nat where "MAX_WORKERS = 1024"
definition STDERR_FILENO :: int where "STDERR_FILENO = 2"
definition O_RDWR :: nat where "O_RDWR = 2"
definition O_CREAT :: nat where "O_CREAT = 64"
definition O_TRUNC :: nat where "O_TRUNC = 512"

definition psys :: "pos \<Rightarrow> pcall \<Rightarrow> procs \<Rightarrow> procs \<times> int" where
  "psys os c p = (p\<lparr>pr_calls := c # pr_calls p\<rparr>, os (c # pr_calls p))"

definition psys_ignore :: "pos \<Rightarrow> pcall \<Rightarrow> procs \<Rightarrow> procs" where
  "psys_ignore os c p = fst (psys os c p)"

definition get_worker :: "procs \<Rightarrow> nat \<Rightarrow> worker option" where
  "get_worker p i = (if i < MAX_WORKERS then Some (pr_workers p i) else None)"

definition set_worker :: "procs \<Rightarrow> nat \<Rightarrow> (worker \<Rightarrow> worker) \<Rightarrow> procs option" where
  "set_worker p i f = (if i < MAX_WORKERS then Some (p\<lparr>pr_workers := (pr_workers p)(i := f (pr_workers p i))\<rparr>) else None)"

section \<open>The daemon and the pid file\<close>

text \<open>\<open>None\<close> as result: this process ended with \<open>exit(0)\<close>.\<close>

definition daemon_internal :: "pos \<Rightarrow> procs \<Rightarrow> procs \<times> int option" where
  "daemon_internal os p =
    (let (p, r) = psys os P_fork p in
     if r = - 1 then (p, Some (- 1))
     else if r \<noteq> 0 then (psys_ignore os P_getpid p, None)
     else let p = p\<lparr>pr_ppid := pr_pid p\<rparr>;
              (p, me) = psys os P_getpid p;
              p = p\<lparr>pr_pid := me\<rparr>;
              (p, r) = psys os P_setsid p
          in if r = - 1 then (p, Some (- 1))
          else let p = psys_ignore os (P_umask 0) p;
                   (p, fd) = psys os (P_open ''/dev/null'' O_RDWR 0) p
               in if fd = - 1 then (p, Some (- 1))
               else if fd > STDERR_FILENO then
                 let (p, r) = psys os (P_close fd) p in if r = - 1 then (p, Some (- 1)) else (p, Some 0)
               else (p, Some 0))"

text \<open>\<open>%d\<close>.\<close>

fun digits :: "nat \<Rightarrow> string" where
  "digits n = (if n < 10 then [char_of (48 + n)] else digits (n div 10) @ [char_of (48 + n mod 10)])"

definition print_int :: "int \<Rightarrow> string" where
  "print_int i = (if i < 0 then CHR ''-'' # digits (nat (- i)) else digits (nat i))"

text \<open>The flags \<open>O_CREAT | O_TRUNC\<close> are passed where \<open>open\<close> takes the mode. \<open>snprintf\<close> stores at most \<open>INT64_LEN\<close> characters, and returns the length of the whole text.
  The terminating store \<open>pid_info[len + 1]\<close> that follows stays in bounds for a 32-bit process id, and is read by nothing.\<close>

definition INT64_LEN :: nat where "INT64_LEN = 20"

definition create_pidfile :: "pos \<Rightarrow> procs \<Rightarrow> procs \<times> int" where
  "create_pidfile os p =
    (let (p, fd) = psys os (P_open ''./pid'' O_RDWR (O_CREAT + O_TRUNC)) p in
     if fd = - 1 then (p, - 1)
     else let text = print_int (pr_pid p) @ [CHR 0x0A];
              len = length text;
              (p, r) = psys os (P_write fd (take INT64_LEN text) len) p
          in if r = - 1 then (p, - 1)
          else (psys_ignore os (P_close fd) p, 0))"

section \<open>Workers\<close>

definition do_work :: "pos \<Rightarrow> procs \<Rightarrow> procs" where
  "do_work os p = psys_ignore os (P_sigprocmask SIG_BLOCK
     {SIGCHLD, SIGALRM, SIGIO, SIGINT, SIGHUP, SIGUSR1, SIGWINCH, SIGTERM, SIGQUIT, SIGUSR2}) p"

text \<open>The beginning of \<open>proc\<close>, up to \<open>event_process_init\<close>.\<close>

definition close_channel :: "pos \<Rightarrow> nat \<Rightarrow> procs \<Rightarrow> procs" where
  "close_channel os i p = (if wk_pid (pr_workers p i) = - 1 then p else psys_ignore os (P_close (wk_channel1 (pr_workers p i))) p)"

definition proc_enter :: "pos \<Rightarrow> procs \<Rightarrow> procs" where
  "proc_enter os p = fold (close_channel os) [0 ..< pr_last p] (psys_ignore os (P_sigprocmask SIG_SETMASK {}) p)"

text \<open>Where a process is after \<open>spwan_process\<close>: back with a result, or for ever in \<open>proc\<close>.\<close>

datatype 'r fate = Back 'r procs | In_proc procs

text \<open>The search of \<open>spwan_process\<close>: the first worker below \<open>n\<close> without a process, or \<open>n\<close>.\<close>

function free_slot :: "procs \<Rightarrow> nat \<Rightarrow> nat \<Rightarrow> nat option" where
  "free_slot p n s = (if s < n then do { k \<leftarrow> get_worker p s; if wk_pid k = - 1 then Some s else free_slot p n (Suc s) } else Some s)"
  by pat_completeness auto
termination by (relation "measure (\<lambda>(p, n, s). n - s)") auto

declare free_slot.simps [simp del]

text \<open>\<open>pid\<close> and \<open>ppid\<close> are the global variables.\<close>

definition spwan_process :: "pos \<Rightarrow> nat \<Rightarrow> procs \<Rightarrow> int fate option" where
  "spwan_process os n p = do {
     s \<leftarrow> free_slot p n 0;
     if s = MAX_WORKERS then Some (Back (- 1) p)
     else do {
       let (p, r) = psys os P_fork p;
       let p = p\<lparr>pr_pid := r\<rparr>;
       if r = - 1 then do {
         k \<leftarrow> get_worker p n;
         let p = psys_ignore os (P_close (wk_channel0 k)) p;
         let p = psys_ignore os (P_close (wk_channel1 k)) p;
         Some (Back (- 1) p) }
       else if r = 0 then do {
         let p = p\<lparr>pr_ppid := pr_pid p\<rparr>;
         let (p, me) = psys os P_getpid p;
         let p = p\<lparr>pr_pid := me\<rparr>;
         Some (In_proc (proc_enter os p)) }
       else do {
         p \<leftarrow> set_worker p n (\<lambda>k. k\<lparr>wk_pid := pr_pid p\<rparr>);
         let p = (if s = pr_last p then p\<lparr>pr_last := pr_last p + 1\<rparr> else p);
         Some (Back (pr_pid p) p) } } }"

text \<open>\<open>start_worker\<close>; its result is a local variable that it never sets.\<close>

primrec clear_workers :: "nat \<Rightarrow> procs \<Rightarrow> procs option" where
  "clear_workers 0 p = Some p"
| "clear_workers (Suc n) p = do { p \<leftarrow> clear_workers n p; set_worker p n (\<lambda>k. k\<lparr>wk_pid := - 1\<rparr>) }"

primrec spawn_loop :: "pos \<Rightarrow> nat \<Rightarrow> nat \<Rightarrow> procs \<Rightarrow> unit fate option" where
  "spawn_loop os 0 i p = Some (Back () p)"
| "spawn_loop os (Suc k) i p = do {
     r \<leftarrow> spwan_process os i p;
     (case r of Back _ p \<Rightarrow> spawn_loop os k (Suc i) p | In_proc p \<Rightarrow> Some (In_proc p)) }"

definition start_worker :: "pos \<Rightarrow> nat \<Rightarrow> procs \<Rightarrow> unit fate option" where
  "start_worker os n p = do { p \<leftarrow> clear_workers n p; spawn_loop os n 0 p }"

section \<open>The whole of \<open>main\<close>\<close>

text \<open>The process ends with 1 when there is no pid file.\<close>

definition main_c :: "pos \<Rightarrow> os \<Rightarrow> libc \<Rightarrow> addr \<Rightarrow> addr \<Rightarrow> nat \<Rightarrow> procs \<Rightarrow> 'a server_scheme \<Rightarrow> ('a server_scheme \<times> outcome) option" where
  "main_c pos os libc sockaddr shm_var n p w =
    (let (p, r) = create_pidfile pos p in if r \<noteq> 0 then Some (w, Returns 1) else main_prog os libc sockaddr shm_var n w)"

section \<open>Starting workers\<close>

text \<open>The answers to \<open>fork\<close>, in the order of the calls.\<close>

fun fork_results :: "pos \<Rightarrow> pcall list \<Rightarrow> int list" where
  "fork_results os [] = []"
| "fork_results os (P_fork # cs) = fork_results os cs @ [os (P_fork # cs)]"
| "fork_results os (c # cs) = fork_results os cs"

text \<open>What \<open>last_process\<close> counts: all workers, unless a \<open>fork\<close> failed; then it stops one above the first failure.\<close>

definition counted :: "int list \<Rightarrow> nat" where
  "counted rs = (let k = length (takeWhile (\<lambda>r. r \<noteq> - 1) rs) in if set (drop k rs) \<subseteq> {- 1} then k else Suc k)"

lemma clear_workers_ok:
  "n \<le> MAX_WORKERS \<Longrightarrow> \<exists>p'. clear_workers n p = Some p' \<and> (\<forall>i < n. wk_pid (pr_workers p' i) = - 1) \<and> pr_last p' = pr_last p \<and> pr_calls p' = pr_calls p"
proof (induction n)
  case (Suc n)
  then obtain p' where "clear_workers n p = Some p'" "\<forall>i < n. wk_pid (pr_workers p' i) = - 1" "pr_last p' = pr_last p" "pr_calls p' = pr_calls p" by auto
  then show ?case using Suc.prems by (simp add: set_worker_def less_Suc_eq)
qed simp

lemma free_slot_ok:
  "s \<le> n \<Longrightarrow> n \<le> MAX_WORKERS \<Longrightarrow> n = length rs \<Longrightarrow> \<forall>i < n. wk_pid (pr_workers p i) = rs ! i \<Longrightarrow>
    free_slot p n s = Some (s + length (takeWhile (\<lambda>r. r \<noteq> - 1) (drop s rs)))"
proof (induction p n s rule: free_slot.induct)
  case (1 p n s)
  show ?case
  proof (cases "s < n")
    case True
    then have "drop s rs = rs ! s # drop (Suc s) rs" using 1(4) by (simp add: Cons_nth_drop_Suc)
    moreover have "get_worker p s = Some (pr_workers p s)" using True 1(3) by (simp add: get_worker_def)
    ultimately show ?thesis using 1 True by (subst free_slot.simps) auto
  next
    case False
    then show ?thesis using 1(2,4) by (subst free_slot.simps) simp
  qed
qed

lemma counted_snoc:
  "counted (rs @ [r]) = (if r \<noteq> - 1 \<and> length (takeWhile (\<lambda>r. r \<noteq> - 1) rs) = counted rs then Suc (counted rs) else counted rs)"
proof (cases "- 1 \<in> set rs")
  case True
  let ?k = "length (takeWhile (\<lambda>r. r \<noteq> - 1) rs)"
  have "takeWhile (\<lambda>r. r \<noteq> - 1) (rs @ [r]) = takeWhile (\<lambda>r. r \<noteq> - 1) rs" using True by (intro takeWhile_append1) auto
  moreover have "drop ?k (rs @ [r]) = drop ?k rs @ [r]" using length_takeWhile_le [of "\<lambda>r. r \<noteq> - 1" rs] by simp
  ultimately show ?thesis by (simp add: counted_def Let_def)
next
  case False
  then have t: "takeWhile (\<lambda>r. r \<noteq> - 1) rs = rs" by (auto simp: takeWhile_eq_all_conv)
  have "takeWhile (\<lambda>r. r \<noteq> - 1) (rs @ [r]) = rs @ takeWhile (\<lambda>r. r \<noteq> - 1) [r]" using False by (intro takeWhile_append2) auto
  with t show ?thesis by (simp only: counted_def Let_def) simp
qed

lemma spwan_ok:
  assumes os: "\<forall>cs. os (P_fork # cs) \<noteq> 0" and i: "i = length rs" "i < MAX_WORKERS" and w: "\<forall>j < i. wk_pid (pr_workers p j) = rs ! j" "wk_pid (pr_workers p i) = - 1"
    and l: "pr_last p = counted rs"
  shows "\<exists>p' x r. spwan_process os i p = Some (Back x p') \<and> fork_results os (pr_calls p') = fork_results os (pr_calls p) @ [r]
    \<and> (\<forall>j \<le> i. wk_pid (pr_workers p' j) = (rs @ [r]) ! j) \<and> (\<forall>j > i. pr_workers p' j = pr_workers p j) \<and> pr_last p' = counted (rs @ [r])"
proof -
  let ?k = "length (takeWhile (\<lambda>r. r \<noteq> - 1) rs)"
  define r where "r = os (P_fork # pr_calls p)"
  have fs: "free_slot p i 0 = Some ?k" using free_slot_ok [of 0 i rs p] i w by simp
  have k: "?k \<noteq> MAX_WORKERS" using length_takeWhile_le [of _ rs] i by (metis leD)
  have z: "r \<noteq> 0" using os by (simp add: r_def)
  show ?thesis
  proof (cases "r = - 1")
    case True
    then have "\<exists>p'. spwan_process os i p = Some (Back (- 1) p') \<and> pr_workers p' = pr_workers p \<and> pr_last p' = pr_last p
      \<and> fork_results os (pr_calls p') = fork_results os (pr_calls p) @ [r]"
      using fs k i(2) by (simp add: spwan_process_def psys_def psys_ignore_def get_worker_def r_def [symmetric])
    then show ?thesis using w l i(1) True by (auto simp: counted_snoc nth_append le_less)
  next
    case False
    then have "\<exists>p'. spwan_process os i p = Some (Back r p') \<and> pr_workers p' = (pr_workers p)(i := (pr_workers p i)\<lparr>wk_pid := r\<rparr>)
      \<and> pr_last p' = (if ?k = pr_last p then Suc (pr_last p) else pr_last p) \<and> fork_results os (pr_calls p') = fork_results os (pr_calls p) @ [r]"
      using fs k i(2) z by (simp add: spwan_process_def psys_def set_worker_def r_def [symmetric])
    then show ?thesis using w l i(1) False by (auto simp: counted_snoc nth_append le_less)
  qed
qed

lemma spawn_loop_ok:
  assumes os: "\<forall>cs. os (P_fork # cs) \<noteq> 0"
  shows "i = length rs \<Longrightarrow> i + k \<le> MAX_WORKERS \<Longrightarrow> \<forall>j < i. wk_pid (pr_workers p j) = rs ! j \<Longrightarrow> \<forall>j. i \<le> j \<longrightarrow> j < i + k \<longrightarrow> wk_pid (pr_workers p j) = - 1 \<Longrightarrow>
    pr_last p = counted rs \<Longrightarrow> \<exists>p' rs'. spawn_loop os k i p = Some (Back () p') \<and> length rs' = k \<and> fork_results os (pr_calls p') = fork_results os (pr_calls p) @ rs'
    \<and> (\<forall>j < i + k. wk_pid (pr_workers p' j) = (rs @ rs') ! j) \<and> pr_last p' = counted (rs @ rs')"
proof (induction k arbitrary: i rs p)
  case (Suc k)
  have "wk_pid (pr_workers p i) = - 1" using Suc.prems(4) by simp
  from spwan_ok [OF os Suc.prems(1) _ Suc.prems(3) this Suc.prems(5)] Suc.prems(2) obtain p1 x r where p1: "spwan_process os i p = Some (Back x p1)"
    "fork_results os (pr_calls p1) = fork_results os (pr_calls p) @ [r]" "\<forall>j \<le> i. wk_pid (pr_workers p1 j) = (rs @ [r]) ! j"
    "\<forall>j > i. pr_workers p1 j = pr_workers p j" "pr_last p1 = counted (rs @ [r])" by auto
  have "\<exists>p' rs'. spawn_loop os k (Suc i) p1 = Some (Back () p') \<and> length rs' = k \<and> fork_results os (pr_calls p') = fork_results os (pr_calls p1) @ rs'
    \<and> (\<forall>j < Suc i + k. wk_pid (pr_workers p' j) = ((rs @ [r]) @ rs') ! j) \<and> pr_last p' = counted ((rs @ [r]) @ rs')"
    using p1(3,4,5) Suc.prems by (intro Suc.IH) auto
  then obtain p' rs' where "spawn_loop os k (Suc i) p1 = Some (Back () p')" "length rs' = k" "fork_results os (pr_calls p') = fork_results os (pr_calls p1) @ rs'"
    "\<forall>j < Suc i + k. wk_pid (pr_workers p' j) = ((rs @ [r]) @ rs') ! j" "pr_last p' = counted ((rs @ [r]) @ rs')" by blast
  then show ?case using p1(1,2) by (intro exI [of _ p'] exI [of _ "r # rs'"]) simp
qed (use assms in auto)

text \<open>C38: Starting workers. In the parent, \<open>start_worker\<close> records for every worker the answer of its \<open>fork\<close>, -1 where it failed. \<open>last_process\<close>, which bounds the
  loop over the workers in \<open>proc\<close>, is their number if no \<open>fork\<close> failed; otherwise it stays at the first failure or one above it, however many workers were started after it.\<close>
theorem start_worker_correct:
  assumes "\<forall>cs. os (P_fork # cs) \<noteq> 0" and "n \<le> MAX_WORKERS" and "pr_last p = 0"
  shows "\<exists>p' rs. start_worker os n p = Some (Back () p') \<and> length rs = n \<and> fork_results os (pr_calls p') = fork_results os (pr_calls p) @ rs
    \<and> (\<forall>i < n. wk_pid (pr_workers p' i) = rs ! i) \<and> pr_last p' = counted rs"
proof -
  from clear_workers_ok [OF assms(2)] obtain p1 where p1: "clear_workers n p = Some p1" "\<forall>i < n. wk_pid (pr_workers p1 i) = - 1" "pr_last p1 = pr_last p"
    "pr_calls p1 = pr_calls p" by blast
  have "counted [] = 0" by (simp add: counted_def)
  with spawn_loop_ok [OF assms(1), of 0 "[]" n p1] p1 assms(2,3) show ?thesis by (simp add: start_worker_def)
qed

text \<open>The second of four calls of \<open>fork\<close> fails: three workers run, and \<open>last_process\<close> is 2.\<close>

definition os_fork :: pos where
  "os_fork cs = (let k = length (filter (\<lambda>c. c = P_fork) cs) in if k = 2 then - 1 else 100 + int k)"

definition procs_ex :: procs where
  "procs_ex = \<lparr>pr_pid = 0, pr_ppid = 0, pr_workers = \<lambda>_. \<lparr>wk_pid = 0, wk_channel0 = 0, wk_channel1 = 0\<rparr>, pr_last = 0, pr_calls = []\<rparr>"

theorem start_worker_correct_witness:
  "\<exists>p'. start_worker os_fork 4 procs_ex = Some (Back () p') \<and> fork_results os_fork (pr_calls p') = [101, - 1, 103, 104]
    \<and> map (\<lambda>i. wk_pid (pr_workers p' i)) [0, 1, 2, 3] = [101, - 1, 103, 104] \<and> pr_last p' = 2"
proof -
  have "\<forall>cs. os_fork (P_fork # cs) \<noteq> 0" by (simp add: os_fork_def Let_def)
  from start_worker_correct [OF this, of 4 procs_ex] obtain p' rs where p': "start_worker os_fork 4 procs_ex = Some (Back () p')"
    "fork_results os_fork (pr_calls p') = rs" "\<forall>i < 4. wk_pid (pr_workers p' i) = rs ! i" "pr_last p' = counted rs"
    by (auto simp: procs_ex_def MAX_WORKERS_def)
  have "map_option (\<lambda>r. case r of Back _ p \<Rightarrow> fork_results os_fork (pr_calls p) | In_proc p \<Rightarrow> []) (start_worker os_fork 4 procs_ex) = Some [101, - 1, 103, 104]"
    by (simp add: start_worker_def spwan_process_def free_slot.simps procs_ex_def psys_def psys_ignore_def get_worker_def set_worker_def MAX_WORKERS_def
      os_fork_def eval_nat_numeral Let_def)
  then have "rs = [101, - 1, 103, 104]" using p'(1,2) by simp
  then show ?thesis using p' by (simp add: counted_def)
qed

end
