(* ===== verification/Spec2Isabelle.thy ===== *)
theory Spec2Isabelle
  imports Clists Echo Init Accept_Loop Listening Process
begin

text \<open>
  A verification development for libcn, an event-driven TCP server library in C in the manner of nginx, with the echo
  server that is its main program (\<^verbatim>\<open>src/main.c\<close>).

  \<^bold>\<open>The program.\<close> A master step (\<open>init_cycle\<close>, \<open>create_listening\<close>, \<open>open_listening_sockets\<close>, \<open>event_master_init\<close>) prepares the
  cycle, the listening sockets and a page of counters shared between processes. A worker (\<open>event_process_init\<close>)
  allocates the table of connections with one read and one write event each, and then repeats
  \<open>process_events_and_timers\<close>: take the accept mutex or not, wait in \<open>epoll_wait\<close> no longer than the first timer allows, post or run the
  handlers of the reported events, run the posted accept events, release the mutex, expire timers, run the other posted
  events. The handler of a listening connection is \<open>event_accept\<close>; it takes an entry of the table and calls \<open>callback\<close> of the
  program, which installs the handlers \<open>myread\<close> and \<open>mywrite\<close>. Everything rests on intrusive queues, a red-black tree of
  timers, a cached clock, memory pools and a lock in shared memory.

  \<^bold>\<open>How the code is modelled.\<close>
  \<^item> An address is a natural number, \<open>NULL\<close> is 0. Each field of a C structure is a function from addresses to values, a
    field of a state record; an embedded structure has an offset (\<open>ev_queue ev\<close> is the queue node of the event \<open>ev\<close>). Integers keep their width as
    words where the code computes with them; \<open>size_t\<close> values that are only passed on are \<open>nat\<close>.
  \<^item> A function that reads or writes through a pointer returns an \<open>option\<close>: \<open>None\<close> is the access through \<open>NULL\<close> (in the pools: to
    memory that is not live). Error codes of the code are ordinary results.
  \<^item> Loops follow the recursion of the data where there is one; the others are \<open>partial_function (option)\<close>, so a loop that never ends is \<open>None\<close> too, and each
    theorem below that says \<open>Some\<close> says that the loop returns. There is fuel in one place only: \<open>rounds os libc n\<close> is the first \<open>n\<close> rounds of the endless loop of
    \<open>proc\<close>, for every \<open>n\<close>. The interleavings of the lock (\<^verbatim>\<open>shmtx.c\<close>) are an inductive step relation.
  \<^item> The kernel is a parameter \<open>os\<close>: it answers a system call from the list of all calls so far, so that it may answer equal calls
    differently; the calls are part of the state (\<open>calls\<close>). What epoll watches is computed from the successful calls of that list (\<open>interest\<close>). Nothing else is assumed of
    the kernel, unless a theorem says so.
  \<^item> The C library allocator is a parameter \<open>libc\<close> with the documented contract \<open>libc_ok\<close>: it returns \<open>NULL\<close>, or an aligned address whose
    bytes overlap no live block and do not wrap around. Where a function reports that there is no memory, the theorems say which request was
    turned down: \<open>refused libc s qs\<close> (the requests \<open>qs\<close>, alignment and size, made in the state \<open>s\<close>, are granted but for the last), \<open>denied\<close> and
    \<open>denied_either\<close> (the requests that one allocation, or two in a row, from a pool can make).
  \<^item> Function pointers are numbers, called through a parameter (\<open>call\<close>), which is instantiated by the handlers of the program in \<open>Handlers\<close>.
  \<^item> The layout of structures is that of LP64 (\<open>sizeof_pool\<close> is 56, and so on).

  \<^bold>\<open>The theories\<close>, from the bottom.
  \<^item> \<open>Prelude\<close>: addresses, field heaps with their rewriting rules, lists.
  \<^item> \<open>Queue\<close> (\<^verbatim>\<open>queue.h\<close>, \<^verbatim>\<open>queue.c\<close>): \<open>queue_list\<close> says that the links of a heap hold a given list in both directions. Each
    macro is the list operation of its name; \<open>queue_sort\<close> is the stable sort; \<open>queue_middle\<close> ends on every queue.
  \<^item> \<open>Rbtree\<close> (\<^verbatim>\<open>rbtree.h\<close>, \<^verbatim>\<open>rbtree.c\<close>); \<open>Rbtree_Shape\<close> abstracts the links to a functional tree with zippers, \<open>Rbtree_Insert\<close> and \<open>Rbtree_Delete\<close>
    simulate the two repair loops on it, \<open>Rbtree_Order\<close> states the result for the users: \<open>rbtree_holds s xs\<close> (the tree is well formed, red-black, and in-order it
    is the list \<open>xs\<close>) and insertion, deletion, minimum, successor as operations on \<open>xs\<close>. The locale \<open>descent\<close> shares the two insertion
    functions, \<open>key_order\<close> the plain and the wrapping order of keys.
  \<^item> \<open>Times\<close> (\<^verbatim>\<open>times.c\<close>): the slots of the clock and the calendar, against an independent count of days.
  \<^item> \<open>Event\<close>, \<open>Event_Timer\<close>, \<open>Posted\<close> (\<^verbatim>\<open>event.h\<close>, \<^verbatim>\<open>event_timer.c\<close>, \<^verbatim>\<open>event_posted.c\<close>): the event record, the timers (sorted by the time that is left, with
    wrap-around of the millisecond clock, \<open>timers\<close>) and the posted queues (\<open>posted\<close>): order, exactly-once and termination.
  \<^item> \<open>Palloc\<close>, \<open>Pool\<close> (\<^verbatim>\<open>palloc.c\<close>, \<^verbatim>\<open>alloc.c\<close>): pools with their blocks and large allocations; \<open>pool_ok\<close> is their invariant, and the locale
    \<open>piece_allocator\<close> gives from the contract of one request that the pieces of any sequence are disjoint. \<open>Arrays\<close>, \<open>Clists\<close>, \<open>Buf\<close> (\<^verbatim>\<open>array.c\<close>,
    \<^verbatim>\<open>list.c\<close>, \<^verbatim>\<open>buf.c\<close>) are the containers in a pool.
  \<^item> \<open>Shmtx\<close> (\<^verbatim>\<open>shmtx.c\<close>, \<^verbatim>\<open>spinlock.c\<close>): the lock word under all interleavings (locale \<open>lock_protocol\<close>): exclusion and progress.
  \<^item> \<open>Server\<close>: the record \<open>server\<close> of everything the rest shares (it extends the records of the clock, the events and the pools are its field \<open>mem\<close>), the system calls and
    their answers. \<open>Epoll\<close> (\<^verbatim>\<open>epoll_event.c\<close>), \<open>Connection\<close> (\<^verbatim>\<open>connection.c\<close>), \<open>Accept\<close> (\<^verbatim>\<open>event_accept.c\<close>), \<open>Loop\<close> (\<^verbatim>\<open>event.c\<close>),
    \<open>Handlers\<close> (\<^verbatim>\<open>cycle.c\<close>, \<^verbatim>\<open>main.c\<close>) hold the definitions.
  \<^item> \<open>Conn_Store\<close>: \<open>server_ok\<close>, the invariant of the connection table: the free list, the ring of reusable connections, distinct descriptors and the table \<open>files\<close>,
    events that point back to their connection, timers and posted events only of connections in use. \<open>Registered\<close>: what the kernel watches is what the \<open>active\<close> flags say, with
    the address and the instance bit of the connection as data. \<open>Server_Inv\<close>: \<open>server_inv\<close> joins the two and holds in every state that any sequence of operations reaches. \<open>Dispatch\<close>:
    recycling a connection makes old reports stale; one round of \<open>epoll_process_events\<close> posts exactly the current ones.
  \<^item> \<open>Accept_Props\<close>: the accept mutex, \<open>posix_recv\<close> and \<open>posix_send\<close>. \<open>Drain\<close>: reuse of connections, with the locale \<open>closing_reads\<close> for a read handler that closes
    marked connections, interpreted on the program's handlers. \<open>Accepted\<close> and \<open>Accept_Loop\<close>: the way of a new
    connection, every error exit included, and the whole of \<open>event_accept\<close>: descriptors are not lost. \<open>Listening\<close>: the exits of \<open>open_listening_sockets\<close>. \<open>Echo\<close>: what the handlers do to
    the buffer. \<open>Init\<close>: a worker's initialisation establishes \<open>server_inv\<close>. \<open>Process\<close>: the
    daemon, the pid file and the worker processes of \<^verbatim>\<open>main.c\<close>, which the program calls only in part, and \<open>main_c\<close>, the whole of \<open>main\<close>.

  \<^bold>\<open>Assumptions to know.\<close> Memory that \<open>malloc\<close> returns keeps whatever the state holds there; the initialisation theorem asks that no timer, posted or active flag is
  set in it, since the code zeroes the events only when their connection is taken. Handlers that the theorems on timers and posted events leave open have a stated contract. The lock word is
  sequentially consistent, as the builtins of the compiler make it.

  \<^bold>\<open>Not modelled.\<close> \<open>printf\<close>; \<open>stime_sigsafe_update\<close>, which is declared without a body; the udp and rbtree fields of listening sockets, the fields of buffers and workers
  that nothing reads; the umbrella header \<^verbatim>\<open>core.h\<close>, whose macros are modelled where they are used. A write behind the end of an object (as \<open>myread\<close> makes, \<open>Echo\<close>) changes the bytes
  there, and not the fields of an object that happens to lie there: the heaps of the fields are apart.
\<close>

end
